(* ===== verification/Prelude.thy ===== *)
theory Prelude
  imports Complex_Main "HOL-Library.List_Lexorder" "HOL-Library.Char_ord"
begin

text \<open>
  Shared vocabulary of the development: instants and durations, the error values the
  source raises, JSON payloads, the pieces of a formatted text, the Python list and
  string operations the source uses, and the locale of deterministic machines whose
  run lemmas the components share.

  Instants are \<open>int\<close> microseconds since the epoch in UTC, the resolution of Python's
  \<^verbatim>\<open>datetime\<close>. The source normalises naive datetimes to UTC before it compares them
  (\<^verbatim>\<open>_aware\<close>), so the two spellings of an instant are one value here. A Python \<open>float\<close>
  is a \<open>real\<close>: rounding, NaN and infinities are not modelled, except where the source
  names infinity itself.
\<close>

named_theorems py_defs "definitions of the Python operations the source uses"

section \<open>Instants and durations\<close>

type_synonym time = int

definition total_seconds :: "int \<Rightarrow> real" where
  "total_seconds d = of_int d / 1000000"

definition seconds :: "int \<Rightarrow> int" where
  "seconds s = s * 1000000"

lemma total_seconds_0 [simp]: "total_seconds 0 = 0"
  by (simp add: total_seconds_def)

lemma total_seconds_seconds [simp]: "total_seconds (seconds s) = of_int s"
  by (simp add: total_seconds_def seconds_def)

lemma total_seconds_mono: "a \<le> b \<Longrightarrow> total_seconds a \<le> total_seconds b"
  by (simp add: total_seconds_def divide_right_mono)

lemma total_seconds_le_iff [simp]: "total_seconds a \<le> total_seconds b \<longleftrightarrow> a \<le> b"
  by (simp add: total_seconds_def)

lemma total_seconds_less_iff [simp]: "total_seconds a < total_seconds b \<longleftrightarrow> a < b"
  by (simp add: total_seconds_def)

lemma total_seconds_nonneg [simp]: "0 \<le> total_seconds a \<longleftrightarrow> 0 \<le> a"
  by (simp add: total_seconds_def)

lemma total_seconds_pos [simp]: "0 < total_seconds a \<longleftrightarrow> 0 < a"
  by (simp add: total_seconds_def zero_less_divide_iff)

lemma total_seconds_eq_iff [simp]: "total_seconds a = total_seconds b \<longleftrightarrow> a = b"
  by (simp add: total_seconds_def)

lemma total_seconds_add: "total_seconds (a + b) = total_seconds a + total_seconds b"
  by (simp add: total_seconds_def add_divide_distrib)

lemma total_seconds_diff: "total_seconds (a - b) = total_seconds a - total_seconds b"
  by (simp add: total_seconds_def diff_divide_distrib)

section \<open>Errors, payloads and texts\<close>

datatype py_error =
    ValueError
  | TypeError
  | KeyError
  | IndexError
  | LookupError
  | ValidationError
  | RuntimeError

text \<open>
  A JSON value as it reaches the code (a zone's rules, an event's detail). \<open>JTime\<close> is the
  ISO-8601 text of an instant, kept as the instant.
\<close>

datatype json =
    JNull
  | JBool bool
  | JInt int
  | JReal real
  | JStr string
  | JTime time
  | JArr "json list"
  | JObj "(string \<times> json) list"

type_synonym dict = "(string \<times> json) list"

text \<open>
  A summary line is an f-string. It is kept as its pieces, with the numbers unrendered:
  \<open>FmtG\<close> is \<^verbatim>\<open>{x:g}\<close>, \<open>FmtF n\<close> is \<^verbatim>\<open>{x:.nf}\<close> and \<open>FmtInt\<close> an integer.
\<close>

datatype piece = Txt string | FmtG real | FmtF nat real | FmtInt int | FmtTime time

type_synonym text_pieces = "piece list"

text \<open>\<^verbatim>\<open>round(x)\<close> and \<^verbatim>\<open>{x:.0f}\<close> round half to even.\<close>

definition round_half_even :: "real \<Rightarrow> int" where
  "round_half_even x =
     (let f = \<lfloor>x\<rfloor>; r = x - of_int f
      in if r < 1 / 2 then f else if r > 1 / 2 then f + 1 else if even f then f else f + 1)"

text \<open>\<^verbatim>\<open>{**d, k: v}\<close> and \<^verbatim>\<open>d.pop(k, None)\<close> on a payload.\<close>

fun dict_put :: "'k \<Rightarrow> 'v \<Rightarrow> ('k \<times> 'v) list \<Rightarrow> ('k \<times> 'v) list" where
  "dict_put k v [] = [(k, v)]"
| "dict_put k v ((k', v') # d) = (if k' = k then (k, v) # d else (k', v') # dict_put k v d)"

definition dict_pop :: "'k \<Rightarrow> ('k \<times> 'v) list \<Rightarrow> ('k \<times> 'v) list" where
  "dict_pop k d = filter (\<lambda>(k', _). k' \<noteq> k) d"

lemma map_of_dict_put [simp]: "map_of (dict_put k v d) = (map_of d)(k \<mapsto> v)"
  by (induction d) (auto simp: fun_eq_iff)

lemma map_of_dict_pop [simp]: "map_of (dict_pop k d) = (map_of d)(k := None)"
  by (induction d) (auto simp: fun_eq_iff dict_pop_def)

lemma keys_dict_put: "fst ` set (dict_put k v d) = insert k (fst ` set d)"
  by (induction k v d rule: dict_put.induct) (simp_all add: insert_commute)

lemma distinct_keys_dict_put [simp]: "distinct (map fst d) \<Longrightarrow> distinct (map fst (dict_put k v d))"
proof (induction d)
  case (Cons kv d)
  then show ?case using keys_dict_put [of k v d] by (cases kv) auto
qed simp

lemma distinct_keys_dict_pop [simp]: "distinct (map fst d) \<Longrightarrow> distinct (map fst (dict_pop k d))"
  by (induction d) (auto simp: dict_pop_def)

section \<open>Lists and strings as Python reads them\<close>

text \<open>\<^verbatim>\<open>next((x for x in xs if p(x)), None)\<close> is \<open>List.find\<close>.\<close>

lemma find_Some_mem: "List.find P xs = Some x \<Longrightarrow> x \<in> set xs \<and> P x"
  by (induction xs) (auto split: if_splits)

lemma find_None_iff_all: "List.find P xs = None \<longleftrightarrow> (\<forall>x \<in> set xs. \<not> P x)"
  by (induction xs) auto

text \<open>
  \<^verbatim>\<open>ORDER BY key DESC LIMIT 1\<close>, and \<^verbatim>\<open>max(xs, key=...)\<close>: the first of the greatest.
\<close>

fun max_by :: "('a \<Rightarrow> 'k::linorder) \<Rightarrow> 'a list \<Rightarrow> 'a option" where
  "max_by f [] = None"
| "max_by f (x # xs) =
     (case max_by f xs of None \<Rightarrow> Some x | Some y \<Rightarrow> Some (if f y > f x then y else x))"

lemma max_by_None_iff [simp]: "max_by f xs = None \<longleftrightarrow> xs = []"
  by (cases xs) (auto split: option.splits)

lemma max_by_Some:
  "max_by f xs = Some m \<Longrightarrow> m \<in> set xs \<and> (\<forall>x \<in> set xs. f x \<le> f m)"
  by (induction xs arbitrary: m) (force split: option.splits if_splits)+

lemma max_by_snoc:
  "max_by f (xs @ [x]) =
     (case max_by f xs of None \<Rightarrow> Some x | Some m \<Rightarrow> Some (if f x > f m then x else m))"
  by (induction xs) (auto split: option.splits)

lemma max_by_map: "(\<And>x. g (f x) = g x) \<Longrightarrow> max_by g (map f xs) = map_option f (max_by g xs)"
  by (induction xs) (auto split: option.splits)

lemma filter_map_irrelevant:
  "(\<And>x. x \<in> set xs \<Longrightarrow> f x = x \<or> \<not> P x \<and> \<not> P (f x)) \<Longrightarrow> filter P (map f xs) = filter P xs"
proof (induction xs)
  case (Cons x xs)
  have "filter P (map f xs) = filter P xs" by (rule Cons.IH) (use Cons.prems in simp)
  moreover have "f x = x \<or> \<not> P x \<and> \<not> P (f x)" using Cons.prems [of x] by simp
  ultimately show ?case by auto
qed simp

lemma max_by_cong: "(\<And>x. x \<in> set xs \<Longrightarrow> f x = g x) \<Longrightarrow> max_by f xs = max_by g xs"
proof (induction xs)
  case (Cons x xs)
  then have ih: "max_by f xs = max_by g xs" by simp
  show ?case
  proof (cases "max_by g xs")
    case (Some y)
    then have "y \<in> set xs" by (blast dest: max_by_Some)
    with ih Some Cons.prems show ?thesis by simp
  qed (use ih in simp)
qed simp

text \<open>The elements of a list in the order of their first occurrence.\<close>

definition nub :: "'a list \<Rightarrow> 'a list" where
  "nub xs = rev (remdups (rev xs))"

lemma set_nub [simp]: "set (nub xs) = set xs"
  by (simp add: nub_def)

lemma distinct_nub [simp]: "distinct (nub xs)"
  by (simp add: nub_def)

lemma set_map_filter_Some: "y \<in> set (List.map_filter f xs) \<longleftrightarrow> (\<exists>x \<in> set xs. f x = Some y)"
  by (induction xs) (auto simp: map_filter_simps split: option.splits)

text \<open>\<^verbatim>\<open>s.split(c)\<close> for a single separator character.\<close>

fun split_on :: "char \<Rightarrow> string \<Rightarrow> string list" where
  "split_on c [] = [[]]"
| "split_on c (x # xs) =
     (if x = c then [] # split_on c xs
      else (case split_on c xs of [] \<Rightarrow> [[x]] | p # ps \<Rightarrow> (x # p) # ps))"

lemma split_on_nonempty [simp]: "split_on c s \<noteq> []"
  by (induction s) (auto split: list.splits)

text \<open>\<^verbatim>\<open>sep.join(parts)\<close> for a single separator character.\<close>

fun join_with :: "char \<Rightarrow> string list \<Rightarrow> string" where
  "join_with c [] = []"
| "join_with c [p] = p"
| "join_with c (p # q # ps) = p @ c # join_with c (q # ps)"

lemma split_on_no_sep: "c \<notin> set s \<Longrightarrow> split_on c s = [s]"
  by (induction s) auto

lemma split_on_append_sep:
  "c \<notin> set p \<Longrightarrow> split_on c (p @ c # s) = p # split_on c s"
  by (induction p) auto

lemma split_on_join:
  "ps \<noteq> [] \<Longrightarrow> (\<And>p. p \<in> set ps \<Longrightarrow> c \<notin> set p) \<Longrightarrow> split_on c (join_with c ps) = ps"
  by (induction ps rule: join_with.induct)
    (auto simp: split_on_no_sep split_on_append_sep)

lemma split_on_no_sep_parts: "p \<in> set (split_on c s) \<Longrightarrow> c \<notin> set p"
proof (induction s arbitrary: p)
  case (Cons x xs)
  then show ?case
    by (cases "split_on c xs") (auto split: if_splits)
qed simp

text \<open>\<^verbatim>\<open>s.strip()\<close> on ASCII whitespace.\<close>

definition is_space :: "char \<Rightarrow> bool" where
  "is_space ch \<longleftrightarrow> ch \<in> {CHR '' '', CHR 0x09, CHR 0x0A, CHR 0x0B, CHR 0x0C, CHR 0x0D}"

definition strip :: "string \<Rightarrow> string" where
  "strip s = rev (dropWhile is_space (rev (dropWhile is_space s)))"

text \<open>The decimal text of a number, \<^verbatim>\<open>f"{n}"\<close>.\<close>

definition digit_char :: "nat \<Rightarrow> char" where
  "digit_char d = char_of (48 + d)"

fun show_nat :: "nat \<Rightarrow> string" where
  "show_nat n = (if n < 10 then [digit_char n] else show_nat (n div 10) @ [digit_char (n mod 10)])"

declare show_nat.simps [simp del]

definition show_int :: "int \<Rightarrow> string" where
  "show_int i = (if i < 0 then CHR ''-'' # show_nat (nat (- i)) else show_nat (nat i))"

definition is_digit :: "char \<Rightarrow> bool" where
  "is_digit ch \<longleftrightarrow> 48 \<le> (of_char ch :: nat) \<and> (of_char ch :: nat) \<le> 57"

definition digit_val :: "char \<Rightarrow> int" where
  "digit_val ch = int (of_char ch) - 48"

definition digits_val :: "string \<Rightarrow> int" where
  "digits_val s = foldl (\<lambda>acc ch. 10 * acc + digit_val ch) 0 s"

lemma show_nat_nonempty [simp]: "show_nat n \<noteq> []"
  by (subst show_nat.simps) simp

lemma show_nat_digits: "ch \<in> set (show_nat n) \<Longrightarrow> is_digit ch"
proof (induction n arbitrary: ch rule: show_nat.induct)
  case (1 n)
  have dig: "is_digit (digit_char d)" if "d < 10" for d
    using that by (simp add: is_digit_def digit_char_def)
  show ?case
    using 1 by (subst (asm) (2) show_nat.simps) (auto simp: dig split: if_splits)
qed

lemma digits_val_append: "digits_val (s @ [ch]) = 10 * digits_val s + digit_val ch"
  by (simp add: digits_val_def)

lemma digits_val_show_nat: "digits_val (show_nat n) = int n"
proof (induction n rule: show_nat.induct)
  case (1 n)
  have dv: "digit_val (digit_char d) = int d" if "d < 10" for d
    using that by (simp add: digit_val_def digit_char_def)
  show ?case
  proof (cases "n < 10")
    case True
    then show ?thesis by (subst show_nat.simps) (simp add: digits_val_def dv)
  next
    case False
    then have "digits_val (show_nat n) = 10 * int (n div 10) + int (n mod 10)"
      using 1 by (subst show_nat.simps) (simp add: digits_val_append dv)
    then show ?thesis by presburger
  qed
qed

section \<open>Results\<close>

text \<open>A Python call that may raise: the exception, or the value to go on with.\<close>

fun and_then :: "'e + 'a \<Rightarrow> ('a \<Rightarrow> 'e + 'b) \<Rightarrow> 'e + 'b" where
  "and_then (Inl e) k = Inl e"
| "and_then (Inr x) k = k x"

lemma and_then_Inr_iff: "and_then r k = Inr y \<longleftrightarrow> (\<exists>x. r = Inr x \<and> k x = Inr y)"
  by (cases r) auto

lemma and_then_Inl_iff: "and_then r k = Inl e \<longleftrightarrow> r = Inl e \<or> (\<exists>x. r = Inr x \<and> k x = Inl e)"
  by (cases r) auto

section \<open>Deterministic machines\<close>

text \<open>
  Several components are a state and a step function fed with a sequence of inputs: the
  debounce engine, the lockout record, the spool, the recompute cursor. What a step keeps,
  a run keeps; what holds of the outputs of each step holds of the outputs of a run.
\<close>

fun run_machine :: "('s \<Rightarrow> 'e \<Rightarrow> 's) \<Rightarrow> 's \<Rightarrow> 'e list \<Rightarrow> 's" where
  "run_machine step s [] = s"
| "run_machine step s (e # es) = run_machine step (step s e) es"

lemma run_machine_append [simp]:
  "run_machine step s (xs @ ys) = run_machine step (run_machine step s xs) ys"
  by (induction xs arbitrary: s) auto

locale machine =
  fixes step :: "'s \<Rightarrow> 'e \<Rightarrow> 's"
    and inv :: "'s \<Rightarrow> bool"
  assumes step_inv: "inv s \<Longrightarrow> inv (step s e)"
begin

lemma run_inv: "inv s \<Longrightarrow> inv (run_machine step s es)"
  by (induction es arbitrary: s) (auto intro: step_inv)

lemma run_prefix_inv: "inv s \<Longrightarrow> inv (run_machine step s (take n es))"
  by (rule run_inv)

end

section \<open>Alarms that fire once per episode\<close>

text \<open>
  Every alarm of the system is latched: it fires only while its latch is off, firing sets the
  latch, and only the end of the episode clears it. \<open>fire\<close> tells whether an input raises the
  alarm, \<open>rearm\<close> whether it ends the episode, \<open>latched\<close> reads the latch, and \<open>upd\<close> is the step.
\<close>

fun fires :: "('s \<Rightarrow> 'e \<Rightarrow> bool) \<Rightarrow> ('s \<Rightarrow> 'e \<Rightarrow> 's) \<Rightarrow> 's \<Rightarrow> 'e list \<Rightarrow> nat" where
  "fires fire upd s [] = 0"
| "fires fire upd s (e # es) = (if fire s e then 1 else 0) + fires fire upd (upd s e) es"

fun never :: "('s \<Rightarrow> 'e \<Rightarrow> bool) \<Rightarrow> ('s \<Rightarrow> 'e \<Rightarrow> 's) \<Rightarrow> 's \<Rightarrow> 'e list \<Rightarrow> bool" where
  "never c upd s [] = True"
| "never c upd s (e # es) = (\<not> c s e \<and> never c upd (upd s e) es)"

locale latch =
  fixes fire :: "'s \<Rightarrow> 'e \<Rightarrow> bool"
    and upd :: "'s \<Rightarrow> 'e \<Rightarrow> 's"
    and latched :: "'s \<Rightarrow> bool"
    and rearm :: "'s \<Rightarrow> 'e \<Rightarrow> bool"
  assumes fire_unlatched: "fire s e \<Longrightarrow> \<not> latched s"
    and fire_latches: "fire s e \<Longrightarrow> \<not> rearm s e \<Longrightarrow> latched (upd s e)"
    and latch_holds: "latched s \<Longrightarrow> \<not> rearm s e \<Longrightarrow> latched (upd s e)"
begin

lemma latched_silent: "latched s \<Longrightarrow> never rearm upd s es \<Longrightarrow> fires fire upd s es = 0"
  by (induction es arbitrary: s) (auto dest: fire_unlatched latch_holds)

lemma at_most_once: "never rearm upd s es \<Longrightarrow> fires fire upd s es \<le> 1"
proof (induction es arbitrary: s)
  case (Cons e es)
  then show ?case
    using latched_silent [OF fire_latches, of s e es] by auto
qed simp

end

section \<open>Hand-overs that lose nothing\<close>

text \<open>
  A store-and-forward queue: what has been given to it is held somewhere in every state its
  steps, crashes included, can reach.
\<close>

locale custody =
  fixes change :: "'s \<Rightarrow> 's \<Rightarrow> bool"
    and inv :: "'s \<Rightarrow> bool"
    and given :: "'s \<Rightarrow> 'e set"
    and held :: "'s \<Rightarrow> 'e \<Rightarrow> bool"
  assumes change_inv: "inv s \<Longrightarrow> change s t \<Longrightarrow> inv t"
    and change_given: "change s t \<Longrightarrow> given s \<subseteq> given t"
    and inv_held: "inv s \<Longrightarrow> e \<in> given s \<Longrightarrow> held s e"
begin

lemma reach: "change\<^sup>*\<^sup>* s t \<Longrightarrow> inv s \<Longrightarrow> inv t \<and> given s \<subseteq> given t"
proof (induction rule: rtranclp_induct)
  case (step y z)
  then show ?case using change_inv [of y z] change_given [of y z] by blast
qed simp

lemma never_lost: "inv s \<Longrightarrow> e \<in> given s \<Longrightarrow> change\<^sup>*\<^sup>* s t \<Longrightarrow> held t e"
  using reach [of s t] inv_held [of t e] by blast

end

end
