(* ===== verification/ZoneGeometry.thy ===== *)
theory ZoneGeometry
  imports Prelude
begin

text \<open>
  \<^verbatim>\<open>src/src/minemonitor/zones/geometry.py\<close>: the ray-casting test, the distance from a point
  to a polygon's boundary, and the box used for seeds. A geometry is the JSON value an
  administrator stored, which nothing validates; the functions raise what Python raises on one
  that is no polygon. \<^verbatim>\<open>math.inf\<close>, the distance to a polygon without edges, is \<open>None\<close>. The second
  half reads a geometry that is a polygon as its outer ring of (longitude, latitude) points.
\<close>

section \<open>Geometries as they are stored\<close>

text \<open>\<^verbatim>\<open>v[i]\<close> for a position \<open>i\<close>, \<^verbatim>\<open>len(v)\<close>, and a value used as a number.\<close>

fun json_item :: "json \<Rightarrow> nat \<Rightarrow> py_error + json" where
  "json_item (JArr xs) i = (if i < length xs then Inr (xs ! i) else Inl IndexError)"
| "json_item (JStr t) i = (if i < length t then Inr (JStr [t ! i]) else Inl IndexError)"
| "json_item (JObj d) i = Inl KeyError"
| "json_item v i = Inl TypeError"

fun json_len :: "json \<Rightarrow> py_error + nat" where
  "json_len (JArr xs) = Inr (length xs)"
| "json_len (JStr t) = Inr (length t)"
| "json_len (JObj d) = Inr (length d)"
| "json_len v = Inl TypeError"

fun json_num :: "json \<Rightarrow> py_error + real" where
  "json_num (JInt n) = Inr (of_int n)"
| "json_num (JReal x) = Inr x"
| "json_num (JBool b) = Inr (if b then 1 else 0)"
| "json_num v = Inl TypeError"

definition outer_ring :: "json \<Rightarrow> py_error + json" where
  "outer_ring geometry =
     (case geometry of
        JObj d \<Rightarrow> (case map_of d ''coordinates'' of None \<Rightarrow> Inl KeyError | Some coords \<Rightarrow> json_item coords 0)
      | _ \<Rightarrow> Inl TypeError)"

text \<open>\<^verbatim>\<open>ring[i][0], ring[i][1]\<close>.\<close>

definition vertex :: "json \<Rightarrow> nat \<Rightarrow> py_error + (json \<times> json)" where
  "vertex ring i =
     and_then (json_item ring i) (\<lambda>p. and_then (json_item p 0) (\<lambda>x. and_then (json_item p 1) (\<lambda>y. Inr (x, y))))"

definition m_per_deg_lat :: real where
  "m_per_deg_lat = 111320"

text \<open>Whether the ray from (lon, lat) eastwards crosses the edge between two vertices.\<close>

definition ray_crosses :: "real \<Rightarrow> real \<Rightarrow> json \<times> json \<Rightarrow> json \<times> json \<Rightarrow> py_error + bool" where
  "ray_crosses lat lon vj vi =
     and_then (json_num (snd vi)) (\<lambda>yi. and_then (json_num (snd vj)) (\<lambda>yj.
     if (yi > lat) \<noteq> (yj > lat)
     then and_then (json_num (fst vj)) (\<lambda>xj. and_then (json_num (fst vi)) (\<lambda>xi.
          Inr (lon < xi + (lat - yi) / (yj - yi) * (xj - xi))))
     else Inr False))"

fun pip_loop :: "real \<Rightarrow> real \<Rightarrow> json \<Rightarrow> nat \<Rightarrow> nat list \<Rightarrow> bool \<Rightarrow> py_error + bool" where
  "pip_loop lat lon ring j [] inside = Inr inside"
| "pip_loop lat lon ring j (i # is) inside =
     and_then (vertex ring i) (\<lambda>vi. and_then (vertex ring j) (\<lambda>vj.
     and_then (ray_crosses lat lon vj vi) (\<lambda>c.
     pip_loop lat lon ring i is (if c then \<not> inside else inside))))"

definition point_in_polygon :: "real \<Rightarrow> real \<Rightarrow> json \<Rightarrow> py_error + bool" where
  "point_in_polygon lat lon geometry =
     and_then (outer_ring geometry) (\<lambda>ring. and_then (json_len ring) (\<lambda>n.
     pip_loop lat lon ring (n - 1) [0..<n] False))"

definition hypot :: "real \<Rightarrow> real \<Rightarrow> real" where
  "hypot x y = sqrt (x * x + y * y)"

definition radians :: "real \<Rightarrow> real" where
  "radians d = d * pi / 180"

definition seg_distance_m ::
  "real \<Rightarrow> real \<Rightarrow> real \<Rightarrow> real \<Rightarrow> real \<Rightarrow> real \<Rightarrow> real \<Rightarrow> real" where
  "seg_distance_m px py ax ay bx by m_per_deg_lon =
     (let pxm = px * m_per_deg_lon; pym = py * m_per_deg_lat;
          axm = ax * m_per_deg_lon; aym = ay * m_per_deg_lat;
          bxm = bx * m_per_deg_lon; bym = by * m_per_deg_lat;
          dx = bxm - axm; dy = bym - aym;
          seg_len_sq = dx * dx + dy * dy
      in if seg_len_sq = 0 then hypot (pxm - axm) (pym - aym)
         else
           let t = max 0 (min 1 (((pxm - axm) * dx + (pym - aym) * dy) / seg_len_sq));
               cx = axm + t * dx; cy = aym + t * dy
           in hypot (pxm - cx) (pym - cy))"

definition min_dist :: "real option \<Rightarrow> real \<Rightarrow> real option" where
  "min_dist best d = (case best of None \<Rightarrow> Some d | Some b \<Rightarrow> Some (min b d))"

text \<open>The distance to the edge from \<^verbatim>\<open>ring[i]\<close> to \<^verbatim>\<open>ring[(i + 1) % n]\<close>.\<close>

definition edge_distance :: "real \<Rightarrow> real \<Rightarrow> json \<Rightarrow> nat \<Rightarrow> nat \<Rightarrow> py_error + real" where
  "edge_distance lat lon ring n i =
     and_then (vertex ring i) (\<lambda>(ax, ay). and_then (vertex ring ((i + 1) mod n)) (\<lambda>(bx, by).
     and_then (json_num ax) (\<lambda>ax. and_then (json_num ay) (\<lambda>ay.
     and_then (json_num bx) (\<lambda>bx. and_then (json_num by) (\<lambda>by.
     Inr (seg_distance_m lon lat ax ay bx by (m_per_deg_lat * cos (radians lat)))))))))"

fun dist_loop :: "real \<Rightarrow> real \<Rightarrow> json \<Rightarrow> nat \<Rightarrow> nat list \<Rightarrow> real option \<Rightarrow> py_error + real option" where
  "dist_loop lat lon ring n [] best = Inr best"
| "dist_loop lat lon ring n (i # is) best =
     and_then (edge_distance lat lon ring n i) (\<lambda>d. dist_loop lat lon ring n is (min_dist best d))"

definition distance_to_polygon_m :: "real \<Rightarrow> real \<Rightarrow> json \<Rightarrow> py_error + real option" where
  "distance_to_polygon_m lat lon geometry =
     and_then (point_in_polygon lat lon geometry) (\<lambda>inside.
     if inside then Inr (Some 0)
     else and_then (outer_ring geometry) (\<lambda>ring. and_then (json_len ring) (\<lambda>n.
          dist_loop lat lon ring n [0..<n] None)))"

text \<open>\<^verbatim>\<open>{"type": "Polygon", "coordinates": [ring]}\<close>.\<close>

definition geojson :: "(real \<times> real) list \<Rightarrow> json" where
  "geojson ring = JObj [(''type'', JStr ''Polygon''),
     (''coordinates'', JArr [JArr (map (\<lambda>(x, y). JArr [JReal x, JReal y]) ring)])]"

definition box_polygon :: "real \<Rightarrow> real \<Rightarrow> real \<Rightarrow> json" where
  "box_polygon center_lat center_lon half_m =
     (let dlat = half_m / m_per_deg_lat;
          dlon = half_m / (m_per_deg_lat * cos (radians center_lat))
      in geojson
            [(center_lon - dlon, center_lat - dlat), (center_lon + dlon, center_lat - dlat),
             (center_lon + dlon, center_lat + dlat), (center_lon - dlon, center_lat + dlat),
             (center_lon - dlon, center_lat - dlat)])"

section \<open>Geometries that are polygons\<close>

type_synonym point = "real \<times> real"
type_synonym ring = "point list"

fun read_num :: "json \<Rightarrow> real option" where
  "read_num (JInt n) = Some (of_int n)"
| "read_num (JReal x) = Some x"
| "read_num (JBool b) = Some (if b then 1 else 0)"
| "read_num v = None"

fun read_point :: "json \<Rightarrow> point option" where
  "read_point (JArr (x # y # _)) = (case (read_num x, read_num y) of (Some x, Some y) \<Rightarrow> Some (x, y) | _ \<Rightarrow> None)"
| "read_point v = None"

definition ring_of :: "json \<Rightarrow> ring option" where
  "ring_of geometry = (case outer_ring geometry of Inr (JArr ps) \<Rightarrow> those (map read_point ps) | _ \<Rightarrow> None)"

fun edge_crossed :: "real \<Rightarrow> real \<Rightarrow> point \<Rightarrow> point \<Rightarrow> bool" where
  "edge_crossed lat lon (xj, yj) (xi, yi) =
     ((yi > lat) \<noteq> (yj > lat) \<and> lon < xi + (lat - yi) / (yj - yi) * (xj - xi))"

fun ring_loop :: "real \<Rightarrow> real \<Rightarrow> point \<Rightarrow> ring \<Rightarrow> bool \<Rightarrow> bool" where
  "ring_loop lat lon pj [] inside = inside"
| "ring_loop lat lon pj (p # ps) inside =
     ring_loop lat lon p ps (if edge_crossed lat lon pj p then \<not> inside else inside)"

definition ring_contains :: "real \<Rightarrow> real \<Rightarrow> ring \<Rightarrow> bool" where
  "ring_contains lat lon ring = (if ring = [] then False else ring_loop lat lon (last ring) ring False)"

definition ring_edges :: "ring \<Rightarrow> (point \<times> point) list" where
  "ring_edges ring = zip ring (rotate1 ring)"

definition ring_distance_m :: "real \<Rightarrow> real \<Rightarrow> ring \<Rightarrow> real option" where
  "ring_distance_m lat lon ring =
     (if ring_contains lat lon ring then Some 0
      else foldl (\<lambda>best ((ax, ay), (bx, by)).
              min_dist best (seg_distance_m lon lat ax ay bx by (m_per_deg_lat * cos (radians lat))))
             None (ring_edges ring))"

lemma read_num_eq: "read_num v = Some x \<longleftrightarrow> json_num v = Inr x"
  by (cases v) auto

lemma those_map_Some: "those (map f xs) = Some ys \<longleftrightarrow> length xs = length ys \<and> (\<forall>i < length xs. f (xs ! i) = Some (ys ! i))"
proof (induction xs arbitrary: ys)
  case (Cons x xs)
  have "(\<forall>i < Suc n. P i) \<longleftrightarrow> P 0 \<and> (\<forall>i < n. P (Suc i))" for n P
    by (metis Suc_less_eq less_Suc_eq_0_disj)
  then show ?case by (cases ys) (auto simp: Cons split: option.split)
qed auto

text \<open>A polygon: every vertex of the ring reads as its point.\<close>

definition ring_reads :: "json \<Rightarrow> ring \<Rightarrow> bool" where
  "ring_reads ring r \<longleftrightarrow> json_len ring = Inr (length r) \<and>
     (\<forall>i < length r. \<exists>x y. vertex ring i = Inr (x, y) \<and> json_num x = Inr (fst (r ! i)) \<and> json_num y = Inr (snd (r ! i)))"

lemma ring_of_reads:
  assumes "ring_of g = Some r"
  obtains ring where "outer_ring g = Inr ring" "ring_reads ring r"
proof -
  obtain ps where ps: "outer_ring g = Inr (JArr ps)" "those (map read_point ps) = Some r"
    using assms by (auto simp: ring_of_def split: sum.splits json.splits)
  have "\<exists>x y. vertex (JArr ps) i = Inr (x, y) \<and> json_num x = Inr (fst (r ! i)) \<and> json_num y = Inr (snd (r ! i))"
    if "i < length r" for i
  proof -
    have "read_point (ps ! i) = Some (r ! i)" "i < length ps" using ps(2) that by (auto simp: those_map_Some)
    then show ?thesis
      by (cases "ps ! i" rule: read_point.cases) (auto simp: vertex_def read_num_eq prod_eq_iff split: option.splits)
  qed
  then show thesis using ps that by (auto simp: ring_reads_def those_map_Some)
qed

lemma ray_crosses_reads:
  assumes "json_num (fst vj) = Inr (fst pj)" "json_num (snd vj) = Inr (snd pj)"
    "json_num (fst vi) = Inr (fst p)" "json_num (snd vi) = Inr (snd p)"
  shows "ray_crosses lat lon vj vi = Inr (edge_crossed lat lon pj p)"
  using assms by (cases pj; cases p) (simp add: ray_crosses_def)

lemma pip_loop_reads:
  assumes "ring_reads ring r" "j < length r" "\<forall>i \<in> set is. i < length r"
  shows "pip_loop lat lon ring j is inside = Inr (ring_loop lat lon (r ! j) (map ((!) r) is) inside)"
  using assms(2,3)
proof (induction "is" arbitrary: j inside)
  case (Cons i "is")
  obtain xi yi xj yj where v: "vertex ring i = Inr (xi, yi)" "json_num xi = Inr (fst (r ! i))" "json_num yi = Inr (snd (r ! i))"
    "vertex ring j = Inr (xj, yj)" "json_num xj = Inr (fst (r ! j))" "json_num yj = Inr (snd (r ! j))"
    using assms(1) Cons.prems unfolding ring_reads_def by (metis list.set_intros(1))
  then have "ray_crosses lat lon (xj, yj) (xi, yi) = Inr (edge_crossed lat lon (r ! j) (r ! i))"
    by (intro ray_crosses_reads) simp_all
  then show ?case using Cons v by simp
qed simp

theorem point_in_polygon_ring:
  assumes "ring_of g = Some r"
  shows "point_in_polygon lat lon g = Inr (ring_contains lat lon r)"
proof -
  obtain ring where ring: "outer_ring g = Inr ring" "ring_reads ring r" using assms by (rule ring_of_reads)
  then have "json_len ring = Inr (length r)" by (simp add: ring_reads_def)
  then show ?thesis
    using ring pip_loop_reads [OF ring(2), of "length r - 1" "[0..<length r]" lat lon False]
    by (cases "r = []") (simp_all add: point_in_polygon_def ring_contains_def map_nth last_conv_nth)
qed

lemma ring_edges_nth: "ring_edges r = map (\<lambda>i. (r ! i, r ! ((i + 1) mod length r))) [0..<length r]"
  unfolding ring_edges_def by (rule nth_equalityI) (simp_all add: nth_rotate1)

lemma edge_distance_reads:
  assumes "ring_reads ring r" "i < length r"
  shows "edge_distance lat lon ring (length r) i =
    Inr (case (r ! i, r ! ((i + 1) mod length r)) of ((ax, ay), (bx, by)) \<Rightarrow>
           seg_distance_m lon lat ax ay bx by (m_per_deg_lat * cos (radians lat)))"
proof -
  have "(i + 1) mod length r < length r" using assms(2) by (intro mod_less_divisor) (cases r; simp)
  then obtain ax ay bx by' where "vertex ring i = Inr (ax, ay)" "json_num ax = Inr (fst (r ! i))" "json_num ay = Inr (snd (r ! i))"
    "vertex ring ((i + 1) mod length r) = Inr (bx, by')" "json_num bx = Inr (fst (r ! ((i + 1) mod length r)))"
    "json_num by' = Inr (snd (r ! ((i + 1) mod length r)))"
    using assms unfolding ring_reads_def by metis
  then show ?thesis by (simp add: edge_distance_def split_beta)
qed

lemma dist_loop_reads:
  assumes "ring_reads ring r" "\<forall>i \<in> set is. i < length r"
  shows "dist_loop lat lon ring (length r) is best =
    Inr (foldl (\<lambda>best ((ax, ay), (bx, by)). min_dist best (seg_distance_m lon lat ax ay bx by (m_per_deg_lat * cos (radians lat))))
      best (map (\<lambda>i. (r ! i, r ! ((i + 1) mod length r))) is))"
  using assms(2)
  by (induction "is" arbitrary: best) (simp_all add: edge_distance_reads [OF assms(1)] split_beta)

theorem distance_to_polygon_ring:
  assumes "ring_of g = Some r"
  shows "distance_to_polygon_m lat lon g = Inr (ring_distance_m lat lon r)"
proof -
  obtain ring where ring: "outer_ring g = Inr ring" "ring_reads ring r" using assms by (rule ring_of_reads)
  then have "json_len ring = Inr (length r)" by (simp add: ring_reads_def)
  then show ?thesis
    using ring dist_loop_reads [OF ring(2), of "[0..<length r]" lat lon None]
    by (simp add: distance_to_polygon_m_def point_in_polygon_ring [OF assms] ring_distance_m_def ring_edges_nth)
qed

lemma ring_of_geojson [simp]: "ring_of (geojson r) = Some r"
proof -
  have "read_point (case p of (x, y) \<Rightarrow> JArr [JReal x, JReal y]) = Some p" for p by (cases p) simp
  then show ?thesis by (simp add: ring_of_def outer_ring_def geojson_def those_map_Some comp_def)
qed

lemma in_geojson [simp]: "point_in_polygon lat lon (geojson r) = Inr (ring_contains lat lon r)"
  by (simp add: point_in_polygon_ring)

text \<open>A geometry without coordinates, which the zone editor accepts, makes both functions raise on every point.\<close>

lemma no_coordinates_raises:
  "map_of d ''coordinates'' = None \<Longrightarrow> point_in_polygon lat lon (JObj d) = Inl KeyError \<and>
     distance_to_polygon_m lat lon (JObj d) = Inl KeyError"
  by (simp add: point_in_polygon_def distance_to_polygon_m_def outer_ring_def)

section \<open>The ray-casting test counts edge crossings\<close>

lemma ring_loop_parity:
  "ring_loop lat lon pj ps inside =
     (inside \<noteq> odd (length (filter (\<lambda>(q, p). edge_crossed lat lon q p) (zip (pj # ps) ps))))"
  by (induction lat lon pj ps inside rule: ring_loop.induct) auto

lemma edge_crossed_refl [simp]: "\<not> edge_crossed lat lon p p"
  by (cases p) simp

lemma edge_crossed_sym: "edge_crossed lat lon p q = edge_crossed lat lon q p"
proof (cases p; cases q)
  fix xj yj xi yi assume p: "p = (xj, yj)" and q: "q = (xi, yi)"
  show ?thesis
  proof (cases "yi = yj")
    case False
    then have "xi + (lat - yi) / (yj - yi) * (xj - xi) = xj + (lat - yj) / (yi - yj) * (xi - xj)"
      by (simp add: divide_simps) (simp add: algebra_simps)
    with p q show ?thesis by auto
  next
    case True
    with p q show ?thesis by auto
  qed
qed

definition crossings :: "real \<Rightarrow> real \<Rightarrow> (point \<times> point) list \<Rightarrow> nat" where
  "crossings lat lon es = length (filter (\<lambda>(q, p). edge_crossed lat lon q p) es)"

lemma crossings_simps [simp]:
  "crossings lat lon [] = 0"
  "crossings lat lon ((q, p) # es) = (if edge_crossed lat lon q p then 1 else 0) + crossings lat lon es"
  "crossings lat lon (es @ fs) = crossings lat lon es + crossings lat lon fs"
  by (simp_all add: crossings_def)

lemma ring_contains_odd:
  "ring_contains lat lon r \<longleftrightarrow> r \<noteq> [] \<and> odd (crossings lat lon (zip (last r # r) r))"
  by (simp add: ring_contains_def ring_loop_parity crossings_def)

text \<open>The edges of a ring and of the same ring started one vertex later.\<close>

lemma zip_shift_snoc: "zip (x # xs @ [y]) (xs @ [y]) = zip (x # xs) xs @ [(last (x # xs), y)]"
  by (induction xs arbitrary: x) auto

lemma crossings_rotate1:
  "crossings lat lon (zip (last (rotate1 ring) # rotate1 ring) (rotate1 ring)) =
   crossings lat lon (zip (last ring # ring) ring)"
  by (cases ring) (simp_all add: zip_shift_snoc)

lemma ring_contains_rotate: "ring_contains lat lon (rotate n r) = ring_contains lat lon r"
proof (induction n)
  case (Suc n)
  have "ring_contains lat lon (rotate1 (rotate n r)) = ring_contains lat lon (rotate n r)"
    by (simp add: ring_contains_odd crossings_rotate1)
  with Suc show ?case by simp
qed simp

lemma ring_contains_closed: "ring_contains lat lon (p # ps @ [p]) = ring_contains lat lon (p # ps)"
  by (simp add: ring_contains_odd zip_shift_snoc)

section \<open>The box used for seeds is the half-open rectangle around its centre\<close>

lemma point_in_box:
  assumes "0 < dlat" and "0 < dlon"
  shows "ring_contains lat lon [(x - dlon, y - dlat), (x + dlon, y - dlat), (x + dlon, y + dlat),
      (x - dlon, y + dlat), (x - dlon, y - dlat)] \<longleftrightarrow>
     y - dlat \<le> lat \<and> lat < y + dlat \<and> x - dlon \<le> lon \<and> lon < x + dlon"
  using assms by (auto simp: ring_contains_def)

lemma cos_radians_pos: "\<bar>lat\<bar> < 90 \<Longrightarrow> 0 < cos (radians lat)"
proof -
  assume "\<bar>lat\<bar> < 90"
  then have "pi * lat < pi * 90" and "pi * (- 90) < pi * lat"
    unfolding mult_less_cancel_left_pos [OF pi_gt_zero] by linarith+
  then show ?thesis
    unfolding radians_def by (intro cos_gt_zero_pi) (simp_all add: field_simps)
qed

section \<open>The distance to a segment is the distance to its nearest point\<close>

text \<open>The quadratic \<open>t \<mapsto> |w - t d|\<^sup>2\<close> is least on [0, 1] at the clamped projection.\<close>

lemma clamp_nearest:
  fixes u :: real
  assumes "0 \<le> s" and "s \<le> 1"
  shows "(max 0 (min 1 u) - u)\<^sup>2 \<le> (s - u)\<^sup>2"
proof -
  have "\<bar>max 0 (min 1 u) - u\<bar> \<le> \<bar>s - u\<bar>"
    using assms by (auto simp: max_def min_def)
  then show ?thesis by (simp only: abs_le_square_iff)
qed

lemma dist_sq_shift:
  fixes wx wy dx dy s u :: real
  assumes nu: "(dx * dx + dy * dy) * u = wx * dx + wy * dy"
  shows "(wx - s * dx)\<^sup>2 + (wy - s * dy)\<^sup>2 =
    (wx\<^sup>2 + wy\<^sup>2 - (dx * dx + dy * dy) * u\<^sup>2) + (dx * dx + dy * dy) * (s - u)\<^sup>2"
proof -
  let ?n = "dx * dx + dy * dy"
  have "(wx\<^sup>2 + wy\<^sup>2 - ?n * u\<^sup>2) + ?n * (s - u)\<^sup>2 = wx\<^sup>2 + wy\<^sup>2 + s\<^sup>2 * ?n - 2 * s * (?n * u)"
    by (simp add: power2_eq_square algebra_simps)
  also have "\<dots> = wx\<^sup>2 + wy\<^sup>2 + s\<^sup>2 * ?n - 2 * s * (wx * dx + wy * dy)"
    by (simp only: nu)
  also have "\<dots> = (wx - s * dx)\<^sup>2 + (wy - s * dy)\<^sup>2"
    by (simp add: power2_eq_square algebra_simps)
  finally show ?thesis by simp
qed

lemma clamped_projection_nearest:
  fixes wx wy dx dy s :: real
  assumes n: "dx * dx + dy * dy \<noteq> 0" and s: "0 \<le> s" "s \<le> 1"
  defines "t \<equiv> max 0 (min 1 ((wx * dx + wy * dy) / (dx * dx + dy * dy)))"
  shows "(wx - t * dx)\<^sup>2 + (wy - t * dy)\<^sup>2 \<le> (wx - s * dx)\<^sup>2 + (wy - s * dy)\<^sup>2"
proof -
  let ?n = "dx * dx + dy * dy"
  define u where "u = (wx * dx + wy * dy) / ?n"
  from n have nu: "?n * u = wx * dx + wy * dy" by (simp add: u_def)
  have "?n * (t - u)\<^sup>2 \<le> ?n * (s - u)\<^sup>2"
    unfolding t_def u_def [symmetric] by (intro mult_left_mono clamp_nearest s) simp
  then show ?thesis
    unfolding dist_sq_shift [OF nu, of t] dist_sq_shift [OF nu, of s] by linarith
qed

lemma hypot_le_iff: "hypot a b \<le> hypot c d \<longleftrightarrow> a\<^sup>2 + b\<^sup>2 \<le> c\<^sup>2 + d\<^sup>2"
  by (simp add: hypot_def power2_eq_square)

lemma hypot_nonneg [simp]: "0 \<le> hypot a b"
  by (simp add: hypot_def)

lemma seg_distance_nonneg [simp]: "0 \<le> seg_distance_m px py ax ay bx by k"
  by (simp add: seg_distance_m_def Let_def)

text \<open>The point at fraction \<open>s\<close> of the segment, and its distance in metres.\<close>

definition dist_at :: "real \<Rightarrow> real \<Rightarrow> real \<Rightarrow> real \<Rightarrow> real \<Rightarrow> real \<Rightarrow> real \<Rightarrow> real \<Rightarrow> real" where
  "dist_at px py ax ay bx by k s =
     hypot (px * k - (ax * k + s * (bx * k - ax * k)))
       (py * m_per_deg_lat - (ay * m_per_deg_lat + s * (by * m_per_deg_lat - ay * m_per_deg_lat)))"

lemma seg_distance_eq:
  "seg_distance_m px py ax ay bx by k =
     (let wx = px * k - ax * k; wy = py * m_per_deg_lat - ay * m_per_deg_lat;
          dx = bx * k - ax * k; dy = by * m_per_deg_lat - ay * m_per_deg_lat;
          t = max 0 (min 1 ((wx * dx + wy * dy) / (dx * dx + dy * dy)))
      in if dx * dx + dy * dy = 0 then hypot wx wy else hypot (wx - t * dx) (wy - t * dy))"
  by (simp only: seg_distance_m_def Let_def diff_diff_eq [symmetric])

lemma dist_at_eq:
  "dist_at px py ax ay bx by k s =
     hypot ((px * k - ax * k) - s * (bx * k - ax * k))
       ((py * m_per_deg_lat - ay * m_per_deg_lat) - s * (by * m_per_deg_lat - ay * m_per_deg_lat))"
  by (simp only: dist_at_def diff_diff_eq)

lemma sum_squares_zero: "x * x + y * y = 0 \<Longrightarrow> x = 0 \<and> y = (0::real)"
  by (simp add: sum_squares_eq_zero_iff)

lemma seg_distance_least:
  assumes "0 \<le> s" and "s \<le> 1"
  shows "seg_distance_m px py ax ay bx by k \<le> dist_at px py ax ay bx by k s"
proof (cases "(bx * k - ax * k) * (bx * k - ax * k)
    + (by * m_per_deg_lat - ay * m_per_deg_lat) * (by * m_per_deg_lat - ay * m_per_deg_lat) = 0")
  case True
  with sum_squares_zero [OF True] show ?thesis by (simp only: seg_distance_eq Let_def dist_at_eq) simp
next
  case False
  from clamped_projection_nearest [OF this assms] False show ?thesis
    by (simp only: seg_distance_eq Let_def dist_at_eq hypot_le_iff if_False)
qed

lemma seg_distance_attained:
  "\<exists>t. 0 \<le> t \<and> t \<le> 1 \<and> seg_distance_m px py ax ay bx by k = dist_at px py ax ay bx by k t"
proof (cases "(bx * k - ax * k) * (bx * k - ax * k)
    + (by * m_per_deg_lat - ay * m_per_deg_lat) * (by * m_per_deg_lat - ay * m_per_deg_lat) = 0")
  case True
  with sum_squares_zero [OF True] show ?thesis
    by (intro exI [of _ 0]) (simp only: seg_distance_eq Let_def dist_at_eq, simp)
next
  case False
  let ?t = "max 0 (min 1 (((px * k - ax * k) * (bx * k - ax * k)
      + (py * m_per_deg_lat - ay * m_per_deg_lat) * (by * m_per_deg_lat - ay * m_per_deg_lat))
      / ((bx * k - ax * k) * (bx * k - ax * k)
      + (by * m_per_deg_lat - ay * m_per_deg_lat) * (by * m_per_deg_lat - ay * m_per_deg_lat))))"
  from False have "seg_distance_m px py ax ay bx by k = dist_at px py ax ay bx by k ?t"
    by (simp only: seg_distance_eq Let_def dist_at_eq if_False)
  then show ?thesis by (intro exI [of _ ?t]) simp
qed

lemma foldl_min_dist_Some:
  "foldl (\<lambda>best e. min_dist best (f e)) (Some b) es = Some d \<Longrightarrow>
     d \<le> b \<and> (\<forall>e \<in> set es. d \<le> f e) \<and> (d = b \<or> (\<exists>e \<in> set es. d = f e))"
proof (induction es arbitrary: b)
  case (Cons e es)
  have "foldl (\<lambda>best e. min_dist best (f e)) (Some (min b (f e))) es = Some d"
    using Cons.prems by (simp add: min_dist_def)
  from Cons.IH [OF this] show ?case by (auto simp: min_def split: if_splits)
qed simp

lemma foldl_min_dist_None:
  "foldl (\<lambda>best e. min_dist best (f e)) None es = None \<longleftrightarrow> es = []"
proof -
  have some: "\<exists>d. foldl (\<lambda>best e. min_dist best (f e)) (Some b) es = Some d" for b es
    by (induction es arbitrary: b) (auto simp: min_dist_def)
  show ?thesis
    by (cases es) (use some in \<open>auto simp: min_dist_def dest: spec\<close>)
qed

lemma foldl_min_dist_least:
  assumes "foldl (\<lambda>best e. min_dist best (f e)) None es = Some d"
  shows "(\<exists>e \<in> set es. d = f e) \<and> (\<forall>e \<in> set es. d \<le> f e)"
proof (cases es)
  case (Cons e es')
  with assms foldl_min_dist_Some [of f "f e" es' d] show ?thesis
    by (auto simp: min_dist_def)
qed (use assms in simp)

text \<open>The distance from (lat, lon) to the point at fraction \<open>s\<close> of an edge.\<close>

definition edge_point_dist :: "real \<Rightarrow> real \<Rightarrow> point \<times> point \<Rightarrow> real \<Rightarrow> real" where
  "edge_point_dist lat lon e s =
     (case e of ((ax, ay), (bx, by)) \<Rightarrow>
        dist_at lon lat ax ay bx by (m_per_deg_lat * cos (radians lat)) s)"

section \<open>Properties\<close>

text \<open>A seeded box zone contains exactly the points of the half-open rectangle of half-width
  \<open>half_m\<close> metres around its centre, at any latitude short of the poles.\<close>

theorem box_zone_is_rectangle:
  assumes "0 < half_m" and "\<bar>center_lat\<bar> < 90"
  shows "point_in_polygon lat lon (box_polygon center_lat center_lon half_m) =
    Inr (let dlat = half_m / m_per_deg_lat; dlon = half_m / (m_per_deg_lat * cos (radians center_lat))
     in center_lat - dlat \<le> lat \<and> lat < center_lat + dlat \<and>
        center_lon - dlon \<le> lon \<and> lon < center_lon + dlon)"
proof -
  have "0 < half_m / m_per_deg_lat"
    and "0 < half_m / (m_per_deg_lat * cos (radians center_lat))"
    using assms cos_radians_pos [OF assms(2)] by (simp_all add: m_per_deg_lat_def)
  from point_in_box [OF this, of lat lon center_lon center_lat] show ?thesis by (simp add: box_polygon_def Let_def)
qed

theorem box_zone_is_rectangle_witness: "point_in_polygon 0 0 (box_polygon 0 0 100) = Inr True"
  using box_zone_is_rectangle [of 100 0 0 0 0] by (simp add: m_per_deg_lat_def radians_def)

text \<open>Membership does not depend on which vertex a ring starts at, nor on whether the
  ring repeats its first vertex at the end as GeoJSON asks.\<close>

theorem ring_presentation_irrelevant:
  "point_in_polygon lat lon (geojson (rotate n r)) = point_in_polygon lat lon (geojson r) \<and>
   point_in_polygon lat lon (geojson (p # ps @ [p])) = point_in_polygon lat lon (geojson (p # ps))"
  by (simp add: ring_contains_rotate ring_contains_closed)

text \<open>The distance to a zone is zero inside it; outside it is the distance, in the source's
  local metres, to the nearest point of the boundary: no point of any edge is nearer, and some
  point of some edge is that near. A ring without vertices is infinitely far.\<close>

theorem distance_is_to_nearest_boundary_point:
  assumes "ring_of g = Some r"
  shows "case distance_to_polygon_m lat lon g of
     Inl e \<Rightarrow> False
   | Inr None \<Rightarrow> r = []
   | Inr (Some d) \<Rightarrow>
       (if point_in_polygon lat lon g = Inr True then d = 0
        else (\<exists>e \<in> set (ring_edges r). \<exists>s \<in> {0..1}. d = edge_point_dist lat lon e s) \<and>
          (\<forall>e \<in> set (ring_edges r). \<forall>s \<in> {0..1}. d \<le> edge_point_dist lat lon e s))"
proof (cases "ring_contains lat lon r")
  case True
  then show ?thesis by (simp add: distance_to_polygon_ring [OF assms] point_in_polygon_ring [OF assms] ring_distance_m_def)
next
  case out: False
  let ?k = "m_per_deg_lat * cos (radians lat)"
  let ?f = "\<lambda>((ax, ay), (bx, by)). seg_distance_m lon lat ax ay bx by ?k"
  have d: "ring_distance_m lat lon r = foldl (\<lambda>best e. min_dist best (?f e)) None (ring_edges r)"
    using out by (simp add: ring_distance_m_def split_def)
  show ?thesis
  proof (cases "ring_distance_m lat lon r")
    case None
    with d have "foldl (\<lambda>best e. min_dist best (?f e)) None (ring_edges r) = None" by simp
    then have "ring_edges r = []" by (simp only: foldl_min_dist_None)
    then show ?thesis using None by (simp add: distance_to_polygon_ring [OF assms] ring_edges_def zip_eq_Nil_iff)
  next
    case (Some b)
    with d have "foldl (\<lambda>best e. min_dist best (?f e)) None (ring_edges r) = Some b" by simp
    from foldl_min_dist_least [OF this] obtain e
      where e: "e \<in> set (ring_edges r)" and b: "b = ?f e" and least: "\<And>e. e \<in> set (ring_edges r) \<Longrightarrow> b \<le> ?f e"
      by blast
    from seg_distance_attained [of lon lat] obtain s
      where s: "s \<in> {0..1}" "b = edge_point_dist lat lon e s"
      by (cases e) (force simp: b edge_point_dist_def)
    have "b \<le> edge_point_dist lat lon e' s'" if "e' \<in> set (ring_edges r)" "s' \<in> {0..1}" for e' s'
      using least [OF that(1)] seg_distance_least [of s' lon lat] that(2)
      by (cases e') (force simp: edge_point_dist_def intro: order_trans)
    moreover have "\<exists>e \<in> set (ring_edges r). \<exists>s \<in> {0..1}. b = edge_point_dist lat lon e s"
      using e s by blast
    ultimately show ?thesis
      using out Some by (simp add: distance_to_polygon_ring [OF assms] point_in_polygon_ring [OF assms])
  qed
qed

theorem distance_is_to_nearest_boundary_point_witness:
  "distance_to_polygon_m 0 0 (box_polygon 0 0 100) = Inr (Some 0)"
proof -
  have i: "point_in_polygon 0 0 (box_polygon 0 0 100) = Inr True"
    by (simp add: box_polygon_def Let_def ring_contains_def m_per_deg_lat_def radians_def)
  obtain r where r: "ring_of (box_polygon 0 0 100) = Some r" "r \<noteq> []" by (simp add: box_polygon_def Let_def)
  from distance_is_to_nearest_boundary_point [OF r(1), of 0 0] i r(2) show ?thesis
    by (auto split: option.splits sum.splits)
qed

end
