(* ===== verification/Geo.thy ===== *)
theory Geo
  imports ZoneGeometry
begin

text \<open>
  \<^verbatim>\<open>src/src/minemonitor/ingest/geo.py\<close>: the WGS84 helpers. Great-circle distance over the
  reals, with the facts the cycle and metric computations use of it.
\<close>

definition metres_per_deg_lon :: "real \<Rightarrow> real" where
  "metres_per_deg_lon lat_deg = m_per_deg_lat * cos (radians lat_deg)"

definition haversine_a :: "real \<Rightarrow> real \<Rightarrow> real \<Rightarrow> real \<Rightarrow> real" where
  "haversine_a lat1 lon1 lat2 lon2 =
     (let p1 = radians lat1; p2 = radians lat2;
          dphi = radians (lat2 - lat1); dlmb = radians (lon2 - lon1)
      in (sin (dphi / 2))\<^sup>2 + cos p1 * cos p2 * (sin (dlmb / 2))\<^sup>2)"

definition haversine_m :: "real \<Rightarrow> real \<Rightarrow> real \<Rightarrow> real \<Rightarrow> real" where
  "haversine_m lat1 lon1 lat2 lon2 = 2 * 6371000 * arcsin (sqrt (haversine_a lat1 lon1 lat2 lon2))"

definition offset_m :: "real \<Rightarrow> real \<Rightarrow> real \<Rightarrow> real \<Rightarrow> real \<times> real" where
  "offset_m lat lon north_m east_m =
     (let dlat = north_m / m_per_deg_lat; dlon = east_m / metres_per_deg_lon lat
      in (lat + dlat, lon + dlon))"

section \<open>The argument of the arc sine is always in range\<close>

lemma haversine_self [simp]: "haversine_m lat lon lat lon = 0"
  by (simp add: haversine_m_def haversine_a_def radians_def)

lemma radians_minus: "radians (a - b) = radians a - radians b"
  by (simp add: radians_def left_diff_distrib diff_divide_distrib)

lemma sin_half_sq_sym: "(sin (radians (a - b) / 2))\<^sup>2 = (sin (radians (b - a) / 2))\<^sup>2"
proof -
  have "radians (a - b) / 2 = - (radians (b - a) / 2)"
    unfolding radians_minus by (simp add: diff_divide_distrib)
  then show ?thesis by (simp only: sin_minus power2_minus)
qed

lemma haversine_a_sym: "haversine_a lat1 lon1 lat2 lon2 = haversine_a lat2 lon2 lat1 lon1"
  unfolding haversine_a_def Let_def sin_half_sq_sym [of lat2 lat1] sin_half_sq_sym [of lon2 lon1]
  by (simp only: mult.commute [of "cos (radians lat1)"])

lemma haversine_sym: "haversine_m lat1 lon1 lat2 lon2 = haversine_m lat2 lon2 lat1 lon1"
  by (simp add: haversine_m_def haversine_a_sym)

text \<open>\<open>1 - a\<close> is a sum of squares too, for latitudes between the poles.\<close>

lemma haversine_a_range:
  assumes "0 \<le> cos (radians lat1)" and "0 \<le> cos (radians lat2)"
  shows "0 \<le> haversine_a lat1 lon1 lat2 lon2 \<and> haversine_a lat1 lon1 lat2 lon2 \<le> 1"
proof
  let ?p = "radians lat1" and ?q = "radians lat2" and ?l = "radians (lon2 - lon1) / 2"
  have cs: "0 \<le> cos ?p * cos ?q" using assms by simp
  then show "0 \<le> haversine_a lat1 lon1 lat2 lon2" by (simp add: haversine_a_def Let_def)
  have half: "(sin (radians (lat2 - lat1) / 2))\<^sup>2 = (1 - cos (?q - ?p)) / 2"
  proof -
    have "cos (?q - ?p) = 1 - 2 * (sin ((?q - ?p) / 2))\<^sup>2"
      using cos_double_sin [of "(?q - ?p) / 2"] by (simp only: times_divide_eq_right
          nonzero_mult_div_cancel_left [OF zero_neq_numeral [symmetric]])
    then show ?thesis unfolding radians_minus by simp
  qed
  have "haversine_a lat1 lon1 lat2 lon2 \<le> (1 - cos (?q - ?p)) / 2 + cos ?p * cos ?q * 1"
    unfolding haversine_a_def Let_def half
    using mult_left_mono [OF _ cs, of "(sin ?l)\<^sup>2" 1] by (simp add: sin_squared_eq)
  also have "\<dots> = (1 + cos (?q + ?p)) / 2"
    by (simp add: cos_diff cos_add field_simps)
  also have "\<dots> \<le> 1" by simp
  finally show "haversine_a lat1 lon1 lat2 lon2 \<le> 1" .
qed

lemma cos_radians_nonneg: "\<bar>lat\<bar> \<le> 90 \<Longrightarrow> 0 \<le> cos (radians lat)"
proof -
  assume "\<bar>lat\<bar> \<le> 90"
  then have "pi * lat \<le> pi * 90" and "pi * (- 90) \<le> pi * lat"
    unfolding mult_le_cancel_left_pos [OF pi_gt_zero] by linarith+
  then show ?thesis
    unfolding radians_def by (intro cos_ge_zero) (simp_all add: field_simps)
qed

text \<open>A distance is never negative and at most half the circumference of the sphere.\<close>

lemma haversine_range:
  assumes "\<bar>lat1\<bar> \<le> 90" and "\<bar>lat2\<bar> \<le> 90"
  shows "0 \<le> haversine_m lat1 lon1 lat2 lon2 \<and> haversine_m lat1 lon1 lat2 lon2 \<le> 6371000 * pi"
proof -
  let ?a = "haversine_a lat1 lon1 lat2 lon2"
  have a: "0 \<le> ?a" "?a \<le> 1"
    using haversine_a_range [OF cos_radians_nonneg [OF assms(1)] cos_radians_nonneg [OF assms(2)]] by auto
  then have "0 \<le> sqrt ?a" "- 1 \<le> sqrt ?a" "sqrt ?a \<le> 1"
    by (simp_all add: order_trans [of _ 0])
  then have "0 \<le> arcsin (sqrt ?a)" "arcsin (sqrt ?a) \<le> pi / 2"
    using arcsin_ubound [of "sqrt ?a"] arcsin_le_arcsin [of 0 "sqrt ?a"] by simp_all
  then show ?thesis by (simp add: haversine_m_def)
qed

end
