(* ===== verification/Cycles.thy ===== *)
theory Cycles
  imports Geo
begin

text \<open>
  \<^verbatim>\<open>src/src/minemonitor/cycles/statemachine.py\<close>: haul cycles computed from a stream of fixes.
  Visits to the load and dump zones, the stops within a visit, the loader a truck stood beside,
  the queue before the loading stop, the cycles between one load visit and the next, and the
  point a later run must resume from. \<^verbatim>\<open>Counter.most_common(1)\<close> is the first of the most
  frequent labels, \<^verbatim>\<open>bisect\<close> on a sorted list counts the smaller elements.
\<close>

section \<open>Inputs and results\<close>

definition move_threshold_kph :: real where "move_threshold_kph = 3"
definition min_visit_s :: real where "min_visit_s = 15"
definition min_exit_s :: real where "min_exit_s = 15"
definition min_load_s :: real where "min_load_s = 30"
definition min_step_m :: real where "min_step_m = 5"
definition pairing_m :: real where "pairing_m = 12"
definition loader_match :: int where "loader_match = seconds 30"

type_synonym zone_shape = "string \<times> json"

record gps_fix =
  f_ts :: time
  f_lat :: real
  f_lon :: real
  f_speed :: "real option"

record loader_fix =
  l_asset :: string
  l_ts :: time
  l_lat :: real
  l_lon :: real

record cycle =
  c_asset :: string
  cycle_index :: nat
  start_ts :: time
  end_ts :: time
  cycle_time_s :: real
  queue_s :: real
  load_s :: real
  haul_s :: real
  dump_s :: real
  return_s :: real
  load_zone_id :: "string option"
  dump_zone_id :: "string option"
  loader_id :: "string option"

definition queue_pct :: "cycle \<Rightarrow> real" where
  "queue_pct c = (if cycle_time_s c \<noteq> 0 then 100 * queue_s c / cycle_time_s c else 0)"

record resume =
  r_ts :: time
  r_entry_known :: bool
  r_inside :: bool

record visit =
  v_enter :: time
  v_exit :: time
  v_start :: nat
  v_end :: nat

section \<open>Visits\<close>

text \<open>
  A zone whose geometry makes the test raise ends the computation with that exception; here every
  test answers, and what a rebuild that raises does is the parameter \<open>fails\<close> of the entry points.
\<close>

definition in_shape :: "real \<Rightarrow> real \<Rightarrow> json \<Rightarrow> bool" where
  "in_shape lat lon geom \<longleftrightarrow> point_in_polygon lat lon geom = Inr True"

definition zone_at :: "real \<Rightarrow> real \<Rightarrow> zone_shape list \<Rightarrow> string option" where
  "zone_at lat lon zones = map_option fst (List.find (\<lambda>(zid, geom). in_shape lat lon geom) zones)"

text \<open>\<^verbatim>\<open>xs[i:j]\<close>.\<close>

definition slice :: "nat \<Rightarrow> nat \<Rightarrow> 'a list \<Rightarrow> 'a list" where
  "slice i j xs = drop i (take j xs)"

definition credited_zone :: "visit \<Rightarrow> string option list \<Rightarrow> string option" where
  "credited_zone v labels =
     (let seen = List.map_filter id (slice (v_start v) (v_end v) labels)
      in max_by (\<lambda>z. length (filter ((=) z) seen)) (nub seen))"

text \<open>The maximal runs of \<open>True\<close>, as index ranges [start, end) from offset \<open>i\<close>.\<close>

function runs :: "nat \<Rightarrow> bool list \<Rightarrow> (nat \<times> nat) list" where
  "runs i [] = []"
| "runs i (b # bs) =
     (if \<not> b then runs (Suc i) bs
      else let k = Suc (length (takeWhile id bs)) in (i, i + k) # runs (i + k) (dropWhile id bs))"
  by pat_completeness auto
termination
  by (relation "measure (\<lambda>(i, bs). length bs)") (auto simp: length_dropWhile_le le_imp_less_Suc)

definition add_run :: "time list \<Rightarrow> real \<Rightarrow> visit list \<Rightarrow> nat \<times> nat \<Rightarrow> visit list" where
  "add_run tms gap out r =
     (case r of (start, i) \<Rightarrow>
        let exit_ts = (if i < length tms then tms ! i else tms ! (i - 1))
        in if out \<noteq> [] \<and> total_seconds (tms ! start - v_exit (last out)) < gap
           then butlast out @ [(last out)\<lparr>v_exit := exit_ts, v_end := i\<rparr>]
           else out @ [\<lparr>v_enter = tms ! start, v_exit = exit_ts, v_start = start, v_end = i\<rparr>])"

definition visits :: "bool list \<Rightarrow> time list \<Rightarrow> real \<Rightarrow> visit list" where
  "visits flags tms gap = foldl (add_run tms gap) [] (runs 0 flags)"

section \<open>Stops and the queue\<close>

record stop =
  s_start :: nat
  s_end :: nat
  s_n :: nat
  s_lat :: real
  s_lon :: real

definition add_stop :: "gps_fix list \<Rightarrow> stop list \<Rightarrow> nat \<times> nat \<Rightarrow> stop list" where
  "add_stop fixes out r =
     (case r of (start, i) \<Rightarrow>
        let n = i - start;
            lat = sum_list (map f_lat (slice start i fixes)) / real n;
            lon = sum_list (map f_lon (slice start i fixes)) / real n
        in if out \<noteq> [] \<and> haversine_m (s_lat (last out)) (s_lon (last out)) lat lon < min_step_m
           then let prev = last out; total = s_n prev + n
                in butlast out @
                     [\<lparr>s_start = s_start prev, s_end = i, s_n = total,
                       s_lat = (s_lat prev * real (s_n prev) + lat * real n) / real total,
                       s_lon = (s_lon prev * real (s_n prev) + lon * real n) / real total\<rparr>]
           else out @ [\<lparr>s_start = start, s_end = i, s_n = n, s_lat = lat, s_lon = lon\<rparr>])"

definition stops :: "gps_fix list \<Rightarrow> bool list \<Rightarrow> visit \<Rightarrow> stop list" where
  "stops fixes moving v =
     foldl (add_stop fixes) [] (runs (v_start v) (map Not (slice (v_start v) (v_end v) moving)))"

text \<open>\<^verbatim>\<open>_Loaders\<close>: the fixes of every other machine, by machine, in time order.\<close>

type_synonym loaders = "(string \<times> loader_fix list) list"

definition loaders_of :: "loader_fix list \<Rightarrow> string \<Rightarrow> loaders" where
  "loaders_of fixes exclude =
     (let fx = filter (\<lambda>f. l_asset f \<noteq> exclude) fixes
      in map (\<lambda>aid. (aid, sort_key l_ts (filter (\<lambda>f. l_asset f = aid) fx)))
           (sort (remdups (map l_asset fx))))"

definition median :: "real list \<Rightarrow> real" where
  "median xs =
     (let s = sort xs; n = length s
      in if odd n then s ! (n div 2) else (s ! (n div 2 - 1) + s ! (n div 2)) / 2)"

definition fixes_between :: "loader_fix list \<Rightarrow> time \<Rightarrow> time \<Rightarrow> loader_fix list" where
  "fixes_between fx since until =
     (let tms = map l_ts fx
      in slice (length (takeWhile (\<lambda>t. t < since) tms)) (length (takeWhile (\<lambda>t. t \<le> until) tms)) fx)"

definition closer :: "real \<times> string \<Rightarrow> (real \<times> string) option \<Rightarrow> bool" where
  "closer x best =
     (case best of None \<Rightarrow> True | Some b \<Rightarrow> fst x < fst b \<or> fst x = fst b \<and> snd x < snd b)"

definition beside :: "loaders \<Rightarrow> real \<Rightarrow> real \<Rightarrow> time \<Rightarrow> time \<Rightarrow> real \<Rightarrow> string option" where
  "beside ls lat lon since until pair_m =
     map_option snd (foldl (\<lambda>best (aid, fx).
        let near = fixes_between fx since until
        in if near = [] then best
           else let d = median (map (\<lambda>f. haversine_m lat lon (l_lat f) (l_lon f)) near)
                in if d \<le> pair_m \<and> closer (d, aid) best then Some (d, aid) else best) None ls)"

definition stop_length :: "time list \<Rightarrow> stop \<Rightarrow> real" where
  "stop_length tms st =
     total_seconds (tms ! (min (s_end st) (length tms - 1)) - tms ! s_start st)"

text \<open>The first long stop with a loader beside it, and which loader.\<close>

fun paired_stop ::
  "time list \<Rightarrow> loaders \<Rightarrow> real \<Rightarrow> nat \<Rightarrow> stop list \<Rightarrow> (nat \<times> string) option" where
  "paired_stop tms ls pair_m k [] = None"
| "paired_stop tms ls pair_m k (st # sts) =
     (if stop_length tms st < min_load_s then paired_stop tms ls pair_m (Suc k) sts
      else case beside ls (s_lat st) (s_lon st) (tms ! s_start st - loader_match)
                  (tms ! (s_end st - 1) + loader_match) pair_m of
             Some lid \<Rightarrow> Some (k, lid)
           | None \<Rightarrow> paired_stop tms ls pair_m (Suc k) sts)"

text \<open>Without pairing: the last stop long enough to be the loading, else the last stop.\<close>

definition last_long_stop :: "time list \<Rightarrow> stop list \<Rightarrow> nat" where
  "last_long_stop tms sts =
     (case List.find (\<lambda>k. stop_length tms (sts ! k) \<ge> min_load_s) (rev [0..<length sts]) of
        Some k \<Rightarrow> k | None \<Rightarrow> length sts - 1)"

definition queue_seconds ::
  "time list \<Rightarrow> gps_fix list \<Rightarrow> bool list \<Rightarrow> visit \<Rightarrow> loaders \<Rightarrow> real \<Rightarrow> real \<times> string option" where
  "queue_seconds tms fixes moving v ls pair_m =
     (let sts = stops fixes moving v
      in if sts = [] then (0, None)
         else
           let paired = (if ls = [] then None else paired_stop tms ls pair_m 0 sts);
               loading = (case paired of Some (k, _) \<Rightarrow> k | None \<Rightarrow> last_long_stop tms sts);
               lid = map_option snd paired
           in if loading = 0 then (0, lid)
              else (total_seconds (tms ! s_end (sts ! (loading - 1)) - tms ! s_start (sts ! 0)), lid))"

section \<open>Cycles and the resume point\<close>

record cycle_params =
  load_zones :: "zone_shape list"
  dump_zones :: "zone_shape list"
  move_kph :: real
  visit_s :: real
  exit_s :: real
  max_cycle_s :: "real option"
  leading_entry_known :: bool
  opens_from :: "time option"
  loader_fixes :: "loader_fix list"
  pair_within_m :: real

definition visit_length :: "visit \<Rightarrow> real" where
  "visit_length v = total_seconds (v_exit v - v_enter v)"

definition long_enough :: "cycle_params \<Rightarrow> visit \<Rightarrow> bool" where
  "long_enough P v \<longleftrightarrow> visit_length v \<ge> visit_s P"

definition can_open :: "cycle_params \<Rightarrow> visit \<Rightarrow> bool" where
  "can_open P v =
     (if (case opens_from P of None \<Rightarrow> False | Some t \<Rightarrow> v_enter v < t) then False
      else v_start v > 0 \<or> leading_entry_known P)"

definition dump_between :: "visit list \<Rightarrow> visit \<Rightarrow> visit \<Rightarrow> visit option" where
  "dump_between dumps lv next =
     List.find (\<lambda>d. v_exit lv \<le> v_enter d \<and> v_enter d < v_enter next) dumps"

definition over_cap :: "cycle_params \<Rightarrow> real \<Rightarrow> bool" where
  "over_cap P t = (case max_cycle_s P of None \<Rightarrow> False | Some m \<Rightarrow> t > m)"

definition build_cycle ::
  "string \<Rightarrow> nat \<Rightarrow> visit \<Rightarrow> visit \<Rightarrow> visit \<Rightarrow> real \<times> string option \<Rightarrow> string option list
    \<Rightarrow> string option list \<Rightarrow> cycle" where
  "build_cycle asset idx lv next dv q load_at dump_at =
     (case q of (queue, lid) \<Rightarrow>
        \<lparr>c_asset = asset, cycle_index = idx, start_ts = v_enter lv, end_ts = v_enter next,
         cycle_time_s = total_seconds (v_enter next - v_enter lv), queue_s = queue,
         load_s = max 0 (visit_length lv - queue),
         haul_s = total_seconds (v_enter dv - v_exit lv),
         dump_s = total_seconds (v_exit dv - v_enter dv),
         return_s = total_seconds (v_enter next - v_exit dv),
         load_zone_id = credited_zone lv load_at, dump_zone_id = credited_zone dv dump_at,
         loader_id = lid\<rparr>)"

text \<open>The loop over consecutive load visits; \<open>n\<close> is the number of cycles so far.\<close>

fun cycle_loop ::
  "cycle_params \<Rightarrow> (visit \<Rightarrow> real \<times> string option) \<Rightarrow> string \<Rightarrow> string option list
    \<Rightarrow> string option list \<Rightarrow> visit list \<Rightarrow> nat \<Rightarrow> visit list \<Rightarrow> cycle list" where
  "cycle_loop P queue asset load_at dump_at dumps n (lv # next # vs) =
     (if \<not> can_open P lv \<or> over_cap P (total_seconds (v_enter next - v_enter lv))
      then cycle_loop P queue asset load_at dump_at dumps n (next # vs)
      else case dump_between dumps lv next of
             None \<Rightarrow> cycle_loop P queue asset load_at dump_at dumps n (next # vs)
           | Some dv \<Rightarrow> build_cycle asset n lv next dv (queue lv) load_at dump_at #
               cycle_loop P queue asset load_at dump_at dumps (Suc n) (next # vs))"
| "cycle_loop P queue asset load_at dump_at dumps n vs = []"

definition may_still_close :: "cycle_params \<Rightarrow> time \<Rightarrow> visit option \<Rightarrow> visit \<Rightarrow> bool" where
  "may_still_close P end_of_stream pending opener =
     (case max_cycle_s P of
        None \<Rightarrow> True
      | Some m \<Rightarrow>
          if total_seconds (end_of_stream - v_enter opener) < m then True
          else (case pending of None \<Rightarrow> False
                | Some p \<Rightarrow> total_seconds (v_enter p - v_enter opener) \<le> m))"

text \<open>
  The last load visit, if a later fix may still extend it and it is too short to count yet.
\<close>

definition pending_visit :: "cycle_params \<Rightarrow> time \<Rightarrow> bool \<Rightarrow> visit list \<Rightarrow> visit option" where
  "pending_visit P end_of_stream ends_inside load_runs =
     (let tail = (if load_runs \<noteq> [] \<and>
            (ends_inside \<or> total_seconds (end_of_stream - v_exit (last load_runs)) < exit_s P)
            then Some (last load_runs) else None)
      in case tail of None \<Rightarrow> None | Some v \<Rightarrow> if long_enough P v then None else Some v)"

definition resume_base :: "cycle_params \<Rightarrow> time \<Rightarrow> visit option \<Rightarrow> visit list \<Rightarrow> resume" where
  "resume_base P end_of_stream pending openers =
     (if openers \<noteq> [] \<and> may_still_close P end_of_stream pending (last openers)
      then \<lparr>r_ts = v_enter (last openers), r_entry_known = True, r_inside = False\<rparr>
      else case pending of
             Some p \<Rightarrow>
               if can_open P p
               then \<lparr>r_ts = v_enter p, r_entry_known = True, r_inside = False\<rparr>
               else \<lparr>r_ts = end_of_stream, r_entry_known = False, r_inside = False\<rparr>
           | None \<Rightarrow> \<lparr>r_ts = end_of_stream, r_entry_known = False, r_inside = False\<rparr>)"

definition resume_point :: "cycle_params \<Rightarrow> time \<Rightarrow> bool \<Rightarrow> visit list \<Rightarrow> resume" where
  "resume_point P end_of_stream ends_inside load_runs =
     (let openers = filter (can_open P) (filter (long_enough P) load_runs);
          pending = pending_visit P end_of_stream ends_inside load_runs;
          r = resume_base P end_of_stream pending openers
      in if r_entry_known r \<and> ends_inside \<and> v_enter (last load_runs) = r_ts r
         then r\<lparr>r_inside := True\<rparr> else r)"

definition moving_flags :: "cycle_params \<Rightarrow> gps_fix list \<Rightarrow> bool list" where
  "moving_flags P fixes =
     map (\<lambda>f. (case f_speed f of None \<Rightarrow> 0 | Some v \<Rightarrow> v) \<ge> move_kph P) fixes"

definition analyse_cycles ::
  "string \<Rightarrow> gps_fix list \<Rightarrow> cycle_params \<Rightarrow> cycle list \<times> resume option" where
  "analyse_cycles asset fixes0 P =
     (let fixes = sort_key f_ts fixes0
      in if fixes = [] then ([], None)
         else
           let tms = map f_ts fixes;
               load_at = map (\<lambda>f. zone_at (f_lat f) (f_lon f) (load_zones P)) fixes;
               dump_at = map (\<lambda>f. zone_at (f_lat f) (f_lon f) (dump_zones P)) fixes;
               in_load = map (\<lambda>z. z \<noteq> None) load_at;
               in_dump = map (\<lambda>z. z \<noteq> None) dump_at;
               moving = moving_flags P fixes;
               ls = loaders_of (loader_fixes P) asset;
               load_runs = visits in_load tms (exit_s P);
               load_visits = filter (long_enough P) load_runs;
               dump_visits = filter (long_enough P) (visits in_dump tms (exit_s P));
               queue = (\<lambda>lv. queue_seconds tms fixes moving lv ls (pair_within_m P))
           in (cycle_loop P queue asset load_at dump_at dump_visits 0 load_visits,
               Some (resume_point P (last tms) (last in_load) load_runs)))"

definition compute_cycles :: "string \<Rightarrow> gps_fix list \<Rightarrow> cycle_params \<Rightarrow> cycle list" where
  "compute_cycles asset fixes P = fst (analyse_cycles asset fixes P)"

section \<open>Runs and visits\<close>

text \<open>Non-empty index ranges within [lo, hi], at least one index apart.\<close>

fun ranges_ok :: "nat \<Rightarrow> nat \<Rightarrow> (nat \<times> nat) list \<Rightarrow> bool" where
  "ranges_ok lo hi [] = True"
| "ranges_ok lo hi ((a, b) # rs) = (lo \<le> a \<and> a < b \<and> b \<le> hi \<and> ranges_ok (Suc b) hi rs)"

lemma ranges_ok_mono: "ranges_ok lo hi rs \<Longrightarrow> lo' \<le> lo \<Longrightarrow> hi \<le> hi' \<Longrightarrow> ranges_ok lo' hi' rs"
  by (induction rs arbitrary: lo lo') auto

lemma ranges_ok_snoc:
  "ranges_ok lo hi (rs @ [(a, b)]) \<longleftrightarrow>
     a < b \<and> b \<le> hi \<and> lo \<le> a \<and> ranges_ok lo hi rs \<and> (\<forall>(x, y) \<in> set rs. y < a)"
  by (induction rs arbitrary: lo) force+

lemma length_take_drop_While: "length (takeWhile P xs) + length (dropWhile P xs) = length xs"
  by (metis length_append takeWhile_dropWhile_id)

lemma runs_ok:
  "ranges_ok i (i + length bs) (runs i bs) \<and>
   (bs \<noteq> [] \<longrightarrow> \<not> hd bs \<longrightarrow> ranges_ok (Suc i) (i + length bs) (runs i bs))"
proof (induction i bs rule: runs.induct)
  case (2 i b bs)
  show ?case
  proof (cases b)
    case False
    with "2.IH"(1) show ?thesis by (auto intro: ranges_ok_mono)
  next
    case True
    let ?k = "Suc (length (takeWhile id bs))"
    have len: "i + ?k + length (dropWhile id bs) = i + length (b # bs)"
      using length_take_drop_While [of id bs] by simp
    have "ranges_ok (Suc (i + ?k)) (i + length (b # bs)) (runs (i + ?k) (dropWhile id bs))"
    proof (cases "dropWhile id bs")
      case (Cons x xs)
      then have "\<not> hd (dropWhile id bs)" using hd_dropWhile [of id bs] by simp
      moreover have "\<not> \<not> b" using True by simp
      note "2.IH"(2) [OF this refl, unfolded len]
      moreover have "dropWhile id bs \<noteq> []" using Cons by simp
      ultimately show ?thesis by blast
    next
      case Nil
      show ?thesis unfolding Nil by (simp only: runs.simps ranges_ok.simps)
    qed
    with True len show ?thesis by (auto simp: Let_def)
  qed
qed simp

lemma runs_true:
  "(a, b) \<in> set (runs i bs) \<Longrightarrow> a \<le> k \<Longrightarrow> k < b \<Longrightarrow> i \<le> k \<and> k < i + length bs \<and> bs ! (k - i)"
proof (induction i bs rule: runs.induct)
  case (2 i x bs)
  show ?case
  proof (cases x)
    case False
    with 2 have "Suc i \<le> k \<and> k < Suc i + length bs \<and> bs ! (k - Suc i)" by auto
    then show ?thesis by (auto simp: nth_Cons')
  next
    case True
    let ?k = "Suc (length (takeWhile id bs))"
    have len: "i + ?k + length (dropWhile id bs) = i + length (x # bs)"
      using length_take_drop_While [of id bs] by simp
    show ?thesis
    proof (cases "(a, b) = (i, i + ?k)")
      case first: True
      have "takeWhile id bs ! (k - i - 1)" if "k - i \<noteq> 0"
      proof -
        have "k - i - 1 < length (takeWhile id bs)" using first 2(4,5) that by auto
        from set_takeWhileD [OF nth_mem [OF this]] show ?thesis by simp
      qed
      with first 2(4,5) True len show ?thesis
        by (auto simp: nth_Cons' takeWhile_nth)
    next
      case False
      with 2(3) True have "(a, b) \<in> set (runs (i + ?k) (dropWhile id bs))"
        by (auto simp: Let_def)
      with "2.IH"(2) [OF _ refl] True 2(4,5)
      have k: "i + ?k \<le> k" "k < i + ?k + length (dropWhile id bs)" "dropWhile id bs ! (k - (i + ?k))"
        by auto
      then have "bs ! (k - i - 1)"
        using dropWhile_nth [of "k - (i + ?k)" id bs] by (simp add: algebra_simps)
      with k len show ?thesis by (auto simp: nth_Cons')
    qed
  qed
qed simp

lemma runs_cover:
  "k < length bs \<Longrightarrow> bs ! k \<Longrightarrow> \<exists>(a, b) \<in> set (runs i bs). a \<le> i + k \<and> i + k < b"
proof (induction i bs arbitrary: k rule: runs.induct)
  case (2 i x bs)
  show ?case
  proof (cases x)
    case False
    with 2(3,4) obtain j where "k = Suc j" "j < length bs" "bs ! j" by (cases k) auto
    with "2.IH"(1) [of j] False show ?thesis by auto
  next
    case True
    let ?k = "Suc (length (takeWhile id bs))"
    show ?thesis
    proof (cases "k < ?k")
      case False
      then obtain j where j: "k = ?k + j" by (metis le_iff_add not_less)
      have "j < length (dropWhile id bs)"
        using 2(3) j length_take_drop_While [of id bs] by simp
      moreover from this have "dropWhile id bs ! j"
        using 2(4) j dropWhile_nth [of j id bs] by (simp add: algebra_simps)
      ultimately obtain a b where "(a, b) \<in> set (runs (i + ?k) (dropWhile id bs))"
        "a \<le> i + ?k + j" "i + ?k + j < b"
        using "2.IH"(2) [OF _ refl, of j] True by auto
      with True j show ?thesis
        by (intro bexI [of _ "(a, b)"]) (simp_all add: Let_def algebra_simps)
    qed (use True in \<open>simp add: Let_def\<close>)
  qed
qed simp

text \<open>A visit read off the stream, and visits at least \<open>gap\<close> apart.\<close>

definition visit_ok :: "time list \<Rightarrow> visit \<Rightarrow> bool" where
  "visit_ok tms v \<longleftrightarrow> v_start v < v_end v \<and> v_end v \<le> length tms \<and> v_enter v = tms ! v_start v \<and>
     v_exit v = (if v_end v < length tms then tms ! v_end v else tms ! (v_end v - 1))"

definition apart :: "real \<Rightarrow> visit \<Rightarrow> visit \<Rightarrow> bool" where
  "apart gap v w \<longleftrightarrow> v_end v < v_start w \<and> total_seconds (v_enter w - v_exit v) \<ge> gap"

definition visits_ok :: "time list \<Rightarrow> real \<Rightarrow> visit list \<Rightarrow> bool" where
  "visits_ok tms gap vs \<longleftrightarrow> (\<forall>v \<in> set vs. visit_ok tms v) \<and> sorted_wrt (apart gap) vs"

lemma visit_ok_le: "sorted tms \<Longrightarrow> visit_ok tms v \<Longrightarrow> v_enter v \<le> v_exit v"
  by (auto simp: visit_ok_def sorted_iff_nth_mono)

lemma visit_exit_le:
  "sorted tms \<Longrightarrow> visit_ok tms v \<Longrightarrow> visit_ok tms w \<Longrightarrow> v_end v < v_start w \<Longrightarrow> v_exit v \<le> v_enter w"
  by (auto simp: visit_ok_def sorted_iff_nth_mono)

lemma add_run_ok:
  assumes tms: "sorted tms" and vs: "visits_ok tms gap vs" and r: "start < i" "i \<le> length tms"
    and after: "\<forall>v \<in> set vs. v_end v < start"
  shows "visits_ok tms gap (add_run tms gap vs (start, i)) \<and>
    (\<forall>v \<in> set (add_run tms gap vs (start, i)). v_end v \<le> i)"
proof (cases "vs \<noteq> [] \<and> total_seconds (tms ! start - v_exit (last vs)) < gap")
  case True
  then obtain us u where vs_eq: "vs = us @ [u]" by (metis append_butlast_last_id)
  have u: "visit_ok tms u" "v_end u < start" using vs after by (auto simp: vs_eq visits_ok_def)
  let ?e = "if i < length tms then tms ! i else tms ! (i - 1)"
  have "visit_ok tms (u\<lparr>v_exit := ?e, v_end := i\<rparr>)"
    using u r by (auto simp: visit_ok_def)
  moreover have "add_run tms gap vs (start, i) = us @ [u\<lparr>v_exit := ?e, v_end := i\<rparr>]"
    using True by (simp add: add_run_def vs_eq)
  ultimately show ?thesis
    using vs after r by (auto simp: visits_ok_def vs_eq sorted_wrt_append apart_def)
next
  case False
  let ?w = "\<lparr>v_enter = tms ! start, v_exit = (if i < length tms then tms ! i else tms ! (i - 1)),
     v_start = start, v_end = i\<rparr>"
  have w: "visit_ok tms ?w" using r by (simp add: visit_ok_def)
  have "apart gap v ?w" if "v \<in> set vs" for v
  proof -
    from that obtain us u where vs_eq: "vs = us @ [u]" by (metis append_butlast_last_id list.distinct(1) list.set_cases)
    have ge: "gap \<le> total_seconds (tms ! start - v_exit u)" using False by (simp add: vs_eq)
    have "v_exit v \<le> v_exit u"
    proof (cases "v = u")
      case False
      with that have "v \<in> set us" by (simp add: vs_eq)
      then have "v_end v < v_start u" "visit_ok tms v" "visit_ok tms u"
        using vs by (auto simp: visits_ok_def vs_eq sorted_wrt_append apart_def)
      from visit_exit_le [OF tms this(2,3,1)] visit_ok_le [OF tms this(3)] show ?thesis by simp
    qed simp
    then have "total_seconds (tms ! start - v_exit u) \<le> total_seconds (tms ! start - v_exit v)"
      by simp
    from order_trans [OF ge this] after that show ?thesis by (simp add: apart_def)
  qed
  moreover have "add_run tms gap vs (start, i) = vs @ [?w]"
    using False by (auto simp: add_run_def)
  ultimately show ?thesis
    using vs w after r by (auto simp: visits_ok_def sorted_wrt_append)
qed

lemma fold_runs_ok:
  assumes "sorted tms"
  shows "visits_ok tms gap vs \<Longrightarrow> ranges_ok lo (length tms) rs \<Longrightarrow> \<forall>v \<in> set vs. v_end v < lo \<Longrightarrow>
     visits_ok tms gap (foldl (add_run tms gap) vs rs)"
proof (induction rs arbitrary: vs lo)
  case (Cons r rs)
  obtain a b where r: "r = (a, b)" by (cases r) auto
  with Cons.prems have ab: "a < b" "b \<le> length tms" "\<forall>v \<in> set vs. v_end v < a" "ranges_ok (Suc b) (length tms) rs"
    by auto
  from add_run_ok [OF assms Cons.prems(1) ab(1-3)] Cons.IH [OF _ ab(4)] show ?case
    by (auto simp: r less_Suc_eq_le)
qed simp

lemma visits_visits_ok:
  assumes "sorted tms" and "length flags = length tms"
  shows "visits_ok tms gap (visits flags tms gap)"
proof -
  have "visits_ok tms gap []" by (simp add: visits_ok_def)
  from fold_runs_ok [OF assms(1) this, of 0 "runs 0 flags"] runs_ok [of 0 flags] assms(2)
  show ?thesis by (simp add: visits_def)
qed

text \<open>Every fix inside is in a visit, and a visit starts with a fix inside.\<close>

definition covered :: "visit list \<Rightarrow> nat \<Rightarrow> bool" where
  "covered vs k \<longleftrightarrow> (\<exists>v \<in> set vs. v_start v \<le> k \<and> k < v_end v)"

lemma add_run_covers:
  assumes "\<forall>v \<in> set vs. v_end v < start \<and> v_start v < v_end v" and "start < i"
    and "covered vs k \<or> start \<le> k \<and> k < i"
  shows "covered (add_run tms gap vs (start, i)) k"
proof (cases "vs \<noteq> [] \<and> total_seconds (tms ! start - v_exit (last vs)) < gap")
  case True
  then obtain us u where "vs = us @ [u]" by (metis append_butlast_last_id)
  with True assms show ?thesis by (auto simp: add_run_def covered_def)
next
  case False
  with assms(3) show ?thesis by (auto simp: add_run_def covered_def)
qed

lemma add_run_starts:
  "v_start ` set (add_run tms gap vs (start, i)) \<subseteq> insert start (v_start ` set vs)"
proof (cases "vs \<noteq> [] \<and> total_seconds (tms ! start - v_exit (last vs)) < gap")
  case True
  then obtain us u where "vs = us @ [u]" by (metis append_butlast_last_id)
  with True show ?thesis by (auto simp: add_run_def)
next
  case False
  then show ?thesis by (auto simp: add_run_def)
qed

lemma fold_runs_covers:
  assumes "sorted tms"
  shows "visits_ok tms gap vs \<Longrightarrow> ranges_ok lo (length tms) rs \<Longrightarrow> \<forall>v \<in> set vs. v_end v < lo \<Longrightarrow>
     covered vs k \<or> (\<exists>(a, b) \<in> set rs. a \<le> k \<and> k < b) \<Longrightarrow>
     covered (foldl (add_run tms gap) vs rs) k"
proof (induction rs arbitrary: vs lo)
  case (Cons r rs)
  obtain a b where r: "r = (a, b)" by (cases r) auto
  with Cons.prems have ab: "a < b" "b \<le> length tms" "\<forall>v \<in> set vs. v_end v < a" "ranges_ok (Suc b) (length tms) rs"
    by auto
  have "\<forall>v \<in> set vs. v_end v < a \<and> v_start v < v_end v"
    using Cons.prems(1) ab(3) by (simp add: visits_ok_def visit_ok_def)
  from add_run_covers [OF this ab(1), of k tms gap] Cons.prems(4)
  have "covered (add_run tms gap vs r) k \<or> (\<exists>(a, b) \<in> set rs. a \<le> k \<and> k < b)"
    by (auto simp: r)
  with add_run_ok [OF assms Cons.prems(1) ab(1-3)] Cons.IH [OF _ ab(4)] show ?case
    by (auto simp: r less_Suc_eq_le)
qed simp

lemma fold_runs_starts: "v_start ` set (foldl (add_run tms gap) vs rs) \<subseteq> fst ` set rs \<union> v_start ` set vs"
proof (induction rs arbitrary: vs)
  case (Cons r rs)
  obtain a b where r: "r = (a, b)" by (cases r) auto
  from Cons [of "add_run tms gap vs r"] add_run_starts [of tms gap vs a b] show ?case
    by (auto simp: r)
qed simp

lemma visits_start_inside:
  assumes "v \<in> set (visits flags tms gap)" shows "v_start v < length flags \<and> flags ! v_start v"
proof -
  have "v_start v \<in> fst ` set (runs 0 flags)"
    using assms fold_runs_starts [of tms gap "[]" "runs 0 flags"] by (auto simp: visits_def)
  then obtain b where ab: "(v_start v, b) \<in> set (runs 0 flags)" by force
  have "v_start v < b"
    using runs_ok [of 0 flags] ab
  proof -
    have "ranges_ok lo hi rs \<Longrightarrow> (x, y) \<in> set rs \<Longrightarrow> x < y" for lo hi rs and x y :: nat
      by (induction rs arbitrary: lo) auto
    with runs_ok [of 0 flags] ab show ?thesis by blast
  qed
  from runs_true [OF ab order_refl this] show ?thesis by simp
qed

lemma visits_cover:
  assumes "sorted tms" and "length flags = length tms" and "k < length flags" and "flags ! k"
  shows "covered (visits flags tms gap) k"
proof -
  have "visits_ok tms gap []" by (simp add: visits_ok_def)
  from fold_runs_covers [OF assms(1) this, of 0 "runs 0 flags" k] runs_ok [of 0 flags]
    runs_cover [OF assms(3,4), of 0] assms(2)
  show ?thesis by (simp add: visits_def)
qed

text \<open>The visits of a stream are its maximal stays. Each starts with a fix inside and ends with
  the first fix outside (or the last fix), every fix inside belongs to one, and two visits are at
  least the minimum exit time apart, so none of them is jitter of another.\<close>

theorem visits_are_separate_stays:
  assumes "sorted tms" and "length flags = length tms"
  shows "(\<forall>v \<in> set (visits flags tms gap). visit_ok tms v \<and> flags ! v_start v) \<and>
    sorted_wrt (apart gap) (visits flags tms gap) \<and>
    (\<forall>k < length flags. flags ! k \<longrightarrow> covered (visits flags tms gap) k)"
  using visits_visits_ok [OF assms] visits_start_inside visits_cover [OF assms]
  by (auto simp: visits_ok_def)

theorem visits_are_separate_stays_witness:
  "sorted_wrt (apart 15) (visits [True, False, True] [0, 5000000, 40000000] 15)"
  using visits_are_separate_stays [of "[0, 5000000, 40000000]" "[True, False, True]" 15] by simp

section \<open>Stops and the queue lie within the visit\<close>

definition stop_range :: "stop \<Rightarrow> nat \<times> nat" where
  "stop_range st = (s_start st, s_end st)"

lemma add_stop_ranges:
  assumes "ranges_ok lo hi (map stop_range out)" and "\<forall>st \<in> set out. s_end st < a"
    and "a < b" and "b \<le> hi" and "lo \<le> a"
  shows "ranges_ok lo hi (map stop_range (add_stop fixes out (a, b))) \<and>
    (\<forall>st \<in> set (add_stop fixes out (a, b)). s_end st \<le> b)"
proof (cases "out = []")
  case True
  with assms show ?thesis by (simp add: add_stop_def stop_range_def Let_def)
next
  case False
  then obtain us u where out: "out = us @ [u]" by (metis append_butlast_last_id)
  from assms(1) have u: "s_start u < s_end u" "ranges_ok lo hi (map stop_range us)" "lo \<le> s_start u"
    "\<forall>x \<in> set us. s_end x < s_start u"
    by (auto simp: out stop_range_def ranges_ok_snoc)
  have r2: "ranges_ok lo hi ((map stop_range us @ [stop_range u]) @ [(a, b)])"
    using assms u unfolding ranges_ok_snoc by (auto simp: out stop_range_def ranges_ok_snoc)
  show ?thesis
    using assms u r2 unfolding add_stop_def out Let_def
    by (auto simp: stop_range_def ranges_ok_snoc)
qed

lemma fold_stops_ranges:
  "ranges_ok lo hi (map stop_range out) \<Longrightarrow> ranges_ok lo' hi rs \<Longrightarrow> lo \<le> lo' \<Longrightarrow>
     \<forall>st \<in> set out. s_end st < lo' \<Longrightarrow> ranges_ok lo hi (map stop_range (foldl (add_stop fixes) out rs))"
proof (induction rs arbitrary: out lo')
  case (Cons r rs)
  obtain a b where r: "r = (a, b)" by (cases r) auto
  with Cons.prems have "\<forall>st \<in> set out. s_end st < a" "a < b" "b \<le> hi" "lo \<le> a" by auto
  note step = add_stop_ranges [OF Cons.prems(1) this, of "fixes"]
  have "ranges_ok lo hi (map stop_range (foldl (add_stop fixes) (add_stop fixes out r) rs))"
    by (rule Cons.IH [where lo' = "Suc b"]) (use step Cons.prems in \<open>auto simp: r less_Suc_eq_le\<close>)
  then show ?case by simp
qed simp

lemma stops_ranges:
  assumes "v_end v \<le> length moving" and "v_start v \<le> v_end v"
  shows "ranges_ok (v_start v) (v_end v) (map stop_range (stops fixes moving v))"
proof -
  have "ranges_ok (v_start v) (v_end v) (runs (v_start v) (map Not (slice (v_start v) (v_end v) moving)))"
    using runs_ok [of "v_start v" "map Not (slice (v_start v) (v_end v) moving)"] assms
    by (simp add: slice_def)
  then show ?thesis
    unfolding stops_def by (intro fold_stops_ranges [where lo' = "v_start v"]) auto
qed

lemma ranges_ok_nth:
  "ranges_ok lo hi rs \<Longrightarrow> i < length rs \<Longrightarrow> lo \<le> fst (rs ! i) \<and> fst (rs ! i) < snd (rs ! i) \<and> snd (rs ! i) \<le> hi"
proof (induction rs arbitrary: lo i)
  case (Cons r rs)
  obtain a b where r: "r = (a, b)" by (cases r) auto
  from Cons show ?case by (cases i) (force simp: r)+
qed simp

lemma ranges_ok_nth_less:
  "ranges_ok lo hi rs \<Longrightarrow> i < j \<Longrightarrow> j < length rs \<Longrightarrow> snd (rs ! i) < fst (rs ! j)"
proof (induction rs arbitrary: lo i j)
  case (Cons r rs)
  obtain a b where r: "r = (a, b)" by (cases r) auto
  then have rest: "ranges_ok (Suc b) hi rs" using Cons.prems(1) by simp
  from Cons.prems(2,3) obtain j' where j: "j = Suc j'" "j' < length rs" by (cases j) auto
  show ?case
  proof (cases i)
    case 0
    with ranges_ok_nth [OF rest j(2)] show ?thesis by (simp add: r j)
  next
    case (Suc i')
    with Cons.IH [OF rest, of i' j'] Cons.prems(2) show ?thesis by (simp add: j)
  qed
qed simp

lemma paired_stop_bound:
  "paired_stop tms ls pm k sts = Some (j, lid) \<Longrightarrow> k \<le> j \<and> j < k + length sts"
  by (induction tms ls pm k sts rule: paired_stop.induct)
    (auto split: if_splits option.splits)

lemma last_long_stop_bound: "sts \<noteq> [] \<Longrightarrow> last_long_stop tms sts < length sts"
  by (auto simp: last_long_stop_def split: option.splits dest!: find_Some_mem)

lemma queue_within_visit:
  assumes tms: "sorted tms" and v: "visit_ok tms v" and len: "length moving = length tms"
  shows "0 \<le> fst (queue_seconds tms fixes moving v ls pm) \<and>
    fst (queue_seconds tms fixes moving v ls pm) \<le> visit_length v"
proof -
  let ?sts = "stops fixes moving v"
  define paired where "paired = (if ls = [] then None else paired_stop tms ls pm 0 ?sts)"
  define k where "k = (case paired of Some (k, _) \<Rightarrow> k | None \<Rightarrow> last_long_stop tms ?sts)"
  have pos: "0 \<le> visit_length v" using visit_ok_le [OF tms v] by (simp add: visit_length_def)
  show ?thesis
  proof (cases "?sts = [] \<or> k = 0")
    case True
    then have "fst (queue_seconds tms fixes moving v ls pm) = 0"
      by (auto simp: queue_seconds_def Let_def k_def paired_def)
    with pos show ?thesis by simp
  next
    case False
    have r: "ranges_ok (v_start v) (v_end v) (map stop_range ?sts)"
      using v len by (intro stops_ranges) (auto simp: visit_ok_def)
    have k: "k < length ?sts"
      using False last_long_stop_bound [of ?sts tms] paired_stop_bound [of tms ls pm 0 ?sts]
      by (auto simp: k_def paired_def split: option.splits if_splits)
    have q: "fst (queue_seconds tms fixes moving v ls pm) =
        total_seconds (tms ! s_end (?sts ! (k - 1)) - tms ! s_start (?sts ! 0))"
      using False by (auto simp: queue_seconds_def Let_def k_def paired_def)
    have "s_end (?sts ! (k - 1)) < s_start (?sts ! k)"
      using ranges_ok_nth_less [OF r, of "k - 1" k] k False by (simp add: stop_range_def)
    moreover have "s_start (?sts ! k) < v_end v"
      using ranges_ok_nth [OF r, of k] k by (simp add: stop_range_def)
    moreover have "v_start v \<le> s_start (?sts ! 0)" and "s_start (?sts ! 0) < s_end (?sts ! 0)"
      using ranges_ok_nth [OF r, of 0] k False by (simp_all add: stop_range_def)
    moreover have "s_end (?sts ! 0) \<le> s_end (?sts ! (k - 1))"
    proof (cases "k - 1 = 0")
      case False
      moreover have "k - 1 < length ?sts" "?sts \<noteq> []" using k by auto
      ultimately show ?thesis
        using ranges_ok_nth_less [OF r, of 0 "k - 1"] ranges_ok_nth [OF r, of "k - 1"]
        by (simp add: stop_range_def)
    qed simp
    ultimately have "tms ! s_start (?sts ! 0) \<le> tms ! s_end (?sts ! (k - 1))"
      and "tms ! s_end (?sts ! (k - 1)) \<le> v_exit v" and "v_enter v \<le> tms ! s_start (?sts ! 0)"
      using tms v by (auto simp: visit_ok_def sorted_iff_nth_mono)
    then show ?thesis
      unfolding q visit_length_def by simp
  qed
qed

section \<open>Cycles\<close>

text \<open>The inputs the loop is run on: separate load visits long enough, and dump visits.\<close>

definition loop_ok :: "cycle_params \<Rightarrow> time list \<Rightarrow> visit list \<Rightarrow> visit list \<Rightarrow> bool" where
  "loop_ok P tms dumps vs \<longleftrightarrow> sorted tms \<and> visits_ok tms (exit_s P) vs \<and>
     (\<forall>v \<in> set vs. long_enough P v) \<and> (\<forall>d \<in> set dumps. visit_ok tms d)"

definition cycle_ok :: "cycle_params \<Rightarrow> cycle \<Rightarrow> bool" where
  "cycle_ok P c \<longleftrightarrow>
     queue_s c + load_s c + haul_s c + dump_s c + return_s c = cycle_time_s c \<and>
     0 \<le> queue_s c \<and> 0 \<le> load_s c \<and> 0 \<le> haul_s c \<and> 0 \<le> dump_s c \<and>
     visit_s P + exit_s P \<le> cycle_time_s c \<and> \<not> over_cap P (cycle_time_s c) \<and>
     cycle_time_s c = total_seconds (end_ts c - start_ts c)"

lemma loop_ok_tail: "loop_ok P tms dumps (v # vs) \<Longrightarrow> loop_ok P tms dumps vs"
  by (simp add: loop_ok_def visits_ok_def)

lemma build_cycle_ok:
  assumes ok: "loop_ok P tms dumps (lv # nxt # vs)" and d: "dump_between dumps lv nxt = Some dv"
    and q: "0 \<le> fst q" "fst q \<le> visit_length lv"
    and cap: "\<not> over_cap P (total_seconds (v_enter nxt - v_enter lv))"
  shows "cycle_ok P (build_cycle asset n lv nxt dv q load_at dump_at)"
proof -
  from find_Some_mem [OF d [unfolded dump_between_def]]
  have dv: "v_exit lv \<le> v_enter dv" "visit_ok tms dv" using ok by (auto simp: loop_ok_def)
  have "v_enter dv \<le> v_exit dv" using ok dv(2) visit_ok_le by (auto simp: loop_ok_def)
  moreover have "visit_s P \<le> visit_length lv" "exit_s P \<le> total_seconds (v_enter nxt - v_exit lv)"
    using ok by (auto simp: loop_ok_def long_enough_def visits_ok_def apart_def)
  ultimately show ?thesis
    using dv(1) q cap
    by (cases q) (auto simp: cycle_ok_def build_cycle_def visit_length_def total_seconds_diff max_def)
qed

lemma cycle_loop_ok:
  assumes q: "\<And>v. visit_ok tms v \<Longrightarrow> 0 \<le> fst (queue v) \<and> fst (queue v) \<le> visit_length v"
  shows "loop_ok P tms dumps vs \<Longrightarrow>
     \<forall>c \<in> set (cycle_loop P queue asset load_at dump_at dumps n vs). cycle_ok P c"
proof (induction vs arbitrary: n)
  case (Cons lv vs)
  show ?case
  proof (cases vs)
    case (Cons nxt ws)
    have "visit_ok tms lv" using Cons.prems by (simp add: loop_ok_def visits_ok_def)
    note ih = Cons.IH [OF loop_ok_tail [OF Cons.prems]]
    note build = build_cycle_ok [OF Cons.prems [unfolded Cons] _ q [THEN conjunct1, OF \<open>visit_ok tms lv\<close>]
        q [THEN conjunct2, OF \<open>visit_ok tms lv\<close>]]
    show ?thesis
      using ih build by (auto simp: Cons split: option.splits)
  qed simp
qed simp

lemma cycle_loop_order:
  "loop_ok P tms dumps vs \<Longrightarrow>
     sorted_wrt (\<lambda>c d. end_ts c \<le> start_ts d) (cycle_loop P queue asset load_at dump_at dumps n vs) \<and>
     (\<forall>c \<in> set (cycle_loop P queue asset load_at dump_at dumps n vs). v_enter (hd vs) \<le> start_ts c) \<and>
     map cycle_index (cycle_loop P queue asset load_at dump_at dumps n vs) =
       [n ..< n + length (cycle_loop P queue asset load_at dump_at dumps n vs)]"
proof (induction vs arbitrary: n)
  case (Cons lv vs)
  show ?case
  proof (cases vs)
    case (Cons nxt ws)
    have tms: "sorted tms" "visit_ok tms lv" "visit_ok tms nxt" "v_end lv < v_start nxt"
      using Cons.prems by (auto simp: loop_ok_def visits_ok_def Cons apart_def)
    have "v_enter lv \<le> v_enter nxt"
      using visit_exit_le [OF tms] visit_ok_le [OF tms(1,2)] by simp
    with Cons.IH [OF loop_ok_tail [OF Cons.prems], of n]
      Cons.IH [OF loop_ok_tail [OF Cons.prems], of "Suc n"]
    show ?thesis
      by (auto simp: Cons build_cycle_def upt_rec [of n] split: option.splits prod.splits)
  qed simp
qed simp

section \<open>The analysis of a stream\<close>

lemma visits_ok_filter: "visits_ok tms gap vs \<Longrightarrow> visits_ok tms gap (filter p vs)"
  by (simp add: visits_ok_def sorted_wrt_filter)

lemma analyse_cycles_run:
  assumes "fixes0 \<noteq> []"
  obtains tms queue load_at dump_at dumps load_runs ends_inside where
    "compute_cycles asset fixes0 P =
       cycle_loop P queue asset load_at dump_at dumps 0 (filter (long_enough P) load_runs)"
    "snd (analyse_cycles asset fixes0 P) = Some (resume_point P (last tms) ends_inside load_runs)"
    "loop_ok P tms dumps (filter (long_enough P) load_runs)" "visits_ok tms (exit_s P) load_runs"
    "\<And>v. visit_ok tms v \<Longrightarrow> 0 \<le> fst (queue v) \<and> fst (queue v) \<le> visit_length v"
    "sorted tms"
proof -
  let ?fx = "sort_key f_ts fixes0"
  let ?tms = "map f_ts ?fx"
  let ?at = "\<lambda>zs. map (\<lambda>f. zone_at (f_lat f) (f_lon f) zs) ?fx"
  let ?in = "\<lambda>zs. map (\<lambda>z. z \<noteq> None) (?at zs)"
  let ?lr = "visits (?in (load_zones P)) ?tms (exit_s P)"
  let ?ds = "filter (long_enough P) (visits (?in (dump_zones P)) ?tms (exit_s P))"
  let ?q = "\<lambda>lv. queue_seconds ?tms ?fx (moving_flags P ?fx) lv
     (loaders_of (loader_fixes P) asset) (pair_within_m P)"
  have ne: "?fx \<noteq> []" using assms by (metis length_0_conv length_sort)
  have srt: "sorted ?tms" by simp
  have v: "visits_ok ?tms (exit_s P) (visits (?in zs) ?tms (exit_s P))" for zs
    by (rule visits_visits_ok [OF srt]) simp
  have q: "0 \<le> fst (?q v) \<and> fst (?q v) \<le> visit_length v" if "visit_ok ?tms v" for v
    using srt that by (rule queue_within_visit) (simp add: moving_flags_def)
  have "loop_ok P ?tms ?ds (filter (long_enough P) ?lr)"
    using v [of "load_zones P"] v [of "dump_zones P"] srt
    by (auto simp: loop_ok_def visits_ok_filter) (auto simp: visits_ok_def)
  then show ?thesis
    by (intro that [of ?q "?at (load_zones P)" "?at (dump_zones P)" ?ds ?lr ?tms "last (?in (load_zones P))"])
      (use ne v q in \<open>simp_all add: compute_cycles_def analyse_cycles_def Let_def\<close>)
qed

lemma cycle_loop_ends:
  "loop_ok P tms dumps vs \<Longrightarrow> c \<in> set (cycle_loop P queue asset load_at dump_at dumps n vs) \<Longrightarrow>
     \<exists>v \<in> set vs. \<exists>w \<in> set vs. can_open P v \<and> apart (exit_s P) v w \<and> start_ts c = v_enter v \<and> end_ts c = v_enter w"
proof (induction vs arbitrary: n)
  case (Cons lv vs)
  show ?case
  proof (cases vs)
    case (Cons nxt ws)
    have ap: "apart (exit_s P) lv nxt" using Cons.prems(1) by (simp add: loop_ok_def visits_ok_def Cons)
    from Cons.prems(2) consider
        k where "c \<in> set (cycle_loop P queue asset load_at dump_at dumps k vs)"
      | dv where "can_open P lv" "c = build_cycle asset n lv nxt dv (queue lv) load_at dump_at"
      by (auto simp: Cons split: if_splits option.splits)
    then show ?thesis
    proof cases
      case 1
      from Cons.IH [OF loop_ok_tail [OF Cons.prems(1)] 1] show ?thesis by auto
    next
      case 2
      then have "start_ts c = v_enter lv" "end_ts c = v_enter nxt"
        by (simp_all add: build_cycle_def split: prod.splits)
      with ap 2(1) show ?thesis by (auto simp: Cons)
    qed
  qed (use Cons.prems in simp)
qed simp

lemma can_open_mono:
  "sorted tms \<Longrightarrow> visit_ok tms v \<Longrightarrow> visit_ok tms w \<Longrightarrow> apart gap v w \<Longrightarrow> can_open P v \<Longrightarrow> can_open P w"
  using visit_exit_le [of tms v w] visit_ok_le [of tms v]
  by (auto simp: can_open_def apart_def split: option.splits if_splits)

lemma visits_last_enter:
  assumes "sorted tms" and "visits_ok tms gap vs" and "v \<in> set vs"
  shows "v_enter v \<le> v_enter (last vs)"
proof -
  from assms(3) obtain us u where vs: "vs = us @ [u]" by (metis append_butlast_last_id list.distinct(1) list.set_cases)
  show ?thesis
  proof (cases "v = u")
    case False
    with assms(3) vs have "v \<in> set us" by simp
    with assms(2) have "visit_ok tms v" "visit_ok tms u" "v_end v < v_start u"
      by (auto simp: vs visits_ok_def sorted_wrt_append apart_def)
    from visit_exit_le [OF assms(1) this] visit_ok_le [OF assms(1) this(1)] show ?thesis
      by (simp add: vs)
  qed (simp add: vs)
qed

lemma resume_point_ts:
  assumes "visits_ok tms gap load_runs" and "sorted tms" and "w \<in> set load_runs" and "long_enough P w"
    and "can_open P w"
  shows "v_enter w \<le> r_ts (resume_point P (last tms) ends_inside load_runs)"
proof -
  let ?op = "filter (can_open P) (filter (long_enough P) load_runs)"
  have 1: "v_enter w \<le> v_enter (last ?op)"
    by (rule visits_last_enter [OF assms(2) visits_ok_filter [OF visits_ok_filter [OF assms(1)]]])
      (use assms(3-) in simp)
  have 2: "v_enter w \<le> v_enter (last load_runs)"
    by (rule visits_last_enter [OF assms(2,1,3)])
  have "v_start w < length tms" "v_enter w = tms ! v_start w"
    using assms(1,3) by (auto simp: visits_ok_def visit_ok_def)
  then have 3: "v_enter w \<le> last tms"
    using assms(2) by (cases "tms = []") (simp_all add: last_conv_nth sorted_iff_nth_mono)
  let ?p = "pending_visit P (last tms) ends_inside load_runs"
  have "r_ts (resume_base P (last tms) ?p ?op) \<in> {v_enter (last ?op), v_enter (last load_runs), last tms}"
    by (simp add: resume_base_def pending_visit_def)
  with 1 2 3 have "v_enter w \<le> r_ts (resume_base P (last tms) ?p ?op)" by auto
  then show ?thesis by (auto simp: resume_point_def Let_def)
qed

section \<open>Properties of the reported cycles\<close>

text \<open>A truck that loads for twenty seconds, dumps, and comes back to load.\<close>

definition square :: "real \<Rightarrow> json" where
  "square x = geojson [(x, 0), (x + 1, 0), (x + 1, 1), (x, 1)]"

definition demo_params :: cycle_params where
  "demo_params = \<lparr>load_zones = [(''L'', square 0)], dump_zones = [(''D'', square 2)], move_kph = 3,
     visit_s = 15, exit_s = 15, max_cycle_s = Some 3600, leading_entry_known = True,
     opens_from = None, loader_fixes = [], pair_within_m = 12\<rparr>"

definition spot :: "int \<Rightarrow> real \<Rightarrow> gps_fix" where
  "spot s x = \<lparr>f_ts = seconds s, f_lat = 1 / 2, f_lon = x, f_speed = None\<rparr>"

definition demo_stream :: "gps_fix list" where
  "demo_stream = [spot 0 (1 / 2), spot 20 5, spot 40 (5 / 2), spot 60 5, spot 80 (1 / 2), spot 100 5]"

lemma in_square: "in_shape (1 / 2) lon (square x) \<longleftrightarrow> x \<le> lon \<and> lon < x + 1"
  by (auto simp: in_shape_def ring_contains_def square_def)

lemma demo_cycle: "map start_ts (compute_cycles ''T'' demo_stream demo_params) = [0]"
  by (simp add: compute_cycles_def analyse_cycles_def demo_stream_def demo_params_def spot_def zone_at_def
      in_square Let_def visits_def add_run_def seconds_def total_seconds_def long_enough_def visit_length_def
      can_open_def over_cap_def dump_between_def build_cycle_def queue_seconds_def stops_def slice_def
      moving_flags_def loaders_of_def add_stop_def last_long_stop_def numeral_2_eq_2)

text \<open>C9: the segments of every reported cycle account for all of it. Queue, load, haul, dump and
  return add up exactly to the cycle time, which is the span from its start to its end; queue,
  load, haul and dump are never negative; the cycle is at least a minimum visit and a minimum
  exit long and never longer than the cap.\<close>

theorem cycle_segments_account_for_the_cycle:
  assumes "c \<in> set (compute_cycles asset fixes0 P)"
  shows "cycle_ok P c"
proof -
  have "fixes0 \<noteq> []" using assms by (auto simp: compute_cycles_def analyse_cycles_def)
  then show ?thesis
  proof (rule analyse_cycles_run [of fixes0 asset P])
    fix tms queue load_at dump_at dumps load_runs and ends_inside :: bool
    assume c: "compute_cycles asset fixes0 P =
        cycle_loop P queue asset load_at dump_at dumps 0 (filter (long_enough P) load_runs)"
      and ok: "loop_ok P tms dumps (filter (long_enough P) load_runs)"
      and q: "\<And>v. visit_ok tms v \<Longrightarrow> 0 \<le> fst (queue v) \<and> fst (queue v) \<le> visit_length v"
    from cycle_loop_ok [OF q ok] assms show ?thesis unfolding c by blast
  qed
qed

theorem cycle_segments_account_for_the_cycle_witness:
  "cycle_ok demo_params (hd (compute_cycles ''T'' demo_stream demo_params))"
  by (rule cycle_segments_account_for_the_cycle [of _ "''T''" demo_stream])
    (use demo_cycle in \<open>auto intro!: hd_in_set\<close>)

text \<open>Reported cycles of an asset follow one another without overlap and are numbered in
  order from zero.\<close>

theorem cycles_ordered_and_disjoint:
  "sorted_wrt (\<lambda>c d. end_ts c \<le> start_ts d) (compute_cycles asset fixes0 P) \<and>
   map cycle_index (compute_cycles asset fixes0 P) = [0 ..< length (compute_cycles asset fixes0 P)]"
proof (cases "fixes0 = []")
  case False
  then show ?thesis
  proof (rule analyse_cycles_run [of fixes0 asset P])
    fix tms queue load_at dump_at dumps load_runs and ends_inside :: bool
    assume c: "compute_cycles asset fixes0 P =
        cycle_loop P queue asset load_at dump_at dumps 0 (filter (long_enough P) load_runs)"
      and ok: "loop_ok P tms dumps (filter (long_enough P) load_runs)"
    show ?thesis
      using cycle_loop_order [OF ok, of queue asset load_at dump_at 0] unfolding c by simp
  qed
qed (simp add: compute_cycles_def analyse_cycles_def)

text \<open>Nothing reported lies past the resume point: every cycle ends at or before it, so a
  later run that restarts there rebuilds no cycle already reported and its cycles are final.\<close>

theorem reported_cycles_end_by_resume:
  assumes "analyse_cycles asset fixes0 P = (cycles, Some r)" and "c \<in> set cycles"
  shows "end_ts c \<le> r_ts r"
proof -
  have "fixes0 \<noteq> []" using assms by (auto simp: analyse_cycles_def)
  then show ?thesis
  proof (rule analyse_cycles_run [of fixes0 asset P])
    fix tms queue load_at dump_at dumps load_runs ends_inside
    assume c: "compute_cycles asset fixes0 P =
        cycle_loop P queue asset load_at dump_at dumps 0 (filter (long_enough P) load_runs)"
      and res: "snd (analyse_cycles asset fixes0 P) = Some (resume_point P (last tms) ends_inside load_runs)"
      and ok: "loop_ok P tms dumps (filter (long_enough P) load_runs)"
      and vs: "visits_ok tms (exit_s P) load_runs" and tms: "sorted tms"
    have "c \<in> set (cycle_loop P queue asset load_at dump_at dumps 0 (filter (long_enough P) load_runs))"
      using assms c by (simp add: compute_cycles_def)
    from cycle_loop_ends [OF ok this] obtain v w where vw: "v \<in> set load_runs" "w \<in> set load_runs"
      "long_enough P w" "can_open P v" "apart (exit_s P) v w" "end_ts c = v_enter w" by auto
    have "visit_ok tms v" "visit_ok tms w" using vs vw by (auto simp: visits_ok_def)
    from can_open_mono [OF tms this vw(5,4)] have "can_open P w" .
    with resume_point_ts [OF vs tms vw(2,3)] res assms(1) vw(6) show ?thesis by simp
  qed
qed

theorem reported_cycles_end_by_resume_witness:
  "\<exists>cycles r. analyse_cycles ''T'' demo_stream demo_params = (cycles, Some r) \<and> cycles \<noteq> [] \<and>
     end_ts (hd cycles) \<le> r_ts r"
proof -
  have "demo_stream \<noteq> []" by (simp add: demo_stream_def)
  then obtain r where "snd (analyse_cycles ''T'' demo_stream demo_params) = Some r"
    by (rule analyse_cycles_run [of _ "''T''" demo_params]) blast
  then obtain cycles where a: "analyse_cycles ''T'' demo_stream demo_params = (cycles, Some r)"
    by (cases "analyse_cycles ''T'' demo_stream demo_params") auto
  have "cycles \<noteq> []" using demo_cycle a by (auto simp: compute_cycles_def)
  with a reported_cycles_end_by_resume [OF a hd_in_set] show ?thesis by blast
qed

end
