(* ===== verification/Metrics.thy ===== *)
theory Metrics
  imports Cycles "HOL-Library.Multiset"
begin

text \<open>
  \<^verbatim>\<open>src/src/minemonitor/cycles/metrics.py\<close>: per-asset rollups over fixed time buckets. The
  dictionary of buckets is an association list by bucket start; a bucket's private sums are its
  fields \<open>m_speed_sum\<close> and \<open>m_speed_n\<close>.
\<close>

record bucket =
  m_site :: string
  m_asset :: string
  bucket_start :: time
  bucket_end :: time
  distance_m :: real
  moving_time_s :: real
  idle_time_s :: real
  max_speed_kph :: real
  m_speed_sum :: real
  m_speed_n :: nat
  zone_dwell_s :: "(string \<times> real) list"
  loads_completed :: nat

definition bucket_s :: int where
  "bucket_s = 300"

definition mean_speed_kph :: "bucket \<Rightarrow> real" where
  "mean_speed_kph b = (if m_speed_n b \<noteq> 0 then m_speed_sum b / real (m_speed_n b) else 0)"

text \<open>\<^verbatim>\<open>int(ts.timestamp())\<close> truncates towards zero; \<^verbatim>\<open>%\<close> is the floored remainder.\<close>

definition floor_bucket :: "time \<Rightarrow> int \<Rightarrow> time" where
  "floor_bucket ts width =
     (let epoch = (if 0 \<le> ts then ts div 1000000 else - ((- ts) div 1000000))
      in seconds (epoch - epoch mod width))"

definition new_bucket :: "string \<Rightarrow> string \<Rightarrow> int \<Rightarrow> time \<Rightarrow> bucket" where
  "new_bucket site asset width start =
     \<lparr>m_site = site, m_asset = asset, bucket_start = start, bucket_end = start + seconds width,
      distance_m = 0, moving_time_s = 0, idle_time_s = 0, max_speed_kph = 0, m_speed_sum = 0,
      m_speed_n = 0, zone_dwell_s = [], loads_completed = 0\<rparr>"

type_synonym buckets = "(time \<times> bucket) list"

definition bucket_for :: "string \<Rightarrow> string \<Rightarrow> int \<Rightarrow> buckets \<Rightarrow> time \<Rightarrow> bucket" where
  "bucket_for site asset width bs ts =
     (let start = floor_bucket ts width
      in case map_of bs start of Some b \<Rightarrow> b | None \<Rightarrow> new_bucket site asset width start)"

definition count_speed :: "real option \<Rightarrow> bucket \<Rightarrow> bucket" where
  "count_speed sp b =
     (case sp of None \<Rightarrow> b
      | Some v \<Rightarrow> b\<lparr>max_speed_kph := max (max_speed_kph b) v, m_speed_sum := m_speed_sum b + v,
                   m_speed_n := m_speed_n b + 1\<rparr>)"

definition add_dwell :: "real \<Rightarrow> gps_fix \<Rightarrow> bucket \<Rightarrow> zone_shape \<Rightarrow> bucket" where
  "add_dwell dt f b z =
     (case z of (zid, geom) \<Rightarrow>
        if in_shape (f_lat f) (f_lon f) geom
        then b\<lparr>zone_dwell_s := dict_put zid
               ((case map_of (zone_dwell_s b) zid of None \<Rightarrow> 0 | Some x \<Rightarrow> x) + dt) (zone_dwell_s b)\<rparr>
        else b)"

definition segment_s :: "gps_fix \<Rightarrow> gps_fix \<Rightarrow> real" where
  "segment_s f g = total_seconds (f_ts g - f_ts f)"

definition add_segment :: "int \<Rightarrow> zone_shape list \<Rightarrow> gps_fix \<Rightarrow> gps_fix \<Rightarrow> bucket \<Rightarrow> bucket" where
  "add_segment width zones f g b =
     (let dt = segment_s f g
      in if \<not> (0 < dt \<and> dt \<le> of_int width) then b
         else
           foldl (add_dwell dt f)
             (case f_speed f of
                None \<Rightarrow> b
              | Some v \<Rightarrow>
                  if v \<ge> move_threshold_kph
                  then b\<lparr>moving_time_s := moving_time_s b + dt,
                         distance_m := distance_m b + haversine_m (f_lat f) (f_lon f) (f_lat g) (f_lon g)\<rparr>
                  else b\<lparr>idle_time_s := idle_time_s b + dt\<rparr>) zones)"

fun metrics_loop ::
  "string \<Rightarrow> string \<Rightarrow> int \<Rightarrow> zone_shape list \<Rightarrow> buckets \<Rightarrow> gps_fix list \<Rightarrow> buckets" where
  "metrics_loop site asset width zones bs [] = bs"
| "metrics_loop site asset width zones bs (f # fs) =
     (let b = count_speed (f_speed f) (bucket_for site asset width bs (f_ts f));
          b = (case fs of [] \<Rightarrow> b | g # _ \<Rightarrow> add_segment width zones f g b)
      in metrics_loop site asset width zones (dict_put (floor_bucket (f_ts f) width) b bs) fs)"

definition count_load :: "int \<Rightarrow> buckets \<Rightarrow> cycle \<Rightarrow> buckets" where
  "count_load width bs c =
     (let key = floor_bucket (end_ts c) width
      in case map_of bs key of None \<Rightarrow> bs
         | Some b \<Rightarrow> dict_put key (b\<lparr>loads_completed := loads_completed b + 1\<rparr>) bs)"

definition compute_metrics ::
  "string \<Rightarrow> string \<Rightarrow> gps_fix list \<Rightarrow> zone_shape list \<Rightarrow> cycle list \<Rightarrow> int \<Rightarrow> bucket list" where
  "compute_metrics site asset fixes0 zones cycles width =
     (let fixes = sort_key f_ts fixes0
      in if fixes = [] then []
         else
           let bs = foldl (count_load width) (metrics_loop site asset width zones [] fixes) cycles
           in map snd (sort_key fst bs))"

section \<open>Buckets\<close>

lemma floor_bucket_range:
  assumes "0 < width" and "0 \<le> ts"
  shows "floor_bucket ts width \<le> ts \<and> ts < floor_bucket ts width + seconds width"
proof -
  let ?e = "ts div 1000000"
  have "0 \<le> ?e mod width" "?e mod width < width" using assms(1) by simp_all
  moreover have "?e * 1000000 \<le> ts" "ts < (?e + 1) * 1000000" by presburger+
  ultimately show ?thesis
    using assms(2) by (auto simp: floor_bucket_def Let_def seconds_def algebra_simps)
qed

text \<open>What a quantity adds up to over all the buckets.\<close>

definition total_of :: "(bucket \<Rightarrow> real) \<Rightarrow> buckets \<Rightarrow> real" where
  "total_of q bs = sum_list (map (\<lambda>(_, b). q b) bs)"

lemma total_of_put:
  "total_of q (dict_put k b bs) =
     total_of q bs + q b - (case map_of bs k of None \<Rightarrow> 0 | Some b' \<Rightarrow> q b')"
  by (induction k b bs rule: dict_put.induct) (auto simp: total_of_def)

text \<open>The time of a segment that is credited at all, by kind.\<close>

definition credited :: "int \<Rightarrow> (real option \<Rightarrow> bool) \<Rightarrow> gps_fix \<Rightarrow> gps_fix \<Rightarrow> real" where
  "credited width kind f g =
     (if kind (f_speed f) \<and> 0 < segment_s f g \<and> segment_s f g \<le> of_int width then segment_s f g else 0)"

fun credited_sum :: "int \<Rightarrow> (real option \<Rightarrow> bool) \<Rightarrow> gps_fix list \<Rightarrow> real" where
  "credited_sum width kind (f # g # fs) = credited width kind f g + credited_sum width kind (g # fs)"
| "credited_sum width kind fs = 0"

definition is_moving :: "real option \<Rightarrow> bool" where
  "is_moving sp = (case sp of None \<Rightarrow> False | Some v \<Rightarrow> v \<ge> move_threshold_kph)"

definition is_idle :: "real option \<Rightarrow> bool" where
  "is_idle sp = (case sp of None \<Rightarrow> False | Some v \<Rightarrow> v < move_threshold_kph)"

lemma fold_dwell_keeps:
  "moving_time_s (foldl (add_dwell dt f) b zs) = moving_time_s b"
  "idle_time_s (foldl (add_dwell dt f) b zs) = idle_time_s b"
  "loads_completed (foldl (add_dwell dt f) b zs) = loads_completed b"
  by (induction zs arbitrary: b) (simp_all add: add_dwell_def split: prod.splits)

lemma add_segment_times:
  "moving_time_s (add_segment width zones f g b) = moving_time_s b + credited width is_moving f g"
  "idle_time_s (add_segment width zones f g b) = idle_time_s b + credited width is_idle f g"
  by (auto simp: add_segment_def Let_def fold_dwell_keeps credited_def is_moving_def is_idle_def
      split: option.splits)

lemma count_speed_keeps [simp]:
  "moving_time_s (count_speed sp b) = moving_time_s b" "idle_time_s (count_speed sp b) = idle_time_s b"
  by (simp_all add: count_speed_def split: option.splits)

lemma bucket_for_total:
  assumes "q (new_bucket site asset width (floor_bucket ts width)) = 0"
  shows "(case map_of bs (floor_bucket ts width) of None \<Rightarrow> 0 | Some b \<Rightarrow> q b) =
    q (bucket_for site asset width bs ts)"
  using assms by (simp add: bucket_for_def Let_def split: option.splits)

lemma metrics_loop_total:
  assumes seg: "\<And>f g b. q (add_segment width zones f g b) = q b + credited width kind f g"
    and spd: "\<And>sp b. q (count_speed sp b) = q b"
    and new: "\<And>start. q (new_bucket site asset width start) = 0"
  shows "total_of q (metrics_loop site asset width zones bs fs) = total_of q bs + credited_sum width kind fs"
proof (induction fs arbitrary: bs)
  case (Cons f fs)
  have old: "(case map_of bs (floor_bucket (f_ts f) width) of None \<Rightarrow> 0 | Some b \<Rightarrow> q b) =
      q (bucket_for site asset width bs (f_ts f))"
    by (rule bucket_for_total) (rule new)
  show ?case
  proof (cases fs)
    case Nil
    then show ?thesis by (simp add: Let_def total_of_put old spd)
  next
    case (Cons g gs)
    let ?b = "add_segment width zones f g (count_speed (f_speed f) (bucket_for site asset width bs (f_ts f)))"
    have "total_of q (metrics_loop site asset width zones bs (f # fs)) =
        total_of q (dict_put (floor_bucket (f_ts f) width) ?b bs) + credited_sum width kind fs"
      using Cons.IH by (simp add: Let_def Cons)
    then show ?thesis by (simp add: total_of_put old seg spd Cons)
  qed
qed simp

text \<open>The keys: one bucket per start, under that start, for exactly the starts of the fixes.\<close>

definition keys_ok :: "buckets \<Rightarrow> bool" where
  "keys_ok bs \<longleftrightarrow> distinct (map fst bs) \<and> (\<forall>(k, b) \<in> set bs. bucket_start b = k)"

lemma set_dict_put_sub: "set (dict_put k v d) \<subseteq> insert (k, v) (set d)"
  by (induction k v d rule: dict_put.induct) auto

lemma keys_ok_put: "keys_ok bs \<Longrightarrow> bucket_start b = k \<Longrightarrow> keys_ok (dict_put k b bs)"
  using set_dict_put_sub [of k b bs] by (auto simp: keys_ok_def)

lemma keys_ok_get: "keys_ok bs \<Longrightarrow> map_of bs k = Some b \<Longrightarrow> bucket_start b = k"
  by (auto simp: keys_ok_def dest: map_of_SomeD)

lemma fold_dwell_start: "bucket_start (foldl (add_dwell dt f) b zs) = bucket_start b"
  by (induction zs arbitrary: b) (simp_all add: add_dwell_def split: prod.splits)

lemma step_start [simp]:
  "bucket_start (add_segment width zones f g b) = bucket_start b"
  "bucket_start (count_speed sp b) = bucket_start b"
  by (simp_all add: add_segment_def Let_def fold_dwell_start count_speed_def split: option.splits)

lemma bucket_for_start: "keys_ok bs \<Longrightarrow> bucket_start (bucket_for site asset width bs ts) = floor_bucket ts width"
  by (auto simp: bucket_for_def Let_def new_bucket_def keys_ok_get split: option.splits)

lemma metrics_loop_keys:
  "keys_ok bs \<Longrightarrow> keys_ok (metrics_loop site asset width zones bs fs) \<and>
     fst ` set (metrics_loop site asset width zones bs fs) =
       fst ` set bs \<union> (\<lambda>f. floor_bucket (f_ts f) width) ` set fs"
proof (induction fs arbitrary: bs)
  case (Cons f fs)
  let ?b = "count_speed (f_speed f) (bucket_for site asset width bs (f_ts f))"
  let ?b' = "case fs of [] \<Rightarrow> ?b | g # _ \<Rightarrow> add_segment width zones f g ?b"
  have "bucket_start ?b' = floor_bucket (f_ts f) width"
    using bucket_for_start [OF Cons.prems] by (simp split: list.split)
  from Cons.IH [OF keys_ok_put [OF Cons.prems this]] show ?case
    by (simp add: Let_def keys_dict_put)
qed simp

lemma count_load_keys:
  "keys_ok bs \<Longrightarrow> keys_ok (foldl (count_load width) bs cs) \<and>
     fst ` set (foldl (count_load width) bs cs) = fst ` set bs"
proof (induction cs arbitrary: bs)
  case (Cons c cs)
  have "keys_ok (count_load width bs c) \<and> fst ` set (count_load width bs c) = fst ` set bs"
    using Cons.prems
    by (auto simp: count_load_def Let_def keys_dict_put intro!: keys_ok_put dest: keys_ok_get
        split: option.splits) (force dest: map_of_SomeD)+
  with Cons.IH [of "count_load width bs c"] show ?case by simp
qed simp

lemma count_load_total:
  assumes "\<And>b n. q (b\<lparr>loads_completed := n\<rparr>) = q b"
  shows "total_of q (foldl (count_load width) bs cs) = total_of q bs"
proof (induction cs arbitrary: bs)
  case (Cons c cs)
  then show ?case
    by (simp add: count_load_def Let_def total_of_put assms split: option.splits)
qed simp

lemma total_of_sorted: "sum_list (map q (map snd (sort_key fst bs))) = total_of q bs"
proof -
  have "mset (map (\<lambda>(_, b). q b) (sort_key fst bs)) = mset (map (\<lambda>(_, b). q b) bs)" by simp
  then have "sum_list (map (\<lambda>(_, b). q b) (sort_key fst bs)) = sum_list (map (\<lambda>(_, b). q b) bs)"
    by (metis sum_mset_sum_list)
  then show ?thesis by (simp add: total_of_def split_def o_def)
qed

lemma keys_sorted:
  assumes "keys_ok bs"
  shows "map bucket_start (map snd (sort_key fst bs)) = sort (map fst bs)"
proof -
  have "map bucket_start (map snd (sort_key fst bs)) = map fst (sort_key fst bs)"
    using assms by (auto simp: keys_ok_def)
  also have "\<dots> = sort (map fst bs)"
    by (rule sym, rule properties_for_sort) simp_all
  finally show ?thesis .
qed

section \<open>Properties\<close>

text \<open>The buckets account for every second credited. The moving time over all buckets is the
  time of the segments that start at a moving fix and are no longer than a bucket, the idle time
  that of the segments starting at a slow fix; a fix without a speed is neither. There is one
  bucket for each start a fix falls in, in increasing order.\<close>

theorem metrics_account_for_time:
  "let bs = compute_metrics site asset fixes0 zones cycles width; fs = sort_key f_ts fixes0
   in sum_list (map moving_time_s bs) = credited_sum width is_moving fs \<and>
      sum_list (map idle_time_s bs) = credited_sum width is_idle fs \<and>
      sorted_wrt (<) (map bucket_start bs) \<and>
      set (map bucket_start bs) = (\<lambda>f. floor_bucket (f_ts f) width) ` set fixes0"
proof (cases "sort_key f_ts fixes0 = []")
  case True
  then have "fixes0 = []" by (metis length_0_conv length_sort)
  then show ?thesis by (simp add: compute_metrics_def)
next
  case False
  let ?fs = "sort_key f_ts fixes0"
  let ?loop = "metrics_loop site asset width zones [] ?fs"
  let ?bs = "foldl (count_load width) ?loop cycles"
  have c: "compute_metrics site asset fixes0 zones cycles width = map snd (sort_key fst ?bs)"
    using False by (simp add: compute_metrics_def Let_def)
  have "keys_ok []" by (simp add: keys_ok_def)
  note loop = metrics_loop_keys [OF this, of site asset width zones ?fs]
  note keys = count_load_keys [OF loop [THEN conjunct1], of width cycles]
  have m: "total_of moving_time_s ?bs = credited_sum width is_moving ?fs"
    using count_load_total [of moving_time_s width ?loop cycles]
      metrics_loop_total [of moving_time_s width zones is_moving site asset "[]" ?fs]
    by (simp add: add_segment_times new_bucket_def total_of_def)
  have i: "total_of idle_time_s ?bs = credited_sum width is_idle ?fs"
    using count_load_total [of idle_time_s width ?loop cycles]
      metrics_loop_total [of idle_time_s width zones is_idle site asset "[]" ?fs]
    by (simp add: add_segment_times new_bucket_def total_of_def)
  have "sorted_wrt (<) (sort (map fst ?bs))"
    using keys by (simp add: keys_ok_def strict_sorted_iff)
  moreover have "set (sort (map fst ?bs)) = (\<lambda>f. floor_bucket (f_ts f) width) ` set fixes0"
    using keys loop by simp
  ultimately show ?thesis
    unfolding Let_def c total_of_sorted m i keys_sorted [OF keys [THEN conjunct1]] by simp
qed

end
