(* ===== verification/RuleConfig.thy ===== *)
theory RuleConfig
  imports Prelude
begin

text \<open>
  \<^verbatim>\<open>src/src/minemonitor/rules/config.py\<close>: a zone's \<^verbatim>\<open>rules\<close> payload parsed into a typed
  configuration. The payload is JSON an administrator stores without validation, so the
  coercions \<^verbatim>\<open>int()\<close>, \<^verbatim>\<open>float()\<close>, \<^verbatim>\<open>str()\<close> and \<^verbatim>\<open>tuple()\<close> are modelled with the
  exceptions they raise. Not modelled: the texts \<^verbatim>\<open>inf\<close> and \<^verbatim>\<open>nan\<close> (a \<^verbatim>\<open>ValueError\<close> here),
  digits outside ASCII, and the exact text \<^verbatim>\<open>str()\<close> gives a float or a container: it is the
  fixed text \<open><repr>\<close> here, which like the real one is never the name of a severity. A rules
  payload carries no \<open>JTime\<close>: that constructor is for the instants the code itself writes.
\<close>

section \<open>Python's coercions\<close>

definition strip_sign :: "string \<Rightarrow> bool \<times> string" where
  "strip_sign s = (case s of
      [] \<Rightarrow> (False, [])
    | ch # r \<Rightarrow> if ch = CHR ''-'' then (True, r) else if ch = CHR ''+'' then (False, r) else (False, s))"

text \<open>Digits with single underscores between them.\<close>

definition digits_of :: "string \<Rightarrow> string option" where
  "digits_of s =
     (let parts = split_on (CHR ''_'') s
      in if list_all (\<lambda>p. p \<noteq> [] \<and> list_all is_digit p) parts then Some (concat parts) else None)"

definition py_int_of_str :: "string \<Rightarrow> py_error + int" where
  "py_int_of_str s =
     (let (neg, body) = strip_sign (strip s)
      in case digits_of body of
           None \<Rightarrow> Inl ValueError
         | Some ds \<Rightarrow> Inr (if neg then - digits_val ds else digits_val ds))"

definition split_exp :: "string \<Rightarrow> string \<times> string option" where
  "split_exp s = (let m = takeWhile (\<lambda>ch. ch \<noteq> CHR ''e'' \<and> ch \<noteq> CHR ''E'') s
     in (m, case drop (length m) s of [] \<Rightarrow> None | _ # r \<Rightarrow> Some r))"

definition opt_digits :: "string \<Rightarrow> string option" where
  "opt_digits s = (if s = [] then Some [] else digits_of s)"

definition mantissa :: "string \<Rightarrow> real option" where
  "mantissa s =
     (let a = takeWhile (\<lambda>ch. ch \<noteq> CHR ''.'') s;
          b = drop (Suc (length a)) s
      in if a = [] \<and> b = [] then None
         else case (opt_digits a, opt_digits b) of
             (Some x, Some y) \<Rightarrow>
               Some (of_int (digits_val x) + of_int (digits_val y) / 10 ^ length y)
           | _ \<Rightarrow> None)"

definition scale10 :: "real \<Rightarrow> int \<Rightarrow> real" where
  "scale10 x k = (if 0 \<le> k then x * 10 ^ nat k else x / 10 ^ nat (- k))"

definition py_float_of_str :: "string \<Rightarrow> py_error + real" where
  "py_float_of_str s =
     (let (neg, body) = strip_sign (strip s); (m, ex) = split_exp body
      in case mantissa m of
           None \<Rightarrow> Inl ValueError
         | Some x \<Rightarrow>
             (let v = (if neg then - x else x)
              in case ex of
                   None \<Rightarrow> Inr v
                 | Some es \<Rightarrow>
                     (let (eneg, eb) = strip_sign es
                      in case digits_of eb of
                           None \<Rightarrow> Inl ValueError
                         | Some ds \<Rightarrow>
                             Inr (scale10 v (if eneg then - digits_val ds else digits_val ds)))))"

text \<open>\<^verbatim>\<open>int(x)\<close> truncates a float towards zero.\<close>

definition trunc :: "real \<Rightarrow> int" where
  "trunc r = (if 0 \<le> r then \<lfloor>r\<rfloor> else \<lceil>r\<rceil>)"

fun py_int :: "json \<Rightarrow> py_error + int" where
  "py_int (JBool b) = Inr (if b then 1 else 0)"
| "py_int (JInt i) = Inr i"
| "py_int (JReal r) = Inr (trunc r)"
| "py_int (JStr s) = py_int_of_str s"
| "py_int (JTime _) = Inl ValueError"
| "py_int _ = Inl TypeError"

fun py_float :: "json \<Rightarrow> py_error + real" where
  "py_float (JBool b) = Inr (if b then 1 else 0)"
| "py_float (JInt i) = Inr (of_int i)"
| "py_float (JReal r) = Inr r"
| "py_float (JStr s) = py_float_of_str s"
| "py_float (JTime _) = Inl ValueError"
| "py_float _ = Inl TypeError"

fun py_str :: "json \<Rightarrow> string" where
  "py_str (JStr s) = s"
| "py_str JNull = ''None''"
| "py_str (JBool b) = (if b then ''True'' else ''False'')"
| "py_str (JInt i) = show_int i"
| "py_str _ = ''<repr>''"

fun py_tuple :: "json \<Rightarrow> py_error + json list" where
  "py_tuple (JArr xs) = Inr xs"
| "py_tuple (JStr s) = Inr (map (\<lambda>ch. JStr [ch]) s)"
| "py_tuple (JObj d) = Inr (map (\<lambda>(k, _). JStr k) d)"
| "py_tuple _ = Inl TypeError"

section \<open>The rule configuration of a zone\<close>

record rule_config =
  debounce_in :: int
  exit_debounce :: int
  hysteresis_m :: real
  min_entry_dwell_s :: real
  authorized_classes :: "json list option"
  speed_limit_kph :: "real option"
  overspeed_consecutive :: int
  dwell_s :: "real option"
  breach_severity :: string
  overspeed_severity :: string
  dwell_severity :: string

definition default_config :: rule_config where
  "default_config = \<lparr>debounce_in = 2, exit_debounce = 2, hysteresis_m = 15,
     min_entry_dwell_s = 0, authorized_classes = None, speed_limit_kph = None,
     overspeed_consecutive = 3, dwell_s = None, breach_severity = ''critical'',
     overspeed_severity = ''warning'', dwell_severity = ''warning''\<rparr>"

definition stationary_kph :: real where
  "stationary_kph = 3 / 2"

text \<open>\<^verbatim>\<open>r.get(k, default)\<close>, and \<^verbatim>\<open>r[k] if r.get(k) is not None else None\<close>.\<close>

definition get_or :: "dict \<Rightarrow> string \<Rightarrow> json \<Rightarrow> json" where
  "get_or r k d = (case map_of r k of None \<Rightarrow> d | Some v \<Rightarrow> v)"

definition get_present :: "dict \<Rightarrow> string \<Rightarrow> json option" where
  "get_present r k = (case map_of r k of None \<Rightarrow> None | Some v \<Rightarrow> if v = JNull then None else Some v)"

definition opt_float :: "dict \<Rightarrow> string \<Rightarrow> py_error + real option" where
  "opt_float r k = (case get_present r k of
      None \<Rightarrow> Inr None
    | Some v \<Rightarrow> and_then (py_float v) (\<lambda>x. Inr (Some x)))"

definition parse_rules :: "string \<Rightarrow> dict option \<Rightarrow> py_error + rule_config" where
  "parse_rules kind rules =
     (let r = (case rules of None \<Rightarrow> [] | Some d \<Rightarrow> d);
          authorized = get_present r ''authorized_classes''
      in and_then (py_int (get_or r ''debounce_in'' (JInt 2))) (\<lambda>din.
         and_then (py_int (get_or r ''exit_debounce'' (JInt 2))) (\<lambda>dout.
         and_then (py_float (get_or r ''hysteresis_m'' (JReal 15))) (\<lambda>hyst.
         and_then (opt_float r ''min_entry_dwell_s'') (\<lambda>med.
         and_then (case authorized of
                     None \<Rightarrow> Inr None
                   | Some v \<Rightarrow> and_then (py_tuple v) (\<lambda>xs. Inr (Some xs))) (\<lambda>auth.
         and_then (opt_float r ''speed_limit_kph'') (\<lambda>lim.
         and_then (py_int (get_or r ''overspeed_consecutive'' (JInt 3))) (\<lambda>oc.
         and_then (opt_float r ''dwell_s'') (\<lambda>dw.
         Inr \<lparr>debounce_in = din, exit_debounce = dout, hysteresis_m = hyst,
              min_entry_dwell_s = (case med of None \<Rightarrow> 0 | Some x \<Rightarrow> x),
              authorized_classes = auth, speed_limit_kph = lim,
              overspeed_consecutive = oc, dwell_s = dw,
              breach_severity = py_str (get_or r ''severity'' (JStr ''critical'')),
              overspeed_severity = py_str (get_or r ''severity'' (JStr ''warning'')),
              dwell_severity = py_str (get_or r ''severity'' (JStr ''warning''))\<rparr>)))))))))"

lemma parse_rules_defaults: "parse_rules kind None = Inr default_config"
  by (simp add: parse_rules_def default_config_def get_or_def get_present_def opt_float_def Let_def)

text \<open>A payload cannot depend on its zone's kind, and keys the parser does not read are ignored.\<close>

definition rule_keys :: "string list" where
  "rule_keys = [''debounce_in'', ''exit_debounce'', ''hysteresis_m'', ''min_entry_dwell_s'',
     ''authorized_classes'', ''speed_limit_kph'', ''overspeed_consecutive'', ''dwell_s'', ''severity'']"

lemma parse_rules_cong:
  assumes "\<And>k. k \<in> set rule_keys \<Longrightarrow> map_of r k = map_of r' k"
  shows "parse_rules kind (Some r) = parse_rules kind' (Some r')"
proof -
  have "get_or r k d = get_or r' k d" and "get_present r k = get_present r' k"
    and "opt_float r k = opt_float r' k" if "k \<in> set rule_keys" for k d
    using assms [OF that] by (simp_all add: get_or_def get_present_def opt_float_def)
  then show ?thesis by (simp add: parse_rules_def rule_keys_def)
qed

lemma parse_rules_unknown_key:
  "k \<notin> set rule_keys \<Longrightarrow> parse_rules kind (Some (dict_put k v r)) = parse_rules kind (Some r)"
  by (rule parse_rules_cong) auto

text \<open>A number stored as null is a \<^verbatim>\<open>TypeError\<close> for the three integer keys and the hysteresis.\<close>

lemma parse_rules_null_debounce:
  "map_of r ''debounce_in'' = Some JNull \<Longrightarrow> parse_rules kind (Some r) = Inl TypeError"
  by (simp add: parse_rules_def get_or_def Let_def)

end
