(* ===== verification/ZoneEngine.thy ===== *)
theory ZoneEngine
  imports RuleConfig
begin

text \<open>
  \<^verbatim>\<open>src/src/minemonitor/zones/engine.py\<close>: the debounce and hysteresis machine that turns the
  raw membership of each fix into confirmed entries and exits of one asset and one zone,
  over the row \<^verbatim>\<open>AssetZoneState\<close> of \<^verbatim>\<open>storage/models.py\<close>. The specification side describes the
  same decisions over the history of fixes, without counters; the refinement lemmas say the
  counters are exactly what the history says they are.
\<close>

section \<open>The row and the step\<close>

record zone_state =
  inside :: bool
  consec_in :: int
  consec_out :: int
  entered_at :: "time option"
  overspeed_consec :: int
  overspeed_fired :: bool
  stationary_since :: "time option"
  dwell_fired :: bool
  last_ts :: "time option"

definition new_zone_state :: zone_state where
  "new_zone_state = \<lparr>inside = False, consec_in = 0, consec_out = 0, entered_at = None,
     overspeed_consec = 0, overspeed_fired = False, stationary_since = None,
     dwell_fired = False, last_ts = None\<rparr>"

datatype transition = Entry | Exit

text \<open>\<^verbatim>\<open>dist_outside_m > cfg.hysteresis_m\<close>, where \<open>None\<close> is \<^verbatim>\<open>math.inf\<close>.\<close>

definition beyond :: "real option \<Rightarrow> real \<Rightarrow> bool" where
  "beyond d h = (case d of None \<Rightarrow> True | Some x \<Rightarrow> x > h)"

definition gap_breaks :: "real option \<Rightarrow> time option \<Rightarrow> time \<Rightarrow> bool" where
  "gap_breaks max_gap_s prev ts =
     (case prev of None \<Rightarrow> False
      | Some l \<Rightarrow> ts < l \<or> (case max_gap_s of None \<Rightarrow> False | Some g \<Rightarrow> total_seconds (ts - l) > g))"

definition reset_counts :: "real option \<Rightarrow> time \<Rightarrow> zone_state \<Rightarrow> zone_state" where
  "reset_counts max_gap_s ts s =
     (if gap_breaks max_gap_s (last_ts s) ts then s\<lparr>consec_in := 0, consec_out := 0\<rparr> else s)"

definition count_fix :: "bool \<Rightarrow> real option \<Rightarrow> time \<Rightarrow> rule_config \<Rightarrow> zone_state \<Rightarrow> zone_state" where
  "count_fix inside_raw dist_outside_m ts cfg s =
     (if inside_raw then
        let s = (if \<not> inside s \<and> (consec_in s = 0 \<or> entered_at s = None)
                 then s\<lparr>entered_at := Some ts\<rparr> else s)
        in s\<lparr>consec_in := consec_in s + 1, consec_out := 0\<rparr>
      else
        let s = s\<lparr>consec_in := 0\<rparr>
        in if beyond dist_outside_m (hysteresis_m cfg)
           then s\<lparr>consec_out := consec_out s + 1\<rparr> else s)"

definition decide :: "time \<Rightarrow> rule_config \<Rightarrow> zone_state \<Rightarrow> zone_state \<times> transition option" where
  "decide ts cfg s =
     (if \<not> inside s then
        (case entered_at s of
           None \<Rightarrow> (s, None)
         | Some since \<Rightarrow>
             if consec_in s \<ge> debounce_in cfg \<and> total_seconds (ts - since) \<ge> min_entry_dwell_s cfg
             then (s\<lparr>inside := True, consec_out := 0\<rparr>, Some Entry)
             else (s, None))
      else if consec_out s \<ge> exit_debounce cfg then
        (s\<lparr>inside := False, entered_at := None, consec_in := 0, overspeed_consec := 0,
            overspeed_fired := False, stationary_since := None, dwell_fired := False\<rparr>, Some Exit)
      else (s, None))"

definition step ::
  "rule_config \<Rightarrow> real option \<Rightarrow> bool \<Rightarrow> real option \<Rightarrow> time \<Rightarrow> zone_state
    \<Rightarrow> zone_state \<times> transition option" where
  "step cfg max_gap_s inside_raw dist_outside_m ts s =
     decide ts cfg (count_fix inside_raw dist_outside_m ts cfg (reset_counts max_gap_s ts s))"

section \<open>Single steps\<close>

text \<open>Entry is reported only from outside, exit only from inside, and the row follows.\<close>

lemma step_transition:
  "step cfg gap raw d ts s = (s', t) \<Longrightarrow>
     (t = Some Entry \<longleftrightarrow> \<not> inside s \<and> inside s') \<and>
     (t = Some Exit \<longleftrightarrow> inside s \<and> \<not> inside s')"
  by (auto simp: step_def decide_def count_fix_def reset_counts_def Let_def
      split: if_splits option.splits)

lemma step_last_ts: "last_ts (fst (step cfg gap raw d ts s)) = last_ts s"
  by (simp add: step_def decide_def count_fix_def reset_counts_def Let_def split: option.splits)

text \<open>A fix in the hysteresis band never confirms an exit.\<close>

lemma band_fix_no_exit:
  assumes "inside s" and "consec_out s < exit_debounce cfg" and "0 < exit_debounce cfg"
    and "raw \<or> \<not> beyond d (hysteresis_m cfg)"
  shows "snd (step cfg gap raw d ts s) = None \<and> inside (fst (step cfg gap raw d ts s)) \<and>
    consec_out (fst (step cfg gap raw d ts s)) < exit_debounce cfg"
  using assms by (auto simp: step_def decide_def count_fix_def reset_counts_def Let_def
      split: if_splits option.splits)

section \<open>The machine over a history of fixes\<close>

text \<open>
  One fix of the history: its raw membership, its distance outside, its device time. The
  caller moves \<^verbatim>\<open>last_ts\<close> after each step (\<^verbatim>\<open>pipeline.process_position\<close>).
\<close>

type_synonym zfix = "bool \<times> real option \<times> time"

definition feed :: "rule_config \<Rightarrow> real option \<Rightarrow> zone_state \<Rightarrow> zfix \<Rightarrow> zone_state" where
  "feed cfg gap s e = (case e of (raw, d, ts) \<Rightarrow> (fst (step cfg gap raw d ts s))\<lparr>last_ts := Some ts\<rparr>)"

definition verdict :: "rule_config \<Rightarrow> real option \<Rightarrow> zone_state \<Rightarrow> zfix \<Rightarrow> transition option" where
  "verdict cfg gap s e = (case e of (raw, d, ts) \<Rightarrow> snd (step cfg gap raw d ts s))"

text \<open>The history newest fix first, so that a run of consecutive fixes is a prefix.\<close>

fun state_of :: "rule_config \<Rightarrow> real option \<Rightarrow> zfix list \<Rightarrow> zone_state" where
  "state_of cfg gap [] = new_zone_state"
| "state_of cfg gap (e # h) = feed cfg gap (state_of cfg gap h) e"

fun newest :: "zfix list \<Rightarrow> time option" where
  "newest [] = None"
| "newest ((raw, d, ts) # h) = Some ts"

text \<open>The newest consecutive inside fixes: broken by an outside fix, a silence or a clock step back.\<close>

fun run_in :: "real option \<Rightarrow> zfix list \<Rightarrow> zfix list" where
  "run_in gap [] = []"
| "run_in gap ((raw, d, ts) # h) =
     (if \<not> raw then []
      else (raw, d, ts) # (if gap_breaks gap (newest h) ts then [] else run_in gap h))"

text \<open>
  The newest fixes beyond the hysteresis band. A fix inside the polygon, a silence or a clock
  step back starts the count again; a fix in the band neither counts nor resets.
\<close>

fun run_out :: "rule_config \<Rightarrow> real option \<Rightarrow> zfix list \<Rightarrow> nat" where
  "run_out cfg gap [] = 0"
| "run_out cfg gap ((raw, d, ts) # h) =
     (if raw then 0
      else (if beyond d (hysteresis_m cfg) then 1 else 0) +
           (if gap_breaks gap (newest h) ts then 0 else run_out cfg gap h))"

fun fix_ts :: "zfix \<Rightarrow> time" where
  "fix_ts (raw, d, ts) = ts"

definition run_start :: "real option \<Rightarrow> zfix list \<Rightarrow> time option" where
  "run_start gap h = (if run_in gap h = [] then None else Some (fix_ts (last (run_in gap h))))"

text \<open>Confirmed membership, decided on the history alone.\<close>

fun confirmed :: "rule_config \<Rightarrow> real option \<Rightarrow> zfix list \<Rightarrow> bool" where
  "confirmed cfg gap [] = False"
| "confirmed cfg gap (e # h) =
     (if confirmed cfg gap h then int (run_out cfg gap (e # h)) < exit_debounce cfg
      else int (length (run_in gap (e # h))) \<ge> debounce_in cfg \<and>
           (case run_start gap (e # h) of None \<Rightarrow> False
            | Some since \<Rightarrow> total_seconds (fix_ts e - since) \<ge> min_entry_dwell_s cfg))"

section \<open>The counters are what the history says\<close>

lemma run_in_ne_raw: "run_in gap ((raw, d, ts) # h) \<noteq> [] \<longleftrightarrow> raw"
  by simp

lemma state_of_last_ts: "last_ts (state_of cfg gap h) = newest h"
  by (cases h rule: newest.cases) (simp_all add: new_zone_state_def feed_def)

definition row_matches :: "rule_config \<Rightarrow> real option \<Rightarrow> zfix list \<Rightarrow> zone_state \<Rightarrow> bool" where
  "row_matches cfg gap h s \<longleftrightarrow>
     inside s = confirmed cfg gap h \<and>
     consec_in s = int (length (run_in gap h)) \<and>
     consec_out s = int (run_out cfg gap h) \<and>
     last_ts s = newest h \<and>
     (\<not> inside s \<longrightarrow> run_in gap h \<noteq> [] \<longrightarrow> entered_at s = run_start gap h) \<and>
     (inside s \<longrightarrow> entered_at s \<noteq> None)"

lemma row_matches_new: "row_matches cfg gap [] new_zone_state"
  by (simp add: row_matches_def new_zone_state_def)

lemma run_start_Cons:
  "run_start gap ((True, d, ts) # h) =
     (if gap_breaks gap (newest h) ts \<or> run_in gap h = [] then Some ts else run_start gap h)"
  by (simp add: run_start_def)

lemma row_matches_feed:
  assumes m: "row_matches cfg gap h s" and din: "1 \<le> debounce_in cfg" and dout: "1 \<le> exit_debounce cfg"
  shows "row_matches cfg gap (e # h) (feed cfg gap s e)"
proof -
  obtain raw d ts where e: "e = (raw, d, ts)" by (cases e) auto
  show ?thesis
  proof (cases "confirmed cfg gap h")
    case True
    with m dout show ?thesis
      by (auto simp: e row_matches_def feed_def step_def decide_def count_fix_def reset_counts_def
          Let_def run_start_Cons split: option.splits)
  next
    case False
    with m din show ?thesis
      by (auto simp: e row_matches_def feed_def step_def decide_def count_fix_def reset_counts_def
          Let_def run_start_Cons run_start_def split: option.splits)
  qed
qed

lemma state_of_matches:
  "1 \<le> debounce_in cfg \<Longrightarrow> 1 \<le> exit_debounce cfg \<Longrightarrow> row_matches cfg gap h (state_of cfg gap h)"
  by (induction h) (simp_all add: row_matches_new row_matches_feed)

section \<open>Runs\<close>

text \<open>
  The row a machine run keeps: the counters are never negative and a confirmed asset has an
  entry instant.
\<close>

definition row_ok :: "zone_state \<Rightarrow> bool" where
  "row_ok s \<longleftrightarrow> 0 \<le> consec_in s \<and> 0 \<le> consec_out s \<and> (inside s \<longrightarrow> entered_at s \<noteq> None)"

interpretation zone_row: machine "feed cfg gap" row_ok for cfg gap
  by unfold_locales
    (auto simp: row_ok_def feed_def step_def decide_def count_fix_def reset_counts_def Let_def
      split: option.splits prod.splits)

text \<open>The transitions confirmed along a sequence of fixes, oldest first.\<close>

fun verdicts :: "rule_config \<Rightarrow> real option \<Rightarrow> zone_state \<Rightarrow> zfix list \<Rightarrow> transition list" where
  "verdicts cfg gap s [] = []"
| "verdicts cfg gap s (e # es) =
     (case verdict cfg gap s e of None \<Rightarrow> [] | Some t \<Rightarrow> [t]) @ verdicts cfg gap (feed cfg gap s e) es"

fun alternates :: "bool \<Rightarrow> transition list \<Rightarrow> bool" where
  "alternates ins [] = True"
| "alternates ins (t # ts) = ((t = Exit) = ins \<and> alternates (\<not> ins) ts)"

lemma verdict_feed_inside:
  "(verdict cfg gap s e = Some Entry \<longleftrightarrow> \<not> inside s \<and> inside (feed cfg gap s e)) \<and>
   (verdict cfg gap s e = Some Exit \<longleftrightarrow> inside s \<and> \<not> inside (feed cfg gap s e))"
proof -
  obtain raw d ts where e: "e = (raw, d, ts)" by (cases e) auto
  show ?thesis
    using step_transition [of cfg gap raw d ts s "fst (step cfg gap raw d ts s)"
        "snd (step cfg gap raw d ts s)"]
    by (simp add: e verdict_def feed_def)
qed

lemma run_machine_feed: "run_machine (feed cfg gap) s (rev h) = foldr (\<lambda>e s. feed cfg gap s e) h s"
  by (induction h) auto

lemma state_of_run: "state_of cfg gap h = run_machine (feed cfg gap) new_zone_state (rev h)"
  by (induction h) auto

section \<open>Properties\<close>

text \<open>C1: with debounce counts of at least one, the row the incremental engine keeps is exactly
  what the history of fixes says: confirmed membership, the length of the current run of inside
  fixes, the count of fixes beyond the hysteresis band, and the instant the entry began.\<close>

theorem engine_refines_history:
  assumes "1 \<le> debounce_in cfg" and "1 \<le> exit_debounce cfg"
  shows "inside (run_machine (feed cfg gap) new_zone_state (rev h)) = confirmed cfg gap h \<and>
    row_matches cfg gap h (run_machine (feed cfg gap) new_zone_state (rev h))"
  using state_of_matches [OF assms, of gap h] by (simp add: state_of_run row_matches_def)

theorem engine_refines_history_witness:
  "inside (run_machine (feed default_config None) new_zone_state
     (rev [(True, Some 0, 2000000), (True, Some 0, 1000000)]))"
  using engine_refines_history [of default_config None "[(True, Some 0, 2000000), (True, Some 0, 1000000)]"]
  by (simp add: default_config_def run_start_def gap_breaks_def)

text \<open>Whatever the configuration and the fixes, confirmed entries and exits of one asset and
  one zone alternate, an entry first when the asset starts outside, and the row ends inside
  exactly when the number of transitions says so.\<close>

theorem transitions_alternate:
  "alternates (inside s) (verdicts cfg gap s es) \<and>
   inside (run_machine (feed cfg gap) s es) = (inside s = even (length (verdicts cfg gap s es)))"
proof (induction es arbitrary: s)
  case (Cons e es)
  show ?case
  proof (cases "verdict cfg gap s e")
    case None
    then have "inside (feed cfg gap s e) = inside s"
      using verdict_feed_inside [of cfg gap s e] by auto
    with None Cons [of "feed cfg gap s e"] show ?thesis by simp
  next
    case (Some t)
    with verdict_feed_inside [of cfg gap s e] Cons [of "feed cfg gap s e"] show ?thesis
      by (cases t) auto
  qed
qed simp

text \<open>Fixes inside the polygon or within the hysteresis band never end a confirmed visit,
  however many arrive: noise around the boundary produces no exit.\<close>

theorem band_noise_never_exits:
  assumes "inside s" and "consec_out s < exit_debounce cfg" and "0 < exit_debounce cfg"
    and "\<forall>(raw, d, ts) \<in> set es. raw \<or> \<not> beyond d (hysteresis_m cfg)"
  shows "verdicts cfg gap s es = [] \<and> inside (run_machine (feed cfg gap) s es)"
  using assms
proof (induction es arbitrary: s)
  case (Cons e es)
  obtain raw d ts where e: "e = (raw, d, ts)" by (cases e) auto
  from Cons.prems have "raw \<or> \<not> beyond d (hysteresis_m cfg)" by (simp add: e)
  from band_fix_no_exit [OF Cons.prems(1-3) this, of gap ts]
  have v: "verdict cfg gap s e = None"
    and "inside (feed cfg gap s e)" "consec_out (feed cfg gap s e) < exit_debounce cfg"
    by (simp_all add: e verdict_def feed_def)
  with Cons.IH [of "feed cfg gap s e"] Cons.prems(3,4) v show ?case by simp
qed simp

theorem band_noise_never_exits_witness:
  "verdicts default_config None (new_zone_state\<lparr>inside := True, entered_at := Some 0\<rparr>)
     [(False, Some 10, 1), (True, Some 0, 2), (False, Some 15, 3)] = []"
  by (rule band_noise_never_exits [THEN conjunct1])
    (simp_all add: default_config_def new_zone_state_def beyond_def)

end
