(* ===== verification/Store.thy ===== *)
theory Store
  imports ZoneGeometry ZoneEngine
begin

text \<open>
  The rows the live path reads and writes (\<^verbatim>\<open>src/src/minemonitor/storage/models.py\<close>) and the
  repositories over them: \<^verbatim>\<open>storage/repositories.py\<close>, \<^verbatim>\<open>events/repository.py\<close>,
  \<^verbatim>\<open>notifications/outbox.py\<close> and \<^verbatim>\<open>zones/repository.py\<close>. A session is the record of its
  tables, lists in insertion order, returned updated; an exception leaves no new state because
  every caller rolls back. The ULID generator is the field \<open>ulid\<close> with the count of ids drawn.
  Ties of an \<^verbatim>\<open>ORDER BY\<close>, which the database leaves open, are in insertion order.
\<close>

section \<open>Rows\<close>

record position =
  p_site :: string
  p_asset :: string
  p_ts :: time
  p_received :: time
  p_lat :: real
  p_lon :: real
  p_alt :: "real option"
  p_speed :: "real option"
  p_heading :: "real option"
  p_hdop :: "real option"
  p_sats :: "int option"
  p_ignition :: "bool option"
  p_source :: "string option"

record event =
  e_id :: string
  e_site :: string
  e_ts :: time
  e_type :: string
  e_severity :: string
  e_asset :: "string option"
  e_zone :: "string option"
  e_source :: string
  e_summary :: text_pieces
  e_detail :: "dict option"
  e_evidence :: "dict option"
  e_advisory :: bool
  e_state :: string
  e_ack_by :: "string option"
  e_ack_at :: "time option"

record zone =
  z_id :: string
  z_site :: string
  z_name :: string
  z_kind :: string
  z_geometry :: json
  z_rules :: dict

record notification =
  n_id :: string
  n_site :: string
  n_event :: string
  n_channel :: string
  n_target :: string
  n_state :: string
  n_attempts :: int
  n_created :: time
  n_next :: time
  n_sent :: "time option"
  n_error :: "string option"

record cursor =
  cycles_from :: "time option"
  entry_known :: bool
  in_open_visit :: bool
  metrics_from :: "time option"
  through_ts :: "time option"
  dirty_from :: "time option"
  zones_sig :: "string option"
  updated_at :: "time option"

record settings =
  site_id :: string
  offline_threshold_s :: int
  max_future_skew_s :: int
  notify_min_severity :: string
  notify_webhook_url :: string
  notify_smtp_host :: string
  notify_email_to :: string
  notify_whatsapp_url :: string
  notify_whatsapp_to :: string
  notify_max_attempts :: int
  notify_retry_base_s :: int

record db =
  ulid :: "nat \<Rightarrow> string"
  ids_drawn :: nat
  site_rows :: "string list"
  asset_rows :: "((string \<times> string) \<times> string) list"
  zone_rows :: "zone list"
  positions :: "position list"
  events :: "event list"
  zone_states :: "((string \<times> string \<times> string) \<times> zone_state) list"
  notifications :: "notification list"
  cursors :: "((string \<times> string) \<times> cursor) list"

section \<open>Positions\<close>

definition same_fix :: "position \<Rightarrow> position \<Rightarrow> bool" where
  "same_fix p q \<longleftrightarrow> p_site p = p_site q \<and> p_asset p = p_asset q \<and> p_ts p = p_ts q"

definition fresh_cursor :: "time \<Rightarrow> cursor" where
  "fresh_cursor ts = \<lparr>cycles_from = None, entry_known = False, in_open_visit = False,
     metrics_from = None, through_ts = None, dirty_from = Some ts, zones_sig = None, updated_at = None\<rparr>"

text \<open>The conditional upsert: \<open>dirty_from\<close> is lowered only by a fix behind the cursor.\<close>

definition lower_dirty :: "time \<Rightarrow> cursor \<Rightarrow> cursor" where
  "lower_dirty ts c =
     (if (case through_ts c of None \<Rightarrow> True | Some t \<Rightarrow> ts < t) \<and>
         (case dirty_from c of None \<Rightarrow> True | Some t \<Rightarrow> ts < t)
      then c\<lparr>dirty_from := Some ts\<rparr> else c)"

definition mark_recompute_dirty :: "'a db_scheme \<Rightarrow> position \<Rightarrow> 'a db_scheme" where
  "mark_recompute_dirty d pos =
     (let key = (p_site pos, p_asset pos)
      in d\<lparr>cursors := dict_put key
             (case map_of (cursors d) key of
                None \<Rightarrow> fresh_cursor (p_ts pos)
              | Some c \<Rightarrow> lower_dirty (p_ts pos) c) (cursors d)\<rparr>)"

definition insert_position :: "'a db_scheme \<Rightarrow> position \<Rightarrow> bool \<times> 'a db_scheme" where
  "insert_position d pos =
     (if list_ex (same_fix pos) (positions d) then (False, d)
      else (True, mark_recompute_dirty (d\<lparr>positions := positions d @ [pos]\<rparr>) pos))"

definition served_site_ids :: "'a db_scheme \<Rightarrow> string \<Rightarrow> string list" where
  "served_site_ids d default_site_id = sort (remdups (default_site_id # site_rows d))"

definition list_positions ::
  "'a db_scheme \<Rightarrow> string \<Rightarrow> string option \<Rightarrow> nat \<Rightarrow> time option \<Rightarrow> time option \<Rightarrow> string
    \<Rightarrow> position list" where
  "list_positions d site asset limit since until order =
     (let rows = filter (\<lambda>p. p_site p = site \<and>
            (case asset of None \<Rightarrow> True | Some a \<Rightarrow> p_asset p = a) \<and>
            (case since of None \<Rightarrow> True | Some t \<Rightarrow> p_ts p \<ge> t) \<and>
            (case until of None \<Rightarrow> True | Some t \<Rightarrow> p_ts p < t)) (positions d)
      in take limit (if order = ''asc'' then sort_key p_ts rows else sort_key (\<lambda>p. - p_ts p) rows))"

text \<open>The assets of a site in index order, and the newest fix of each.\<close>

definition fixes_of :: "'a db_scheme \<Rightarrow> string \<Rightarrow> string \<Rightarrow> position list" where
  "fixes_of d site asset = filter (\<lambda>p. p_site p = site \<and> p_asset p = asset) (positions d)"

definition asset_ids_seen :: "'a db_scheme \<Rightarrow> string \<Rightarrow> string list" where
  "asset_ids_seen d site = sort (remdups (map p_asset (filter (\<lambda>p. p_site p = site) (positions d))))"

definition latest_positions :: "'a db_scheme \<Rightarrow> string \<Rightarrow> position list" where
  "latest_positions d site =
     List.map_filter (\<lambda>a. max_by p_ts (fixes_of d site a)) (asset_ids_seen d site)"

section \<open>Events and the notification outbox\<close>

definition event_types :: "string list" where
  "event_types = [''zone_breach'', ''overspeed'', ''zone_dwell'', ''zone_occupancy'',
     ''asset_offline'', ''geofence_exit'', ''proximity'', ''bog_precursor'', ''belt_state'',
     ''access_granted'', ''access_denied'', ''search_missed'', ''metal_detected'', ''lab_anomaly'',
     ''lab_result_conflict'', ''generator_fault'', ''generator_unexpected_run'',
     ''camera_obstructed'', ''camera_offline'', ''source_clock_skew'', ''source_offline'',
     ''breach_notice_due'']"

definition severities :: "string list" where
  "severities = [''info'', ''warning'', ''critical'']"

definition event_states :: "string list" where
  "event_states = [''open'', ''acknowledged'', ''resolved'']"

text \<open>What the \<^verbatim>\<open>EventV1\<close> model accepts; anything else is a \<^verbatim>\<open>ValidationError\<close>.\<close>

definition valid_event :: "event \<Rightarrow> bool" where
  "valid_event e \<longleftrightarrow> e_id e \<noteq> [] \<and> e_site e \<noteq> [] \<and> e_type e \<in> set event_types \<and>
     e_severity e \<in> set severities \<and> e_source e \<noteq> [] \<and> e_summary e \<noteq> [] \<and> e_advisory e \<and>
     e_state e \<in> set event_states"

definition event_v1 :: "event \<Rightarrow> py_error + event" where
  "event_v1 e = (if valid_event e then Inr e else Inl ValidationError)"

definition new_event_id :: "'a db_scheme \<Rightarrow> string \<times> 'a db_scheme" where
  "new_event_id d = (ulid d (ids_drawn d), d\<lparr>ids_drawn := ids_drawn d + 1\<rparr>)"

definition severity_order :: "string \<Rightarrow> int option" where
  "severity_order s = map_of [(''info'', 0), (''warning'', 1), (''critical'', 2)] s"

definition qualifies :: "string \<Rightarrow> string \<Rightarrow> bool" where
  "qualifies event_severity min_severity =
     (if min_severity = [] then False
      else (case severity_order event_severity of None \<Rightarrow> -1 | Some n \<Rightarrow> n) \<ge>
           (case severity_order min_severity of None \<Rightarrow> 99 | Some n \<Rightarrow> n))"

definition listed :: "string \<Rightarrow> string \<Rightarrow> (string \<times> string) list" where
  "listed channel text =
     map (\<lambda>t. (channel, t)) (filter (\<lambda>t. t \<noteq> []) (map strip (split_on (CHR '','') text)))"

definition channel_targets :: "settings \<Rightarrow> (string \<times> string) list" where
  "channel_targets s =
     (if notify_webhook_url s \<noteq> [] then [(''webhook'', notify_webhook_url s)] else []) @
     (if notify_smtp_host s \<noteq> [] \<and> notify_email_to s \<noteq> []
      then listed ''email'' (notify_email_to s) else []) @
     (if notify_whatsapp_url s \<noteq> [] \<and> notify_whatsapp_to s \<noteq> []
      then listed ''whatsapp'' (notify_whatsapp_to s) else [])"

definition queued_for :: "'a db_scheme \<Rightarrow> string \<Rightarrow> string \<times> string \<Rightarrow> bool" where
  "queued_for d event_id ct \<longleftrightarrow>
     list_ex (\<lambda>n. n_event n = event_id \<and> n_channel n = fst ct \<and> n_target n = snd ct) (notifications d)"

definition queue_notification ::
  "time \<Rightarrow> event \<Rightarrow> 'a db_scheme \<Rightarrow> string \<times> string \<Rightarrow> 'a db_scheme" where
  "queue_notification now ev d ct =
     (if queued_for d (e_id ev) ct then d
      else case new_event_id d of (i, d) \<Rightarrow>
        d\<lparr>notifications := notifications d @ [\<lparr>n_id = i, n_site = e_site ev, n_event = e_id ev,
            n_channel = fst ct, n_target = snd ct, n_state = ''pending'', n_attempts = 0,
            n_created = now, n_next = now, n_sent = None, n_error = None\<rparr>]\<rparr>)"

text \<open>The rows added are the growth of the table.\<close>

definition enqueue_for_event :: "settings \<Rightarrow> time \<Rightarrow> event \<Rightarrow> 'a db_scheme \<Rightarrow> nat \<times> 'a db_scheme" where
  "enqueue_for_event s now ev d =
     (if \<not> qualifies (e_severity ev) (notify_min_severity s) then (0, d)
      else let d' = foldl (queue_notification now ev) d (channel_targets s)
           in (length (notifications d') - length (notifications d), d'))"

definition persist_event :: "settings \<Rightarrow> time \<Rightarrow> 'a db_scheme \<Rightarrow> event \<Rightarrow> 'a db_scheme" where
  "persist_event s now d ev =
     snd (enqueue_for_event s now ev (d\<lparr>events := events d @ [ev\<lparr>e_advisory := True\<rparr>]\<rparr>))"

definition alarmed_since ::
  "'a db_scheme \<Rightarrow> string \<Rightarrow> string \<Rightarrow> time \<Rightarrow> string option \<Rightarrow> string option \<Rightarrow> bool" where
  "alarmed_since d site typ since asset source =
     list_ex (\<lambda>e. e_site e = site \<and> e_type e = typ \<and> e_ts e \<ge> since \<and>
        (case asset of None \<Rightarrow> True | Some a \<Rightarrow> e_asset e = Some a) \<and>
        (case source of None \<Rightarrow> True | Some x \<Rightarrow> e_source e = x)) (events d)"

definition list_events ::
  "'a db_scheme \<Rightarrow> string \<Rightarrow> string option \<Rightarrow> string option \<Rightarrow> nat \<Rightarrow> event list" where
  "list_events d site state severity limit =
     take limit (sort_key (\<lambda>e. - e_ts e) (filter (\<lambda>e. e_site e = site \<and>
        (case state of None \<Rightarrow> True | Some x \<Rightarrow> e_state e = x) \<and>
        (case severity of None \<Rightarrow> True | Some x \<Rightarrow> e_severity e = x)) (events d)))"

definition acknowledge_event ::
  "time \<Rightarrow> 'a db_scheme \<Rightarrow> string \<Rightarrow> string \<Rightarrow> string \<Rightarrow> event option \<times> 'a db_scheme" where
  "acknowledge_event now d site event_id acknowledged_by =
     (case List.find (\<lambda>e. e_id e = event_id) (events d) of
        None \<Rightarrow> (None, d)
      | Some row \<Rightarrow>
          if e_site row \<noteq> site then (None, d)
          else
            let upd = (\<lambda>e. e\<lparr>e_state := ''acknowledged'', e_ack_by := Some acknowledged_by,
                   e_ack_at := Some now\<rparr>)
            in (Some (upd row),
                d\<lparr>events := map (\<lambda>e. if e_id e = event_id then upd e else e) (events d)\<rparr>))"

section \<open>Zones and their per-asset state\<close>

definition list_zones :: "'a db_scheme \<Rightarrow> string \<Rightarrow> zone list" where
  "list_zones d site = filter (\<lambda>z. z_site z = site) (zone_rows d)"

definition zone_keyed :: "string \<Rightarrow> string \<Rightarrow> zone \<Rightarrow> bool" where
  "zone_keyed site zid z \<longleftrightarrow> z_id z = zid \<and> z_site z = site"

definition get_zone :: "'a db_scheme \<Rightarrow> string \<Rightarrow> string \<Rightarrow> zone option" where
  "get_zone d site zid = List.find (zone_keyed site zid) (zone_rows d)"

definition upsert_zone :: "'a db_scheme \<Rightarrow> zone \<Rightarrow> zone \<times> 'a db_scheme" where
  "upsert_zone d z =
     (z, case get_zone d (z_site z) (z_id z) of
           None \<Rightarrow> d\<lparr>zone_rows := zone_rows d @ [z]\<rparr>
         | Some _ \<Rightarrow> d\<lparr>zone_rows :=
             map (\<lambda>r. if zone_keyed (z_site z) (z_id z) r then z else r) (zone_rows d)\<rparr>)"

definition delete_zone :: "'a db_scheme \<Rightarrow> string \<Rightarrow> string \<Rightarrow> bool \<times> 'a db_scheme" where
  "delete_zone d site zid =
     (case get_zone d site zid of
        None \<Rightarrow> (False, d)
      | Some _ \<Rightarrow> (True, d\<lparr>zone_rows := filter (\<lambda>r. \<not> zone_keyed site zid r) (zone_rows d)\<rparr>))"

definition load_states :: "'a db_scheme \<Rightarrow> string \<Rightarrow> string \<Rightarrow> (string \<times> zone_state) list" where
  "load_states d site asset =
     map (\<lambda>((_, _, z), st). (z, st))
       (filter (\<lambda>((s, a, _), _). s = site \<and> a = asset) (zone_states d))"

definition get_or_create_state ::
  "'a db_scheme \<Rightarrow> string \<Rightarrow> string \<Rightarrow> string \<Rightarrow> zone_state \<times> 'a db_scheme" where
  "get_or_create_state d site asset zid =
     (case map_of (zone_states d) (site, asset, zid) of
        Some st \<Rightarrow> (st, d)
      | None \<Rightarrow> (new_zone_state,
          d\<lparr>zone_states := dict_put (site, asset, zid) new_zone_state (zone_states d)\<rparr>))"

definition put_state ::
  "'a db_scheme \<Rightarrow> string \<Rightarrow> string \<Rightarrow> string \<Rightarrow> zone_state \<Rightarrow> 'a db_scheme" where
  "put_state d site asset zid st =
     d\<lparr>zone_states := dict_put (site, asset, zid) st (zone_states d)\<rparr>"

section \<open>Insertion is idempotent\<close>

definition fix_key :: "position \<Rightarrow> string \<times> string \<times> time" where
  "fix_key p = (p_site p, p_asset p, p_ts p)"

lemma same_fix_key: "same_fix p q \<longleftrightarrow> fix_key p = fix_key q"
  by (auto simp: same_fix_def fix_key_def)

lemma list_ex_same_fix: "list_ex (same_fix p) ps \<longleftrightarrow> fix_key p \<in> fix_key ` set ps"
  by (auto simp: list_ex_iff same_fix_key image_iff)

lemma mark_recompute_dirty_simps [simp]:
  "positions (mark_recompute_dirty d p) = positions d"
  "events (mark_recompute_dirty d p) = events d"
  "zone_states (mark_recompute_dirty d p) = zone_states d"
  "zone_rows (mark_recompute_dirty d p) = zone_rows d"
  "asset_rows (mark_recompute_dirty d p) = asset_rows d"
  "notifications (mark_recompute_dirty d p) = notifications d"
  by (simp_all add: mark_recompute_dirty_def Let_def)

lemma lower_dirty_through [simp]: "through_ts (lower_dirty ts c) = through_ts c"
  by (simp add: lower_dirty_def)

definition fixes_distinct :: "'a db_scheme \<Rightarrow> bool" where
  "fixes_distinct d \<longleftrightarrow> distinct (map fix_key (positions d))"

lemma insert_position_distinct: "fixes_distinct d \<Longrightarrow> fixes_distinct (snd (insert_position d p))"
  by (auto simp: fixes_distinct_def insert_position_def list_ex_same_fix)

text \<open>The store as a machine fed with fixes: an ingest of a batch, a replay, a backfill.\<close>

definition store_ok :: "'a db_scheme \<Rightarrow> bool" where
  "store_ok d \<longleftrightarrow> fixes_distinct d \<and> distinct (map fst (cursors d))"

interpretation store: machine "\<lambda>d p. snd (insert_position d p)" "store_ok :: 'a db_scheme \<Rightarrow> bool"
proof
  fix d :: "'a db_scheme" and p
  assume "store_ok d"
  then show "store_ok (snd (insert_position d p))"
    by (auto simp: store_ok_def insert_position_distinct)
      (auto simp: insert_position_def mark_recompute_dirty_def Let_def)
qed

lemma insert_position_positions:
  "fix_key ` set (positions (snd (insert_position d p))) = insert (fix_key p) (fix_key ` set (positions d))"
  by (auto simp: insert_position_def list_ex_same_fix insert_absorb)

lemma insert_run_positions:
  "fix_key ` set (positions (run_machine (\<lambda>d p. snd (insert_position d p)) d ps)) =
   fix_key ` set (positions d) \<union> fix_key ` set ps"
  by (induction ps arbitrary: d) (auto simp: insert_position_positions)

section \<open>Properties\<close>

text \<open>C15: replaying a batch of fixes changes nothing. After any sequence of fixes is ingested,
  every one of them is stored under one key only, and ingesting the same sequence again, in the
  same session, leaves every table exactly as it is.\<close>

theorem replay_is_noop:
  defines "ingest \<equiv> run_machine (\<lambda>d p. snd (insert_position d p))"
  assumes "store_ok d"
  shows "ingest (ingest d ps) ps = ingest d ps \<and> store_ok (ingest d ps)"
proof
  have fixed: "ingest d' qs = d'" if "fix_key ` set qs \<subseteq> fix_key ` set (positions d')" for d' qs
    using that
  proof (induction qs)
    case (Cons q qs)
    then have "snd (insert_position d' q) = d'"
      by (simp add: insert_position_def list_ex_same_fix)
    with Cons show ?case by (simp add: ingest_def)
  qed (simp add: ingest_def)
  show "ingest (ingest d ps) ps = ingest d ps"
    by (rule fixed) (simp add: ingest_def insert_run_positions)
  show "store_ok (ingest d ps)"
    using assms by (simp add: ingest_def store.run_inv)
qed

text \<open>A session with empty tables, and a fix, for the concrete instances.\<close>

definition empty_db :: db where
  "empty_db = \<lparr>ulid = (\<lambda>n. ''ID'' @ show_nat n), ids_drawn = 0, site_rows = [], asset_rows = [],
     zone_rows = [], positions = [], events = [], zone_states = [], notifications = [], cursors = []\<rparr>"

definition demo_fix :: "time \<Rightarrow> real \<Rightarrow> real \<Rightarrow> real option \<Rightarrow> position" where
  "demo_fix ts lat lon speed = \<lparr>p_site = ''s1'', p_asset = ''HT-01'', p_ts = ts, p_received = ts,
     p_lat = lat, p_lon = lon, p_alt = None, p_speed = speed, p_heading = None, p_hdop = None,
     p_sats = None, p_ignition = Some True, p_source = None\<rparr>"

lemma store_ok_empty [simp]: "store_ok empty_db"
  by (simp add: store_ok_def fixes_distinct_def empty_db_def)

theorem replay_is_noop_witness:
  "run_machine (\<lambda>d p. snd (insert_position d p))
     (run_machine (\<lambda>d p. snd (insert_position d p)) empty_db [demo_fix 5 0 0 None, demo_fix 5 1 1 None])
     [demo_fix 5 0 0 None, demo_fix 5 1 1 None] =
   run_machine (\<lambda>d p. snd (insert_position d p)) empty_db [demo_fix 5 0 0 None, demo_fix 5 1 1 None]"
  using replay_is_noop [of empty_db "[demo_fix 5 0 0 None, demo_fix 5 1 1 None]"] by simp

section \<open>The newest fix of each asset\<close>

lemma asset_ids_seen_set: "set (asset_ids_seen d site) = {p_asset p | p. p \<in> set (positions d) \<and> p_site p = site}"
  by (auto simp: asset_ids_seen_def)

lemma fixes_of_set: "p \<in> set (fixes_of d site a) \<longleftrightarrow> p \<in> set (positions d) \<and> p_site p = site \<and> p_asset p = a"
  by (auto simp: fixes_of_def)

lemma latest_position_newest:
  "p \<in> set (latest_positions d site) \<Longrightarrow>
     p \<in> set (positions d) \<and> p_site p = site \<and>
     (\<forall>q \<in> set (positions d). p_site q = site \<and> p_asset q = p_asset p \<longrightarrow> p_ts q \<le> p_ts p)"
  by (auto simp: latest_positions_def set_map_filter_Some fixes_of_set dest!: max_by_Some)

lemma latest_position_assets: "map p_asset (latest_positions d site) = asset_ids_seen d site"
proof -
  have "map p_asset (List.map_filter (\<lambda>a. max_by p_ts (fixes_of d site a)) as) = as"
    if "\<forall>a \<in> set as. fixes_of d site a \<noteq> []" for as
    using that
  proof (induction as)
    case (Cons a as)
    then obtain p where p: "max_by p_ts (fixes_of d site a) = Some p"
      by (cases "max_by p_ts (fixes_of d site a)") auto
    with max_by_Some [OF p] Cons show ?case
      by (simp add: map_filter_simps fixes_of_set)
  qed (simp add: map_filter_simps)
  moreover have "\<forall>a \<in> set (asset_ids_seen d site). fixes_of d site a \<noteq> []"
    by (force simp: asset_ids_seen_def fixes_of_def filter_empty_conv)
  ultimately show ?thesis by (simp add: latest_positions_def)
qed

text \<open>The live map reads, for each asset a site has ever heard from and for no other, one
  fix, and that fix is the newest the store holds for the asset.\<close>

theorem latest_positions_one_newest_each:
  "distinct (map p_asset (latest_positions d site)) \<and>
   set (map p_asset (latest_positions d site)) =
     {p_asset p | p. p \<in> set (positions d) \<and> p_site p = site} \<and>
   (\<forall>p \<in> set (latest_positions d site). p \<in> set (positions d) \<and>
      (\<forall>q \<in> set (positions d). p_site q = site \<and> p_asset q = p_asset p \<longrightarrow> p_ts q \<le> p_ts p))"
proof (intro conjI)
  show "distinct (map p_asset (latest_positions d site))"
    by (simp add: latest_position_assets asset_ids_seen_def)
  show "set (map p_asset (latest_positions d site)) =
     {p_asset p | p. p \<in> set (positions d) \<and> p_site p = site}"
    by (simp only: latest_position_assets asset_ids_seen_set)
qed (use latest_position_newest in blast)

theorem latest_positions_one_newest_each_witness:
  "distinct (map p_asset (latest_positions (snd (insert_position empty_db (demo_fix 5 0 0 None))) ''s1''))"
  using latest_positions_one_newest_each [of "snd (insert_position empty_db (demo_fix 5 0 0 None))" "''s1''"]
  by (rule conjunct1)

end
