(* ===== verification/Recompute.thy ===== *)
theory Recompute
  imports Metrics Store
begin

text \<open>
  \<^verbatim>\<open>src/src/minemonitor/cycles/recompute.py\<close>: the incremental and the on-demand rebuild of
  haul cycles and metric buckets from stored positions. The session is the live path's record of
  tables with the two derived tables added; a haul cycle row is its site with the computed
  cycle, a metrics row is the computed bucket. The digest of the load and dump zones
  (\<^verbatim>\<open>sha256\<close> of their JSON), which is only compared, is a parameter. Advisory and row locks order
  concurrent rebuilders and leave no trace in the state of one of them.
\<close>

record rdb = db +
  haul_cycles :: "(string \<times> cycle) list"
  asset_metrics :: "bucket list"

record rebuild_window =
  w_cycles_from :: time
  w_entry_known :: bool
  w_metrics_from :: time
  w_open_through :: "time option"

record zone_set =
  zs_loads :: "zone_shape list"
  zs_dumps :: "zone_shape list"
  zs_geoms :: "zone_shape list"
  zs_sig :: string

record ctx =
  x_zones :: zone_set
  x_bucket_s :: int
  x_max_cycle :: int
  x_lookback :: int
  x_now :: time
  x_loader_ids :: "string list"
  x_pairing_m :: real

definition in_load_zone :: "zone_set \<Rightarrow> real \<Rightarrow> real \<Rightarrow> bool" where
  "in_load_zone zs lat lon = list_ex (\<lambda>(_, geom). in_shape lat lon geom) (zs_loads zs)"

definition zones_of ::
  "(zone_shape list \<times> zone_shape list \<Rightarrow> string) \<Rightarrow> 'a db_scheme \<Rightarrow> string \<Rightarrow> zone_set" where
  "zones_of digest d site =
     (let zs = sort_key z_id (list_zones d site);
          shape = (\<lambda>z. (z_id z, z_geometry z));
          loads = map shape (filter (\<lambda>z. z_kind z = ''loading'') zs);
          dumps = map shape (filter (\<lambda>z. z_kind z = ''unloading'') zs)
      in \<lparr>zs_loads = loads, zs_dumps = dumps, zs_geoms = map shape zs, zs_sig = digest (loads, dumps)\<rparr>)"

definition min_visit :: int where "min_visit = seconds 15"
definition min_exit :: int where "min_exit = seconds 15"

text \<open>\<^verbatim>\<open>_lookback\<close>: the cap, a visit, an exit and a minute of slack.\<close>

definition lookback :: "int \<Rightarrow> int" where
  "lookback max_cycle = seconds (max_cycle + 15 + 15 + 60)"

section \<open>Reading\<close>

definition fix_of :: "position \<Rightarrow> gps_fix" where
  "fix_of p = \<lparr>f_ts = p_ts p, f_lat = p_lat p, f_lon = p_lon p, f_speed = p_speed p\<rparr>"

definition track :: "'a db_scheme \<Rightarrow> string \<Rightarrow> string \<Rightarrow> gps_fix list" where
  "track d site asset = sort_key f_ts (map fix_of (fixes_of d site asset))"

definition first_fix_ts :: "'a db_scheme \<Rightarrow> string \<Rightarrow> string \<Rightarrow> time option" where
  "first_fix_ts d site asset = (case track d site asset of [] \<Rightarrow> None | f # _ \<Rightarrow> Some (f_ts f))"

definition newest_fix_ts :: "'a db_scheme \<Rightarrow> string \<Rightarrow> string \<Rightarrow> time option" where
  "newest_fix_ts d site asset =
     (let fs = track d site asset in if fs = [] then None else Some (f_ts (last fs)))"

definition has_fix_after :: "'a db_scheme \<Rightarrow> string \<Rightarrow> string \<Rightarrow> time option \<Rightarrow> bool" where
  "has_fix_after d site asset ts =
     list_ex (\<lambda>f. case ts of None \<Rightarrow> True | Some t \<Rightarrow> f_ts f > t) (track d site asset)"

definition read_fixes ::
  "'a db_scheme \<Rightarrow> string \<Rightarrow> string \<Rightarrow> time \<Rightarrow> time option \<Rightarrow> gps_fix list" where
  "read_fixes d site asset since until =
     (let fs = filter (\<lambda>f. f_ts f \<ge> since) (track d site asset)
      in case until of
           None \<Rightarrow> fs
         | Some u \<Rightarrow>
             filter (\<lambda>f. f_ts f < u) fs @
             (case filter (\<lambda>f. f_ts f \<ge> u) (track d site asset) of [] \<Rightarrow> [] | f # _ \<Rightarrow> [f]))"

definition fix_before ::
  "'a db_scheme \<Rightarrow> string \<Rightarrow> string \<Rightarrow> time \<Rightarrow> gps_fix list \<Rightarrow> gps_fix option" where
  "fix_before d site asset ts rows =
     (let before = filter (\<lambda>f. f_ts f < ts) rows
      in if before \<noteq> [] then Some (last before)
         else let all = filter (\<lambda>f. f_ts f < ts) (track d site asset)
              in if all = [] then None else Some (last all))"

definition entry_known_at ::
  "'a db_scheme \<Rightarrow> string \<Rightarrow> string \<Rightarrow> zone_set \<Rightarrow> time \<Rightarrow> gps_fix list \<Rightarrow> bool" where
  "entry_known_at d site asset zs ts rows =
     (if zs_loads zs = [] then True
      else case fix_before d site asset ts rows of
             None \<Rightarrow> True | Some f \<Rightarrow> \<not> in_load_zone zs (f_lat f) (f_lon f))"

definition cycle_fixes ::
  "'a db_scheme \<Rightarrow> string \<Rightarrow> string \<Rightarrow> time \<Rightarrow> gps_fix list \<Rightarrow> gps_fix list" where
  "cycle_fixes d site asset from rows =
     (let lead_from = from - min_exit
      in (case fix_before d site asset lead_from rows of None \<Rightarrow> [] | Some f \<Rightarrow> [f]) @
         filter (\<lambda>f. f_ts f \<ge> lead_from) rows)"

section \<open>Windows\<close>

definition lock_cursor :: "'a db_scheme \<Rightarrow> string \<Rightarrow> string \<Rightarrow> cursor \<times> 'a db_scheme" where
  "lock_cursor d site asset =
     (case map_of (cursors d) (site, asset) of
        Some c \<Rightarrow> (c, d)
      | None \<Rightarrow>
          let c = \<lparr>cycles_from = None, entry_known = False, in_open_visit = False, metrics_from = None,
                through_ts = None, dirty_from = None, zones_sig = None, updated_at = None\<rparr>
          in (c, d\<lparr>cursors := dict_put (site, asset) c (cursors d)\<rparr>))"

definition start_at :: "'a db_scheme \<Rightarrow> string \<Rightarrow> string \<Rightarrow> time \<Rightarrow> time \<times> bool" where
  "start_at d site asset ts =
     (case first_fix_ts d site asset of
        Some f \<Rightarrow> if f \<ge> ts then (f, True) else (ts, False)
      | None \<Rightarrow> (ts, False))"

definition metrics_start ::
  "'a rdb_scheme \<Rightarrow> string \<Rightarrow> string \<Rightarrow> time \<Rightarrow> bool \<Rightarrow> int \<Rightarrow> time" where
  "metrics_start d site asset start known width =
     (let m = floor_bucket start width
      in if known \<and> m < start \<and>
            list_ex (\<lambda>b. m_site b = site \<and> m_asset b = asset \<and> bucket_start b = m) (asset_metrics d)
         then m + seconds width else m)"

definition window_incremental ::
  "'a rdb_scheme \<Rightarrow> string \<Rightarrow> string \<Rightarrow> cursor \<Rightarrow> zone_set \<Rightarrow> int \<Rightarrow> int \<Rightarrow> rebuild_window option" where
  "window_incremental d site asset cur zs back width =
     (case (cycles_from cur, metrics_from cur) of
        (Some cf, Some mf) \<Rightarrow>
          let zones_changed = (zones_sig cur \<noteq> Some (zs_sig zs))
          in if dirty_from cur = None \<and> \<not> zones_changed \<and> \<not> has_fix_after d site asset (through_ts cur)
             then None
             else
               let known = (if zones_changed then entry_known_at d site asset zs cf []
                            else entry_known cur)
               in case dirty_from cur of
                    Some dirty \<Rightarrow>
                      let (start, known) =
                            (if dirty < cf + min_visit then start_at d site asset (dirty - back)
                             else (cf, known))
                      in Some \<lparr>w_cycles_from = start, w_entry_known = known,
                           w_metrics_from = min mf (floor_bucket dirty width - seconds width),
                           w_open_through = None\<rparr>
                  | None \<Rightarrow>
                      Some \<lparr>w_cycles_from = cf, w_entry_known = known, w_metrics_from = mf,
                        w_open_through =
                          (if known \<and> in_open_visit cur \<and> \<not> zones_changed then through_ts cur else None)\<rparr>
      | _ \<Rightarrow>
          (case (case dirty_from cur of Some t \<Rightarrow> Some t | None \<Rightarrow> newest_fix_ts d site asset) of
             None \<Rightarrow> None
           | Some anchor \<Rightarrow>
               let (start, known) = start_at d site asset (anchor - back)
               in Some \<lparr>w_cycles_from = start, w_entry_known = known,
                    w_metrics_from = metrics_start d site asset start known width,
                    w_open_through = None\<rparr>))"

definition window_on_demand ::
  "'a rdb_scheme \<Rightarrow> string \<Rightarrow> string \<Rightarrow> time option \<Rightarrow> int \<Rightarrow> int \<Rightarrow> rebuild_window option" where
  "window_on_demand d site asset start back width =
     (let begin = (case start of
            None \<Rightarrow> map_option (\<lambda>f. (f, True)) (first_fix_ts d site asset)
          | Some t \<Rightarrow> Some (start_at d site asset (t - back)))
      in case begin of
           None \<Rightarrow> None
         | Some (s, known) \<Rightarrow>
             Some \<lparr>w_cycles_from = s, w_entry_known = known,
               w_metrics_from = metrics_start d site asset s known width, w_open_through = None\<rparr>)"

definition still_in_open_visit :: "gps_fix list \<Rightarrow> rebuild_window \<Rightarrow> zone_set \<Rightarrow> int \<Rightarrow> bool" where
  "still_in_open_visit rows win zs max_cycle =
     (case w_open_through win of
        None \<Rightarrow> False
      | Some through \<Rightarrow>
          if zs_loads zs = [] \<or> rows = [] then False
          else if total_seconds (f_ts (last rows) - w_cycles_from win) \<ge> of_int max_cycle then False
          else list_all (\<lambda>f. in_load_zone zs (f_lat f) (f_lon f)) (filter (\<lambda>f. f_ts f > through) rows))"

section \<open>Loaders\<close>

definition loader_ids_of :: "'a db_scheme \<Rightarrow> string \<Rightarrow> string \<Rightarrow> string list" where
  "loader_ids_of d site loader_classes =
     (let classes = filter (\<lambda>c. c \<noteq> []) (map strip (split_on (CHR '','') loader_classes))
      in map (\<lambda>((_, a), _). a) (filter (\<lambda>((s, _), cls). s = site \<and> cls \<in> set classes) (asset_rows d)))"

fun load_spans ::
  "zone_set \<Rightarrow> bool \<Rightarrow> (time \<times> time) list \<Rightarrow> gps_fix list \<Rightarrow> (time \<times> time) list" where
  "load_spans zs in_run spans [] = spans"
| "load_spans zs in_run spans (f # fs) =
     (if \<not> in_load_zone zs (f_lat f) (f_lon f) then load_spans zs False spans fs
      else
        let t = f_ts f
        in if in_run \<or> (spans \<noteq> [] \<and> t - loader_match \<le> snd (last spans))
           then load_spans zs True (butlast spans @ [(fst (last spans), t + loader_match)]) fs
           else load_spans zs True (spans @ [(t - loader_match, t + loader_match)]) fs)"

definition loader_fixes_for ::
  "'a db_scheme \<Rightarrow> string \<Rightarrow> string \<Rightarrow> gps_fix list \<Rightarrow> zone_set \<Rightarrow> string list \<Rightarrow> loader_fix list" where
  "loader_fixes_for d site asset rows zs loader_ids =
     (if loader_ids = [] \<or> asset \<in> set loader_ids then []
      else
        let spans = load_spans zs False [] rows
        in map (\<lambda>p. \<lparr>l_asset = p_asset p, l_ts = p_ts p, l_lat = p_lat p, l_lon = p_lon p\<rparr>)
             (filter (\<lambda>p. p_site p = site \<and> p_asset p \<in> set loader_ids \<and>
                list_ex (\<lambda>(lo, hi). lo \<le> p_ts p \<and> p_ts p \<le> hi) spans) (positions d)))"

text \<open>The earliest cycle start per asset whose load visit a fix at or after \<open>lo\<close> could pair.\<close>

definition paired_starts :: "'a rdb_scheme \<Rightarrow> string \<Rightarrow> time \<Rightarrow> ctx \<Rightarrow> (string \<times> time) list" where
  "paired_starts d site lo x =
     foldl (\<lambda>acc (_, c).
         if start_ts c + round ((queue_s c + load_s c) * 1000000) \<ge> lo
         then dict_put (c_asset c)
                (min (start_ts c) (case map_of acc (c_asset c) of None \<Rightarrow> start_ts c | Some t \<Rightarrow> t)) acc
         else acc) []
       (filter (\<lambda>(s, c). s = site \<and> start_ts c \<ge> lo - seconds (x_max_cycle x) \<and>
          c_asset c \<notin> set (x_loader_ids x)) (haul_cycles d))"

definition mark_cursor :: "string \<Rightarrow> 'a db_scheme \<Rightarrow> string \<times> time \<Rightarrow> 'a db_scheme" where
  "mark_cursor site d mark =
     (case mark of (asset, ts) \<Rightarrow>
        case map_of (cursors d) (site, asset) of
          None \<Rightarrow> d
        | Some c \<Rightarrow>
            if (case dirty_from c of None \<Rightarrow> True | Some t \<Rightarrow> t > ts)
            then d\<lparr>cursors := dict_put (site, asset) (c\<lparr>dirty_from := Some ts\<rparr>) (cursors d)\<rparr>
            else d)"

definition mark_paired :: "'a rdb_scheme \<Rightarrow> string \<Rightarrow> time \<Rightarrow> ctx \<Rightarrow> 'a rdb_scheme" where
  "mark_paired d site since x =
     foldl (mark_cursor site) d (sort_key fst (paired_starts d site (since - loader_match) x))"

definition new_from :: "cursor \<Rightarrow> bool \<Rightarrow> time option" where
  "new_from cur late =
     (case (through_ts cur, if late then dirty_from cur else None) of
        (None, None) \<Rightarrow> None
      | (Some a, None) \<Rightarrow> Some a
      | (None, Some b) \<Rightarrow> Some b
      | (Some a, Some b) \<Rightarrow> Some (min a b))"

section \<open>Applying a window\<close>

record applied =
  a_cycles :: nat
  a_buckets :: nat
  a_last :: "time option"
  a_resume :: "resume option"
  a_next :: "rebuild_window option"

definition replace_cycles ::
  "'a rdb_scheme \<Rightarrow> string \<Rightarrow> string \<Rightarrow> cycle list \<Rightarrow> time \<Rightarrow> time option \<Rightarrow> 'a rdb_scheme" where
  "replace_cycles d site asset cycles start stop_at =
     d\<lparr>haul_cycles :=
         filter (\<lambda>(s, c). \<not> (s = site \<and> c_asset c = asset \<and> start_ts c \<ge> start \<and>
            (case stop_at of None \<Rightarrow> True | Some e \<Rightarrow> start_ts c < e))) (haul_cycles d) @
         map (\<lambda>c. (site, c\<lparr>c_asset := asset\<rparr>)) cycles\<rparr>"

definition replace_metrics ::
  "'a rdb_scheme \<Rightarrow> string \<Rightarrow> string \<Rightarrow> bucket list \<Rightarrow> time \<Rightarrow> time option \<Rightarrow> 'a rdb_scheme" where
  "replace_metrics d site asset bs start stop_at =
     d\<lparr>asset_metrics :=
         filter (\<lambda>b. \<not> (m_site b = site \<and> m_asset b = asset \<and> bucket_start b \<ge> start \<and>
            (case stop_at of None \<Rightarrow> True | Some e \<Rightarrow> bucket_start b < e))) (asset_metrics d) @
         map (\<lambda>b. b\<lparr>m_site := site, m_asset := asset\<rparr>) bs\<rparr>"

definition kept_ends ::
  "'a rdb_scheme \<Rightarrow> string \<Rightarrow> string \<Rightarrow> time \<Rightarrow> time \<Rightarrow> int \<Rightarrow> time list" where
  "kept_ends d site asset from read_from max_cycle =
     map (\<lambda>(_, c). end_ts c)
       (filter (\<lambda>(s, c). s = site \<and> c_asset c = asset \<and> start_ts c < from \<and>
          start_ts c \<ge> read_from - seconds max_cycle \<and> end_ts c \<ge> read_from) (haul_cycles d))"

definition count_kept :: "int \<Rightarrow> time \<Rightarrow> bucket list \<Rightarrow> time \<Rightarrow> bucket list" where
  "count_kept width from bs kept_end =
     (if kept_end \<ge> from
      then map (\<lambda>b. if bucket_start b = floor_bucket kept_end width
                   then b\<lparr>loads_completed := loads_completed b + 1\<rparr> else b) bs
      else bs)"

definition window_params ::
  "rebuild_window \<Rightarrow> zone_set \<Rightarrow> int \<Rightarrow> loader_fix list \<Rightarrow> real \<Rightarrow> cycle_params" where
  "window_params win zs max_cycle lfs pm =
     \<lparr>load_zones = zs_loads zs, dump_zones = zs_dumps zs, move_kph = move_threshold_kph,
      visit_s = min_visit_s, exit_s = min_exit_s, max_cycle_s = Some (of_int max_cycle),
      leading_entry_known = w_entry_known win, opens_from = Some (w_cycles_from win),
      loader_fixes = lfs, pair_within_m = pm\<rparr>"

text \<open>The cycles of a window before they are reconciled with what is kept, and the resume point.\<close>

definition window_cycles ::
  "'a rdb_scheme \<Rightarrow> string \<Rightarrow> string \<Rightarrow> rebuild_window \<Rightarrow> ctx \<Rightarrow> time option \<Rightarrow> gps_fix list
    \<Rightarrow> cycle list \<times> resume option" where
  "window_cycles d site asset win x stop_at rows =
     (let zs = x_zones x
      in if zs_loads zs \<noteq> [] \<and> zs_dumps zs \<noteq> [] then
           let fixes = cycle_fixes d site asset (w_cycles_from win) rows;
               lfs = loader_fixes_for d site asset fixes zs (x_loader_ids x);
               (cs, r) = analyse_cycles asset fixes (window_params win zs (x_max_cycle x) lfs (x_pairing_m x))
           in ((case stop_at of None \<Rightarrow> cs | Some e \<Rightarrow> filter (\<lambda>c. start_ts c < e) cs), r)
         else ([], None))"

text \<open>The rows a window reads, and whether its cycles are rebuilt.\<close>

definition window_rows ::
  "'a db_scheme \<Rightarrow> string \<Rightarrow> string \<Rightarrow> rebuild_window \<Rightarrow> ctx \<Rightarrow> time option \<Rightarrow> bool \<times> gps_fix list" where
  "window_rows d site asset win x until =
     (let rows = read_fixes d site asset (w_metrics_from win) until;
          rebuild = (\<not> still_in_open_visit rows win (x_zones x) (x_max_cycle x));
          lead_from = w_cycles_from win - min_exit
      in (rebuild, if rebuild \<and> lead_from < w_metrics_from win
            then read_fixes d site asset lead_from until else rows))"

definition apply_window ::
  "'a rdb_scheme \<Rightarrow> string \<Rightarrow> string \<Rightarrow> rebuild_window \<Rightarrow> ctx \<Rightarrow> time option \<Rightarrow> applied \<times> 'a rdb_scheme" where
  "apply_window d site asset win x stop_at =
     (let zs = x_zones x; width = x_bucket_s x; max_cycle = x_max_cycle x;
          until = map_option (\<lambda>e. e + lookback max_cycle) stop_at;
          (rebuild, rows) = window_rows d site asset win x until;
          read_from = (if rebuild then min (w_cycles_from win) (w_metrics_from win) else w_metrics_from win);
          (cycles0, resume0) =
            (if \<not> rebuild
             then ([], Some \<lparr>r_ts = w_cycles_from win, r_entry_known = True, r_inside = True\<rparr>)
             else window_cycles d site asset win x stop_at rows);
          kept = kept_ends d site asset (w_cycles_from win) read_from max_cycle;
          cycles = (if rebuild \<and> kept \<noteq> [] then filter (\<lambda>c. start_ts c \<ge> Max (set kept)) cycles0 else cycles0);
          d1 = (if rebuild then replace_cycles d site asset cycles (w_cycles_from win) stop_at else d);
          bs0 = compute_metrics site asset (filter (\<lambda>f. f_ts f \<ge> w_metrics_from win) rows)
                  (zs_geoms zs) cycles width;
          bs1 = (case stop_at of None \<Rightarrow> bs0 | Some e \<Rightarrow> filter (\<lambda>b. bucket_start b < e) bs0);
          bs = foldl (count_kept width (w_metrics_from win)) bs1 kept;
          d2 = replace_metrics d1 site asset bs (w_metrics_from win) stop_at
      in case stop_at of
           Some e \<Rightarrow>
             (\<lparr>a_cycles = length cycles, a_buckets = length bs, a_last = None, a_resume = None,
               a_next = Some \<lparr>w_cycles_from = e, w_entry_known = entry_known_at d site asset zs e rows,
                 w_metrics_from = e, w_open_through = None\<rparr>\<rparr>, d2)
         | None \<Rightarrow>
             let last_ts = (if rows = [] then None else Some (f_ts (last rows)))
             in (\<lparr>a_cycles = length cycles, a_buckets = length bs, a_last = last_ts,
                  a_resume = (case (last_ts, resume0) of
                      (Some t, None) \<Rightarrow> Some \<lparr>r_ts = t, r_entry_known = False, r_inside = False\<rparr>
                    | _ \<Rightarrow> resume0),
                  a_next = None\<rparr>, d2))"

definition advance :: "cursor \<Rightarrow> applied \<Rightarrow> zone_set \<Rightarrow> int \<Rightarrow> time \<Rightarrow> bool \<Rightarrow> cursor" where
  "advance cur applied zs width now clear_dirty =
     (let cur = (if clear_dirty then cur\<lparr>dirty_from := None\<rparr> else cur);
          cur = cur\<lparr>zones_sig := Some (zs_sig zs), updated_at := Some now\<rparr>
      in case (a_last applied, a_resume applied) of
           (Some t, Some r) \<Rightarrow>
             cur\<lparr>cycles_from := Some (r_ts r), entry_known := r_entry_known r,
                 in_open_visit := r_inside r,
                 metrics_from := Some (floor_bucket (t - min_visit - min_exit) width),
                 through_ts := Some t\<rparr>
         | _ \<Rightarrow> cur)"

section \<open>The two entry points\<close>

definition put_cursor :: "'a db_scheme \<Rightarrow> string \<Rightarrow> string \<Rightarrow> cursor \<Rightarrow> 'a db_scheme" where
  "put_cursor d site asset c = d\<lparr>cursors := dict_put (site, asset) c (cursors d)\<rparr>"

text \<open>One asset of the tick: \<open>None\<close> when nothing changed, and the session rolled back.\<close>

definition refresh_asset ::
  "'a rdb_scheme \<Rightarrow> string \<Rightarrow> ctx \<Rightarrow> string \<Rightarrow> (nat \<times> nat) option \<times> 'a rdb_scheme" where
  "refresh_asset d0 site x asset =
     (case lock_cursor d0 site asset of (cur, d) \<Rightarrow>
        case window_incremental d site asset cur (x_zones x) (x_lookback x) (x_bucket_s x) of
          None \<Rightarrow> (None, d0)
        | Some win \<Rightarrow>
            case apply_window d site asset win x None of (res, d) \<Rightarrow>
            let since = (if asset \<in> set (x_loader_ids x) then new_from cur True else None);
                d = (case since of None \<Rightarrow> d | Some t \<Rightarrow> mark_paired d site t x)
            in (Some (a_cycles res, a_buckets res),
                put_cursor d site asset
                  (advance cur res (x_zones x) (x_bucket_s x) (x_now x) True)))"

record run_counts =
  r_cycles :: nat
  r_buckets :: nat
  r_assets :: nat
  r_failed :: nat

text \<open>
  \<^verbatim>\<open>_run\<close>: the assets one by one. A rebuild that raises is rolled back and counted, and the
  others go on; \<open>rebuild\<close> returns the exception, or what it did with the session it committed.
\<close>

fun run_assets ::
  "(string \<Rightarrow> 's \<Rightarrow> py_error + ((nat \<times> nat) option \<times> 's)) \<Rightarrow> string list \<Rightarrow> run_counts \<Rightarrow> 's
    \<Rightarrow> run_counts \<times> 's" where
  "run_assets rebuild [] out d = (out, d)"
| "run_assets rebuild (a # as) out d =
     (case rebuild a d of
        Inl _ \<Rightarrow> run_assets rebuild as (out\<lparr>r_failed := r_failed out + 1\<rparr>) d
      | Inr (None, d') \<Rightarrow> run_assets rebuild as out d'
      | Inr (Some (c, b), d') \<Rightarrow>
          run_assets rebuild as (out\<lparr>r_cycles := r_cycles out + c, r_buckets := r_buckets out + b,
            r_assets := r_assets out + 1\<rparr>) d')"

definition no_counts :: run_counts where
  "no_counts = \<lparr>r_cycles = 0, r_buckets = 0, r_assets = 0, r_failed = 0\<rparr>"

definition ctx_of ::
  "(zone_shape list \<times> zone_shape list \<Rightarrow> string) \<Rightarrow> 'a rdb_scheme \<Rightarrow> string \<Rightarrow> int \<Rightarrow> string \<Rightarrow> real
    \<Rightarrow> int \<Rightarrow> time \<Rightarrow> ctx" where
  "ctx_of digest d site cycle_max_s loader_classes loader_pairing_m width now =
     \<lparr>x_zones = zones_of digest d site, x_bucket_s = width, x_max_cycle = cycle_max_s,
      x_lookback = lookback cycle_max_s, x_now = now,
      x_loader_ids = loader_ids_of d site loader_classes, x_pairing_m = loader_pairing_m\<rparr>"

definition refresh ::
  "(string \<Rightarrow> 'a rdb_scheme \<Rightarrow> py_error option) \<Rightarrow> 'a rdb_scheme \<Rightarrow> string \<Rightarrow> ctx
    \<Rightarrow> run_counts \<times> 'a rdb_scheme" where
  "refresh fails d site x =
     run_assets (\<lambda>a d. case fails a d of Some e \<Rightarrow> Inl e | None \<Rightarrow> Inr (refresh_asset d site x a))
       (sort (map (\<lambda>((_, a), _). a) (filter (\<lambda>((s, _), _). s = site) (cursors d)))) no_counts d"

definition chunk :: int where "chunk = seconds (12 * 3600)"
definition chunk_min :: int where "chunk_min = seconds 3600"

text \<open>Where the slice starting at \<open>read_from\<close> stops: nowhere for the newest slice.\<close>

definition slice_end :: "'a rdb_scheme \<Rightarrow> string \<Rightarrow> string \<Rightarrow> rebuild_window \<Rightarrow> ctx \<Rightarrow> time option" where
  "slice_end d site asset win x =
     (let read_from = min (w_cycles_from win) (w_metrics_from win);
          limit = (case newest_fix_ts d site asset of Some t \<Rightarrow> t - x_lookback x | None \<Rightarrow> read_from)
      in if limit - read_from \<ge> chunk_min
         then Some (floor_bucket (min (read_from + chunk) limit) (x_bucket_s x)) else None)"

text \<open>
  The loop over slices, one committed transaction each. It may be run with any number of
  slices allowed; \<open>None\<close> says they were not enough.
\<close>

fun recompute_slices ::
  "nat \<Rightarrow> 'a rdb_scheme \<Rightarrow> string \<Rightarrow> ctx \<Rightarrow> string \<Rightarrow> rebuild_window \<Rightarrow> nat \<times> nat
    \<Rightarrow> ((nat \<times> nat) \<times> 'a rdb_scheme) option" where
  "recompute_slices 0 d site x asset win totals = None"
| "recompute_slices (Suc n) d site x asset win totals =
     (let stop_at = slice_end d site asset win x;
          (cur, d) = (if stop_at = None then lock_cursor d site asset else (fresh_cursor 0, d));
          (res, d) = apply_window d site asset win x stop_at;
          d = (if stop_at \<noteq> None then d
               else
                 let since = (if asset \<in> set (x_loader_ids x) then new_from cur False else None);
                     d = (case since of None \<Rightarrow> d | Some t \<Rightarrow> mark_paired d site t x)
                 in put_cursor d site asset (advance cur res (x_zones x) (x_bucket_s x) (x_now x) False));
          totals = (fst totals + a_cycles res, snd totals + a_buckets res)
      in case a_next res of
           None \<Rightarrow> Some (totals, d)
         | Some win \<Rightarrow> recompute_slices n d site x asset win totals)"

text \<open>
  One asset on demand. The number of slices allowed is the length of the track in microseconds,
  which is always enough; running out of it, which cannot happen, is the \<open>Inl\<close> case.
\<close>

definition slice_fuel :: "'a rdb_scheme \<Rightarrow> string \<Rightarrow> string \<Rightarrow> rebuild_window \<Rightarrow> nat" where
  "slice_fuel d site asset win =
     (let read_from = min (w_cycles_from win) (w_metrics_from win)
      in Suc (nat ((case newest_fix_ts d site asset of Some t \<Rightarrow> t | None \<Rightarrow> read_from) - read_from)))"

definition recompute_asset ::
  "time option \<Rightarrow> 'a rdb_scheme \<Rightarrow> string \<Rightarrow> ctx \<Rightarrow> string
    \<Rightarrow> py_error + ((nat \<times> nat) option \<times> 'a rdb_scheme)" where
  "recompute_asset start d site x asset =
     (case window_on_demand d site asset start (x_lookback x) (x_bucket_s x) of
        None \<Rightarrow> Inr (None, d)
      | Some win \<Rightarrow>
          (case recompute_slices (slice_fuel d site asset win) d site x asset win (0, 0) of
             None \<Rightarrow> Inl RuntimeError
           | Some (totals, d') \<Rightarrow> Inr (Some totals, d')))"

definition recompute ::
  "(string \<Rightarrow> 'a rdb_scheme \<Rightarrow> py_error option) \<Rightarrow> time option \<Rightarrow> 'a rdb_scheme \<Rightarrow> string \<Rightarrow> ctx
    \<Rightarrow> run_counts \<times> 'a rdb_scheme" where
  "recompute fails start d site x =
     run_assets (\<lambda>a d. case fails a d of Some e \<Rightarrow> Inl e | None \<Rightarrow> recompute_asset start d site x a)
       (sort (remdups (map p_asset (filter (\<lambda>p. p_site p = site) (positions d)) @
          map (\<lambda>((_, a), _). a) (filter (\<lambda>((s, _), _). s = site) (cursors d))))) no_counts d"

section \<open>What a rebuild leaves alone\<close>

definition other_rows :: "string \<Rightarrow> string \<Rightarrow> (string \<times> cycle) list \<Rightarrow> (string \<times> cycle) list" where
  "other_rows site asset rows = filter (\<lambda>(s, c). \<not> (s = site \<and> c_asset c = asset)) rows"

definition own_cycles :: "string \<Rightarrow> string \<Rightarrow> (string \<times> cycle) list \<Rightarrow> cycle list" where
  "own_cycles site asset rows = map snd (filter (\<lambda>(s, c). s = site \<and> c_asset c = asset) rows)"

lemma other_rows_replace [simp]:
  "other_rows site asset (haul_cycles (replace_cycles d site asset cs start stop_at)) =
   other_rows site asset (haul_cycles d)"
  by (auto simp: other_rows_def replace_cycles_def filter_empty_conv intro: filter_cong)

lemma own_cycles_replace:
  "own_cycles site asset (haul_cycles (replace_cycles d site asset cs start stop_at)) =
   filter (\<lambda>c. \<not> (start_ts c \<ge> start \<and> (case stop_at of None \<Rightarrow> True | Some e \<Rightarrow> start_ts c < e)))
     (own_cycles site asset (haul_cycles d)) @ map (\<lambda>c. c\<lparr>c_asset := asset\<rparr>) cs"
proof -
  let ?P = "\<lambda>c. start_ts c \<ge> start \<and> (case stop_at of None \<Rightarrow> True | Some e \<Rightarrow> start_ts c < e)"
  have own_filter: "own_cycles site asset (filter (\<lambda>(s, c). \<not> (s = site \<and> c_asset c = asset \<and> Q c)) rows) =
      filter (\<lambda>c. \<not> Q c) (own_cycles site asset rows)" for Q rows
    by (induction rows) (auto simp: own_cycles_def)
  have own_new: "own_cycles site asset (map (\<lambda>c. (site, c\<lparr>c_asset := asset\<rparr>)) cs) =
      map (\<lambda>c. c\<lparr>c_asset := asset\<rparr>) cs"
    by (induction cs) (auto simp: own_cycles_def)
  have own_append: "own_cycles site asset (xs @ ys) = own_cycles site asset xs @ own_cycles site asset ys" for xs ys
    by (simp add: own_cycles_def)
  show ?thesis
    using own_filter [of ?P "haul_cycles d"] by (simp add: replace_cycles_def own_append own_new)
qed

lemma replace_metrics_keeps [simp]:
  "haul_cycles (replace_metrics d site asset bs start stop_at) = haul_cycles d"
  "positions (replace_metrics d site asset bs start stop_at) = positions d"
  "cursors (replace_metrics d site asset bs start stop_at) = cursors d"
  by (simp_all add: replace_metrics_def)

lemma replace_cycles_keeps [simp]:
  "positions (replace_cycles d site asset cs start stop_at) = positions d"
  "cursors (replace_cycles d site asset cs start stop_at) = cursors d"
  "asset_metrics (replace_cycles d site asset cs start stop_at) = asset_metrics d"
  by (simp_all add: replace_cycles_def)

section \<open>Slices end\<close>

lemma track_positions: "positions d' = positions d \<Longrightarrow> track d' site asset = track d site asset"
  unfolding track_def fixes_of_def by simp

lemma newest_fix_positions: "positions d' = positions d \<Longrightarrow> newest_fix_ts d' site asset = newest_fix_ts d site asset"
  unfolding newest_fix_ts_def using track_positions [of d' d site asset] by simp

lemma apply_window_positions [simp]:
  "positions (snd (apply_window d site asset win x stop_at)) = positions d"
  by (simp add: apply_window_def Let_def split: prod.split option.split)

lemma apply_window_next:
  "a_next (fst (apply_window d site asset win x stop_at)) =
     map_option (\<lambda>e. \<lparr>w_cycles_from = e,
       w_entry_known = entry_known_at d site asset (x_zones x) e
         (snd (window_rows d site asset win x (Some (e + lookback (x_max_cycle x))))),
       w_metrics_from = e, w_open_through = None\<rparr>) stop_at"
  by (cases stop_at) (simp_all add: apply_window_def Let_def split: prod.split)

lemma floor_bucket_near:
  assumes "0 < width"
  shows "floor_bucket ts width < ts + seconds 1 \<and> ts < floor_bucket ts width + seconds width"
proof (cases "0 \<le> ts")
  case True
  then show ?thesis using floor_bucket_range [OF assms True] by (simp add: seconds_def)
next
  case False
  let ?e = "- ((- ts) div 1000000)"
  have "0 \<le> ?e mod width" "?e mod width < width" using assms by simp_all
  moreover have "ts \<le> ?e * 1000000 \<and> ?e * 1000000 < ts + 1000000"
    using div_mult_mod_eq [of "- ts" 1000000] pos_mod_bound [of 1000000 "- ts"] pos_mod_sign [of 1000000 "- ts"]
    by linarith
  ultimately show ?thesis
    using False by (auto simp: floor_bucket_def Let_def seconds_def algebra_simps)
qed

lemma slice_end_forward:
  assumes "slice_end d site asset win x = Some e" and "0 < x_bucket_s x" "x_bucket_s x \<le> 3600"
    and "seconds 1 \<le> x_lookback x"
  shows "\<exists>t. newest_fix_ts d site asset = Some t \<and> e \<le> t \<and> min (w_cycles_from win) (w_metrics_from win) < e"
proof -
  let ?r = "min (w_cycles_from win) (w_metrics_from win)"
  from assms(1) obtain t where t: "newest_fix_ts d site asset = Some t"
    and ge: "t - x_lookback x - ?r \<ge> chunk_min"
    and e: "e = floor_bucket (min (?r + chunk) (t - x_lookback x)) (x_bucket_s x)"
    by (auto simp: slice_end_def Let_def chunk_min_def seconds_def split: if_splits option.splits)
  let ?u = "min (?r + chunk) (t - x_lookback x)"
  have "?r + chunk_min \<le> ?u" using ge by (simp add: chunk_def chunk_min_def seconds_def)
  moreover have near: "e < ?u + seconds 1" "?u < e + seconds (x_bucket_s x)"
    unfolding e using floor_bucket_near [OF assms(2), of ?u] by blast+
  moreover have "seconds (x_bucket_s x) \<le> chunk_min" using assms(3) by (simp add: chunk_min_def seconds_def)
  ultimately have "?r < e" by linarith
  moreover have "e \<le> t" using near(1) assms(4) by linarith
  ultimately show ?thesis using t by blast
qed

lemma recompute_slices_total:
  assumes "0 < x_bucket_s x" "x_bucket_s x \<le> 3600" "seconds 1 \<le> x_lookback x"
    and "slice_fuel d site asset win \<le> n"
  shows "\<exists>r. recompute_slices n d site x asset win totals = Some r"
  using assms(4)
proof (induction n arbitrary: d win totals)
  case 0
  then show ?case by (simp add: slice_fuel_def Let_def)
next
  case (Suc n)
  show ?case
  proof (cases "slice_end d site asset win x")
    case None
    obtain cur d1 where "lock_cursor d site asset = (cur, d1)" by fastforce
    moreover obtain res d2 where ap: "apply_window d1 site asset win x None = (res, d2)" by fastforce
    moreover have "a_next res = None" using apply_window_next [of d1 site asset win x None] ap by simp
    ultimately show ?thesis using None by (simp add: Let_def)
  next
    case (Some e)
    from slice_end_forward [OF this assms(1-3)] obtain t where
      t: "newest_fix_ts d site asset = Some t" "e \<le> t" "min (w_cycles_from win) (w_metrics_from win) < e" by auto
    obtain res d' where ap: "apply_window d site asset win x (Some e) = (res, d')" by fastforce
    from apply_window_next [of d site asset win x "Some e"] ap obtain k where
      nx: "a_next res = Some \<lparr>w_cycles_from = e, w_entry_known = k, w_metrics_from = e, w_open_through = None\<rparr>"
      by auto
    have "positions d' = positions d" using apply_window_positions [of d site asset win x "Some e"] ap by simp
    then have "newest_fix_ts d' site asset = Some t" using t newest_fix_positions by metis
    then have "slice_fuel d' site asset \<lparr>w_cycles_from = e, w_entry_known = k, w_metrics_from = e, w_open_through = None\<rparr> \<le> n"
      using Suc.prems t by (auto simp: slice_fuel_def Let_def)
    from Suc.IH [OF this] show ?thesis using Some ap nx by simp
  qed
qed

section \<open>A refresh leaves the cursor clean\<close>

lemma track_sorted: "sorted (map f_ts (track d site asset))"
  by (simp add: track_def)

lemma newest_is_last:
  "newest_fix_ts d site asset = Some t \<longleftrightarrow> track d site asset \<noteq> [] \<and> f_ts (last (track d site asset)) = t"
  by (auto simp: newest_fix_ts_def Let_def)

lemma newest_ge:
  assumes "newest_fix_ts d site asset = Some t" and "f \<in> set (track d site asset)"
  shows "f_ts f \<le> t"
proof -
  obtain i where i: "i < length (track d site asset)" "f = track d site asset ! i"
    using assms(2) by (auto simp: in_set_conv_nth)
  have "map f_ts (track d site asset) ! i \<le> map f_ts (track d site asset) ! (length (track d site asset) - 1)"
    using i track_sorted [of d site asset] by (intro sorted_nth_mono) auto
  then show ?thesis using assms(1) i by (auto simp: newest_is_last last_conv_nth)
qed

lemma last_filter_last: "xs \<noteq> [] \<Longrightarrow> P (last xs) \<Longrightarrow> filter P xs \<noteq> [] \<and> last (filter P xs) = last xs"
  by (induction xs rule: rev_induct) auto

lemma read_to_newest:
  assumes "newest_fix_ts d site asset = Some t" and "since \<le> t"
  shows "read_fixes d site asset since None \<noteq> [] \<and> f_ts (last (read_fixes d site asset since None)) = t"
  using assms last_filter_last [of "track d site asset" "\<lambda>f. f_ts f \<ge> since"]
  by (auto simp: read_fixes_def newest_is_last)

lemma apply_window_last:
  assumes "newest_fix_ts d site asset = Some t"
    and "w_metrics_from win \<le> t \<or> w_open_through win = None \<and> w_cycles_from win - min_exit \<le> t"
  shows "a_last (fst (apply_window d site asset win x None)) = Some t \<and>
    a_resume (fst (apply_window d site asset win x None)) \<noteq> None"
proof -
  have rows: "snd (window_rows d site asset win x None) \<noteq> [] \<and> f_ts (last (snd (window_rows d site asset win x None))) = t"
  proof (cases "fst (window_rows d site asset win x None) \<and> w_cycles_from win - min_exit < w_metrics_from win")
    case True
    then have "w_cycles_from win - min_exit \<le> t" using assms(2) by auto
    from read_to_newest [OF assms(1) this] show ?thesis using True by (simp add: window_rows_def Let_def)
  next
    case False
    moreover have "w_open_through win = None \<Longrightarrow> fst (window_rows d site asset win x None)"
      by (simp add: window_rows_def still_in_open_visit_def Let_def)
    ultimately have "w_metrics_from win \<le> t" using assms(2) by auto
    from read_to_newest [OF assms(1) this] show ?thesis using False by (auto simp: window_rows_def Let_def)
  qed
  obtain re rs where rs: "window_rows d site asset win x None = (re, rs)" by fastforce
  with rows have "rs \<noteq> []" "f_ts (last rs) = t" by simp_all
  then show ?thesis by (auto simp: apply_window_def rs Let_def split: prod.split option.split)
qed

text \<open>Where a cursor may stand when the newest fix of the asset is at \<open>t\<close>.\<close>

definition cursor_by :: "time \<Rightarrow> cursor \<Rightarrow> bool" where
  "cursor_by t c \<longleftrightarrow> (\<forall>u. dirty_from c = Some u \<longrightarrow> u \<le> t) \<and> (\<forall>u. metrics_from c = Some u \<longrightarrow> u \<le> t)"

lemma start_at_by:
  assumes "newest_fix_ts d site asset = Some t" and "ts \<le> t"
  shows "fst (start_at d site asset ts) \<le> t"
proof (cases "first_fix_ts d site asset")
  case (Some f)
  then have "f \<le> t" using newest_ge [OF assms(1)] by (auto simp: first_fix_ts_def split: list.splits)
  then show ?thesis using Some assms by (simp add: start_at_def)
qed (use assms in \<open>simp add: start_at_def\<close>)

lemma window_incremental_by:
  assumes "newest_fix_ts d site asset = Some t" and "cursor_by t cur" and "0 \<le> back"
    and "window_incremental d site asset cur zs back width = Some win"
  shows "w_metrics_from win \<le> t \<or> w_open_through win = None \<and> w_cycles_from win - min_exit \<le> t"
proof (cases "\<exists>cf mf. cycles_from cur = Some cf \<and> metrics_from cur = Some mf")
  case True
  then show ?thesis
    using assms(2,4) by (auto simp: window_incremental_def cursor_by_def Let_def split: if_splits option.splits prod.splits)
next
  case False
  obtain anchor where an: "anchor \<le> t" and w: "win = \<lparr>w_cycles_from = fst (start_at d site asset (anchor - back)),
      w_entry_known = snd (start_at d site asset (anchor - back)), w_metrics_from = w_metrics_from win, w_open_through = None\<rparr>"
  proof (rule that [of "case dirty_from cur of Some u \<Rightarrow> u | None \<Rightarrow> t"])
    show "(case dirty_from cur of Some u \<Rightarrow> u | None \<Rightarrow> t) \<le> t"
      using assms(2) by (auto simp: cursor_by_def split: option.split)
  qed (use False assms(1,4) in \<open>auto simp: window_incremental_def Let_def split: option.splits prod.splits\<close>)
  have "fst (start_at d site asset (anchor - back)) \<le> t" using start_at_by [OF assms(1)] an assms(3) by simp
  then show ?thesis using w by (cases win) (simp add: min_exit_def seconds_def)
qed

section \<open>Stored cycles never overlap\<close>

definition cycles_tile :: "int \<Rightarrow> cycle list \<Rightarrow> bool" where
  "cycles_tile cap cs \<longleftrightarrow> sorted_wrt (\<lambda>c d. end_ts c \<le> start_ts d) cs \<and>
     (\<forall>c \<in> set cs. start_ts c < end_ts c \<and> end_ts c - start_ts c \<le> seconds cap)"

lemma cycles_tile_filter: "cycles_tile cap cs \<Longrightarrow> cycles_tile cap (filter P cs)"
  by (simp add: cycles_tile_def sorted_wrt_filter)

lemma cycles_tile_append_rename [simp]:
  "cycles_tile cap (xs @ map (\<lambda>c. c\<lparr>c_asset := a\<rparr>) cs) = cycles_tile cap (xs @ cs)"
  by (simp add: cycles_tile_def sorted_wrt_append sorted_wrt_map ball_Un)

lemma cycles_tile_append_filter: "cycles_tile cap (xs @ ys) \<Longrightarrow> cycles_tile cap (filter P xs @ ys)"
  by (auto simp: cycles_tile_def sorted_wrt_append sorted_wrt_filter)

lemma computed_cycles_tile:
  assumes "opens_from P = Some from" and "max_cycle_s P = Some (of_int cap)" and "0 < visit_s P + exit_s P"
  shows "cycles_tile cap (compute_cycles asset fixes0 P) \<and>
    (\<forall>c \<in> set (compute_cycles asset fixes0 P). from \<le> start_ts c)"
proof (cases "fixes0 = []")
  case False
  then show ?thesis
  proof (rule analyse_cycles_run [of fixes0 asset P])
    fix tms queue load_at dump_at dumps load_runs and ends_inside :: bool
    assume c: "compute_cycles asset fixes0 P =
        cycle_loop P queue asset load_at dump_at dumps 0 (filter (long_enough P) load_runs)"
      and ok: "loop_ok P tms dumps (filter (long_enough P) load_runs)"
      and q: "\<And>v. visit_ok tms v \<Longrightarrow> 0 \<le> fst (queue v) \<and> fst (queue v) \<le> visit_length v"
    have "start_ts k < end_ts k \<and> end_ts k - start_ts k \<le> seconds cap"
      if "k \<in> set (compute_cycles asset fixes0 P)" for k
    proof -
      have "cycle_ok P k" using cycle_loop_ok [OF q ok] that unfolding c by blast
      then have "visit_s P + exit_s P \<le> total_seconds (end_ts k - start_ts k)"
        "total_seconds (end_ts k - start_ts k) \<le> total_seconds (seconds cap)"
        using assms(2) by (auto simp: cycle_ok_def over_cap_def)
      with assms(3) have "0 < total_seconds (end_ts k - start_ts k)" by linarith
      with \<open>_ \<le> total_seconds (seconds cap)\<close> show ?thesis
        by (simp only: total_seconds_pos total_seconds_le_iff) simp
    qed
    moreover have "from \<le> start_ts k" if "k \<in> set (compute_cycles asset fixes0 P)" for k
      using cycle_loop_ends [OF ok that [unfolded c]] assms(1) by (auto simp: can_open_def split: if_splits)
    ultimately show ?thesis
      using cycle_loop_order [OF ok, of queue asset load_at dump_at 0] c by (auto simp: cycles_tile_def)
  qed
qed (simp add: compute_cycles_def analyse_cycles_def cycles_tile_def)

definition before :: "time option \<Rightarrow> cycle list \<Rightarrow> cycle list" where
  "before stop_at cs = (case stop_at of None \<Rightarrow> cs | Some e \<Rightarrow> filter (\<lambda>c. start_ts c < e) cs)"

lemma fst_window_cycles:
  "\<exists>fs lfs. fst (window_cycles d site asset win x stop_at rows) =
     (if zs_loads (x_zones x) \<noteq> [] \<and> zs_dumps (x_zones x) \<noteq> []
      then before stop_at (compute_cycles asset fs
        (window_params win (x_zones x) (x_max_cycle x) lfs (x_pairing_m x))) else [])"
  unfolding window_cycles_def Let_def compute_cycles_def before_def
  by (auto split: prod.split option.split) (metis fst_conv)+

lemma window_cycles_tile:
  "cycles_tile (x_max_cycle x) (fst (window_cycles d site asset win x stop_at rows)) \<and>
   (\<forall>c \<in> set (fst (window_cycles d site asset win x stop_at rows)).
      w_cycles_from win \<le> start_ts c \<and> (case stop_at of None \<Rightarrow> True | Some e \<Rightarrow> start_ts c < e))"
proof -
  have "cycles_tile (x_max_cycle x) (compute_cycles asset fs (window_params win zs (x_max_cycle x) lfs pm)) \<and>
    (\<forall>c \<in> set (compute_cycles asset fs (window_params win zs (x_max_cycle x) lfs pm)). w_cycles_from win \<le> start_ts c)"
    for fs lfs zs pm
    by (rule computed_cycles_tile) (simp_all add: window_params_def min_visit_s_def min_exit_s_def)
  moreover have "cycles_tile (x_max_cycle x) []" by (simp add: cycles_tile_def)
  ultimately show ?thesis
    using fst_window_cycles [of d site asset win x stop_at rows]
    by (auto simp: before_def cycles_tile_filter split: option.split if_splits)
qed

lemma tile_join:
  assumes "cycles_tile cap old" and "\<forall>c \<in> set old. start_ts c < from"
    and "cycles_tile cap new" and "\<forall>c \<in> set new. from \<le> start_ts c" and "read_from \<le> from"
    and "\<forall>c \<in> set old. start_ts c \<ge> read_from - seconds cap \<longrightarrow> end_ts c \<ge> read_from \<longrightarrow>
      (\<forall>n \<in> set new. end_ts c \<le> start_ts n)"
  shows "cycles_tile cap (old @ new)"
proof -
  have "end_ts c \<le> start_ts n" if c: "c \<in> set old" and n: "n \<in> set new" for c n
  proof (cases "end_ts c \<ge> read_from")
    case True
    moreover have "end_ts c - start_ts c \<le> seconds cap" using assms(1) c by (simp add: cycles_tile_def)
    ultimately show ?thesis using assms(6) c n by auto
  next
    case False
    moreover have "from \<le> start_ts n" using assms(4) n by blast
    ultimately show ?thesis using assms(5) by simp
  qed
  then show ?thesis using assms(1,3) by (auto simp: cycles_tile_def sorted_wrt_append)
qed

lemma set_kept_ends:
  "set (kept_ends d site asset from read_from cap) =
   end_ts ` {c \<in> set (own_cycles site asset (haul_cycles d)). start_ts c < from \<and>
     start_ts c \<ge> read_from - seconds cap \<and> end_ts c \<ge> read_from}"
  by (auto simp: kept_ends_def own_cycles_def image_iff)

lemma apply_window_tile:
  assumes "cycles_tile (x_max_cycle x) (before (Some (w_cycles_from win)) (own_cycles site asset (haul_cycles d)))"
    and open_through: "w_open_through win = None \<or> stop_at = None \<and> cycles_tile (x_max_cycle x) (own_cycles site asset (haul_cycles d))"
  shows "cycles_tile (x_max_cycle x)
    (before stop_at (own_cycles site asset (haul_cycles (snd (apply_window d site asset win x stop_at)))))"
proof -
  define until where "until = map_option (\<lambda>e. e + lookback (x_max_cycle x)) stop_at"
  obtain re rows where rows: "window_rows d site asset win x until = (re, rows)" by fastforce
  show ?thesis
  proof (cases re)
    case False
    then have "stop_at = None \<and> cycles_tile (x_max_cycle x) (own_cycles site asset (haul_cycles d))"
      using open_through rows by (auto simp: window_rows_def still_in_open_visit_def Let_def)
    moreover have "haul_cycles (snd (apply_window d site asset win x stop_at)) = haul_cycles d"
      using False rows unfolding until_def
      by (simp add: apply_window_def Let_def split: option.split)
    ultimately show ?thesis by (simp add: before_def)
  next
    case True
    let ?r = "min (w_cycles_from win) (w_metrics_from win)"
    let ?kept = "kept_ends d site asset (w_cycles_from win) ?r (x_max_cycle x)"
    let ?old = "before (Some (w_cycles_from win)) (own_cycles site asset (haul_cycles d))"
    define new0 where "new0 = fst (window_cycles d site asset win x stop_at rows)"
    define new where "new = (if ?kept \<noteq> [] then filter (\<lambda>c. start_ts c \<ge> Max (set ?kept)) new0 else new0)"
    have "haul_cycles (snd (apply_window d site asset win x stop_at)) =
        haul_cycles (replace_cycles d site asset new (w_cycles_from win) stop_at)"
    proof -
      obtain c0 r0 where c0: "window_cycles d site asset win x stop_at rows = (c0, r0)" by fastforce
      have "new = (if ?kept \<noteq> [] then filter (\<lambda>c. start_ts c \<ge> Max (set ?kept)) c0 else c0)"
        by (simp add: new_def new0_def c0)
      with True c0 rows show ?thesis
        unfolding apply_window_def Let_def until_def [symmetric]
        by (cases stop_at) simp_all
    qed
    then have own: "own_cycles site asset (haul_cycles (snd (apply_window d site asset win x stop_at))) =
       filter (\<lambda>c. \<not> (start_ts c \<ge> w_cycles_from win \<and> (case stop_at of None \<Rightarrow> True | Some e \<Rightarrow> start_ts c < e)))
       (own_cycles site asset (haul_cycles d)) @ map (\<lambda>c. c\<lparr>c_asset := asset\<rparr>) new"
      by (simp add: own_cycles_replace)
    note wc = window_cycles_tile [of x d site asset win stop_at rows, folded new0_def]
    have new_sub: "set new \<subseteq> set new0" "cycles_tile (x_max_cycle x) new"
      using wc by (auto simp: new_def cycles_tile_filter)
    have "cycles_tile (x_max_cycle x) (?old @ new)"
    proof (rule tile_join [where read_from = ?r])
      show "\<forall>c \<in> set ?old. start_ts c \<ge> ?r - seconds (x_max_cycle x) \<longrightarrow> end_ts c \<ge> ?r \<longrightarrow>
          (\<forall>n \<in> set new. end_ts c \<le> start_ts n)"
      proof (intro ballI impI)
        fix c n assume c: "c \<in> set ?old" "?r - seconds (x_max_cycle x) \<le> start_ts c" "?r \<le> end_ts c" and n: "n \<in> set new"
        then have k: "end_ts c \<in> set ?kept" by (auto simp: set_kept_ends before_def)
        then have "end_ts c \<le> Max (set ?kept)" by simp
        moreover have "?kept \<noteq> []" using k by (metis empty_iff list.set(1))
        then have "Max (set ?kept) \<le> start_ts n" using n by (simp add: new_def)
        ultimately show "end_ts c \<le> start_ts n" by simp
      qed
    qed (use assms(1) wc new_sub in \<open>auto simp: before_def\<close>)
    moreover have "before stop_at (own_cycles site asset (haul_cycles (snd (apply_window d site asset win x stop_at)))) =
        before stop_at ?old @ map (\<lambda>c. c\<lparr>c_asset := asset\<rparr>) new"
    proof (cases stop_at)
      case (Some e)
      then have "filter (\<lambda>c. start_ts c < e) new = new" using wc new_sub by (auto simp: filter_id_conv)
      moreover have "((a \<or> \<not> b) \<and> b) = (a \<and> b)" for a b by blast
      ultimately show ?thesis
        using Some own [unfolded Some] by (simp add: before_def filter_map o_def not_le)
    next
      case None
      then show ?thesis using own [unfolded None] by (simp add: before_def not_le)
    qed
    ultimately show ?thesis
      using cycles_tile_append_filter [of "x_max_cycle x" ?old new]
      by (cases stop_at) (simp_all only: before_def [of None ?old] before_def [of "Some _" ?old]
          option.case cycles_tile_append_rename)
  qed
qed

text \<open>Marking the trucks a loader's fixes may pair with changes cursors and nothing else.\<close>

lemma mark_cursor_keeps [simp]:
  "haul_cycles (mark_cursor site d m) = haul_cycles d"
  "asset_metrics (mark_cursor site d m) = asset_metrics d"
  "positions (mark_cursor site d m) = positions d"
  by (simp_all add: mark_cursor_def split: prod.split option.split)

lemma mark_fold_keeps:
  "haul_cycles (foldl (mark_cursor site) d ms) = haul_cycles d \<and>
   asset_metrics (foldl (mark_cursor site) d ms) = asset_metrics d \<and>
   positions (foldl (mark_cursor site) d ms) = positions d"
  by (induction ms arbitrary: d) simp_all

lemma mark_paired_keeps [simp]:
  "haul_cycles (mark_paired d site t x) = haul_cycles d"
  "asset_metrics (mark_paired d site t x) = asset_metrics d"
  "positions (mark_paired d site t x) = positions d"
  by (simp_all add: mark_paired_def mark_fold_keeps)

lemma put_cursor_keeps [simp]:
  "haul_cycles (put_cursor d site a c) = haul_cycles d" "asset_metrics (put_cursor d site a c) = asset_metrics d"
  "positions (put_cursor d site a c) = positions d"
  "map_of (cursors (put_cursor d site a c)) (site, a) = Some c"
  by (simp_all add: put_cursor_def)

lemma lock_cursor_keeps [simp]:
  "haul_cycles (snd (lock_cursor d site a)) = haul_cycles d"
  "asset_metrics (snd (lock_cursor d site a)) = asset_metrics d"
  "positions (snd (lock_cursor d site a)) = positions d"
  by (simp_all add: lock_cursor_def Let_def split: option.split)

lemma lock_cursor_known: "map_of (cursors d) (site, a) = Some c \<Longrightarrow> lock_cursor d site a = (c, d)"
  by (simp add: lock_cursor_def)

text \<open>The last transaction of a rebuild: the window, the marks, the cursor.\<close>

definition close_window ::
  "'a rdb_scheme \<Rightarrow> string \<Rightarrow> ctx \<Rightarrow> string \<Rightarrow> cursor \<Rightarrow> rebuild_window \<Rightarrow> bool \<Rightarrow> 'a rdb_scheme" where
  "close_window d site x asset cur win incremental =
     (case apply_window d site asset win x None of (res, d) \<Rightarrow>
        let since = (if asset \<in> set (x_loader_ids x) then new_from cur incremental else None);
            d = (case since of None \<Rightarrow> d | Some t \<Rightarrow> mark_paired d site t x)
        in put_cursor d site asset (advance cur res (x_zones x) (x_bucket_s x) (x_now x) incremental))"

lemma close_window_keeps:
  "haul_cycles (close_window d site x asset cur win inc) = haul_cycles (snd (apply_window d site asset win x None))"
  "positions (close_window d site x asset cur win inc) = positions d"
  "map_of (cursors (close_window d site x asset cur win inc)) (site, asset) =
     Some (advance cur (fst (apply_window d site asset win x None)) (x_zones x) (x_bucket_s x) (x_now x) inc)"
proof -
  obtain res d' where ap: "apply_window d site asset win x None = (res, d')" by fastforce
  with apply_window_positions [of d site asset win x None] have "positions d' = positions d" by simp
  with ap show
    "haul_cycles (close_window d site x asset cur win inc) = haul_cycles (snd (apply_window d site asset win x None))"
    "positions (close_window d site x asset cur win inc) = positions d"
    "map_of (cursors (close_window d site x asset cur win inc)) (site, asset) =
       Some (advance cur (fst (apply_window d site asset win x None)) (x_zones x) (x_bucket_s x) (x_now x) inc)"
    by (simp_all add: close_window_def Let_def split: option.split)
qed

lemma refresh_asset_cases:
  assumes "refresh_asset d site x asset = (r, d')"
  obtains "r = None" "d' = d"
  | win where "window_incremental (snd (lock_cursor d site asset)) site asset (fst (lock_cursor d site asset))
        (x_zones x) (x_lookback x) (x_bucket_s x) = Some win" "r \<noteq> None"
      "d' = close_window (snd (lock_cursor d site asset)) site x asset (fst (lock_cursor d site asset)) win True"
proof -
  obtain cur d1 where l: "lock_cursor d site asset = (cur, d1)" by fastforce
  show ?thesis
  proof (cases "window_incremental d1 site asset cur (x_zones x) (x_lookback x) (x_bucket_s x)")
    case None
    then show ?thesis using assms l that(1) by (simp add: refresh_asset_def)
  next
    case (Some win)
    obtain res d2 where ap: "apply_window d1 site asset win x None = (res, d2)" by fastforce
    show ?thesis
      by (rule that(2)) (use assms l Some ap in \<open>auto simp: refresh_asset_def close_window_def Let_def\<close>)
  qed
qed

lemma advance_clean:
  assumes "a_last res = Some t" and "a_resume res \<noteq> None"
  shows "dirty_from (advance cur res zs width now True) = None \<and>
    through_ts (advance cur res zs width now True) = Some t \<and>
    zones_sig (advance cur res zs width now True) = Some (zs_sig zs) \<and>
    cycles_from (advance cur res zs width now True) \<noteq> None \<and>
    metrics_from (advance cur res zs width now True) = Some (floor_bucket (t - min_visit - min_exit) width)"
  using assms by (auto simp: advance_def Let_def)

lemma nothing_after_newest:
  "newest_fix_ts d site asset = Some t \<Longrightarrow> \<not> has_fix_after d site asset (Some t)"
  using newest_ge [of d site asset t] by (fastforce simp: has_fix_after_def list_ex_iff)

definition clean_at :: "time \<Rightarrow> zone_set \<Rightarrow> cursor \<Rightarrow> bool" where
  "clean_at t zs c \<longleftrightarrow> dirty_from c = None \<and> through_ts c = Some t \<and> zones_sig c = Some (zs_sig zs) \<and>
     cycles_from c \<noteq> None \<and> metrics_from c \<noteq> None"

lemma clean_refresh_none:
  assumes "newest_fix_ts d site asset = Some t" and "map_of (cursors d) (site, asset) = Some c"
    and "clean_at t (x_zones x) c"
  shows "refresh_asset d site x asset = (None, d)"
  using assms nothing_after_newest [OF assms(1)]
  by (auto simp: refresh_asset_def lock_cursor_known window_incremental_def clean_at_def)

text \<open>C6: a refresh that did anything leaves the asset clean up to its newest fix: its cursor
  carries no dirty mark and covers the newest fix, and until a new fix, a late fix or a change
  of the zones marks it again a second refresh finds nothing to do.\<close>

theorem refresh_leaves_the_asset_clean:
  assumes newest: "newest_fix_ts d site asset = Some t"
    and cur: "\<And>c. map_of (cursors d) (site, asset) = Some c \<Longrightarrow> cursor_by t c"
    and width: "0 < x_bucket_s x" and lb: "0 \<le> x_lookback x"
    and run: "refresh_asset d site x asset = (Some n, d')"
    and sig: "zs_sig (x_zones y) = zs_sig (x_zones x)"
  shows "newest_fix_ts d' site asset = Some t \<and>
    (\<exists>c. map_of (cursors d') (site, asset) = Some c \<and> dirty_from c = None \<and> through_ts c = Some t \<and> cursor_by t c) \<and>
    refresh_asset d' site y asset = (None, d')"
proof -
  let ?l = "lock_cursor d site asset"
  from run obtain win where win: "window_incremental (snd ?l) site asset (fst ?l) (x_zones x) (x_lookback x)
      (x_bucket_s x) = Some win"
    and d': "d' = close_window (snd ?l) site x asset (fst ?l) win True"
    by (rule refresh_asset_cases) auto
  let ?res = "fst (apply_window (snd ?l) site asset win x None)"
  let ?c = "advance (fst ?l) ?res (x_zones x) (x_bucket_s x) (x_now x) True"
  have newest_l: "newest_fix_ts (snd ?l) site asset = Some t"
    using newest newest_fix_positions [of "snd ?l" d site asset] by simp
  have "cursor_by t (fst ?l)"
    using cur by (auto simp: lock_cursor_def cursor_by_def Let_def split: option.split)
  from apply_window_last [OF newest_l window_incremental_by [OF newest_l this lb win], of x]
  have last: "a_last ?res = Some t" "a_resume ?res \<noteq> None" by blast+
  note clean = advance_clean [OF last, of "fst ?l" "x_zones x" "x_bucket_s x" "x_now x"]
  have c: "map_of (cursors d') (site, asset) = Some ?c" unfolding d' by (rule close_window_keeps)
  have newest': "newest_fix_ts d' site asset = Some t"
    using newest_l newest_fix_positions [of d' "snd ?l" site asset] by (simp add: d' close_window_keeps)
  have "floor_bucket (t - min_visit - min_exit) (x_bucket_s x) \<le> t"
    using floor_bucket_near [OF width, of "t - min_visit - min_exit"]
    by (simp add: min_visit_def min_exit_def seconds_def)
  then have "cursor_by t ?c" using clean by (simp add: cursor_by_def)
  moreover have "clean_at t (x_zones y) ?c" using clean sig by (auto simp: clean_at_def)
  ultimately show ?thesis
    using clean_refresh_none [OF newest' c] newest' c clean by blast
qed

lemma recompute_slices_tile:
  assumes "cycles_tile (x_max_cycle x) (before (Some (w_cycles_from win)) (own_cycles site asset (haul_cycles d)))"
    and "w_open_through win = None"
    and "recompute_slices n d site x asset win totals = Some (tot, d')"
  shows "cycles_tile (x_max_cycle x) (own_cycles site asset (haul_cycles d'))"
  using assms
proof (induction n arbitrary: d win totals)
  case (Suc n)
  show ?case
  proof (cases "slice_end d site asset win x")
    case None
    let ?l = "lock_cursor d site asset"
    have no_next: "a_next (fst (apply_window (snd ?l) site asset win x None)) = None" by (simp add: apply_window_next)
    have "d' = close_window (snd ?l) site x asset (fst ?l) win False"
      using Suc.prems(3) None no_next by (auto simp: close_window_def Let_def split: prod.splits)
    then show ?thesis
      using apply_window_tile [of x win site asset "snd ?l" None] Suc.prems(1,2)
      by (simp add: close_window_keeps before_def)
  next
    case (Some e)
    obtain res d1 where ap: "apply_window d site asset win x (Some e) = (res, d1)" by fastforce
    from apply_window_next [of d site asset win x "Some e"] ap obtain k where
      nx: "a_next res = Some \<lparr>w_cycles_from = e, w_entry_known = k, w_metrics_from = e, w_open_through = None\<rparr>"
      by auto
    have "cycles_tile (x_max_cycle x) (before (Some e) (own_cycles site asset (haul_cycles d1)))"
      using apply_window_tile [of x win site asset d "Some e"] Suc.prems(1,2) ap by simp
    then show ?thesis
      using Suc.IH [where d = d1 and win = "\<lparr>w_cycles_from = e, w_entry_known = k, w_metrics_from = e, w_open_through = None\<rparr>"]
        Suc.prems(3) Some ap nx by simp
  qed
qed simp

text \<open>C4: stored cycles of an asset never overlap. A refresh, and an on-demand rebuild from any
  start once its last slice is done, leave the haul cycles of the asset one after the other,
  each of them positive and no longer than the cap, however the kept rows and the rebuilt window meet.\<close>

theorem rebuilds_keep_cycles_disjoint:
  assumes "cycles_tile (x_max_cycle x) (own_cycles site asset (haul_cycles d))"
  shows "cycles_tile (x_max_cycle x) (own_cycles site asset (haul_cycles (snd (refresh_asset d site x asset)))) \<and>
    (\<forall>start r d'. recompute_asset start d site x asset = Inr (r, d') \<longrightarrow>
       cycles_tile (x_max_cycle x) (own_cycles site asset (haul_cycles d')))"
proof (intro conjI allI impI)
  obtain r d' where run: "refresh_asset d site x asset = (r, d')" by fastforce
  have tile: "cycles_tile (x_max_cycle x) (before (Some t) (own_cycles site asset (haul_cycles d)))" for t
    using assms by (simp add: before_def cycles_tile_filter)
  from run show "cycles_tile (x_max_cycle x) (own_cycles site asset (haul_cycles (snd (refresh_asset d site x asset))))"
  proof (rule refresh_asset_cases)
    fix win assume "d' = close_window (snd (lock_cursor d site asset)) site x asset (fst (lock_cursor d site asset)) win True"
    then show ?thesis
      using apply_window_tile [of x win site asset "snd (lock_cursor d site asset)" None] assms tile run
      by (simp add: close_window_keeps before_def)
  qed (use assms run in simp)
  fix start r d' assume rec: "recompute_asset start d site x asset = Inr (r, d')"
  show "cycles_tile (x_max_cycle x) (own_cycles site asset (haul_cycles d'))"
  proof (cases "window_on_demand d site asset start (x_lookback x) (x_bucket_s x)")
    case (Some win)
    then have "w_open_through win = None" by (auto simp: window_on_demand_def Let_def split: option.splits prod.splits)
    with Some rec recompute_slices_tile [OF tile] show ?thesis
      by (auto simp: recompute_asset_def split: option.splits)
  qed (use rec assms in \<open>simp add: recompute_asset_def\<close>)
qed

text \<open>C30: An on-demand rebuild always comes to its end. With buckets of at most an hour every
  slice starts strictly later than the one before and none starts after the newest fix, so
  the loop over slices runs out, whatever the track and the start asked for.\<close>

theorem recompute_terminates:
  assumes "0 < x_bucket_s x" and "x_bucket_s x \<le> 3600" and "0 \<le> x_max_cycle x"
    and "x_lookback x = lookback (x_max_cycle x)"
  shows "\<exists>r d'. recompute_asset start d site x asset = Inr (r, d')"
proof (cases "window_on_demand d site asset start (x_lookback x) (x_bucket_s x)")
  case (Some win)
  have "seconds 1 \<le> x_lookback x" using assms(3,4) by (simp add: lookback_def seconds_def)
  from recompute_slices_total [OF assms(1,2) this order_refl, of d site asset win "(0, 0)"] Some
  show ?thesis by (auto simp: recompute_asset_def)
qed (simp add: recompute_asset_def)

section \<open>One asset at a time\<close>

definition other_metrics :: "string \<Rightarrow> string \<Rightarrow> bucket list \<Rightarrow> bucket list" where
  "other_metrics site asset bs = filter (\<lambda>b. \<not> (m_site b = site \<and> m_asset b = asset)) bs"

lemma other_metrics_replace [simp]:
  "other_metrics site asset (asset_metrics (replace_metrics d site asset bs start stop_at)) =
   other_metrics site asset (asset_metrics d)"
  by (auto simp: other_metrics_def replace_metrics_def filter_empty_conv intro: filter_cong)

lemma apply_window_others:
  "other_rows site asset (haul_cycles (snd (apply_window d site asset win x stop_at))) =
     other_rows site asset (haul_cycles d) \<and>
   other_metrics site asset (asset_metrics (snd (apply_window d site asset win x stop_at))) =
     other_metrics site asset (asset_metrics d)"
  by (cases stop_at) (simp_all add: apply_window_def Let_def split: prod.split)

lemma close_window_others:
  "other_rows site asset (haul_cycles (close_window d site x asset cur win inc)) = other_rows site asset (haul_cycles d) \<and>
   other_metrics site asset (asset_metrics (close_window d site x asset cur win inc)) =
     other_metrics site asset (asset_metrics d)"
proof -
  obtain res d' where ap: "apply_window d site asset win x None = (res, d')" by fastforce
  with apply_window_others [of site asset d win x None] show ?thesis
    by (simp add: close_window_def Let_def split: option.split)
qed

lemma run_assets_failed:
  "run_assets rebuild as (out\<lparr>r_failed := r_failed out + k\<rparr>) d =
     (let (out', d') = run_assets rebuild as out d in (out'\<lparr>r_failed := r_failed out' + k\<rparr>, d'))"
proof (induction as arbitrary: out d)
  case (Cons a as)
  show ?case
  proof (cases "rebuild a d")
    case (Inl e)
    then show ?thesis using Cons.IH [of "out\<lparr>r_failed := r_failed out + 1\<rparr>" d] by simp
  next
    case (Inr p)
    obtain r d' where p: "p = (r, d')" by fastforce
    have upd: "out\<lparr>r_failed := j, r_cycles := c, r_buckets := b, r_assets := n\<rparr> =
        out\<lparr>r_cycles := c, r_buckets := b, r_assets := n, r_failed := j\<rparr>" for c b n j
      by (cases out) simp
    show ?thesis
      using Inr p Cons.IH [of out d']
        Cons.IH [of "out\<lparr>r_cycles := r_cycles out + c, r_buckets := r_buckets out + b, r_assets := r_assets out + 1\<rparr>" d' for c b]
      by (auto simp: upd split: option.split)
  qed
qed simp

lemma run_assets_skip:
  assumes "\<And>a d. a \<in> bad \<Longrightarrow> \<exists>e. rebuild a d = Inl e"
  shows "run_assets rebuild as out d =
    (let (out', d') = run_assets rebuild (filter (\<lambda>a. a \<notin> bad) as) out d
     in (out'\<lparr>r_failed := r_failed out' + length (filter (\<lambda>a. a \<in> bad) as)\<rparr>, d'))"
proof (induction as arbitrary: out d)
  case Nil
  then show ?case by simp
next
  case (Cons a as)
  show ?case
  proof (cases "a \<in> bad")
    case True
    then obtain e where "rebuild a d = Inl e" using assms by blast
    then show ?thesis
      using True Cons.IH [of "out\<lparr>r_failed := r_failed out + 1\<rparr>" d] run_assets_failed [of rebuild "filter (\<lambda>a. a \<notin> bad) as" out 1 d]
      by (simp add: Let_def split: prod.splits)
  next
    case False
    then show ?thesis using Cons.IH by (auto split: sum.split option.split)
  qed
qed

text \<open>A site with one asset, one stored fix and one stored cycle, and no zones.\<close>

definition demo_cycle_row :: "string \<times> cycle" where
  "demo_cycle_row = (''s1'', \<lparr>c_asset = ''HT-01'', cycle_index = 0, start_ts = 0, end_ts = seconds 60,
     cycle_time_s = 60, queue_s = 0, load_s = 30, haul_s = 10, dump_s = 10, return_s = 10,
     load_zone_id = None, dump_zone_id = None, loader_id = None\<rparr>)"

definition demo_rdb :: rdb where
  "demo_rdb = db.extend (snd (insert_position empty_db (demo_fix 90000000 0 0 None)))
     \<lparr>haul_cycles = [demo_cycle_row], asset_metrics = []\<rparr>"

definition demo_ctx :: ctx where
  "demo_ctx = \<lparr>x_zones = \<lparr>zs_loads = [], zs_dumps = [], zs_geoms = [], zs_sig = ''z''\<rparr>, x_bucket_s = 300,
     x_max_cycle = 7200, x_lookback = lookback 7200, x_now = seconds 100, x_loader_ids = [], x_pairing_m = 12\<rparr>"

lemma demo_newest: "newest_fix_ts demo_rdb ''s1'' ''HT-01'' = Some 90000000"
  by (simp add: demo_rdb_def db.defs newest_fix_ts_def track_def fixes_of_def fix_of_def insert_position_def
      empty_db_def demo_fix_def mark_recompute_dirty_def Let_def)

lemma demo_cursor: "map_of (cursors demo_rdb) (''s1'', ''HT-01'') = Some (fresh_cursor 90000000)"
  by (simp add: demo_rdb_def db.defs insert_position_def empty_db_def demo_fix_def mark_recompute_dirty_def Let_def)

theorem refresh_leaves_the_asset_clean_witness:
  "\<exists>n d'. refresh_asset demo_rdb ''s1'' demo_ctx ''HT-01'' = (Some n, d') \<and>
     refresh_asset d' ''s1'' demo_ctx ''HT-01'' = (None, d')"
proof -
  have "fst (refresh_asset demo_rdb ''s1'' demo_ctx ''HT-01'') \<noteq> None"
    by (simp add: refresh_asset_def lock_cursor_known demo_cursor window_incremental_def fresh_cursor_def
        split: prod.split)
  then obtain n d' where run: "refresh_asset demo_rdb ''s1'' demo_ctx ''HT-01'' = (Some n, d')"
    by (cases "refresh_asset demo_rdb ''s1'' demo_ctx ''HT-01''") auto
  have "refresh_asset d' ''s1'' demo_ctx ''HT-01'' = (None, d')"
    using refresh_leaves_the_asset_clean [OF demo_newest _ _ _ run, of demo_ctx]
    by (simp add: demo_cursor cursor_by_def fresh_cursor_def demo_ctx_def lookback_def seconds_def)
  with run show ?thesis by blast
qed

theorem rebuilds_keep_cycles_disjoint_witness:
  "cycles_tile 7200 (own_cycles ''s1'' ''HT-01'' (haul_cycles demo_rdb)) \<and>
   cycles_tile 7200 (own_cycles ''s1'' ''HT-01'' (haul_cycles (snd (refresh_asset demo_rdb ''s1'' demo_ctx ''HT-01''))))"
proof -
  have "cycles_tile 7200 (own_cycles ''s1'' ''HT-01'' (haul_cycles demo_rdb))"
    by (simp add: demo_rdb_def db.defs own_cycles_def demo_cycle_row_def cycles_tile_def seconds_def)
  with rebuilds_keep_cycles_disjoint [of demo_ctx "''s1''" "''HT-01''" demo_rdb] show ?thesis
    by (simp add: demo_ctx_def)
qed

theorem recompute_terminates_witness:
  "\<exists>r d'. recompute_asset (Some 0) demo_rdb ''s1'' demo_ctx ''HT-01'' = Inr (r, d')"
  by (rule recompute_terminates) (simp_all add: demo_ctx_def)

text \<open>Assets are rebuilt apart from one another. A refresh of one asset leaves the cycles,
  the metric buckets and the positions of every other asset as they are; and when the rebuild
  of some assets raises, the run of the site ends in the state a run over the other assets
  alone ends in, with the failures counted.\<close>

theorem assets_rebuilt_apart:
  assumes "\<And>a d. a \<in> bad \<Longrightarrow> fails a d \<noteq> None"
  shows "(let d' = snd (refresh_asset d site x asset)
      in other_rows site asset (haul_cycles d') = other_rows site asset (haul_cycles d) \<and>
         other_metrics site asset (asset_metrics d') = other_metrics site asset (asset_metrics d) \<and>
         positions d' = positions d) \<and>
    (let rebuild = (\<lambda>a d. case fails a d of Some e \<Rightarrow> Inl e | None \<Rightarrow> Inr (refresh_asset d site x a));
         assets = sort (map (\<lambda>((_, a), _). a) (filter (\<lambda>((s, _), _). s = site) (cursors d)));
         (out, d') = run_assets rebuild (filter (\<lambda>a. a \<notin> bad) assets) no_counts d
     in refresh fails d site x =
          (out\<lparr>r_failed := r_failed out + length (filter (\<lambda>a. a \<in> bad) assets)\<rparr>, d'))"
proof
  obtain r d' where run: "refresh_asset d site x asset = (r, d')" by fastforce
  then show "let d' = snd (refresh_asset d site x asset)
      in other_rows site asset (haul_cycles d') = other_rows site asset (haul_cycles d) \<and>
         other_metrics site asset (asset_metrics d') = other_metrics site asset (asset_metrics d) \<and>
         positions d' = positions d"
    by (rule refresh_asset_cases)
      (simp_all add: run close_window_others close_window_keeps(2) Let_def)
  let ?rebuild = "\<lambda>a d. case fails a d of Some e \<Rightarrow> Inl e | None \<Rightarrow> Inr (refresh_asset d site x a)"
  have "\<exists>e. ?rebuild a d = Inl e" if "a \<in> bad" for a d using assms [OF that, of d] by auto
  note skip = run_assets_skip [of bad ?rebuild, OF this]
  let ?as = "sort (map (\<lambda>((_, a), _). a) (filter (\<lambda>((s, _), _). s = site) (cursors d)))"
  obtain out e where good: "run_assets ?rebuild (filter (\<lambda>a. a \<notin> bad) ?as) no_counts d = (out, e)" by fastforce
  with skip [of ?as no_counts d] have "refresh fails d site x =
      (out\<lparr>r_failed := r_failed out + length (filter (\<lambda>a. a \<in> bad) ?as)\<rparr>, e)"
    unfolding refresh_def by simp
  with good show "let rebuild = ?rebuild; assets = ?as;
      (out, d') = run_assets rebuild (filter (\<lambda>a. a \<notin> bad) assets) no_counts d
    in refresh fails d site x =
         (out\<lparr>r_failed := r_failed out + length (filter (\<lambda>a. a \<in> bad) assets)\<rparr>, d')"
    by simp
qed

theorem assets_rebuilt_apart_witness:
  "refresh (\<lambda>a d. if a = ''HT-01'' then Some ValueError else None) demo_rdb ''s1'' demo_ctx =
     (no_counts\<lparr>r_failed := 1\<rparr>, demo_rdb)"
proof -
  have "sort (map (\<lambda>((_, a), _). a) (filter (\<lambda>((s, _), _). s = ''s1'') (cursors demo_rdb))) = [''HT-01'']"
    by (simp add: demo_rdb_def db.defs insert_position_def empty_db_def demo_fix_def mark_recompute_dirty_def Let_def)
  with assets_rebuilt_apart [of "{''HT-01''}" "\<lambda>a d. if a = ''HT-01'' then Some ValueError else None" demo_rdb "''s1''" demo_ctx]
  show ?thesis by (simp add: no_counts_def)
qed

end
