(* ===== verification/Coverage.thy ===== *)
theory Coverage
  imports Recompute
begin

text \<open>
  That the incremental rebuild misses no stored fix: the session of \<^verbatim>\<open>cycles/recompute.py\<close> and of
  \<^verbatim>\<open>insert_position\<close> in \<^verbatim>\<open>storage/repositories.py\<close> as a machine whose inputs are a stored fix, a
  refresh of an asset and an on-demand rebuild of one, the invariant of its cursors, and what
  the window of the next refresh reads.
\<close>

section \<open>No stored fix escapes the refresh\<close>

text \<open>
  What happens to the positions and cursors of a session: a fix is stored, an asset is refreshed,
  an asset is rebuilt on demand.
\<close>

datatype session_input =
  Store_fix position
| Refresh_asset string ctx string
| Rebuild_asset "time option" string ctx string

fun session_step :: "'a rdb_scheme \<Rightarrow> session_input \<Rightarrow> 'a rdb_scheme" where
  "session_step d (Store_fix p) = snd (insert_position d p)"
| "session_step d (Refresh_asset site x a) = snd (refresh_asset d site x a)"
| "session_step d (Rebuild_asset start site x a) =
     (case recompute_asset start d site x a of Inr (_, d') \<Rightarrow> d' | Inl _ \<Rightarrow> d)"

fun input_ok :: "session_input \<Rightarrow> bool" where
  "input_ok (Store_fix p) = True"
| "input_ok (Refresh_asset site x a) = (0 < x_bucket_s x)"
| "input_ok (Rebuild_asset start site x a) = (0 < x_bucket_s x)"

fun rebuilds :: "string \<times> string \<Rightarrow> session_input \<Rightarrow> bool" where
  "rebuilds k (Store_fix p) = False"
| "rebuilds k (Refresh_asset site x a) = (k = (site, a))"
| "rebuilds k (Rebuild_asset start site x a) = (k = (site, a))"

text \<open>A cursor that has moved stands at a stored fix of its asset, its metrics no later.\<close>

definition cursor_ok :: "position list \<Rightarrow> string \<times> string \<Rightarrow> cursor \<Rightarrow> bool" where
  "cursor_ok ps k c \<longleftrightarrow>
     (case through_ts c of
        None \<Rightarrow> cycles_from c = None \<and> metrics_from c = None
      | Some t \<Rightarrow> cycles_from c \<noteq> None \<and> (\<exists>m \<le> t. metrics_from c = Some m) \<and>
          (\<exists>p \<in> set ps. (p_site p, p_asset p) = k \<and> p_ts p = t))"

definition session_ok :: "'a rdb_scheme \<Rightarrow> bool" where
  "session_ok d \<longleftrightarrow> (\<forall>k c. map_of (cursors d) k = Some c \<longrightarrow> cursor_ok (positions d) k c)"

definition pending :: "cursor \<Rightarrow> time \<Rightarrow> bool" where
  "pending c ts \<longleftrightarrow> (\<exists>t < ts. through_ts c = Some t) \<or> (\<exists>u \<le> ts. dirty_from c = Some u)"

definition fix_pending :: "'a rdb_scheme \<Rightarrow> position \<Rightarrow> bool" where
  "fix_pending d p \<longleftrightarrow> p \<in> set (positions d) \<and>
     (\<exists>c. map_of (cursors d) (p_site p, p_asset p) = Some c \<and> pending c (p_ts p))"

lemma session_okD: "session_ok d \<Longrightarrow> map_of (cursors d) k = Some c \<Longrightarrow> cursor_ok (positions d) k c"
  unfolding session_ok_def by blast

lemma cursor_ok_mono: "cursor_ok ps k c \<Longrightarrow> set ps \<subseteq> set qs \<Longrightarrow> cursor_ok qs k c"
  unfolding cursor_ok_def by (cases "through_ts c") auto

text \<open>Marks may be lowered; nothing else of a cursor changes.\<close>

definition lowered :: "cursor \<Rightarrow> cursor \<Rightarrow> bool" where
  "lowered c c' \<longleftrightarrow> (\<exists>u. c' = c\<lparr>dirty_from := u\<rparr> \<and> (\<forall>v. dirty_from c = Some v \<longrightarrow> (\<exists>w \<le> v. u = Some w)))"

lemma lowered_refl [simp]: "lowered c c"
  unfolding lowered_def by (rule exI [of _ "dirty_from c"]) simp

lemma lowered_trans: "lowered a b \<Longrightarrow> lowered b c \<Longrightarrow> lowered a c"
  unfolding lowered_def by (fastforce intro: order_trans)

lemma lowered_keeps:
  assumes "lowered c c'"
  shows "cursor_ok ps k c' = cursor_ok ps k c" "pending c ts \<Longrightarrow> pending c' ts"
proof -
  obtain u where c': "c' = c\<lparr>dirty_from := u\<rparr>" and u: "\<And>v. dirty_from c = Some v \<Longrightarrow> \<exists>w \<le> v. u = Some w"
    using assms by (auto simp: lowered_def)
  show "cursor_ok ps k c' = cursor_ok ps k c" unfolding c' cursor_ok_def by (cases "through_ts c") simp_all
  show "pending c' ts" if "pending c ts"
    using that u unfolding pending_def c' by (auto dest!: u intro: order_trans)
qed

lemma lower_dirty_lowered: "lowered c (lower_dirty ts c)"
proof (cases "(case through_ts c of None \<Rightarrow> True | Some t \<Rightarrow> ts < t) \<and> (case dirty_from c of None \<Rightarrow> True | Some t \<Rightarrow> ts < t)")
  case True
  then have "lower_dirty ts c = c\<lparr>dirty_from := Some ts\<rparr>" by (simp add: lower_dirty_def)
  then show ?thesis using True unfolding lowered_def by (intro exI [of _ "Some ts"]) (auto split: option.splits)
next
  case False
  then show ?thesis unfolding lower_dirty_def by (simp only: if_False) simp
qed

lemma lower_dirty_pending: "through_ts c \<noteq> Some ts \<Longrightarrow> pending (lower_dirty ts c) ts"
  by (auto simp: pending_def lower_dirty_def split: option.splits)

definition marks_lowered :: "'a db_scheme \<Rightarrow> 'a db_scheme \<Rightarrow> bool" where
  "marks_lowered d d' \<longleftrightarrow> positions d' = positions d \<and>
     (\<forall>k. rel_option lowered (map_of (cursors d) k) (map_of (cursors d') k))"

lemma marks_lowered_refl [simp]: "marks_lowered d d"
  by (simp add: marks_lowered_def option.rel_refl)

lemma marks_lowered_trans: "marks_lowered a b \<Longrightarrow> marks_lowered b c \<Longrightarrow> marks_lowered a c"
proof -
  assume *: "marks_lowered a b" "marks_lowered b c"
  have "rel_option lowered (map_of (cursors a) k) (map_of (cursors c) k)" for k
  proof -
    have "rel_option lowered (map_of (cursors a) k) (map_of (cursors b) k)"
      "rel_option lowered (map_of (cursors b) k) (map_of (cursors c) k)"
      using * unfolding marks_lowered_def by blast+
    then show ?thesis by (cases "map_of (cursors b) k") (auto simp: option_rel_Some1 option_rel_Some2 intro: lowered_trans)
  qed
  then show ?thesis using * by (simp add: marks_lowered_def)
qed

lemma mark_cursor_lowered: "marks_lowered d (mark_cursor site d m)"
  by (cases m) (auto simp: marks_lowered_def mark_cursor_def option.rel_refl lowered_def split: option.split)

lemma mark_paired_lowered: "marks_lowered d (mark_paired d site t x)"
proof -
  have "marks_lowered e d \<Longrightarrow> marks_lowered e (foldl (mark_cursor site) d ms)" for e d :: "'a rdb_scheme" and ms
  proof (induction ms arbitrary: d)
    case (Cons m ms)
    show ?case using Cons.IH [OF marks_lowered_trans [OF Cons.prems mark_cursor_lowered]] by simp
  qed simp
  then show ?thesis by (simp add: mark_paired_def)
qed

lemma marks_lowered_keeps:
  assumes "marks_lowered d d'"
  shows "session_ok d \<Longrightarrow> session_ok d'" "fix_pending d p \<Longrightarrow> fix_pending d' p"
proof -
  have rel: "rel_option lowered (map_of (cursors d) k) (map_of (cursors d') k)" for k
    using assms unfolding marks_lowered_def by blast
  show "session_ok d'" if "session_ok d"
    unfolding session_ok_def
  proof (intro allI impI)
    fix k c' assume "map_of (cursors d') k = Some c'"
    with rel [of k] obtain c where "map_of (cursors d) k = Some c" "lowered c c'" by (cases "map_of (cursors d) k") auto
    moreover from this have "cursor_ok (positions d) k c" using that by (simp add: session_okD)
    ultimately show "cursor_ok (positions d') k c'"
      using assms by (simp add: marks_lowered_def lowered_keeps(1))
  qed
  show "fix_pending d' p" if "fix_pending d p"
  proof -
    from that obtain c where c: "map_of (cursors d) (p_site p, p_asset p) = Some c" "pending c (p_ts p)"
      by (auto simp: fix_pending_def)
    with rel [of "(p_site p, p_asset p)"] obtain c' where
      "map_of (cursors d') (p_site p, p_asset p) = Some c'" "lowered c c'" by (auto simp: option_rel_Some1)
    then show ?thesis using that assms c(2) by (simp add: fix_pending_def marks_lowered_def lowered_keeps(2))
  qed
qed

text \<open>Storing a fix: the new one is pending, and what was pending stays so.\<close>

lemma insert_position_session:
  assumes "session_ok d"
  shows "session_ok (snd (insert_position d p))" "fst (insert_position d p) \<Longrightarrow> fix_pending (snd (insert_position d p)) p"
    "fix_pending d q \<Longrightarrow> fix_pending (snd (insert_position d p)) q"
proof -
  let ?k = "(p_site p, p_asset p)"
  let ?c = "case map_of (cursors d) ?k of None \<Rightarrow> fresh_cursor (p_ts p) | Some c \<Rightarrow> lower_dirty (p_ts p) c"
  have same: "insert_position d p = (False, d)" if "\<not> fst (insert_position d p)"
    using that by (auto simp: insert_position_def split: if_splits)
  have new: "cursors (snd (insert_position d p)) = dict_put ?k ?c (cursors d)"
    "positions (snd (insert_position d p)) = positions d @ [p]" "\<not> list_ex (same_fix p) (positions d)"
    if "fst (insert_position d p)"
    using that by (auto simp: insert_position_def mark_recompute_dirty_def Let_def split: if_splits)
  have ok: "cursor_ok (positions d @ [p]) ?k ?c"
  proof (cases "map_of (cursors d) ?k")
    case None
    then show ?thesis by (simp add: cursor_ok_def fresh_cursor_def)
  next
    case (Some c)
    then have "cursor_ok (positions d) ?k c" by (rule session_okD [OF assms])
    then have "cursor_ok (positions d @ [p]) ?k c" by (rule cursor_ok_mono) auto
    then show ?thesis using Some by (simp add: lowered_keeps(1) [OF lower_dirty_lowered])
  qed
  show "session_ok (snd (insert_position d p))"
  proof (cases "fst (insert_position d p)")
    case True
    show ?thesis
      unfolding session_ok_def
    proof (intro allI impI)
      fix k c assume c: "map_of (cursors (snd (insert_position d p))) k = Some c"
      show "cursor_ok (positions (snd (insert_position d p))) k c"
      proof (cases "k = ?k")
        case False
        with c have "map_of (cursors d) k = Some c" by (simp add: new [OF True])
        from session_okD [OF assms this] have "cursor_ok (positions d @ [p]) k c" by (rule cursor_ok_mono) auto
        then show ?thesis by (simp add: new [OF True])
      qed (use c ok in \<open>simp add: new [OF True]\<close>)
    qed
  qed (use same assms in simp)
  show "fix_pending (snd (insert_position d p)) p" if created: "fst (insert_position d p)"
  proof -
    have "pending ?c (p_ts p)"
    proof (cases "map_of (cursors d) ?k")
      case None
      then show ?thesis by (simp add: pending_def fresh_cursor_def)
    next
      case (Some c)
      have "through_ts c \<noteq> Some (p_ts p)"
        using session_okD [OF assms Some] new(3) [OF created] by (force simp: cursor_ok_def list_ex_iff same_fix_def)
      then show ?thesis using Some by (simp add: lower_dirty_pending)
    qed
    then show ?thesis by (simp add: fix_pending_def new [OF created])
  qed
  show "fix_pending (snd (insert_position d p)) q" if "fix_pending d q"
  proof (cases "fst (insert_position d p)")
    case True
    then show ?thesis
      using that by (auto simp: fix_pending_def new intro: lowered_keeps(2) [OF lower_dirty_lowered])
  qed (use same that in simp)
qed

lemma window_rows_read: "set (snd (window_rows d site asset win x until)) \<subseteq> set (track d site asset)"
  by (auto simp: window_rows_def read_fixes_def Let_def split: option.split list.split)
    (metis filter_is_subset insert_iff list.set(2) subset_code(1))+

lemma apply_window_cursors [simp]: "cursors (snd (apply_window d site asset win x stop_at)) = cursors d"
  by (cases "window_rows d site asset win x (map_option (\<lambda>e. e + lookback (x_max_cycle x)) stop_at)"; cases stop_at)
    (simp_all add: apply_window_def replace_cycles_def Let_def split: prod.split)

lemma apply_window_last_read:
  "a_last (fst (apply_window d site asset win x None)) = Some t \<Longrightarrow> \<exists>f \<in> set (track d site asset). f_ts f = t"
  using window_rows_read [of d site asset win x None]
  by (cases "window_rows d site asset win x None")
    (auto simp: apply_window_def Let_def split: prod.splits if_splits dest!: last_in_set)

lemma track_stored: "f \<in> set (track d site asset) \<longleftrightarrow> (\<exists>p \<in> set (positions d). p_site p = site \<and> p_asset p = asset \<and> f = fix_of p)"
  by (auto simp: track_def fixes_of_def)

lemma advance_ok:
  assumes "cursor_ok ps (site, asset) cur" and "0 < width"
    and "\<And>t. a_last res = Some t \<Longrightarrow> \<exists>p \<in> set ps. p_site p = site \<and> p_asset p = asset \<and> p_ts p = t"
  shows "cursor_ok ps (site, asset) (advance cur res zs width now clear)"
proof (cases "\<exists>t r. a_last res = Some t \<and> a_resume res = Some r")
  case True
  then obtain t r where tr: "a_last res = Some t" "a_resume res = Some r" by blast
  have "floor_bucket (t - min_visit - min_exit) width \<le> t"
    using floor_bucket_near [OF assms(2), of "t - min_visit - min_exit"]
    by (simp add: min_visit_def min_exit_def seconds_def)
  then show ?thesis using tr assms(3) [OF tr(1)] by (auto simp: advance_def cursor_ok_def)
next
  case False
  then have "through_ts (advance cur res zs width now clear) = through_ts cur"
    "cycles_from (advance cur res zs width now clear) = cycles_from cur"
    "metrics_from (advance cur res zs width now clear) = metrics_from cur"
    by (auto simp: advance_def Let_def split: option.splits)
  then show ?thesis using assms(1) unfolding cursor_ok_def by (cases "through_ts cur") simp_all
qed

lemma cursor_ok_blank: "through_ts c = None \<Longrightarrow> cycles_from c = None \<Longrightarrow> metrics_from c = None \<Longrightarrow> cursor_ok ps k c"
  by (simp add: cursor_ok_def)

lemma lock_cursor_session:
  assumes "session_ok d"
  shows "session_ok (snd (lock_cursor d site a))" "cursor_ok (positions d) (site, a) (fst (lock_cursor d site a))"
    "fix_pending d p \<Longrightarrow> fix_pending (snd (lock_cursor d site a)) p"
  using assms
  by (auto simp: lock_cursor_def session_ok_def fix_pending_def Let_def cursor_ok_blank split: option.splits if_splits)

lemma close_window_session:
  assumes "session_ok d" and "cursor_ok (positions d) (site, asset) cur" and "0 < x_bucket_s x"
  shows "session_ok (close_window d site x asset cur win inc)"
    "fix_pending d p \<Longrightarrow> (p_site p, p_asset p) \<noteq> (site, asset) \<Longrightarrow> fix_pending (close_window d site x asset cur win inc) p"
proof -
  obtain res d1 where ap: "apply_window d site asset win x None = (res, d1)" by fastforce
  have d1: "positions d1 = positions d" "cursors d1 = cursors d"
    using apply_window_positions [of d site asset win x None] apply_window_cursors [of d site asset win x None] ap by simp_all
  define d2 where "d2 = (case (if asset \<in> set (x_loader_ids x) then new_from cur inc else None) of
      None \<Rightarrow> d1 | Some t \<Rightarrow> mark_paired d1 site t x)"
  have low: "marks_lowered d1 d2" by (auto simp: d2_def mark_paired_lowered split: option.split)
  have ok1: "session_ok d1" and pend1: "fix_pending d p \<Longrightarrow> fix_pending d1 p" for p
    using assms(1) d1 by (simp_all add: session_ok_def fix_pending_def)
  note d2 = marks_lowered_keeps [OF low]
  have pos2: "positions d2 = positions d" using low d1 by (simp add: marks_lowered_def)
  let ?c = "advance cur res (x_zones x) (x_bucket_s x) (x_now x) inc"
  have cw: "close_window d site x asset cur win inc = put_cursor d2 site asset ?c"
    by (simp add: close_window_def ap d2_def Let_def)
  have "cursor_ok (positions d) (site, asset) ?c"
  proof (rule advance_ok [OF assms(2,3)])
    fix t assume "a_last res = Some t"
    with apply_window_last_read [of d site asset win x t] ap obtain f where "f \<in> set (track d site asset)" "f_ts f = t" by auto
    then show "\<exists>p \<in> set (positions d). p_site p = site \<and> p_asset p = asset \<and> p_ts p = t"
      by (auto simp: track_stored fix_of_def)
  qed
  with d2(1) [OF ok1] pos2 show "session_ok (close_window d site x asset cur win inc)"
    by (auto simp: cw put_cursor_def session_ok_def)
  show "fix_pending (close_window d site x asset cur win inc) p"
    if "fix_pending d p" "(p_site p, p_asset p) \<noteq> (site, asset)"
    using d2(2) [OF pend1 [OF that(1)]] that(2) by (auto simp: cw put_cursor_def fix_pending_def)
qed

lemma recompute_slices_session:
  assumes "session_ok d" and "0 < x_bucket_s x" and "recompute_slices n d site x asset win totals = Some (tot, d')"
  shows "session_ok d' \<and> (\<forall>p. fix_pending d p \<longrightarrow> (p_site p, p_asset p) \<noteq> (site, asset) \<longrightarrow> fix_pending d' p)"
  using assms(1,3)
proof (induction n arbitrary: d win totals)
  case (Suc n)
  show ?case
  proof (cases "slice_end d site asset win x")
    case None
    let ?l = "lock_cursor d site asset"
    have no_next: "a_next (fst (apply_window (snd ?l) site asset win x None)) = None" by (simp add: apply_window_next)
    have d': "d' = close_window (snd ?l) site x asset (fst ?l) win False"
      using Suc.prems(2) None no_next by (auto simp: close_window_def Let_def split: prod.splits)
    note l = lock_cursor_session [OF Suc.prems(1), where site = site and a = asset]
    show ?thesis unfolding d'
      using close_window_session [OF l(1) _ assms(2), where site = site and asset = asset and cur = "fst ?l"
        and win = win and inc = False] l(2,3) by simp
  next
    case (Some e)
    obtain res d1 where ap: "apply_window d site asset win x (Some e) = (res, d1)" by fastforce
    then have d1: "positions d1 = positions d" "cursors d1 = cursors d"
      using apply_window_positions [of d site asset win x "Some e"] apply_window_cursors [of d site asset win x "Some e"] by simp_all
    then have "session_ok d1" "\<And>p. fix_pending d p \<Longrightarrow> fix_pending d1 p"
      using Suc.prems(1) by (simp_all add: session_ok_def fix_pending_def)
    moreover obtain w where "a_next res = Some w" using apply_window_next [of d site asset win x "Some e"] ap by auto
    ultimately show ?thesis using Suc.IH [of d1 w] Suc.prems(2) Some ap by simp
  qed
qed simp

lemma session_step_keeps:
  assumes "session_ok d" and "input_ok i"
  shows "session_ok (session_step d i)"
    "fix_pending d p \<Longrightarrow> \<not> rebuilds (p_site p, p_asset p) i \<Longrightarrow> fix_pending (session_step d i) p"
proof -
  have "session_ok (session_step d i) \<and>
    (fix_pending d p \<longrightarrow> \<not> rebuilds (p_site p, p_asset p) i \<longrightarrow> fix_pending (session_step d i) p)"
  proof (cases i)
    case (Store_fix q)
    then show ?thesis using insert_position_session [OF assms(1)] by simp
  next
    case (Refresh_asset site x a)
    obtain r d' where run: "refresh_asset d site x a = (r, d')" by fastforce
    note l = lock_cursor_session [OF assms(1), where site = site and a = a]
    from run show ?thesis
    proof (cases rule: refresh_asset_cases)
      case (2 win)
      then show ?thesis
        using close_window_session [OF l(1), where site = site and asset = a and cur = "fst (lock_cursor d site a)"
          and x = x and win = win and inc = True] l(2,3) assms(2) Refresh_asset run
        by simp
    qed (use assms run Refresh_asset in simp)
  next
    case (Rebuild_asset start site x a)
    then have w: "0 < x_bucket_s x" using assms(2) by simp
    show ?thesis
      using assms(1) recompute_slices_session [OF assms(1) w]
      by (fastforce simp: Rebuild_asset recompute_asset_def split: option.splits)
  qed
  then show "session_ok (session_step d i)"
    "fix_pending d p \<Longrightarrow> \<not> rebuilds (p_site p, p_asset p) i \<Longrightarrow> fix_pending (session_step d i) p" by blast+
qed

lemma session_run_keeps:
  "session_ok d \<Longrightarrow> \<forall>i \<in> set is. input_ok i \<Longrightarrow> session_ok (run_machine session_step d is)"
  by (induction "is" arbitrary: d) (simp_all add: session_step_keeps(1))

lemma session_run_pending:
  assumes "session_ok d" and "\<forall>i \<in> set is. input_ok i \<and> \<not> rebuilds (p_site p, p_asset p) i" and "fix_pending d p"
  shows "fix_pending (run_machine session_step d is) p"
  using assms by (induction "is" arbitrary: d) (simp_all add: session_step_keeps)

text \<open>What the next refresh reads.\<close>

lemma window_reads_back:
  assumes "f \<in> set (track d site asset)"
    and "w_metrics_from win \<le> f_ts f \<or> w_open_through win = None \<and> w_cycles_from win - min_exit \<le> f_ts f"
  shows "f \<in> set (snd (window_rows d site asset win x None))"
proof -
  let ?rows = "read_fixes d site asset (w_metrics_from win) None"
  have "\<not> still_in_open_visit ?rows win (x_zones x) (x_max_cycle x)" if "w_open_through win = None"
    using that by (simp add: still_in_open_visit_def)
  then show ?thesis using assms by (auto simp: window_rows_def read_fixes_def Let_def)
qed

lemma start_at_reads:
  assumes "f \<in> set (track d site asset)" and "ts \<le> f_ts f"
  shows "fst (start_at d site asset ts) \<le> f_ts f"
proof (cases "track d site asset")
  case (Cons g gs)
  then have "f_ts g \<le> f_ts f" using assms(1) track_sorted [of d site asset] by auto
  then show ?thesis using assms(2) Cons by (simp add: start_at_def first_fix_ts_def)
qed (use assms in simp)

lemma pending_window:
  assumes f: "f \<in> set (track d site asset)" and ok: "cursor_ok ps k cur" and p: "pending cur (f_ts f)"
    and width: "0 < width" and lb: "0 \<le> b"
  shows "\<exists>win. window_incremental d site asset cur zs b width = Some win \<and>
    (w_metrics_from win \<le> f_ts f \<or> w_open_through win = None \<and> w_cycles_from win - min_exit \<le> f_ts f)"
proof (cases "through_ts cur")
  case None
  then obtain u where u: "dirty_from cur = Some u" "u \<le> f_ts f" using p by (auto simp: pending_def)
  have "fst (start_at d site asset (u - b)) \<le> f_ts f" using start_at_reads [OF f] u(2) lb by simp
  then have "fst (start_at d site asset (u - b)) - min_exit \<le> f_ts f" by (simp add: min_exit_def seconds_def)
  moreover have "cycles_from cur = None" using ok None by (simp add: cursor_ok_def)
  ultimately show ?thesis
    using u by (cases "start_at d site asset (u - b)") (simp add: window_incremental_def Let_def)
next
  case (Some t)
  then obtain cf m where cm: "cycles_from cur = Some cf" "metrics_from cur = Some m" "m \<le> t"
    using ok by (auto simp: cursor_ok_def)
  show ?thesis
  proof (cases "dirty_from cur")
    case None
    then have "t < f_ts f" using p Some by (simp add: pending_def)
    then have "has_fix_after d site asset (through_ts cur)" using f Some by (auto simp: has_fix_after_def list_ex_iff)
    then show ?thesis using None cm \<open>t < f_ts f\<close> by (simp add: window_incremental_def Let_def)
  next
    case d: (Some u)
    have "floor_bucket u width - seconds width \<le> u" using floor_bucket_near [OF width, of u] width by (simp add: seconds_def)
    then have "min m (floor_bucket u width - seconds width) \<le> f_ts f" using p Some d cm by (auto simp: pending_def)
    then show ?thesis using d cm by (simp add: window_incremental_def Let_def split: prod.split)
  qed
qed

text \<open>C16: no stored fix is invisible to the incremental rebuild. Whatever has been stored, refreshed and
  rebuilt on demand since the cursors were first kept, a fix that is stored now, late or in order, stays to
  be read however many fixes are stored and other assets rebuilt after it: the next refresh of its asset
  finds a window, under any zones, and the rows that window reads include the fix.\<close>

theorem stored_fix_is_read:
  assumes "cursors d0 = []" and "\<forall>i \<in> set earlier. input_ok i"
    and "fst (insert_position (run_machine session_step d0 earlier) p)"
    and "\<forall>i \<in> set later. input_ok i \<and> \<not> rebuilds (p_site p, p_asset p) i"
    and "0 < x_bucket_s x" and "0 \<le> x_lookback x"
  defines "d \<equiv> run_machine session_step d0 (earlier @ Store_fix p # later)"
  shows "fst (refresh_asset d (p_site p) x (p_asset p)) \<noteq> None \<and>
    (\<exists>cur win. map_of (cursors d) (p_site p, p_asset p) = Some cur \<and>
       window_incremental d (p_site p) (p_asset p) cur (x_zones x) (x_lookback x) (x_bucket_s x) = Some win \<and>
       fix_of p \<in> set (snd (window_rows d (p_site p) (p_asset p) win x None)))"
proof -
  have "session_ok d0" using assms(1) by (simp add: session_ok_def)
  note ok1 = session_run_keeps [OF this assms(2)]
  note ins = insert_position_session [OF ok1, of p]
  have ok: "session_ok d" and "fix_pending d p"
    using session_run_keeps [OF ins(1), of later] session_run_pending [OF ins(1) assms(4) ins(2) [OF assms(3)]] assms(4)
    by (simp_all add: d_def)
  then obtain cur where cur: "map_of (cursors d) (p_site p, p_asset p) = Some cur" "pending cur (f_ts (fix_of p))"
    and f: "fix_of p \<in> set (track d (p_site p) (p_asset p))"
    by (auto simp: fix_pending_def track_stored fix_of_def)
  from pending_window [OF f session_okD [OF ok cur(1)] cur(2) assms(5,6)] obtain win where
    win: "window_incremental d (p_site p) (p_asset p) cur (x_zones x) (x_lookback x) (x_bucket_s x) = Some win"
    and reads: "w_metrics_from win \<le> f_ts (fix_of p) \<or> w_open_through win = None \<and> w_cycles_from win - min_exit \<le> f_ts (fix_of p)"
    by blast
  have "fst (refresh_asset d (p_site p) x (p_asset p)) \<noteq> None"
    using win by (simp add: refresh_asset_def lock_cursor_known [OF cur(1)] Let_def split: prod.split)
  then show ?thesis using cur(1) win window_reads_back [OF f reads] by blast
qed

text \<open>A late fix: the asset is refreshed up to its fix at 90 s, and then one of 3 s arrives.\<close>

definition no_rows :: rdb where
  "no_rows = db.extend empty_db \<lparr>haul_cycles = [], asset_metrics = []\<rparr>"

theorem stored_fix_is_read_witness:
  "fst (refresh_asset (run_machine session_step no_rows
      ([Store_fix (demo_fix 90000000 0 0 None), Refresh_asset ''s1'' demo_ctx ''HT-01''] @
       Store_fix (demo_fix 3000000 0 0 None) # [Store_fix (demo_fix 95000000 0 0 None)])) ''s1'' demo_ctx ''HT-01'') \<noteq> None"
proof -
  have "positions (snd (refresh_asset d ''s1'' demo_ctx ''HT-01'')) = positions d" for d :: rdb
  proof -
    obtain r d' where run: "refresh_asset d ''s1'' demo_ctx ''HT-01'' = (r, d')" by fastforce
    then show ?thesis by (cases rule: refresh_asset_cases) (simp_all add: run close_window_keeps(2))
  qed
  then have "fst (insert_position (run_machine session_step no_rows [Store_fix (demo_fix 90000000 0 0 None),
      Refresh_asset ''s1'' demo_ctx ''HT-01'']) (demo_fix 3000000 0 0 None))"
    by (simp add: insert_position_def no_rows_def db.defs empty_db_def demo_fix_def same_fix_def
        mark_recompute_dirty_def Let_def)
  from stored_fix_is_read [OF _ _ this, of "[Store_fix (demo_fix 95000000 0 0 None)]" demo_ctx] show ?thesis
    by (simp add: no_rows_def db.defs empty_db_def demo_ctx_def demo_fix_def lookback_def seconds_def)
qed

text \<open>
  The on-demand rebuild is left out of \<open>later\<close> for a reason. It moves the cursor to the newest fix even when
  it started after fixes no run had read yet: those are read neither by it nor by any refresh after it.
\<close>

lemma on_demand_rebuild_skips_unread:
  assumes c: "map_of (cursors d) (site, asset) = Some c" "dirty_from c = None"
    and newest: "newest_fix_ts d site asset = Some t" and loader: "asset \<notin> set (x_loader_ids x)"
    and win: "window_on_demand d site asset start (x_lookback x) (x_bucket_s x) = Some win"
    and one_slice: "slice_end d site asset win x = None" and "w_cycles_from win \<le> t"
    and f: "f_ts f < w_cycles_from win - min_exit" "f_ts f < w_metrics_from win"
  shows "f \<notin> set (snd (window_rows d site asset win x None)) \<and>
    (\<exists>r d'. recompute_asset start d site x asset = Inr (Some r, d') \<and> refresh_asset d' site x asset = (None, d'))"
proof
  show "f \<notin> set (snd (window_rows d site asset win x None))"
    using f by (auto simp: window_rows_def read_fixes_def Let_def)
  obtain res d1 where ap: "apply_window d site asset win x None = (res, d1)" by fastforce
  have "w_open_through win = None" using win by (auto simp: window_on_demand_def Let_def split: option.splits prod.splits)
  then have last: "a_last res = Some t" "a_resume res \<noteq> None"
    using apply_window_last [OF newest, of win x] assms(7) ap by (simp_all add: min_exit_def seconds_def)
  let ?c = "advance c res (x_zones x) (x_bucket_s x) (x_now x) False"
  let ?d = "put_cursor d1 site asset ?c"
  have "clean_at t (x_zones x) ?c" using last c(2) by (auto simp: clean_at_def advance_def)
  moreover have "newest_fix_ts ?d site asset = Some t"
    using newest newest_fix_positions [of ?d d site asset] apply_window_positions [of d site asset win x None] ap by simp
  ultimately have "refresh_asset ?d site x asset = (None, ?d)" by (intro clean_refresh_none [where c = ?c]) simp_all
  moreover have "recompute_asset start d site x asset = Inr (Some (a_cycles res, a_buckets res), ?d)"
    using win one_slice loader ap apply_window_next [of d site asset win x None]
    by (simp add: recompute_asset_def slice_fuel_def lock_cursor_known [OF c(1)] Let_def)
  ultimately show "\<exists>r d'. recompute_asset start d site x asset = Inr (Some r, d') \<and> refresh_asset d' site x asset = (None, d')"
    by blast
qed

end
