(* ===== verification/RuleEval.thy ===== *)
theory RuleEval
  imports Store
begin

text \<open>
  \<^verbatim>\<open>src/src/minemonitor/rules/evaluate.py\<close>: confirmed transitions and in-zone fixes become
  events. The specification side tells from the history of speeds alone when an overspeed or a
  dwell alarm is due; the lemmas say the per-episode counters raise exactly those.
\<close>

section \<open>The rules\<close>

definition rule_source :: string where
  "rule_source = ''gnss_geofence''"

definition rule_event ::
  "'a db_scheme \<Rightarrow> position \<Rightarrow> string \<Rightarrow> string \<Rightarrow> zone \<Rightarrow> text_pieces \<Rightarrow> dict
    \<Rightarrow> py_error + (event \<times> 'a db_scheme)" where
  "rule_event d pos typ severity z summary detail =
     (case new_event_id d of (i, d) \<Rightarrow>
        and_then (event_v1 \<lparr>e_id = i, e_site = p_site pos, e_ts = p_ts pos, e_type = typ,
            e_severity = severity, e_asset = Some (p_asset pos), e_zone = Some (z_id z),
            e_source = rule_source, e_summary = summary, e_detail = Some detail,
            e_evidence = None, e_advisory = True, e_state = ''open'', e_ack_by = None,
            e_ack_at = None\<rparr>) (\<lambda>ev. Inr (ev, d)))"

definition opt_real :: "real option \<Rightarrow> json" where
  "opt_real x = (case x of None \<Rightarrow> JNull | Some r \<Rightarrow> JReal r)"

definition authorised :: "rule_config \<Rightarrow> string \<Rightarrow> bool" where
  "authorised cfg asset_class =
     (JStr asset_class \<in> set (case authorized_classes cfg of None \<Rightarrow> [] | Some cs \<Rightarrow> cs))"

definition on_entry ::
  "'a db_scheme \<Rightarrow> position \<Rightarrow> zone \<Rightarrow> rule_config \<Rightarrow> string
    \<Rightarrow> py_error + (event option \<times> 'a db_scheme)" where
  "on_entry d pos z cfg asset_class =
     (if z_kind z \<noteq> ''restricted'' then Inr (None, d)
      else if authorised cfg asset_class then Inr (None, d)
      else and_then (rule_event d pos ''zone_breach'' (breach_severity cfg) z
             [Txt (p_asset pos), Txt '' entered '', Txt (z_name z), Txt '' without authorisation'']
             [(''asset_class'', JStr asset_class), (''speed_kph'', opt_real (p_speed pos))])
           (\<lambda>(ev, d). Inr (Some ev, d)))"

text \<open>The overspeed half of \<^verbatim>\<open>on_inzone_fix\<close>: its counters, and whether it raises.\<close>

definition overspeed_due :: "rule_config \<Rightarrow> zone_state \<Rightarrow> real \<Rightarrow> bool" where
  "overspeed_due cfg st speed =
     (case speed_limit_kph cfg of None \<Rightarrow> False
      | Some limit \<Rightarrow> speed > limit \<and> overspeed_consec st + 1 \<ge> overspeed_consecutive cfg \<and>
          \<not> overspeed_fired st)"

definition overspeed_update :: "rule_config \<Rightarrow> real \<Rightarrow> zone_state \<Rightarrow> zone_state" where
  "overspeed_update cfg speed st =
     (case speed_limit_kph cfg of None \<Rightarrow> st
      | Some limit \<Rightarrow>
          if speed > limit then
            st\<lparr>overspeed_consec := overspeed_consec st + 1,
               overspeed_fired := (overspeed_fired st \<or> overspeed_due cfg st speed)\<rparr>
          else st\<lparr>overspeed_consec := 0, overspeed_fired := False\<rparr>)"

text \<open>The dwell half.\<close>

definition dwell_due :: "rule_config \<Rightarrow> zone_state \<Rightarrow> time \<Rightarrow> real \<Rightarrow> time option" where
  "dwell_due cfg st ts speed =
     (case dwell_s cfg of None \<Rightarrow> None
      | Some limit \<Rightarrow>
          if speed < stationary_kph then
            (case stationary_since st of None \<Rightarrow> None
             | Some since \<Rightarrow>
                 if \<not> dwell_fired st \<and> total_seconds (ts - since) \<ge> limit then Some since else None)
          else None)"

definition dwell_update :: "rule_config \<Rightarrow> time \<Rightarrow> real \<Rightarrow> zone_state \<Rightarrow> zone_state" where
  "dwell_update cfg ts speed st =
     (case dwell_s cfg of None \<Rightarrow> st
      | Some limit \<Rightarrow>
          if speed < stationary_kph then
            (case stationary_since st of
               None \<Rightarrow> st\<lparr>stationary_since := Some ts\<rparr>
             | Some since \<Rightarrow>
                 if dwell_due cfg st ts speed \<noteq> None then st\<lparr>dwell_fired := True\<rparr> else st)
          else st\<lparr>stationary_since := None, dwell_fired := False\<rparr>)"

definition overspeed_event ::
  "'a db_scheme \<Rightarrow> position \<Rightarrow> zone \<Rightarrow> rule_config \<Rightarrow> real \<Rightarrow> py_error + (event \<times> 'a db_scheme)" where
  "overspeed_event d pos z cfg speed =
     (let limit = (case speed_limit_kph cfg of None \<Rightarrow> 0 | Some x \<Rightarrow> x)
      in rule_event d pos ''overspeed'' (overspeed_severity cfg) z
           [Txt (p_asset pos), Txt '' over '', FmtG limit, Txt '' kph in '', Txt (z_name z),
            Txt '' ('', FmtG speed, Txt '' kph)'']
           [(''speed_kph'', JReal speed), (''limit_kph'', JReal limit)])"

definition dwell_event ::
  "'a db_scheme \<Rightarrow> position \<Rightarrow> zone \<Rightarrow> rule_config \<Rightarrow> time \<Rightarrow> py_error + (event \<times> 'a db_scheme)" where
  "dwell_event d pos z cfg since =
     (let secs = total_seconds (p_ts pos - since)
      in rule_event d pos ''zone_dwell'' (dwell_severity cfg) z
           [Txt (p_asset pos), Txt '' stationary in '', Txt (z_name z), Txt '' for '',
            FmtInt (trunc secs), Txt ''s'']
           [(''dwell_s'', JReal secs), (''threshold_s'', opt_real (dwell_s cfg))])"

definition on_inzone_fix ::
  "'a db_scheme \<Rightarrow> position \<Rightarrow> zone \<Rightarrow> rule_config \<Rightarrow> zone_state
    \<Rightarrow> py_error + (event list \<times> zone_state \<times> 'a db_scheme)" where
  "on_inzone_fix d pos z cfg st =
     (case p_speed pos of
        None \<Rightarrow> Inr ([], st\<lparr>overspeed_consec := 0\<rparr>, d)
      | Some speed \<Rightarrow>
          and_then
            (if overspeed_due cfg st speed
             then and_then (overspeed_event d pos z cfg speed) (\<lambda>(ev, d). Inr ([ev], d))
             else Inr ([], d))
            (\<lambda>(evs, d).
               let st1 = overspeed_update cfg speed st
               in and_then
                    (case dwell_due cfg st1 (p_ts pos) speed of
                       None \<Rightarrow> Inr (evs, d)
                     | Some since \<Rightarrow>
                         and_then (dwell_event d pos z cfg since) (\<lambda>(ev, d). Inr (evs @ [ev], d)))
                    (\<lambda>(evs, d). Inr (evs, dwell_update cfg (p_ts pos) speed st1, d))))"

section \<open>Shapes\<close>

lemma rule_event_Inr:
  "rule_event d pos typ sev z summary detail = Inr (ev, d') \<Longrightarrow>
     e_type ev = typ \<and> e_severity ev = sev \<and> e_site ev = p_site pos \<and>
     e_asset ev = Some (p_asset pos) \<and> e_zone ev = Some (z_id z) \<and> e_ts ev = p_ts pos \<and>
     valid_event ev \<and> d' = d\<lparr>ids_drawn := ids_drawn d + 1\<rparr>"
  by (auto simp: rule_event_def new_event_id_def event_v1_def and_then_Inr_iff split: if_splits)

lemma on_entry_Inr:
  "on_entry d pos z cfg cls = Inr (r, d') \<Longrightarrow>
     (r \<noteq> None \<longleftrightarrow> z_kind z = ''restricted'' \<and> \<not> authorised cfg cls) \<and>
     (\<forall>ev. r = Some ev \<longrightarrow> e_type ev = ''zone_breach'' \<and> e_severity ev = breach_severity cfg \<and>
        valid_event ev \<and> e_asset ev = Some (p_asset pos) \<and> e_zone ev = Some (z_id z))"
  by (auto simp: on_entry_def and_then_Inr_iff dest!: rule_event_Inr split: if_splits)

text \<open>Which alarms a fix raises, and the row it leaves, whatever the identifiers drawn.\<close>

definition alarm_types :: "rule_config \<Rightarrow> zone_state \<Rightarrow> time \<Rightarrow> real option \<Rightarrow> string list" where
  "alarm_types cfg st ts sp =
     (case sp of None \<Rightarrow> []
      | Some speed \<Rightarrow>
          (if overspeed_due cfg st speed then [''overspeed''] else []) @
          (if dwell_due cfg (overspeed_update cfg speed st) ts speed \<noteq> None
           then [''zone_dwell''] else []))"

definition alarm_update :: "rule_config \<Rightarrow> zone_state \<Rightarrow> time \<Rightarrow> real option \<Rightarrow> zone_state" where
  "alarm_update cfg st ts sp =
     (case sp of None \<Rightarrow> st\<lparr>overspeed_consec := 0\<rparr>
      | Some speed \<Rightarrow> dwell_update cfg ts speed (overspeed_update cfg speed st))"

lemma on_inzone_fix_Inr:
  assumes "on_inzone_fix d pos z cfg st = Inr (evs, st', d')"
  shows "map e_type evs = alarm_types cfg st (p_ts pos) (p_speed pos) \<and>
    st' = alarm_update cfg st (p_ts pos) (p_speed pos)"
proof (cases "p_speed pos")
  case None
  with assms show ?thesis by (simp add: on_inzone_fix_def alarm_types_def alarm_update_def)
next
  case (Some speed)
  with assms show ?thesis
    by (auto simp: on_inzone_fix_def alarm_types_def alarm_update_def and_then_Inr_iff Let_def
        overspeed_event_def dwell_event_def dest!: rule_event_Inr split: if_splits option.splits)
qed

lemma alarm_update_keeps:
  "inside (alarm_update cfg st ts sp) = inside st"
  "consec_in (alarm_update cfg st ts sp) = consec_in st"
  "consec_out (alarm_update cfg st ts sp) = consec_out st"
  "entered_at (alarm_update cfg st ts sp) = entered_at st"
  "last_ts (alarm_update cfg st ts sp) = last_ts st"
  by (simp_all add: alarm_update_def dwell_update_def overspeed_update_def split: option.splits)

section \<open>Each alarm is latched for its episode\<close>

type_synonym vfix = "time \<times> real option"

definition raises :: "rule_config \<Rightarrow> string \<Rightarrow> zone_state \<Rightarrow> vfix \<Rightarrow> bool" where
  "raises cfg typ st e \<longleftrightarrow> typ \<in> set (alarm_types cfg st (fst e) (snd e))"

definition after_fix :: "rule_config \<Rightarrow> zone_state \<Rightarrow> vfix \<Rightarrow> zone_state" where
  "after_fix cfg st e = alarm_update cfg st (fst e) (snd e)"

definition slows_down :: "rule_config \<Rightarrow> zone_state \<Rightarrow> vfix \<Rightarrow> bool" where
  "slows_down cfg st e \<longleftrightarrow>
     (case (speed_limit_kph cfg, snd e) of (Some limit, Some v) \<Rightarrow> v \<le> limit | _ \<Rightarrow> False)"

definition moves_off :: "zone_state \<Rightarrow> vfix \<Rightarrow> bool" where
  "moves_off st e \<longleftrightarrow> (case snd e of Some v \<Rightarrow> v \<ge> stationary_kph | None \<Rightarrow> False)"

lemmas rule_defs = raises_def after_fix_def alarm_types_def alarm_update_def overspeed_due_def
  overspeed_update_def dwell_due_def dwell_update_def

interpretation overspeed: latch "raises cfg ''overspeed''" "after_fix cfg" overspeed_fired
    "slows_down cfg" for cfg
  by unfold_locales
    (auto simp: rule_defs slows_down_def split: option.splits if_splits)

interpretation dwell: latch "raises cfg ''zone_dwell''" "after_fix cfg" dwell_fired moves_off for cfg
  by unfold_locales
    (auto simp: rule_defs moves_off_def split: option.splits if_splits)

section \<open>The alarms decided on the history of speeds\<close>

text \<open>The history newest fix first. A fix without a speed neither ends a spell nor counts.\<close>

fun run_over :: "real \<Rightarrow> vfix list \<Rightarrow> int" where
  "run_over limit [] = 0"
| "run_over limit ((ts, sp) # h) =
     (case sp of None \<Rightarrow> 0 | Some v \<Rightarrow> if v > limit then 1 + run_over limit h else 0)"

definition over_now :: "real \<Rightarrow> vfix list \<Rightarrow> bool" where
  "over_now limit h \<longleftrightarrow> (case h of (ts, Some v) # _ \<Rightarrow> v > limit | _ \<Rightarrow> False)"

definition overspeed_reached :: "real \<Rightarrow> int \<Rightarrow> vfix list \<Rightarrow> bool" where
  "overspeed_reached limit n h \<longleftrightarrow> over_now limit h \<and> run_over limit h \<ge> n"

definition over_spell :: "real \<Rightarrow> vfix list \<Rightarrow> vfix list" where
  "over_spell limit h = takeWhile (\<lambda>(ts, sp). case sp of None \<Rightarrow> True | Some v \<Rightarrow> v > limit) h"

text \<open>Some fix of the newest \<open>n\<close> met the condition, each judged on the history up to it.\<close>

definition met_within :: "(vfix list \<Rightarrow> bool) \<Rightarrow> nat \<Rightarrow> vfix list \<Rightarrow> bool" where
  "met_within c n h \<longleftrightarrow> (\<exists>i < n. c (drop i h))"

lemma met_within_0 [simp]: "\<not> met_within c 0 h"
  by (simp add: met_within_def)

lemma met_within_Suc: "met_within c (Suc n) (e # h) \<longleftrightarrow> c (e # h) \<or> met_within c n h"
  by (simp add: met_within_def Ex_less_Suc2)

fun rules_after :: "rule_config \<Rightarrow> zone_state \<Rightarrow> vfix list \<Rightarrow> zone_state" where
  "rules_after cfg st [] = st"
| "rules_after cfg st (e # h) = after_fix cfg (rules_after cfg st h) e"

lemma overspeed_counters:
  assumes "speed_limit_kph cfg = Some limit" and "overspeed_consec st = 0" and "\<not> overspeed_fired st"
  shows "overspeed_consec (rules_after cfg st h) = run_over limit h \<and>
    overspeed_fired (rules_after cfg st h) =
      met_within (overspeed_reached limit (overspeed_consecutive cfg)) (length (over_spell limit h)) h"
proof (induction h)
  case Nil
  with assms show ?case by (simp add: over_spell_def)
next
  case (Cons e h)
  obtain ts sp where e: "e = (ts, sp)" by (cases e) auto
  from Cons assms(1) show ?case
    by (auto simp: e rule_defs over_spell_def met_within_Suc overspeed_reached_def over_now_def
        split: option.splits)
qed

fun stationary_spell :: "vfix list \<Rightarrow> vfix list" where
  "stationary_spell [] = []"
| "stationary_spell ((ts, sp) # h) =
     (case sp of None \<Rightarrow> (ts, sp) # stationary_spell h
      | Some v \<Rightarrow> if v < stationary_kph then (ts, sp) # stationary_spell h else [])"

fun stopped_at :: "vfix list \<Rightarrow> time option" where
  "stopped_at [] = None"
| "stopped_at ((ts, sp) # h) =
     (case sp of None \<Rightarrow> stopped_at h
      | Some v \<Rightarrow> if v < stationary_kph
                then (case stopped_at h of None \<Rightarrow> Some ts | Some s \<Rightarrow> Some s) else None)"

definition dwell_reached :: "real \<Rightarrow> vfix list \<Rightarrow> bool" where
  "dwell_reached limit h \<longleftrightarrow>
     (case h of (ts, Some v) # h' \<Rightarrow>
        v < stationary_kph \<and>
        (case stopped_at h' of None \<Rightarrow> False | Some since \<Rightarrow> total_seconds (ts - since) \<ge> limit)
      | _ \<Rightarrow> False)"

lemma dwell_counters:
  assumes "dwell_s cfg = Some limit" and "stationary_since st = None" and "\<not> dwell_fired st"
  shows "stationary_since (rules_after cfg st h) = stopped_at h \<and>
    dwell_fired (rules_after cfg st h) =
      met_within (dwell_reached limit) (length (stationary_spell h)) h"
proof (induction h)
  case Nil
  with assms show ?case by simp
next
  case (Cons e h)
  obtain ts sp where e: "e = (ts, sp)" by (cases e) auto
  from Cons assms(1) show ?case
    by (auto simp: e rule_defs met_within_Suc dwell_reached_def split: option.splits)
qed

section \<open>Properties\<close>

text \<open>C20: an overspeed alarm is raised exactly by the first fix of a sustained spell that makes
  the run of consecutive over-limit fixes long enough. A fix without a speed breaks the run but
  not the spell, a fix at or under the limit ends the spell and re-arms the alarm.\<close>

theorem overspeed_raised_exactly_once_per_spell:
  assumes "speed_limit_kph cfg = Some limit" and "overspeed_consec st = 0" and "\<not> overspeed_fired st"
  shows "raises cfg ''overspeed'' (rules_after cfg st h) e \<longleftrightarrow>
    overspeed_reached limit (overspeed_consecutive cfg) (e # h) \<and>
    \<not> met_within (overspeed_reached limit (overspeed_consecutive cfg)) (length (over_spell limit h)) h"
  using overspeed_counters [OF assms, of h] assms(1)
  by (cases e) (auto simp: rule_defs overspeed_reached_def over_now_def split: option.splits)

theorem overspeed_raised_exactly_once_per_spell_witness:
  "raises (default_config\<lparr>speed_limit_kph := Some 30\<rparr>) ''overspeed''
     (rules_after (default_config\<lparr>speed_limit_kph := Some 30\<rparr>) new_zone_state
        [(2, Some 41), (1, Some 40)]) (3, Some 42)"
  by (subst overspeed_raised_exactly_once_per_spell [where limit = 30])
    (simp_all add: default_config_def new_zone_state_def overspeed_reached_def over_now_def
      over_spell_def met_within_Suc numeral_2_eq_2)

text \<open>C23: a dwell alarm is raised exactly by the first fix of a stationary spell at which the
  asset has been seen stationary for the threshold; a fix without a speed neither starts nor ends
  the spell, and moving re-arms the alarm.\<close>

theorem dwell_raised_exactly_once_per_stop:
  assumes "dwell_s cfg = Some limit" and "stationary_since st = None" and "\<not> dwell_fired st"
  shows "raises cfg ''zone_dwell'' (rules_after cfg st h) e \<longleftrightarrow>
    dwell_reached limit (e # h) \<and>
    \<not> met_within (dwell_reached limit) (length (stationary_spell h)) h"
  using dwell_counters [OF assms, of h] assms(1)
  by (cases e) (auto simp: rule_defs dwell_reached_def split: option.splits)

theorem dwell_raised_exactly_once_per_stop_witness:
  "raises (default_config\<lparr>dwell_s := Some 60\<rparr>) ''zone_dwell''
     (rules_after (default_config\<lparr>dwell_s := Some 60\<rparr>) new_zone_state [(0, Some 0)])
     (60000000, Some 1)"
  by (subst dwell_raised_exactly_once_per_stop [where limit = 60])
    (simp_all add: default_config_def new_zone_state_def dwell_reached_def met_within_def
      stationary_kph_def total_seconds_def)

text \<open>While the asset does not slow to the limit one overspeed alarm at most is raised, and
  while it does not move off one dwell alarm at most, whatever the configuration, the row the
  run starts from and the fixes.\<close>

theorem one_alarm_per_episode:
  "(never (slows_down cfg) (after_fix cfg) st es \<longrightarrow> fires (raises cfg ''overspeed'') (after_fix cfg) st es \<le> 1) \<and>
   (never moves_off (after_fix cfg) st es \<longrightarrow> fires (raises cfg ''zone_dwell'') (after_fix cfg) st es \<le> 1)"
  using overspeed.at_most_once dwell.at_most_once by blast

theorem one_alarm_per_episode_witness:
  "fires (raises (default_config\<lparr>speed_limit_kph := Some 30\<rparr>) ''overspeed'')
     (after_fix (default_config\<lparr>speed_limit_kph := Some 30\<rparr>)) new_zone_state
     [(1, Some 40), (2, Some 41), (3, None)] \<le> 1"
  by (rule one_alarm_per_episode [THEN conjunct1, THEN mp])
    (simp add: slows_down_def default_config_def)

end
