(* ===== verification/Pipeline.thy ===== *)
theory Pipeline
  imports RuleEval
begin

text \<open>
  \<^verbatim>\<open>src/src/minemonitor/pipeline.py\<close>: what one newly stored fix does, zone by zone: skip it
  or heal a watermark a bad clock left in the future, parse the zone's rules, step the debounce
  machine, raise the entry and in-zone alarms, move the watermark; then persist the alarms.
  An exception anywhere is the result of the call; the caller rolls back.
\<close>

section \<open>One fix, one zone\<close>

definition max_skew :: "settings \<Rightarrow> int" where
  "max_skew s = seconds (max_future_skew_s s)"

definition watermark_ahead :: "settings \<Rightarrow> position \<Rightarrow> zone_state \<Rightarrow> bool" where
  "watermark_ahead s pos st =
     (case last_ts st of None \<Rightarrow> False | Some l \<Rightarrow> l > p_received pos + max_skew s)"

definition skip_fix :: "settings \<Rightarrow> position \<Rightarrow> zone_state \<Rightarrow> bool" where
  "skip_fix s pos st =
     (case last_ts st of None \<Rightarrow> False
      | Some l \<Rightarrow>
          if l > p_received pos + max_skew s then p_ts pos < p_received pos - max_skew s
          else p_ts pos \<le> l)"

definition heal_watermark :: "settings \<Rightarrow> position \<Rightarrow> zone_state \<Rightarrow> zone_state" where
  "heal_watermark s pos st =
     (if watermark_ahead s pos st \<and>
         (case stationary_since st of None \<Rightarrow> False | Some since \<Rightarrow> since > p_ts pos)
      then st\<lparr>stationary_since := None, dwell_fired := False\<rparr> else st)"

definition membership :: "position \<Rightarrow> zone \<Rightarrow> py_error + (bool \<times> real option)" where
  "membership pos z =
     and_then (point_in_polygon (p_lat pos) (p_lon pos) (z_geometry z)) (\<lambda>inside_raw.
     and_then (if inside_raw then Inr (Some 0) else distance_to_polygon_m (p_lat pos) (p_lon pos) (z_geometry z))
       (\<lambda>dist_out. Inr (inside_raw, dist_out)))"

definition max_gap :: "settings \<Rightarrow> real option" where
  "max_gap s = Some (of_int (offline_threshold_s s))"

definition zone_fix ::
  "settings \<Rightarrow> 'a db_scheme \<Rightarrow> position \<Rightarrow> string \<Rightarrow> zone \<Rightarrow> zone_state
    \<Rightarrow> py_error + (event list \<times> zone_state \<times> 'a db_scheme)" where
  "zone_fix s d pos asset_class z st =
     (if skip_fix s pos st then Inr ([], st, d)
      else
        let st = heal_watermark s pos st
        in and_then (parse_rules (z_kind z) (Some (z_rules z))) (\<lambda>cfg.
             and_then (membership pos z) (\<lambda>(inside_raw, dist_out).
             case step cfg (max_gap s) inside_raw dist_out (p_ts pos) st of (st, tr) \<Rightarrow>
             and_then (if tr = Some Entry then on_entry d pos z cfg asset_class else Inr (None, d))
               (\<lambda>(entry, d).
             and_then (if inside st then on_inzone_fix d pos z cfg st else Inr ([], st, d))
               (\<lambda>(evs, st, d).
             Inr ((case entry of None \<Rightarrow> [] | Some ev \<Rightarrow> [ev]) @ evs,
                  st\<lparr>last_ts := Some (p_ts pos)\<rparr>, d))))))"

section \<open>All the zones of the site\<close>

definition asset_class_of :: "'a db_scheme \<Rightarrow> string \<Rightarrow> string \<Rightarrow> string" where
  "asset_class_of d site asset =
     (case map_of (asset_rows d) (site, asset) of Some c \<Rightarrow> c | None \<Rightarrow> ''unknown'')"

definition state_for ::
  "(string \<times> zone_state) list \<Rightarrow> 'a db_scheme \<Rightarrow> position \<Rightarrow> zone \<Rightarrow> zone_state \<times> 'a db_scheme" where
  "state_for states d pos z =
     (case map_of states (z_id z) of
        Some st \<Rightarrow> (st, d)
      | None \<Rightarrow> get_or_create_state d (p_site pos) (p_asset pos) (z_id z))"

fun process_zones ::
  "settings \<Rightarrow> position \<Rightarrow> string \<Rightarrow> (string \<times> zone_state) list \<Rightarrow> 'a db_scheme \<Rightarrow> zone list
    \<Rightarrow> py_error + (event list \<times> 'a db_scheme)" where
  "process_zones s pos cls states d [] = Inr ([], d)"
| "process_zones s pos cls states d (z # zs) =
     (case state_for states d pos z of (st, d) \<Rightarrow>
        and_then (zone_fix s d pos cls z st) (\<lambda>(evs, st, d).
        and_then (process_zones s pos cls states
            (put_state d (p_site pos) (p_asset pos) (z_id z) st) zs) (\<lambda>(evs', d).
        Inr (evs @ evs', d))))"

definition process_position ::
  "settings \<Rightarrow> time \<Rightarrow> 'a db_scheme \<Rightarrow> position \<Rightarrow> bool \<Rightarrow> py_error + (event list \<times> 'a db_scheme)" where
  "process_position s now d pos created =
     (if \<not> created then Inr ([], d)
      else
        let zones = list_zones d (p_site pos)
        in if zones = [] then Inr ([], d)
           else
             and_then (process_zones s pos (asset_class_of d (p_site pos) (p_asset pos))
                 (load_states d (p_site pos) (p_asset pos)) d zones) (\<lambda>(evs, d).
             Inr (evs, foldl (persist_event s now) d evs)))"

section \<open>What a zone's step leaves\<close>

text \<open>The part of the row the debounce machine reads and writes.\<close>

definition engine_view :: "zone_state \<Rightarrow> bool \<times> int \<times> int \<times> time option \<times> time option" where
  "engine_view st = (inside st, consec_in st, consec_out st, entered_at st, last_ts st)"

lemma view_eqD:
  "engine_view a = engine_view b \<Longrightarrow> inside a = inside b \<and> consec_in a = consec_in b \<and>
     consec_out a = consec_out b \<and> entered_at a = entered_at b \<and> last_ts a = last_ts b"
  by (simp add: engine_view_def)

lemma reset_counts_view:
  "engine_view a = engine_view b \<Longrightarrow> engine_view (reset_counts gap ts a) = engine_view (reset_counts gap ts b)"
  by (drule view_eqD) (simp add: engine_view_def reset_counts_def)

lemma count_fix_view:
  "engine_view a = engine_view b \<Longrightarrow> engine_view (count_fix raw d ts cfg a) = engine_view (count_fix raw d ts cfg b)"
  by (drule view_eqD) (simp add: engine_view_def count_fix_def Let_def)

lemma decide_view:
  "engine_view a = engine_view b \<Longrightarrow>
     engine_view (fst (decide ts cfg a)) = engine_view (fst (decide ts cfg b)) \<and>
     snd (decide ts cfg a) = snd (decide ts cfg b)"
  by (drule view_eqD) (cases "entered_at b"; simp add: engine_view_def decide_def)

lemma step_view:
  "engine_view st = engine_view st' \<Longrightarrow>
     engine_view (fst (step cfg gap raw d ts st)) = engine_view (fst (step cfg gap raw d ts st')) \<and>
     snd (step cfg gap raw d ts st) = snd (step cfg gap raw d ts st')"
  unfolding step_def by (intro decide_view count_fix_view reset_counts_view)

lemma heal_view [simp]: "engine_view (heal_watermark s pos st) = engine_view st"
  by (simp add: heal_watermark_def engine_view_def)

lemma alarm_update_view [simp]: "engine_view (alarm_update cfg st ts sp) = engine_view st"
  by (simp add: engine_view_def alarm_update_keeps)

lemma view_last_ts: "engine_view a = engine_view b \<Longrightarrow> engine_view (a\<lparr>last_ts := t\<rparr>) = engine_view (b\<lparr>last_ts := t\<rparr>)"
  by (simp add: engine_view_def)

text \<open>The fix as the debounce machine sees it, where the geometry can be read.\<close>

definition zfix_of :: "zone \<Rightarrow> position \<Rightarrow> zfix" where
  "zfix_of z pos =
     (case membership pos z of Inr (raw, far) \<Rightarrow> (raw, far, p_ts pos) | Inl e \<Rightarrow> (False, None, p_ts pos))"

lemma feed_view:
  "engine_view st = engine_view st' \<Longrightarrow>
     engine_view (feed cfg gap st e) = engine_view (feed cfg gap st' e) \<and>
     verdict cfg gap st e = verdict cfg gap st' e"
  by (cases e) (auto simp: feed_def verdict_def dest: step_view intro!: view_last_ts)

text \<open>The branches of a call that did not raise.\<close>

lemma zone_fix_cases:
  assumes "zone_fix s d pos cls z st = Inr (evs, st', d')"
  obtains (skip) "skip_fix s pos st" "evs = []" "st' = st" "d' = d"
  | (live) cfg raw far st1 tr entry d1 es st2 where "\<not> skip_fix s pos st"
      "parse_rules (z_kind z) (Some (z_rules z)) = Inr cfg"
      "membership pos z = Inr (raw, far) \<and>
       step cfg (max_gap s) raw far (p_ts pos) (heal_watermark s pos st) = (st1, tr)"
      "(if tr = Some Entry then on_entry d pos z cfg cls else Inr (None, d)) = Inr (entry, d1)"
      "(if inside st1 then on_inzone_fix d1 pos z cfg st1 else Inr ([], st1, d1)) = Inr (es, st2, d')"
      "evs = (case entry of None \<Rightarrow> [] | Some ev \<Rightarrow> [ev]) @ es"
      "st' = st2\<lparr>last_ts := Some (p_ts pos)\<rparr>"
proof (cases "skip_fix s pos st")
  case True
  with assms have "evs = []" and "st' = st" and "d' = d" by (simp_all add: zone_fix_def)
  with True show ?thesis by (rule skip)
next
  case False
  with assms obtain cfg where cfg: "parse_rules (z_kind z) (Some (z_rules z)) = Inr cfg"
    by (cases "parse_rules (z_kind z) (Some (z_rules z))") (simp_all add: zone_fix_def Let_def)
  from assms False cfg obtain raw far where m: "membership pos z = Inr (raw, far)"
    by (cases "membership pos z") (auto simp: zone_fix_def Let_def)
  obtain st1 tr where st: "step cfg (max_gap s) raw far (p_ts pos) (heal_watermark s pos st) = (st1, tr)"
    by force
  let ?entry = "if tr = Some Entry then on_entry d pos z cfg cls else Inr (None, d)"
  let ?alarms = "\<lambda>d1. if inside st1 then on_inzone_fix d1 pos z cfg st1 else Inr ([], st1, d1)"
  from assms False cfg m st have run: "and_then ?entry (\<lambda>(entry, d). and_then (?alarms d) (\<lambda>(evs, st, d).
      Inr ((case entry of None \<Rightarrow> [] | Some ev \<Rightarrow> [ev]) @ evs, st\<lparr>last_ts := Some (p_ts pos)\<rparr>, d)))
      = Inr (evs, st', d')"
    by (simp add: zone_fix_def)
  then obtain entry d1 where e: "?entry = Inr (entry, d1)"
    by (cases ?entry) auto
  with run obtain es st2 d2 where a: "?alarms d1 = Inr (es, st2, d2)"
    by (cases "?alarms d1") auto
  from run have "evs = (case entry of None \<Rightarrow> [] | Some ev \<Rightarrow> [ev]) @ es"
    and "st' = st2\<lparr>last_ts := Some (p_ts pos)\<rparr>" and d2: "d2 = d'"
    unfolding e and_then.simps prod.case a by simp_all
  with live [OF False cfg _ e a [unfolded d2]] m st show ?thesis by simp
qed

lemma inzone_state:
  "(if inside st1 then on_inzone_fix d1 pos z cfg st1 else Inr ([], st1, d1)) = Inr (es, st2, d') \<Longrightarrow>
     engine_view st2 = engine_view st1"
  by (auto dest: on_inzone_fix_Inr split: if_splits)

lemma zone_fix_engine:
  assumes "zone_fix s d pos cls z st = Inr (evs, st', d')" and "\<not> skip_fix s pos st"
    and cfg: "parse_rules (z_kind z) (Some (z_rules z)) = Inr cfg"
  shows "engine_view st' = engine_view (feed cfg (max_gap s) st (zfix_of z pos))"
  using assms(1)
proof (cases rule: zone_fix_cases)
  case (live cfg' raw far st1 tr entry d1 es st2)
  have "engine_view st' = engine_view (st1\<lparr>last_ts := Some (p_ts pos)\<rparr>)"
    unfolding live using inzone_state [OF live(5)] by (rule view_last_ts)
  also have "\<dots> = engine_view (feed cfg (max_gap s) (heal_watermark s pos st) (zfix_of z pos))"
    using live(2,3) cfg by (simp add: feed_def zfix_of_def)
  also have "\<dots> = engine_view (feed cfg (max_gap s) st (zfix_of z pos))"
    using feed_view [OF heal_view] by blast
  finally show ?thesis .
qed (use assms(2) in simp)

lemma alarm_types_no_breach: "''zone_breach'' \<notin> set (alarm_types cfg st ts sp)"
  by (auto simp: alarm_types_def split: option.splits)

definition breaches :: "event list \<Rightarrow> nat" where
  "breaches evs = length (filter (\<lambda>e. e_type e = ''zone_breach'') evs)"

lemma breaches_append [simp]: "breaches (xs @ ys) = breaches xs + breaches ys"
  by (simp add: breaches_def)

lemma breaches_0: "''zone_breach'' \<notin> e_type ` set evs \<Longrightarrow> breaches evs = 0"
  by (auto simp: breaches_def filter_empty_conv image_iff)

lemma inzone_breaches:
  "(if inside st1 then on_inzone_fix d1 pos z cfg st1 else Inr ([], st1, d1)) = Inr (es, st2, d') \<Longrightarrow>
     breaches es = 0"
  by (rule breaches_0)
    (auto split: if_splits dest!: on_inzone_fix_Inr
      intro: alarm_types_no_breach [THEN notE] simp flip: set_map)

lemma zone_fix_breaches:
  assumes "zone_fix s d pos cls z st = Inr (evs, st', d')" and "\<not> skip_fix s pos st"
    and cfg: "parse_rules (z_kind z) (Some (z_rules z)) = Inr cfg"
  shows "breaches evs =
    (if z_kind z = ''restricted'' \<and> \<not> authorised cfg cls \<and>
        verdict cfg (max_gap s) st (zfix_of z pos) = Some Entry then 1 else 0)"
  using assms(1)
proof (cases rule: zone_fix_cases)
  case (live cfg' raw far st1 tr entry d1 es st2)
  have [simp]: "cfg' = cfg" using live(2) cfg by simp
  have v: "verdict cfg (max_gap s) st (zfix_of z pos) = tr"
    using feed_view [OF heal_view [of s pos st], of cfg "max_gap s" "zfix_of z pos"] live(2,3) cfg
    by (simp add: verdict_def zfix_of_def)
  have "breaches evs = breaches (case entry of None \<Rightarrow> [] | Some ev \<Rightarrow> [ev])"
    unfolding live(6) using inzone_breaches [OF live(5)] by simp
  with live(4) show ?thesis
    by (auto simp: v breaches_def dest!: on_entry_Inr split: if_splits option.splits)
qed (use assms(2) in simp)

section \<open>What a call leaves of the session\<close>

lemma rule_event_frame:
  "rule_event d pos typ sev z summary detail = Inr (ev, d') \<Longrightarrow> \<exists>k. d' = d\<lparr>ids_drawn := k\<rparr>"
  by (drule rule_event_Inr) blast

lemma ids_drawn_twice: "(\<exists>k. d2 = d1\<lparr>ids_drawn := k\<rparr>) \<Longrightarrow> (\<exists>k. d1 = d\<lparr>ids_drawn := k\<rparr>) \<Longrightarrow>
    \<exists>k. d2 = (d :: 'a db_scheme)\<lparr>ids_drawn := k\<rparr>"
  by auto

lemma ids_drawn_refl: "\<exists>k. d = (d :: 'a db_scheme)\<lparr>ids_drawn := k\<rparr>"
  by (rule exI [of _ "ids_drawn d"]) simp

text \<open>What every alarm of a call carries.\<close>

definition alarm_of :: "position \<Rightarrow> zone \<Rightarrow> event \<Rightarrow> bool" where
  "alarm_of pos z ev \<longleftrightarrow> valid_event ev \<and> e_site ev = p_site pos \<and> e_asset ev = Some (p_asset pos) \<and>
     e_zone ev = Some (z_id z) \<and> e_ts ev = p_ts pos"

lemma rule_event_alarm:
  "rule_event d pos typ sev z summary detail = Inr (ev, d') \<Longrightarrow> alarm_of pos z ev"
  by (drule rule_event_Inr) (simp add: alarm_of_def)

lemma on_entry_frame:
  "on_entry d pos z cfg cls = Inr (r, d') \<Longrightarrow>
     (\<exists>k. d' = d\<lparr>ids_drawn := k\<rparr>) \<and> (\<forall>ev. r = Some ev \<longrightarrow> alarm_of pos z ev)"
  by (auto simp: on_entry_def and_then_Inr_iff ids_drawn_refl
      dest: rule_event_frame rule_event_alarm split: if_splits)

lemma on_inzone_fix_frame:
  assumes "on_inzone_fix d pos z cfg st = Inr (evs, st', d')"
  shows "(\<exists>k. d' = d\<lparr>ids_drawn := k\<rparr>) \<and> (\<forall>ev \<in> set evs. alarm_of pos z ev)"
proof (cases "p_speed pos")
  case None
  with assms show ?thesis by (simp add: on_inzone_fix_def ids_drawn_refl)
next
  case (Some speed)
  let ?st1 = "overspeed_update cfg speed st"
  from assms Some obtain evs1 d1 where
    1: "(if overspeed_due cfg st speed
         then and_then (overspeed_event d pos z cfg speed) (\<lambda>(ev, d). Inr ([ev], d))
         else Inr ([], d)) = Inr (evs1, d1)"
    and 2: "(case dwell_due cfg ?st1 (p_ts pos) speed of None \<Rightarrow> Inr (evs1, d1)
       | Some since \<Rightarrow> and_then (dwell_event d1 pos z cfg since) (\<lambda>(ev, d). Inr (evs1 @ [ev], d))) =
       Inr (evs, d')"
    by (auto simp: on_inzone_fix_def Let_def and_then_Inr_iff)
  from 1 have f1: "\<exists>k. d1 = d\<lparr>ids_drawn := k\<rparr>" and a1: "\<forall>ev \<in> set evs1. alarm_of pos z ev"
    by (auto simp: and_then_Inr_iff overspeed_event_def Let_def ids_drawn_refl
        dest: rule_event_frame rule_event_alarm split: if_splits)
  from 2 have f2: "\<exists>k. d' = d1\<lparr>ids_drawn := k\<rparr>" and "\<forall>ev \<in> set evs. ev \<in> set evs1 \<or> alarm_of pos z ev"
    by (auto simp: and_then_Inr_iff dwell_event_def Let_def ids_drawn_refl
        dest: rule_event_frame rule_event_alarm split: option.splits)
  with a1 ids_drawn_twice [OF f2 f1] show ?thesis by blast
qed

lemma zone_fix_frame:
  assumes "zone_fix s d pos cls z st = Inr (evs, st', d')"
  shows "(\<exists>k. d' = d\<lparr>ids_drawn := k\<rparr>) \<and> (\<forall>ev \<in> set evs. alarm_of pos z ev)"
  using assms
proof (cases rule: zone_fix_cases)
  case skip
  then show ?thesis by (simp add: ids_drawn_refl)
next
  case (live cfg raw far st1 tr entry d1 es st2)
  have f1: "\<exists>k. d1 = d\<lparr>ids_drawn := k\<rparr>" and a1: "\<forall>ev. entry = Some ev \<longrightarrow> alarm_of pos z ev"
    using live(4) on_entry_frame [of d pos z cfg cls entry d1]
    by (auto simp: ids_drawn_refl split: if_splits)
  have f2: "\<exists>k. d' = d1\<lparr>ids_drawn := k\<rparr>" and a2: "\<forall>ev \<in> set es. alarm_of pos z ev"
    using live(5) on_inzone_fix_frame [of d1 pos z cfg st1 es st2 d']
    by (auto simp: ids_drawn_refl split: if_splits)
  show ?thesis using ids_drawn_twice [OF f2 f1] a1 a2 by (auto simp: live(6) split: option.splits)
qed

definition same_but_states :: "position \<Rightarrow> 'a db_scheme \<Rightarrow> 'a db_scheme \<Rightarrow> bool" where
  "same_but_states pos d d' \<longleftrightarrow> positions d' = positions d \<and> zone_rows d' = zone_rows d \<and>
     asset_rows d' = asset_rows d \<and> cursors d' = cursors d \<and> events d' = events d \<and>
     notifications d' = notifications d \<and> site_rows d' = site_rows d \<and> ulid d' = ulid d \<and> db.more d' = db.more d \<and>
     (\<forall>st a z. (st, a) \<noteq> (p_site pos, p_asset pos) \<longrightarrow>
        map_of (zone_states d') (st, a, z) = map_of (zone_states d) (st, a, z))"

lemma same_but_states_trans:
  "same_but_states pos d d1 \<Longrightarrow> same_but_states pos d1 d2 \<Longrightarrow> same_but_states pos d d2"
  by (simp add: same_but_states_def)

lemma state_for_frame: "state_for states d pos z = (st, d') \<Longrightarrow> same_but_states pos d d'"
  by (auto simp: state_for_def get_or_create_state_def same_but_states_def split: option.splits)

lemma put_state_frame: "same_but_states pos (d\<lparr>ids_drawn := k\<rparr>) d' \<Longrightarrow> same_but_states pos d d'"
  by (simp add: same_but_states_def)

lemma process_zones_frame:
  "process_zones s pos cls states d zs = Inr (evs, d') \<Longrightarrow>
     same_but_states pos d d' \<and> (\<forall>ev \<in> set evs. \<exists>z \<in> set zs. alarm_of pos z ev)"
proof (induction zs arbitrary: d evs)
  case Nil
  then show ?case by (simp add: same_but_states_def)
next
  case (Cons z zs)
  obtain st d1 where sf: "state_for states d pos z = (st, d1)" by force
  from Cons.prems sf obtain evs1 st' d2 evs2 where
    zf: "zone_fix s d1 pos cls z st = Inr (evs1, st', d2)"
    and rest: "process_zones s pos cls states (put_state d2 (p_site pos) (p_asset pos) (z_id z) st') zs
       = Inr (evs2, d')"
    and evs: "evs = evs1 @ evs2"
    by (auto simp: and_then_Inr_iff)
  from zone_fix_frame [OF zf] obtain k where k: "d2 = d1\<lparr>ids_drawn := k\<rparr>"
    and a: "\<forall>ev \<in> set evs1. alarm_of pos z ev" by blast
  have "same_but_states pos d1 (put_state d2 (p_site pos) (p_asset pos) (z_id z) st')"
    by (simp add: k same_but_states_def put_state_def)
  with Cons.IH [OF rest] state_for_frame [OF sf] a show ?case
    by (auto simp: evs intro: same_but_states_trans)
qed

text \<open>Persisting touches the events, the outbox and the count of identifiers drawn.\<close>

definition outbox_only :: "'a db_scheme \<Rightarrow> 'a db_scheme \<Rightarrow> bool" where
  "outbox_only d d' \<longleftrightarrow> positions d' = positions d \<and> zone_rows d' = zone_rows d \<and>
     asset_rows d' = asset_rows d \<and> site_rows d' = site_rows d \<and> cursors d' = cursors d \<and>
     zone_states d' = zone_states d \<and> ulid d' = ulid d \<and> db.more d' = db.more d"

lemma queue_notification_frame:
  "outbox_only d (queue_notification now ev d ct) \<and> events (queue_notification now ev d ct) = events d"
  by (simp add: queue_notification_def new_event_id_def outbox_only_def)

lemma queue_all_frame:
  "outbox_only d (foldl (queue_notification now ev) d cts) \<and>
   events (foldl (queue_notification now ev) d cts) = events d"
proof (induction cts arbitrary: d)
  case (Cons ct cts)
  show ?case
    using Cons [of "queue_notification now ev d ct"] queue_notification_frame [of d now ev ct]
    by (simp add: outbox_only_def)
qed (simp add: outbox_only_def)

lemma persist_event_frame:
  "outbox_only d (persist_event s now d ev) \<and>
   events (persist_event s now d ev) = events d @ [ev\<lparr>e_advisory := True\<rparr>]"
  using queue_all_frame [of "d\<lparr>events := events d @ [ev\<lparr>e_advisory := True\<rparr>]\<rparr>" now ev "channel_targets s"]
  by (simp add: persist_event_def enqueue_for_event_def Let_def outbox_only_def)

lemma valid_advisory: "valid_event ev \<Longrightarrow> ev\<lparr>e_advisory := True\<rparr> = ev"
  by (cases ev) (simp add: valid_event_def)

lemma persist_all_frame:
  "\<forall>ev \<in> set evs. valid_event ev \<Longrightarrow>
     outbox_only d (foldl (persist_event s now) d evs) \<and>
     events (foldl (persist_event s now) d evs) = events d @ evs"
proof (induction evs arbitrary: d)
  case (Cons ev evs)
  then show ?case
    using Cons.IH [of "persist_event s now d ev"] persist_event_frame [of d s now ev]
    by (simp add: valid_advisory outbox_only_def)
qed (simp add: outbox_only_def)

text \<open>
  The outbox rows of a list of alarms: new rows at the end of the table, one for an alarm that qualifies
  and a channel and target of the settings, none of them queued before.
\<close>

definition queued_row :: "settings \<Rightarrow> time \<Rightarrow> event list \<Rightarrow> notification \<Rightarrow> bool" where
  "queued_row s now evs n \<longleftrightarrow> n_state n = ''pending'' \<and> n_attempts n = 0 \<and> n_created n = now \<and> n_next n = now \<and>
     n_sent n = None \<and> n_error n = None \<and> (n_channel n, n_target n) \<in> set (channel_targets s) \<and>
     (\<exists>ev \<in> set evs. n_site n = e_site ev \<and> n_event n = e_id ev \<and> qualifies (e_severity ev) (notify_min_severity s))"

definition row_key :: "notification \<Rightarrow> string \<times> string \<times> string" where
  "row_key n = (n_event n, n_channel n, n_target n)"

definition outbox_grows :: "settings \<Rightarrow> time \<Rightarrow> event list \<Rightarrow> notification list \<Rightarrow> notification list \<Rightarrow> bool" where
  "outbox_grows s now evs xs ys \<longleftrightarrow> (\<exists>ns. ys = xs @ ns \<and> (\<forall>n \<in> set ns. queued_row s now evs n) \<and>
     distinct (map row_key ns) \<and> row_key ` set ns \<inter> row_key ` set xs = {})"

lemma queued_for_key: "queued_for d i ct \<longleftrightarrow> (i, ct) \<in> row_key ` set (notifications d)"
  by (cases ct) (auto simp: queued_for_def row_key_def list_ex_iff)

lemma outbox_grows_refl [simp]: "outbox_grows s now evs xs xs"
  by (simp add: outbox_grows_def)

lemma outbox_grows_trans:
  assumes "outbox_grows s now evs xs ys" and "outbox_grows s now evs ys zs"
  shows "outbox_grows s now evs xs zs"
proof -
  obtain ns where ns: "ys = xs @ ns" "\<forall>n \<in> set ns. queued_row s now evs n" "distinct (map row_key ns)"
    "row_key ` set ns \<inter> row_key ` set xs = {}"
    using assms(1) unfolding outbox_grows_def by blast
  obtain ms where ms: "zs = ys @ ms" "\<forall>n \<in> set ms. queued_row s now evs n" "distinct (map row_key ms)"
    "row_key ` set ms \<inter> row_key ` set ys = {}"
    using assms(2) unfolding outbox_grows_def by blast
  have "row_key ` set ms \<inter> row_key ` set xs = {}" "row_key ` set ms \<inter> row_key ` set ns = {}"
    using ms(4) ns(1) by (simp_all add: image_Un Int_Un_distrib)
  then have keys: "distinct (map row_key (ns @ ms)) \<and> row_key ` set (ns @ ms) \<inter> row_key ` set xs = {}"
    using ns(3,4) ms(3) by (simp add: image_Un Int_Un_distrib2) (simp add: Int_commute)
  show ?thesis
    unfolding outbox_grows_def
  proof (intro exI [of _ "ns @ ms"] conjI)
    show "zs = xs @ ns @ ms" using ns(1) ms(1) by simp
    show "\<forall>n \<in> set (ns @ ms). queued_row s now evs n" using ns(2) ms(2) by (simp add: ball_Un)
  qed (use keys in simp_all)
qed

lemma queued_row_mono: "queued_row s now evs n \<Longrightarrow> set evs \<subseteq> set evs' \<Longrightarrow> queued_row s now evs' n"
  unfolding queued_row_def by blast

lemma outbox_grows_mono:
  assumes "outbox_grows s now evs xs ys" and "set evs \<subseteq> set evs'"
  shows "outbox_grows s now evs' xs ys"
proof -
  obtain ns where "ys = xs @ ns" "\<forall>n \<in> set ns. queued_row s now evs n" "distinct (map row_key ns)"
    "row_key ` set ns \<inter> row_key ` set xs = {}"
    using assms(1) unfolding outbox_grows_def by blast
  then show ?thesis
    unfolding outbox_grows_def by (intro exI [of _ ns] conjI) (simp_all add: queued_row_mono [OF _ assms(2)])
qed

lemma queue_notification_grows:
  assumes "ev \<in> set evs" "qualifies (e_severity ev) (notify_min_severity s)" "ct \<in> set (channel_targets s)"
  shows "outbox_grows s now evs (notifications d) (notifications (queue_notification now ev d ct)) \<and>
    queued_for (queue_notification now ev d ct) (e_id ev) ct"
proof (cases "queued_for d (e_id ev) ct")
  case False
  obtain i d1 where i: "new_event_id d = (i, d1)" by fastforce
  then have "notifications d1 = notifications d" by (auto simp: new_event_id_def)
  with False i assms show ?thesis
    by (cases ct) (auto simp: queue_notification_def outbox_grows_def queued_row_def queued_for_key row_key_def)
qed (simp add: queue_notification_def)

lemma queue_all_grows:
  assumes "ev \<in> set evs" "qualifies (e_severity ev) (notify_min_severity s)" "set cts \<subseteq> set (channel_targets s)"
  shows "outbox_grows s now evs (notifications d) (notifications (foldl (queue_notification now ev) d cts)) \<and>
    (\<forall>ct \<in> set cts. queued_for (foldl (queue_notification now ev) d cts) (e_id ev) ct)"
  using assms(3)
proof (induction cts arbitrary: d)
  case (Cons ct cts)
  let ?d = "queue_notification now ev d ct"
  have first: "outbox_grows s now evs (notifications d) (notifications ?d)" "queued_for ?d (e_id ev) ct"
    using queue_notification_grows [OF assms(1,2), of ct now d] Cons.prems by simp_all
  have rest: "outbox_grows s now evs (notifications ?d) (notifications (foldl (queue_notification now ev) ?d cts))"
    "\<forall>ct \<in> set cts. queued_for (foldl (queue_notification now ev) ?d cts) (e_id ev) ct"
    using Cons.IH [of ?d] Cons.prems by simp_all
  then have "queued_for (foldl (queue_notification now ev) ?d cts) (e_id ev) ct"
    using first(2) by (auto simp: queued_for_key outbox_grows_def)
  with first rest show ?case by (auto intro: outbox_grows_trans)
qed simp

lemma persist_event_grows:
  assumes "ev \<in> set evs"
  shows "outbox_grows s now evs (notifications d) (notifications (persist_event s now d ev)) \<and>
    (qualifies (e_severity ev) (notify_min_severity s) \<longrightarrow>
       (\<forall>ct \<in> set (channel_targets s). queued_for (persist_event s now d ev) (e_id ev) ct))"
  using queue_all_grows [OF assms, of s "channel_targets s" now "d\<lparr>events := events d @ [ev\<lparr>e_advisory := True\<rparr>]\<rparr>"]
  by (simp add: persist_event_def enqueue_for_event_def Let_def)

lemma persist_all_grows:
  "outbox_grows s now evs (notifications d) (notifications (foldl (persist_event s now) d evs)) \<and>
   (\<forall>ev \<in> set evs. qualifies (e_severity ev) (notify_min_severity s) \<longrightarrow>
      (\<forall>ct \<in> set (channel_targets s). queued_for (foldl (persist_event s now) d evs) (e_id ev) ct))"
proof (induction evs arbitrary: d)
  case (Cons ev evs)
  let ?d = "persist_event s now d ev"
  note ih = Cons.IH [of ?d]
  have first: "outbox_grows s now (ev # evs) (notifications d) (notifications ?d)"
    and q: "qualifies (e_severity ev) (notify_min_severity s) \<longrightarrow> (\<forall>ct \<in> set (channel_targets s). queued_for ?d (e_id ev) ct)"
    using persist_event_grows [of ev "ev # evs" s now d] by simp_all
  have rest: "outbox_grows s now (ev # evs) (notifications ?d) (notifications (foldl (persist_event s now) ?d evs))"
    using ih by (auto intro: outbox_grows_mono)
  then have "queued_for (foldl (persist_event s now) ?d evs) i ct" if "queued_for ?d i ct" for i ct
    using that by (auto simp: queued_for_key outbox_grows_def)
  with q ih outbox_grows_trans [OF first rest] show ?case by auto
qed simp

section \<open>Runs of one asset over one zone\<close>

fun zone_run ::
  "settings \<Rightarrow> string \<Rightarrow> zone \<Rightarrow> 'a db_scheme \<Rightarrow> zone_state \<Rightarrow> position list
    \<Rightarrow> py_error + (event list \<times> zone_state \<times> 'a db_scheme)" where
  "zone_run s cls z d st [] = Inr ([], st, d)"
| "zone_run s cls z d st (pos # ps) =
     and_then (zone_fix s d pos cls z st) (\<lambda>(evs, st, d).
     and_then (zone_run s cls z d st ps) (\<lambda>(evs', st, d). Inr (evs @ evs', st, d)))"

text \<open>Live fixes, each newer than the watermark, on a clock that is not ahead.\<close>

fun in_order :: "settings \<Rightarrow> time option \<Rightarrow> position list \<Rightarrow> bool" where
  "in_order s w [] = True"
| "in_order s w (pos # ps) =
     ((case w of None \<Rightarrow> True | Some l \<Rightarrow> l < p_ts pos \<and> l \<le> p_received pos + max_skew s) \<and>
      in_order s (Some (p_ts pos)) ps)"

lemma in_order_live: "in_order s (last_ts st) (pos # ps) \<Longrightarrow> \<not> skip_fix s pos st"
  by (auto simp: skip_fix_def split: option.splits)

lemma zone_fix_last_ts:
  "zone_fix s d pos cls z st = Inr (evs, st', d') \<Longrightarrow> \<not> skip_fix s pos st \<Longrightarrow> last_ts st' = Some (p_ts pos)"
  by (erule zone_fix_cases) auto

definition entries :: "transition list \<Rightarrow> nat" where
  "entries ts = length (filter (\<lambda>t. t = Entry) ts)"

lemma entries_simps [simp]:
  "entries [] = 0" "entries (t # ts) = (if t = Entry then 1 else 0) + entries ts"
  by (simp_all add: entries_def)

lemma run_view:
  "engine_view a = engine_view b \<Longrightarrow>
     verdicts cfg gap a es = verdicts cfg gap b es \<and>
     engine_view (run_machine (feed cfg gap) a es) = engine_view (run_machine (feed cfg gap) b es)"
proof (induction es arbitrary: a b)
  case (Cons e es)
  from feed_view [OF Cons.prems, of cfg gap e] Cons.IH [of "feed cfg gap a e" "feed cfg gap b e"]
  show ?case by simp
qed simp

section \<open>Rules that parse, on a polygon, never raise\<close>

definition geometry_ok :: "zone \<Rightarrow> bool" where
  "geometry_ok z \<longleftrightarrow> ring_of (z_geometry z) \<noteq> None"

lemma membership_total: "geometry_ok z \<Longrightarrow> \<exists>raw far. membership pos z = Inr (raw, far)"
  by (auto simp: geometry_ok_def membership_def point_in_polygon_ring distance_to_polygon_ring)

definition rules_ok :: "zone \<Rightarrow> bool" where
  "rules_ok z \<longleftrightarrow>
     (case parse_rules (z_kind z) (Some (z_rules z)) of
        Inl _ \<Rightarrow> False
      | Inr cfg \<Rightarrow> breach_severity cfg \<in> set severities \<and> overspeed_severity cfg \<in> set severities \<and>
          dwell_severity cfg \<in> set severities)"

definition names_ok :: "'a db_scheme \<Rightarrow> position \<Rightarrow> bool" where
  "names_ok d pos \<longleftrightarrow> p_site pos \<noteq> [] \<and> (\<forall>n. ulid d n \<noteq> [])"

lemma names_ok_ids [simp]: "names_ok (d\<lparr>ids_drawn := k\<rparr>) pos = names_ok d pos"
  by (simp add: names_ok_def)

lemma rule_event_total:
  "names_ok d pos \<Longrightarrow> sev \<in> set severities \<Longrightarrow> typ \<in> set event_types \<Longrightarrow> summary \<noteq> [] \<Longrightarrow>
     \<exists>ev k. rule_event d pos typ sev z summary detail = Inr (ev, d\<lparr>ids_drawn := k\<rparr>)"
  by (simp add: rule_event_def new_event_id_def event_v1_def valid_event_def names_ok_def
      rule_source_def event_states_def) (rule exI, rule refl)

lemma ids_drawn_if:
  "\<exists>x k. A = Inr (x, (d :: 'a db_scheme)\<lparr>ids_drawn := k\<rparr>) \<Longrightarrow>
     \<exists>x k. (if b then A else Inr (y, d)) = Inr (x, d\<lparr>ids_drawn := k\<rparr>)"
  using ids_drawn_refl [of d] by (cases b) auto

lemma rule_types [simp]: "''zone_breach'' \<in> set event_types" "''overspeed'' \<in> set event_types"
    "''zone_dwell'' \<in> set event_types"
  by (simp_all add: event_types_def)

lemma on_entry_total:
  assumes "names_ok d pos" and "breach_severity cfg \<in> set severities"
  shows "\<exists>r k. on_entry d pos z cfg cls = Inr (r, d\<lparr>ids_drawn := k\<rparr>)"
proof (cases "z_kind z = ''restricted'' \<and> \<not> authorised cfg cls")
  case True
  have "\<exists>ev k. rule_event d pos ''zone_breach'' (breach_severity cfg) z
      [Txt (p_asset pos), Txt '' entered '', Txt (z_name z), Txt '' without authorisation'']
      [(''asset_class'', JStr cls), (''speed_kph'', opt_real (p_speed pos))] =
      Inr (ev, d\<lparr>ids_drawn := k\<rparr>)"
    by (simp add: rule_event_total assms)
  with True show ?thesis by (auto simp: on_entry_def)
next
  case False
  then have "on_entry d pos z cfg cls = Inr (None, d)" by (auto simp: on_entry_def)
  with ids_drawn_refl [of d] show ?thesis by metis
qed

lemma overspeed_event_total:
  "names_ok d pos \<Longrightarrow> overspeed_severity cfg \<in> set severities \<Longrightarrow>
     \<exists>ev k. overspeed_event d pos z cfg speed = Inr (ev, d\<lparr>ids_drawn := k\<rparr>)"
  by (simp add: overspeed_event_def Let_def rule_event_total)

lemma dwell_event_total:
  "names_ok d pos \<Longrightarrow> dwell_severity cfg \<in> set severities \<Longrightarrow>
     \<exists>ev k. dwell_event d pos z cfg since = Inr (ev, d\<lparr>ids_drawn := k\<rparr>)"
  by (simp add: dwell_event_def Let_def rule_event_total)

lemma on_inzone_fix_total:
  assumes ok: "names_ok d pos" and sev: "overspeed_severity cfg \<in> set severities"
    "dwell_severity cfg \<in> set severities"
  shows "\<exists>r. on_inzone_fix d pos z cfg st = Inr r"
proof (cases "p_speed pos")
  case (Some speed)
  let ?o = "if overspeed_due cfg st speed
    then and_then (overspeed_event d pos z cfg speed) (\<lambda>(ev, d). Inr ([ev], d)) else Inr ([], d)"
  have "\<exists>evs k. and_then (overspeed_event d pos z cfg speed) (\<lambda>(ev, d). Inr ([ev], d)) =
      Inr (evs, d\<lparr>ids_drawn := k\<rparr>)"
    using overspeed_event_total [OF ok sev(1), of z speed] by auto
  from ids_drawn_if [OF this] obtain evs k where o: "?o = Inr (evs, d\<lparr>ids_drawn := k\<rparr>)" by blast
  obtain ev k' where w: "dwell_event (d\<lparr>ids_drawn := k\<rparr>) pos z cfg since =
      Inr (ev since, d\<lparr>ids_drawn := k' since\<rparr>)" for since
    using dwell_event_total [of "d\<lparr>ids_drawn := k\<rparr>" pos cfg z] ok sev(2) by simp metis
  show ?thesis
    unfolding on_inzone_fix_def Some option.case o Let_def and_then.simps prod.case
    by (simp add: w split: option.split)
qed (simp add: on_inzone_fix_def)

lemma zone_fix_total:
  assumes ok: "names_ok d pos" and r: "rules_ok z" and g: "geometry_ok z"
  shows "\<exists>r. zone_fix s d pos cls z st = Inr r"
proof (cases "skip_fix s pos st")
  case False
  from r obtain cfg where cfg: "parse_rules (z_kind z) (Some (z_rules z)) = Inr cfg"
    and sev: "breach_severity cfg \<in> set severities" "overspeed_severity cfg \<in> set severities"
      "dwell_severity cfg \<in> set severities"
    by (auto simp: rules_ok_def split: sum.splits)
  obtain raw far where m: "membership pos z = Inr (raw, far)" using membership_total [OF g] by blast
  obtain st1 tr where st: "step cfg (max_gap s) raw far (p_ts pos) (heal_watermark s pos st) = (st1, tr)"
    by force
  obtain entry k where e: "(if tr = Some Entry then on_entry d pos z cfg cls else Inr (None, d)) =
      Inr (entry, d\<lparr>ids_drawn := k\<rparr>)"
    using ids_drawn_if [OF on_entry_total [OF ok sev(1), of z cls]] by blast
  have "\<exists>r. (if inside st1 then on_inzone_fix (d\<lparr>ids_drawn := k\<rparr>) pos z cfg st1
      else Inr ([], st1, d\<lparr>ids_drawn := k\<rparr>)) = Inr r"
    using on_inzone_fix_total [of "d\<lparr>ids_drawn := k\<rparr>" pos cfg z st1] ok sev by simp
  then obtain es st2 d2 where "(if inside st1 then on_inzone_fix (d\<lparr>ids_drawn := k\<rparr>) pos z cfg st1
      else Inr ([], st1, d\<lparr>ids_drawn := k\<rparr>)) = Inr (es, st2, d2)"
    by (metis prod_cases3)
  with False cfg m st e show ?thesis by (simp add: zone_fix_def Let_def)
qed (simp add: zone_fix_def)

lemma names_ok_frame: "ulid d' = ulid d \<Longrightarrow> names_ok d pos \<Longrightarrow> names_ok d' pos"
  by (simp add: names_ok_def)

lemma zone_fix_ulid: "zone_fix s d pos cls z st = Inr (evs, st', d') \<Longrightarrow> ulid d' = ulid d"
  by (drule zone_fix_frame) auto

lemma zone_run_total:
  "\<forall>pos \<in> set ps. names_ok d pos \<Longrightarrow> rules_ok z \<Longrightarrow> geometry_ok z \<Longrightarrow> \<exists>evs st' d'. zone_run s cls z d st ps = Inr (evs, st', d')"
proof (induction ps arbitrary: d st)
  case (Cons pos ps)
  then obtain evs st1 d1 where z: "zone_fix s d pos cls z st = Inr (evs, st1, d1)"
    using zone_fix_total [of d pos z s cls st] by auto
  have "\<forall>pos \<in> set ps. names_ok d1 pos"
    using Cons.prems(1) zone_fix_ulid [OF z] by (auto intro: names_ok_frame)
  from Cons.IH [OF this Cons.prems(2,3), of st1] z show ?case by auto
qed simp

lemma state_for_ulid: "state_for states d pos z = (st, d') \<Longrightarrow> ulid d' = ulid d"
  by (drule state_for_frame) (simp add: same_but_states_def)

lemma process_zones_total:
  "names_ok d pos \<Longrightarrow> \<forall>z \<in> set zs. rules_ok z \<and> geometry_ok z \<Longrightarrow> \<exists>evs d'. process_zones s pos cls states d zs = Inr (evs, d')"
proof (induction zs arbitrary: d)
  case (Cons z zs)
  obtain st d1 where sf: "state_for states d pos z = (st, d1)" by force
  have "names_ok d1 pos" by (rule names_ok_frame [OF state_for_ulid [OF sf] Cons.prems(1)])
  then obtain evs st' d2 where zf: "zone_fix s d1 pos cls z st = Inr (evs, st', d2)"
    using zone_fix_total [of d1 pos z s cls st] Cons.prems(2) by auto
  have "names_ok (put_state d2 (p_site pos) (p_asset pos) (z_id z) st') pos"
    by (rule names_ok_frame [OF _ Cons.prems(1)])
      (simp add: put_state_def zone_fix_ulid [OF zf] state_for_ulid [OF sf])
  from Cons.IH [OF this] Cons.prems(2) sf zf show ?case by auto
qed simp

section \<open>Properties\<close>

text \<open>C3: over any run of in-order fixes of an asset in a zone whose rules parse, the alarms for
  an unauthorised entry are exactly the confirmed entries of the debounce machine: one per visit,
  none while the asset stays or flaps on the boundary, none for an authorised class or a zone
  that is not restricted; and the rule counters never disturb the machine.\<close>

theorem breach_alarms_are_confirmed_entries:
  assumes "zone_run s cls z d st ps = Inr (evs, st', d')"
    and "in_order s (last_ts st) ps"
    and cfg: "parse_rules (z_kind z) (Some (z_rules z)) = Inr cfg"
  shows "breaches evs =
     (if z_kind z = ''restricted'' \<and> \<not> authorised cfg cls
      then entries (verdicts cfg (max_gap s) st (map (zfix_of z) ps)) else 0) \<and>
    engine_view st' = engine_view (run_machine (feed cfg (max_gap s)) st (map (zfix_of z) ps))"
  using assms(1,2)
proof (induction ps arbitrary: d st evs)
  case Nil
  then show ?case by (simp add: breaches_def)
next
  case (Cons pos ps)
  from Cons.prems obtain evs1 st1 d1 evs2 where
    z1: "zone_fix s d pos cls z st = Inr (evs1, st1, d1)"
    and z2: "zone_run s cls z d1 st1 ps = Inr (evs2, st', d')" and evs: "evs = evs1 @ evs2"
    by (auto simp: and_then_Inr_iff)
  from in_order_live [OF Cons.prems(2)] have live: "\<not> skip_fix s pos st" .
  have "in_order s (last_ts st1) ps"
    using Cons.prems(2) zone_fix_last_ts [OF z1 live] by simp
  note ih = Cons.IH [OF z2 this]
  note view = run_view [OF zone_fix_engine [OF z1 live cfg], of cfg "max_gap s" "map (zfix_of z) ps"]
  from ih view zone_fix_breaches [OF z1 live cfg] show ?case
    by (auto simp: evs split: option.splits)
qed

definition yard :: "dict \<Rightarrow> zone" where
  "yard rules = \<lparr>z_id = ''z1'', z_site = ''s1'', z_name = ''Magazine'', z_kind = ''restricted'',
     z_geometry = geojson [(0, 0), (1, 0), (1, 1), (0, 1)], z_rules = rules\<rparr>"

lemma yard_geometry_ok [simp]: "geometry_ok (yard rules)"
  by (simp add: geometry_ok_def yard_def)

definition demo_settings :: settings where
  "demo_settings = \<lparr>site_id = ''s1'', offline_threshold_s = 600, max_future_skew_s = 120,
     notify_min_severity = [], notify_webhook_url = [], notify_smtp_host = [], notify_email_to = [],
     notify_whatsapp_url = [], notify_whatsapp_to = [], notify_max_attempts = 5,
     notify_retry_base_s = 60\<rparr>"

lemmas demo_defs = yard_def demo_settings_def demo_fix_def empty_db_def new_zone_state_def
  max_gap_def max_skew_def seconds_def

lemma parse_yard [simp]: "parse_rules (z_kind (yard [])) (Some (z_rules (yard []))) = Inr default_config"
  by (simp add: yard_def parse_rules_def default_config_def get_or_def get_present_def opt_float_def Let_def)

lemma in_yard: "membership (demo_fix ts (1/2) (1/2) sp) (yard r) = Inr (True, Some 0)"
  by (simp add: membership_def demo_fix_def yard_def ring_contains_def)

lemma zfix_yard [simp]: "zfix_of (yard r) (demo_fix ts (1/2) (1/2) sp) = (True, Some 0, ts)"
  unfolding zfix_of_def in_yard by (simp add: demo_fix_def)

lemma yard_kind [simp]: "z_kind (yard r) = ''restricted''"
  by (simp add: yard_def)

theorem breach_alarms_are_confirmed_entries_witness:
  "\<exists>evs st' d'. zone_run demo_settings ''light'' (yard []) empty_db new_zone_state
       [demo_fix 1 (1/2) (1/2) None, demo_fix 2 (1/2) (1/2) None] = Inr (evs, st', d') \<and> breaches evs = 1"
proof -
  let ?run = "zone_run demo_settings ''light'' (yard []) empty_db new_zone_state
       [demo_fix 1 (1/2) (1/2) None, demo_fix 2 (1/2) (1/2) None]"
  have "rules_ok (yard [])"
    unfolding rules_ok_def parse_yard by (simp add: default_config_def severities_def)
  moreover have "\<forall>pos \<in> set [demo_fix 1 (1/2) (1/2) None, demo_fix 2 (1/2) (1/2) None]. names_ok empty_db pos"
    by (simp add: names_ok_def demo_fix_def empty_db_def)
  ultimately obtain evs st' d' where r: "?run = Inr (evs, st', d')"
    using zone_run_total yard_geometry_ok by blast
  have "in_order demo_settings (last_ts new_zone_state)
      [demo_fix 1 (1/2) (1/2) None, demo_fix 2 (1/2) (1/2) None]"
    by (simp add: demo_defs)
  from breach_alarms_are_confirmed_entries [OF r this parse_yard]
  have "breaches evs = 1"
    by (simp add: verdict_def feed_def step_def decide_def count_fix_def new_zone_state_def
        reset_counts_def gap_breaks_def default_config_def Let_def authorised_def
        max_gap_def demo_settings_def total_seconds_def)
  with r show ?thesis by blast
qed

lemma process_position_idle:
  "\<not> (created \<and> list_zones d (p_site pos) \<noteq> []) \<Longrightarrow> process_position s now d pos created = Inr ([], d)"
  by (auto simp: process_position_def Let_def)

lemma process_position_live:
  "created \<and> list_zones d (p_site pos) \<noteq> [] \<Longrightarrow> process_position s now d pos created =
     and_then (process_zones s pos (asset_class_of d (p_site pos) (p_asset pos))
       (load_states d (p_site pos) (p_asset pos)) d (list_zones d (p_site pos)))
       (\<lambda>(evs, d). Inr (evs, foldl (persist_event s now) d evs))"
  by (simp add: process_position_def Let_def)

lemma process_position_total:
  assumes "\<forall>z \<in> set (list_zones d (p_site pos)). rules_ok z \<and> geometry_ok z" and "names_ok d pos"
  shows "\<exists>evs d'. process_position s now d pos created = Inr (evs, d')"
proof (cases "created \<and> list_zones d (p_site pos) \<noteq> []")
  case True
  from process_zones_total [OF assms(2,1)]
  obtain evs d1 where "process_zones s pos (asset_class_of d (p_site pos) (p_asset pos))
       (load_states d (p_site pos) (p_asset pos)) d (list_zones d (p_site pos)) = Inr (evs, d1)"
    by blast
  with process_position_live [OF True] show ?thesis by simp
qed (simp add: process_position_idle)

lemma yard_rules_ok: "rules_ok (yard [])"
  unfolding rules_ok_def parse_yard by (simp add: default_config_def severities_def)

lemma demo_total:
  "\<exists>evs d'. process_position demo_settings 9 (empty_db\<lparr>zone_rows := [yard []]\<rparr>)
     (demo_fix 1 (1/2) (1/2) None) True = Inr (evs, d')"
  by (rule process_position_total)
    (simp_all add: list_zones_def yard_rules_ok names_ok_def demo_fix_def empty_db_def)

lemma process_position_frame:
  assumes "process_position s now d pos created = Inr (evs, d')"
  shows "events d' = events d @ evs \<and> positions d' = positions d \<and> zone_rows d' = zone_rows d \<and>
    cursors d' = cursors d \<and> asset_rows d' = asset_rows d \<and> site_rows d' = site_rows d \<and> ulid d' = ulid d \<and>
    db.more d' = db.more d \<and>
    (\<forall>ev \<in> set evs. \<exists>z \<in> set (list_zones d (p_site pos)). alarm_of pos z ev) \<and>
    (\<forall>st a z. (st, a) \<noteq> (p_site pos, p_asset pos) \<longrightarrow>
       map_of (zone_states d') (st, a, z) = map_of (zone_states d) (st, a, z)) \<and>
    outbox_grows s now evs (notifications d) (notifications d') \<and>
    (\<forall>ev \<in> set evs. qualifies (e_severity ev) (notify_min_severity s) \<longrightarrow>
       (\<forall>ct \<in> set (channel_targets s). queued_for d' (e_id ev) ct))"
proof (cases "created \<and> list_zones d (p_site pos) \<noteq> []")
  case True
  from assms obtain d1 where
    z: "process_zones s pos (asset_class_of d (p_site pos) (p_asset pos))
       (load_states d (p_site pos) (p_asset pos)) d (list_zones d (p_site pos)) = Inr (evs, d1)"
    and d': "d' = foldl (persist_event s now) d1 evs"
    unfolding process_position_live [OF True] and_then_Inr_iff by auto
  note frame = process_zones_frame [OF z]
  then have "\<forall>ev \<in> set evs. valid_event ev" by (auto simp: alarm_of_def)
  from persist_all_frame [OF this, of d1 s now] frame persist_all_grows [of s now evs d1] show ?thesis
    unfolding d' outbox_only_def same_but_states_def by simp
next
  case False
  with assms show ?thesis by (simp add: process_position_idle)
qed



text \<open>C29: when every zone of the site has rules that parse to known severities and a geometry that is a
  polygon (its coordinates hold a ring of vertices of at least two numbers each, which nothing checks
  when a zone is stored), no fix makes the call raise, whatever the fix and the rows: the live path is
  total.\<close>

theorem good_rules_never_raise:
  assumes "\<forall>z \<in> set (list_zones d (p_site pos)). rules_ok z \<and> geometry_ok z" and "names_ok d pos"
  shows "\<exists>evs d'. process_position s now d pos created = Inr (evs, d')"
  using process_position_total [OF assms] .

theorem good_rules_never_raise_witness:
  "\<exists>evs d'. process_position demo_settings 9 (empty_db\<lparr>zone_rows := [yard []]\<rparr>)
     (demo_fix 1 (1/2) (1/2) None) True = Inr (evs, d')"
  by (rule good_rules_never_raise)
    (simp_all add: list_zones_def yard_rules_ok names_ok_def demo_fix_def empty_db_def)

section \<open>Zones whose rules raise\<close>

definition live_for ::
  "settings \<Rightarrow> (string \<times> zone_state) list \<Rightarrow> position \<Rightarrow> zone \<Rightarrow> bool" where
  "live_for s states pos z =
     (case map_of states (z_id z) of None \<Rightarrow> True | Some st \<Rightarrow> \<not> skip_fix s pos st)"

definition rows_loaded :: "(string \<times> zone_state) list \<Rightarrow> 'a db_scheme \<Rightarrow> position \<Rightarrow> zone \<Rightarrow> bool" where
  "rows_loaded states d pos z \<longleftrightarrow>
     (map_of states (z_id z) = None \<longrightarrow> map_of (zone_states d) (p_site pos, p_asset pos, z_id z) = None)"

lemma map_of_load_states:
  "map_of (load_states d site asset) zid = map_of (zone_states d) (site, asset, zid)"
proof -
  have "map_of (map (\<lambda>((_, _, z), st). (z, st)) (filter (\<lambda>((s, a, _), _). s = site \<and> a = asset) rs)) zid
      = map_of rs (site, asset, zid)" for rs :: "((string \<times> string \<times> string) \<times> zone_state) list"
    by (induction rs) auto
  then show ?thesis by (simp add: load_states_def)
qed

lemma skip_new [simp]: "\<not> skip_fix s pos new_zone_state"
  by (simp add: skip_fix_def new_zone_state_def)

lemma state_for_live:
  "live_for s states pos z \<Longrightarrow> rows_loaded states d pos z \<Longrightarrow> state_for states d pos z = (st, d') \<Longrightarrow>
     \<not> skip_fix s pos st"
  by (auto simp: live_for_def rows_loaded_def state_for_def get_or_create_state_def split: option.splits)

lemma state_for_rows:
  "state_for states d pos z = (st, d1) \<Longrightarrow> zone_fix s d1 pos cls z st = Inr (evs, st', d2) \<Longrightarrow>
     z_id z' \<noteq> z_id z \<Longrightarrow> rows_loaded states d pos z' \<Longrightarrow>
     rows_loaded states (put_state d2 (p_site pos) (p_asset pos) (z_id z) st') pos z'"
  by (drule zone_fix_frame)
    (auto simp: rows_loaded_def put_state_def state_for_def get_or_create_state_def split: option.splits)

lemma process_zones_bad_zone:
  assumes "z \<in> set zs" and "distinct (map z_id zs)" and "\<forall>y \<in> set zs. rows_loaded states d pos y"
    and "live_for s states pos z" and "(\<exists>e. parse_rules (z_kind z) (Some (z_rules z)) = Inl e) \<or> (\<exists>e. membership pos z = Inl e)"
  shows "\<exists>e. process_zones s pos cls states d zs = Inl e"
  using assms(1-3)
proof (induction zs arbitrary: d)
  case (Cons y ys)
  obtain st d1 where sf: "state_for states d pos y = (st, d1)" by force
  show ?case
  proof (cases "zone_fix s d1 pos cls y st")
    case (Inl e)
    with sf show ?thesis by simp
  next
    case (Inr r)
    then obtain evs st' d2 where zf: "zone_fix s d1 pos cls y st = Inr (evs, st', d2)"
      by (cases r) auto
    have "y \<noteq> z"
    proof
      assume "y = z"
      with sf zf Cons.prems(3) state_for_live [OF assms(4), of d st d1] assms(5) show False
        by (auto elim!: zone_fix_cases)
    qed
    with Cons.prems have "z \<in> set ys" "distinct (map z_id ys)" by auto
    moreover have "\<forall>x \<in> set ys. rows_loaded states (put_state d2 (p_site pos) (p_asset pos) (z_id y) st') pos x"
      using Cons.prems(2,3) state_for_rows [OF sf zf] by (auto simp: image_iff)
    ultimately have "\<exists>e. process_zones s pos cls states (put_state d2 (p_site pos) (p_asset pos) (z_id y) st') ys = Inl e"
      by (rule Cons.IH)
    with sf zf show ?thesis by auto
  qed
qed simp

lemma bad_zone_mutes_the_site:
  assumes "z \<in> set (list_zones d (p_site pos))" and "distinct (map z_id (list_zones d (p_site pos)))"
    and "(\<exists>e. parse_rules (z_kind z) (Some (z_rules z)) = Inl e) \<or> (\<exists>e. membership pos z = Inl e)"
    and "live_for s (load_states d (p_site pos) (p_asset pos)) pos z"
  shows "\<exists>e. process_position s now d pos True = Inl e"
proof -
  have "True \<and> list_zones d (p_site pos) \<noteq> []" using assms(1) by auto
  moreover have "\<forall>y \<in> set (list_zones d (p_site pos)).
      rows_loaded (load_states d (p_site pos) (p_asset pos)) d pos y"
    by (simp add: rows_loaded_def map_of_load_states)
  from process_zones_bad_zone [OF assms(1,2) this assms(4,3)]
  obtain e where "process_zones s pos (asset_class_of d (p_site pos) (p_asset pos))
       (load_states d (p_site pos) (p_asset pos)) d (list_zones d (p_site pos)) = Inl e"
    by blast
  ultimately show ?thesis by (simp add: process_position_live)
qed

text \<open>One zone whose stored rules do not parse mutes the live rules of its whole site. Every
  new fix of every asset that is not stale for that zone makes the call raise, so no alarm of
  any other zone is raised either.\<close>

theorem unparsable_rules_mute_the_site:
  assumes "z \<in> set (list_zones d (p_site pos))" and "distinct (map z_id (list_zones d (p_site pos)))"
    and "parse_rules (z_kind z) (Some (z_rules z)) = Inl e"
    and "live_for s (load_states d (p_site pos) (p_asset pos)) pos z"
  shows "\<exists>e. process_position s now d pos True = Inl e"
  using assms by (intro bad_zone_mutes_the_site) auto

text \<open>So does one zone stored without coordinates.\<close>

lemma unreadable_geometry_mutes_the_site:
  assumes "z \<in> set (list_zones d (p_site pos))" and "distinct (map z_id (list_zones d (p_site pos)))"
    and "z_geometry z = JObj g" and "map_of g ''coordinates'' = None"
    and "live_for s (load_states d (p_site pos) (p_asset pos)) pos z"
  shows "\<exists>e. process_position s now d pos True = Inl e"
  using assms no_coordinates_raises [OF assms(4)] by (intro bad_zone_mutes_the_site) (auto simp: membership_def)

theorem unparsable_rules_mute_the_site_witness:
  "\<exists>e. process_position demo_settings 9
     (empty_db\<lparr>zone_rows := [yard [(''debounce_in'', JNull)]]\<rparr>) (demo_fix 1 5 5 None) True = Inl e"
proof (rule unparsable_rules_mute_the_site)
  show "yard [(''debounce_in'', JNull)] \<in> set (list_zones
      (empty_db\<lparr>zone_rows := [yard [(''debounce_in'', JNull)]]\<rparr>) (p_site (demo_fix 1 5 5 None)))"
    by (simp add: list_zones_def yard_def demo_fix_def)
  show "parse_rules (z_kind (yard [(''debounce_in'', JNull)]))
      (Some (z_rules (yard [(''debounce_in'', JNull)]))) = Inl TypeError"
    by (rule parse_rules_null_debounce) (simp add: yard_def)
qed (simp_all add: list_zones_def live_for_def load_states_def empty_db_def)

section \<open>Late fixes and watermarks\<close>

lemma dict_put_same: "map_of d k = Some v \<Longrightarrow> dict_put k v d = d"
  by (induction k v d rule: dict_put.induct) (auto split: if_splits)

lemma put_state_same:
  "map_of (zone_states d) (site, asset, zid) = Some st \<Longrightarrow> put_state d site asset zid st = d"
  by (simp add: put_state_def dict_put_same)

lemma process_zones_late:
  assumes "\<forall>z \<in> set zs. \<exists>st. map_of states (z_id z) = Some st \<and> skip_fix s pos st \<and>
     map_of (zone_states d) (p_site pos, p_asset pos, z_id z) = Some st"
  shows "process_zones s pos cls states d zs = Inr ([], d)"
  using assms
proof (induction zs)
  case (Cons z zs)
  then obtain st where st: "map_of states (z_id z) = Some st" "skip_fix s pos st"
    "map_of (zone_states d) (p_site pos, p_asset pos, z_id z) = Some st" by auto
  from Cons st show ?case by (simp add: state_for_def zone_fix_def put_state_same)
qed simp

text \<open>A fix that is late for every zone of its site, or repeats the newest one, raises nothing
  and leaves the whole session as it was: replayed and backfilled history never alarms.\<close>

theorem late_fix_is_inert:
  assumes "\<forall>z \<in> set (list_zones d (p_site pos)).
     \<exists>st. map_of (zone_states d) (p_site pos, p_asset pos, z_id z) = Some st \<and> skip_fix s pos st"
  shows "process_position s now d pos created = Inr ([], d)"
proof (cases "created \<and> list_zones d (p_site pos) \<noteq> []")
  case True
  have "process_zones s pos (asset_class_of d (p_site pos) (p_asset pos))
      (load_states d (p_site pos) (p_asset pos)) d (list_zones d (p_site pos)) = Inr ([], d)"
    by (rule process_zones_late) (use assms in \<open>auto simp: map_of_load_states\<close>)
  with process_position_live [OF True] show ?thesis by simp
qed (simp add: process_position_idle)

theorem late_fix_is_inert_witness:
  "process_position demo_settings 9 (empty_db\<lparr>zone_rows := [yard []],
       zone_states := [((''s1'', ''HT-01'', ''z1''), new_zone_state\<lparr>last_ts := Some 7\<rparr>)]\<rparr>)
     (demo_fix 7 (1/2) (1/2) None) True =
   Inr ([], empty_db\<lparr>zone_rows := [yard []],
       zone_states := [((''s1'', ''HT-01'', ''z1''), new_zone_state\<lparr>last_ts := Some 7\<rparr>)]\<rparr>)"
  by (rule late_fix_is_inert)
    (simp add: list_zones_def yard_def demo_fix_def skip_fix_def demo_settings_def max_skew_def seconds_def)

text \<open>
  Fixes as ingest lets them through: server time does not run back, and no device time is more
  than the allowed skew ahead of it.
\<close>

fun admitted :: "settings \<Rightarrow> time \<Rightarrow> position list \<Rightarrow> bool" where
  "admitted s now [] = True"
| "admitted s now (pos # ps) =
     (now \<le> p_received pos \<and> p_ts pos \<le> p_received pos + max_skew s \<and> admitted s (p_received pos) ps)"

definition watermark_sane :: "settings \<Rightarrow> time \<Rightarrow> zone_state \<Rightarrow> bool" where
  "watermark_sane s now st \<longleftrightarrow> (case last_ts st of None \<Rightarrow> True | Some l \<Rightarrow> l \<le> now + max_skew s)"

definition watermark_le :: "time option \<Rightarrow> time option \<Rightarrow> bool" where
  "watermark_le a b \<longleftrightarrow> (case a of None \<Rightarrow> True | Some x \<Rightarrow> (case b of None \<Rightarrow> False | Some y \<Rightarrow> x \<le> y))"

lemma watermark_le_refl [simp]: "watermark_le a a"
  by (simp add: watermark_le_def split: option.split)

lemma watermark_le_trans: "watermark_le a b \<Longrightarrow> watermark_le b c \<Longrightarrow> watermark_le a c"
  by (auto simp: watermark_le_def split: option.splits)

lemma zone_fix_watermark:
  assumes z: "zone_fix s d pos cls z st = Inr (evs, st', d')" and sane: "watermark_sane s now st"
    and "now \<le> p_received pos" and "p_ts pos \<le> p_received pos + max_skew s"
  shows "watermark_sane s (p_received pos) st' \<and> watermark_le (last_ts st) (last_ts st') \<and>
    watermark_le (Some (p_ts pos)) (last_ts st')"
  using z
proof (cases rule: zone_fix_cases)
  case skip
  with assms(2-) show ?thesis
    by (auto simp: watermark_sane_def watermark_le_def skip_fix_def split: option.splits if_splits)
next
  case (live cfg raw far st1 tr entry d1 es st2)
  with assms(2-) show ?thesis
    by (auto simp: watermark_sane_def watermark_le_def skip_fix_def split: option.splits if_splits)
qed

text \<open>C36: once ingest admits only fixes inside the clock skew, the watermark of a row stays
  within the skew of server time, never moves back, and ends at or after every fix processed:
  a bad device clock cannot mute the live rules.\<close>

theorem watermark_bounded_and_monotone:
  assumes "zone_run s cls z d st ps = Inr (evs, st', d')" and "watermark_sane s now st"
    and "admitted s now ps"
  shows "watermark_sane s (last (now # map p_received ps)) st' \<and> watermark_le (last_ts st) (last_ts st') \<and>
    (\<forall>pos \<in> set ps. watermark_le (Some (p_ts pos)) (last_ts st'))"
  using assms
proof (induction ps arbitrary: d st now evs)
  case (Cons pos ps)
  from Cons.prems(1) obtain evs1 st1 d1 evs2 where
    z1: "zone_fix s d pos cls z st = Inr (evs1, st1, d1)"
    and z2: "zone_run s cls z d1 st1 ps = Inr (evs2, st', d')"
    by (auto simp: and_then_Inr_iff)
  from zone_fix_watermark [OF z1 Cons.prems(2)] Cons.prems(3)
  have w: "watermark_sane s (p_received pos) st1" "watermark_le (last_ts st) (last_ts st1)"
    "watermark_le (Some (p_ts pos)) (last_ts st1)" by auto
  from Cons.IH [OF z2 w(1)] Cons.prems(3) w show ?case
    by (auto intro: watermark_le_trans)
qed simp

theorem watermark_bounded_and_monotone_witness:
  "\<exists>evs st' d'. zone_run demo_settings ''light'' (yard []) empty_db new_zone_state
       [demo_fix 1 (1/2) (1/2) None, demo_fix 2 (1/2) (1/2) None] = Inr (evs, st', d') \<and>
     watermark_sane demo_settings 2 st' \<and> watermark_le (Some 2) (last_ts st')"
proof -
  have "\<forall>pos \<in> set [demo_fix 1 (1/2) (1/2) None, demo_fix 2 (1/2) (1/2) None]. names_ok empty_db pos"
    by (simp add: names_ok_def demo_fix_def empty_db_def)
  then obtain evs st' d' where r: "zone_run demo_settings ''light'' (yard []) empty_db new_zone_state
       [demo_fix 1 (1/2) (1/2) None, demo_fix 2 (1/2) (1/2) None] = Inr (evs, st', d')"
    using zone_run_total yard_rules_ok yard_geometry_ok by blast
  have "watermark_sane demo_settings 0 new_zone_state"
    by (simp add: watermark_sane_def new_zone_state_def)
  moreover have "admitted demo_settings 0 [demo_fix 1 (1/2) (1/2) None, demo_fix 2 (1/2) (1/2) None]"
    by (simp add: demo_fix_def demo_settings_def max_skew_def seconds_def)
  ultimately have "watermark_sane demo_settings 2 st' \<and> watermark_le (Some 2) (last_ts st')"
    using watermark_bounded_and_monotone [OF r] by (simp add: demo_fix_def)
  with r show ?thesis by blast
qed

end
