(* ===== verification/PeriodicRules.thy ===== *)
theory PeriodicRules
  imports Pipeline
begin

text \<open>
  The checks the maintenance tick runs over the stored rows: \<^verbatim>\<open>rules/offline.py\<close> (an active
  asset gone silent), \<^verbatim>\<open>rules/occupancy.py\<close> and \<^verbatim>\<open>zones/occupancy.py\<close> (more assets
  confirmed in a zone than its cap).
\<close>

section \<open>Offline assets\<close>

definition opt_bool :: "bool option \<Rightarrow> json" where
  "opt_bool b = (case b of None \<Rightarrow> JNull | Some x \<Rightarrow> JBool x)"

definition offline_due :: "'a db_scheme \<Rightarrow> string \<Rightarrow> real \<Rightarrow> time \<Rightarrow> position \<Rightarrow> bool" where
  "offline_due d site threshold_s now p \<longleftrightarrow>
     \<not> (total_seconds (now - p_ts p) \<le> threshold_s \<or> p_ignition p = Some False) \<and>
     \<not> alarmed_since d site ''asset_offline'' (p_ts p) (Some (p_asset p)) None"

definition offline_event ::
  "'a db_scheme \<Rightarrow> string \<Rightarrow> real \<Rightarrow> time \<Rightarrow> position \<Rightarrow> py_error + (event \<times> 'a db_scheme)" where
  "offline_event d site threshold_s now p =
     (let age = total_seconds (now - p_ts p)
      in case new_event_id d of (i, d) \<Rightarrow>
         and_then (event_v1 \<lparr>e_id = i, e_site = site, e_ts = now, e_type = ''asset_offline'',
             e_severity = ''warning'', e_asset = Some (p_asset p), e_zone = None,
             e_source = ''gnss_offline'',
             e_summary = [Txt (p_asset p), Txt '' offline: no position for '', FmtInt (trunc age), Txt ''s'']
               @ (if p_ignition p = None then [Txt '' (ignition unknown)''] else []),
             e_detail = Some [(''age_s'', JReal age), (''threshold_s'', JReal threshold_s),
               (''ignition'', opt_bool (p_ignition p))],
             e_evidence = None, e_advisory = True, e_state = ''open'', e_ack_by = None,
             e_ack_at = None\<rparr>) (\<lambda>ev. Inr (ev, d)))"

fun offline_scan ::
  "string \<Rightarrow> real \<Rightarrow> time \<Rightarrow> 'a db_scheme \<Rightarrow> position list \<Rightarrow> py_error + (event list \<times> 'a db_scheme)" where
  "offline_scan site threshold_s now d [] = Inr ([], d)"
| "offline_scan site threshold_s now d (p # ps) =
     (if \<not> offline_due d site threshold_s now p then offline_scan site threshold_s now d ps
      else and_then (offline_event d site threshold_s now p) (\<lambda>(ev, d).
           and_then (offline_scan site threshold_s now d ps) (\<lambda>(evs, d). Inr (ev # evs, d))))"

definition detect_offline ::
  "settings \<Rightarrow> 'a db_scheme \<Rightarrow> string \<Rightarrow> time \<Rightarrow> real \<Rightarrow> py_error + (event list \<times> 'a db_scheme)" where
  "detect_offline s d site now threshold_s =
     and_then (offline_scan site threshold_s now d (latest_positions d site)) (\<lambda>(evs, d).
     Inr (evs, foldl (persist_event s now) d evs))"

section \<open>Occupancy\<close>

definition parse_cap :: "dict \<Rightarrow> int option" where
  "parse_cap rules =
     (if rules = [] then None
      else case map_of rules ''max_occupancy'' of
             None \<Rightarrow> None
           | Some raw \<Rightarrow>
               if raw = JNull then None
               else (case py_int raw of Inl _ \<Rightarrow> None | Inr cap \<Rightarrow> if cap \<ge> 0 then Some cap else None))"

definition cap_severity :: "dict \<Rightarrow> string" where
  "cap_severity rules =
     (let sev = py_str (get_or rules ''severity'' (JStr ''warning''))
      in if sev \<in> set severities then sev else ''warning'')"

definition current_occupancy :: "'a db_scheme \<Rightarrow> string \<Rightarrow> string \<Rightarrow> int" where
  "current_occupancy d site zid =
     int (length (filter (\<lambda>((s, _, z), st). s = site \<and> z = zid \<and> inside st) (zone_states d)))"

record occupancy_row =
  o_zone :: string
  o_name :: string
  o_cap :: int
  o_occupancy :: int
  o_over :: bool
  o_severity :: string

definition occupancy_status :: "'a db_scheme \<Rightarrow> string \<Rightarrow> occupancy_row list" where
  "occupancy_status d site =
     List.map_filter (\<lambda>z. case parse_cap (z_rules z) of
         None \<Rightarrow> None
       | Some cap \<Rightarrow>
           let count = current_occupancy d site (z_id z)
           in Some \<lparr>o_zone = z_id z, o_name = z_name z, o_cap = cap, o_occupancy = count,
                    o_over = (count > cap), o_severity = cap_severity (z_rules z)\<rparr>)
       (list_zones d site)"

definition zone_alarms :: "'a db_scheme \<Rightarrow> string \<Rightarrow> string \<Rightarrow> event list" where
  "zone_alarms d site zid =
     filter (\<lambda>e. e_site e = site \<and> e_zone e = Some zid \<and> e_type e = ''zone_occupancy'') (events d)"

definition detail_of :: "event \<Rightarrow> dict" where
  "detail_of e = (case e_detail e of None \<Rightarrow> [] | Some x \<Rightarrow> x)"

definition latest_open :: "event list \<Rightarrow> event option" where
  "latest_open alarms =
     (case max_by e_ts alarms of
        None \<Rightarrow> None
      | Some e \<Rightarrow> if map_of (detail_of e) ''cleared_at'' \<noteq> None then None else Some e)"

definition current_breach :: "'a db_scheme \<Rightarrow> string \<Rightarrow> string \<Rightarrow> event option" where
  "current_breach d site zid = latest_open (zone_alarms d site zid)"

definition replace_event :: "event \<Rightarrow> event \<Rightarrow> 'a db_scheme \<Rightarrow> 'a db_scheme" where
  "replace_event old new d = d\<lparr>events := map (\<lambda>e. if e = old then new else e) (events d)\<rparr>"

definition cleared :: "time \<Rightarrow> event \<Rightarrow> event" where
  "cleared now e = e\<lparr>e_detail := Some (dict_put ''cleared_at'' (JTime now) (detail_of e))\<rparr>"

definition occupancy_event ::
  "'a db_scheme \<Rightarrow> string \<Rightarrow> time \<Rightarrow> zone \<Rightarrow> int \<Rightarrow> int \<Rightarrow> py_error + (event \<times> 'a db_scheme)" where
  "occupancy_event d site now z count cap =
     (case new_event_id d of (i, d) \<Rightarrow>
        and_then (event_v1 \<lparr>e_id = i, e_site = site, e_ts = now, e_type = ''zone_occupancy'',
            e_severity = cap_severity (z_rules z), e_asset = None, e_zone = Some (z_id z),
            e_source = ''gnss_occupancy'',
            e_summary = [FmtInt count, Txt '' assets in '', Txt (z_name z), Txt '' exceeds capacity '',
              FmtInt cap],
            e_detail = Some [(''occupancy'', JInt count), (''max_occupancy'', JInt cap)],
            e_evidence = None, e_advisory = True, e_state = ''open'', e_ack_by = None,
            e_ack_at = None\<rparr>) (\<lambda>ev. Inr (ev, d)))"

definition occupancy_zone ::
  "string \<Rightarrow> time \<Rightarrow> 'a db_scheme \<Rightarrow> zone \<Rightarrow> py_error + (event list \<times> 'a db_scheme)" where
  "occupancy_zone site now d z =
     (case parse_cap (z_rules z) of
        None \<Rightarrow> Inr ([], d)
      | Some cap \<Rightarrow>
          let count = current_occupancy d site (z_id z);
              breach = current_breach d site (z_id z)
          in if count \<le> cap then
               Inr ([], case breach of None \<Rightarrow> d | Some b \<Rightarrow> replace_event b (cleared now b) d)
             else if breach \<noteq> None then Inr ([], d)
             else and_then (occupancy_event d site now z count cap) (\<lambda>(ev, d). Inr ([ev], d)))"

fun occupancy_scan ::
  "string \<Rightarrow> time \<Rightarrow> 'a db_scheme \<Rightarrow> zone list \<Rightarrow> py_error + (event list \<times> 'a db_scheme)" where
  "occupancy_scan site now d [] = Inr ([], d)"
| "occupancy_scan site now d (z # zs) =
     and_then (occupancy_zone site now d z) (\<lambda>(evs, d).
     and_then (occupancy_scan site now d zs) (\<lambda>(evs', d). Inr (evs @ evs', d)))"

definition detect_zone_occupancy ::
  "settings \<Rightarrow> 'a db_scheme \<Rightarrow> string \<Rightarrow> time \<Rightarrow> py_error + (event list \<times> 'a db_scheme)" where
  "detect_zone_occupancy s d site now =
     and_then (occupancy_scan site now d (list_zones d site)) (\<lambda>(evs, d).
     Inr (evs, foldl (persist_event s now) d evs))"

section \<open>Offline: which assets, and once per outage\<close>

lemma alarmed_since_events: "events d = events d' \<Longrightarrow> alarmed_since d = alarmed_since d'"
  by (simp add: alarmed_since_def fun_eq_iff)

lemma offline_due_ids [simp]: "offline_due (d\<lparr>ids_drawn := k\<rparr>) = offline_due d"
  by (simp add: offline_due_def alarmed_since_def fun_eq_iff)

lemma offline_event_Inr:
  "offline_event d site thr now p = Inr (ev, d') \<Longrightarrow>
     e_asset ev = Some (p_asset p) \<and> e_site ev = site \<and> e_type ev = ''asset_offline'' \<and> e_ts ev = now \<and>
     valid_event ev \<and> d' = d\<lparr>ids_drawn := ids_drawn d + 1\<rparr>"
  by (auto simp: offline_event_def Let_def new_event_id_def event_v1_def and_then_Inr_iff split: if_splits)

definition offline_alarm :: "string \<Rightarrow> time \<Rightarrow> event \<Rightarrow> bool" where
  "offline_alarm site now ev \<longleftrightarrow>
     e_site ev = site \<and> e_type ev = ''asset_offline'' \<and> e_ts ev = now \<and> valid_event ev"

lemma offline_scan_Inr:
  "offline_scan site thr now d ps = Inr (evs, d') \<Longrightarrow>
     map e_asset evs = map (\<lambda>p. Some (p_asset p)) (filter (offline_due d site thr now) ps) \<and>
     (\<forall>ev \<in> set evs. offline_alarm site now ev) \<and> (\<exists>k. d' = d\<lparr>ids_drawn := k\<rparr>)"
proof (induction ps arbitrary: d evs)
  case Nil
  then show ?case by (simp add: ids_drawn_refl)
next
  case (Cons p ps)
  show ?case
  proof (cases "offline_due d site thr now p")
    case True
    with Cons.prems obtain ev d1 evs1 where
      e: "offline_event d site thr now p = Inr (ev, d1)"
      and r: "offline_scan site thr now d1 ps = Inr (evs1, d')" and evs: "evs = ev # evs1"
      by (auto simp: and_then_Inr_iff)
    from offline_event_Inr [OF e] Cons.IH [OF r] True show ?thesis
      by (auto simp: evs offline_alarm_def)
  next
    case False
    with Cons show ?thesis by simp
  qed
qed

lemma detect_offline_Inr:
  assumes "detect_offline s d site now thr = Inr (evs, d')"
  shows "map e_asset evs = map (\<lambda>p. Some (p_asset p)) (filter (offline_due d site thr now) (latest_positions d site)) \<and>
    (\<forall>ev \<in> set evs. offline_alarm site now ev) \<and> events d' = events d @ evs \<and> positions d' = positions d"
proof -
  from assms obtain d1 where "offline_scan site thr now d (latest_positions d site) = Inr (evs, d1)"
    and "d' = foldl (persist_event s now) d1 evs"
    by (auto simp: detect_offline_def and_then_Inr_iff)
  with offline_scan_Inr [of site thr now d "latest_positions d site" evs d1]
    persist_all_frame [of evs d1 s now]
  show ?thesis by (auto simp: offline_alarm_def outbox_only_def)
qed

lemma offline_event_total:
  "site \<noteq> [] \<Longrightarrow> \<forall>n. ulid d n \<noteq> [] \<Longrightarrow>
     \<exists>ev. offline_event d site thr now p = Inr (ev, d\<lparr>ids_drawn := ids_drawn d + 1\<rparr>)"
  by (simp add: offline_event_def Let_def new_event_id_def event_v1_def valid_event_def
      event_types_def severities_def event_states_def)

lemma offline_scan_total:
  "site \<noteq> [] \<Longrightarrow> \<forall>n. ulid d n \<noteq> [] \<Longrightarrow> \<exists>r. offline_scan site thr now d ps = Inr r"
proof (induction ps arbitrary: d)
  case (Cons p ps)
  obtain ev where "offline_event d site thr now p = Inr (ev, d\<lparr>ids_drawn := ids_drawn d + 1\<rparr>)"
    using offline_event_total [OF Cons.prems] by blast
  with Cons.IH [of d] Cons.IH [of "d\<lparr>ids_drawn := ids_drawn d + 1\<rparr>"] Cons.prems show ?case by auto
qed simp

lemma detect_offline_total:
  "site \<noteq> [] \<Longrightarrow> \<forall>n. ulid d n \<noteq> [] \<Longrightarrow> \<exists>evs d'. detect_offline s d site now thr = Inr (evs, d')"
  using offline_scan_total [of site d thr now "latest_positions d site"] by (auto simp: detect_offline_def)

definition newest_fix :: "'a db_scheme \<Rightarrow> string \<Rightarrow> string \<Rightarrow> position option" where
  "newest_fix d site asset = max_by p_ts (fixes_of d site asset)"

lemma newest_fix_cong: "positions d' = positions d \<Longrightarrow> newest_fix d' site asset = newest_fix d site asset"
  by (simp add: newest_fix_def fixes_of_def)

lemma newest_fix_in_latest:
  assumes "p \<in> set (latest_positions d site)"
  shows "newest_fix d site (p_asset p) = Some p"
proof -
  from assms obtain a where m: "max_by p_ts (fixes_of d site a) = Some p"
    by (auto simp: latest_positions_def set_map_filter_Some)
  then have "p_asset p = a" by (auto simp: fixes_of_def dest!: max_by_Some)
  with m show ?thesis by (simp add: newest_fix_def)
qed

lemma insert_position_fixes:
  "fixes_of (snd (insert_position d q)) site asset =
     fixes_of d site asset @ (if fst (insert_position d q) \<and> p_site q = site \<and> p_asset q = asset then [q] else [])"
  by (auto simp: insert_position_def fixes_of_def)

lemma insert_position_events [simp]: "events (snd (insert_position d q)) = events d"
  by (simp add: insert_position_def)

section \<open>Properties\<close>

text \<open>A run of the offline check alarms exactly the assets whose newest fix is older than the
  threshold, was not reported with the ignition off, and has had no offline alarm since; each
  alarm is stored.\<close>

theorem offline_alarms_exactly_the_silent:
  assumes "detect_offline s d site now thr = Inr (evs, d')"
  shows "map e_asset evs =
      map (\<lambda>p. Some (p_asset p)) (filter (offline_due d site thr now) (latest_positions d site)) \<and>
    events d' = events d @ evs \<and> positions d' = positions d"
  using detect_offline_Inr [OF assms] by blast

theorem offline_alarms_exactly_the_silent_witness:
  "\<exists>evs d'. detect_offline demo_settings (snd (insert_position empty_db (demo_fix 0 0 0 None))) ''s1''
     700000000 600 = Inr (evs, d') \<and> map e_asset evs = [Some ''HT-01'']"
proof -
  let ?d = "snd (insert_position empty_db (demo_fix 0 0 0 None))"
  have d: "positions ?d = [demo_fix 0 0 0 None]" "events ?d = []"
    by (simp_all add: insert_position_def empty_db_def)
  then have l: "latest_positions ?d ''s1'' = [demo_fix 0 0 0 None]"
    by (simp add: latest_positions_def asset_ids_seen_def fixes_of_def demo_fix_def map_filter_simps)
  have due: "offline_due ?d ''s1'' 600 700000000 (demo_fix 0 0 0 None)"
    using d(2) by (simp add: offline_due_def demo_fix_def total_seconds_def alarmed_since_def)
  have "\<forall>n. ulid ?d n \<noteq> []"
    by (simp add: insert_position_def mark_recompute_dirty_def Let_def empty_db_def)
  then obtain evs d' where r: "detect_offline demo_settings ?d ''s1'' 700000000 600 = Inr (evs, d')"
    using detect_offline_total by blast
  from offline_alarms_exactly_the_silent [OF r] due have m: "map e_asset evs = [Some ''HT-01'']"
    unfolding l by (simp add: demo_fix_def)
  show ?thesis by (rule exI, rule exI, rule conjI, rule r, rule m)
qed

section \<open>Occupancy: the alarm is open exactly while the zone is over its cap\<close>

definition occ_alarm :: "string \<Rightarrow> string \<Rightarrow> event \<Rightarrow> bool" where
  "occ_alarm site zid e \<longleftrightarrow> e_site e = site \<and> e_zone e = Some zid \<and> e_type e = ''zone_occupancy''"

lemma zone_alarms_occ: "zone_alarms d site zid = filter (occ_alarm site zid) (events d)"
  by (simp add: zone_alarms_def occ_alarm_def [abs_def])

lemma ids_drawn_irrelevant [simp]:
  "zone_alarms (d\<lparr>ids_drawn := k\<rparr>) = zone_alarms d"
  "current_occupancy (d\<lparr>ids_drawn := k\<rparr>) = current_occupancy d"
  by (simp_all add: zone_alarms_def current_occupancy_def fun_eq_iff)

lemma cleared_keeps [simp]:
  "e_ts (cleared now e) = e_ts e" "occ_alarm site zid (cleared now e) = occ_alarm site zid e"
  by (simp_all add: cleared_def occ_alarm_def)

lemma zone_alarms_replace_other:
  "occ_alarm site zid b \<Longrightarrow> zid' \<noteq> zid \<Longrightarrow>
     zone_alarms (replace_event b (cleared now b) d) site zid' = zone_alarms d site zid'"
  by (simp add: zone_alarms_occ replace_event_def, rule filter_map_irrelevant)
    (auto simp: cleared_keeps(2) [of site zid'] occ_alarm_def [of site zid b] occ_alarm_def [of site zid' b])

lemma zone_alarms_replace_same:
  "occ_alarm site zid b \<Longrightarrow>
     zone_alarms (replace_event b (cleared now b) d) site zid =
     map (\<lambda>e. if e = b then cleared now b else e) (zone_alarms d site zid)"
  by (simp add: zone_alarms_occ replace_event_def filter_map o_def if_distrib)
    (rule arg_cong [where f = "map _"], rule filter_cong, auto)

lemma latest_open_replace:
  "latest_open as = Some b \<Longrightarrow> latest_open (map (\<lambda>e. if e = b then cleared now b else e) as) = None"
  by (auto simp: latest_open_def max_by_map cleared_def detail_of_def split: option.splits if_splits)

lemma latest_open_mem: "latest_open as = Some b \<Longrightarrow> b \<in> set as"
  by (auto simp: latest_open_def dest: max_by_Some split: option.splits if_splits)

lemma latest_open_snoc:
  "\<forall>e \<in> set as. e_ts e < e_ts ev \<Longrightarrow> map_of (detail_of ev) ''cleared_at'' = None \<Longrightarrow>
     latest_open (as @ [ev]) = Some ev"
  by (auto simp: latest_open_def max_by_snoc dest: max_by_Some split: option.splits)

lemma occupancy_event_Inr:
  "occupancy_event d site now z count cap = Inr (ev, d') \<Longrightarrow>
     occ_alarm site (z_id z) ev \<and> e_ts ev = now \<and> valid_event ev \<and>
     map_of (detail_of ev) ''cleared_at'' = None \<and> d' = d\<lparr>ids_drawn := ids_drawn d + 1\<rparr>"
  by (auto simp: occupancy_event_def new_event_id_def event_v1_def and_then_Inr_iff occ_alarm_def
      detail_of_def split: if_splits)

text \<open>The alarms of a zone once the run's new ones are stored.\<close>

definition alarms_with :: "'a db_scheme \<Rightarrow> event list \<Rightarrow> string \<Rightarrow> string \<Rightarrow> event list" where
  "alarms_with d evs site zid = zone_alarms d site zid @ filter (occ_alarm site zid) evs"

definition clock_fresh :: "'a db_scheme \<Rightarrow> string \<Rightarrow> time \<Rightarrow> bool" where
  "clock_fresh d site now \<longleftrightarrow> (\<forall>zid. \<forall>e \<in> set (zone_alarms d site zid). e_ts e < now)"

definition settled :: "'a db_scheme \<Rightarrow> event list \<Rightarrow> string \<Rightarrow> zone \<Rightarrow> bool" where
  "settled d evs site z \<longleftrightarrow>
     (case parse_cap (z_rules z) of None \<Rightarrow> True
      | Some cap \<Rightarrow> (latest_open (alarms_with d evs site (z_id z)) \<noteq> None) =
          (current_occupancy d site (z_id z) > cap))"

lemma settled_cong:
  "alarms_with d evs site (z_id z) = alarms_with d' evs' site (z_id z) \<Longrightarrow>
     zone_states d = zone_states d' \<Longrightarrow> settled d evs site z = settled d' evs' site z"
  by (cases "parse_cap (z_rules z)") (simp_all add: settled_def current_occupancy_def)

definition occ_step_ok :: "string \<Rightarrow> time \<Rightarrow> 'a db_scheme \<Rightarrow> event list \<Rightarrow> 'a db_scheme \<Rightarrow> bool" where
  "occ_step_ok site now d evs d' \<longleftrightarrow> zone_states d' = zone_states d \<and> zone_rows d' = zone_rows d \<and>
     (clock_fresh d site now \<longrightarrow> clock_fresh d' site now) \<and>
     (\<forall>ev \<in> set evs. valid_event ev \<and> e_ts ev = now)"

lemma occupancy_zone_Inr:
  assumes "occupancy_zone site now d z = Inr (evs, d')"
  shows "occ_step_ok site now d evs d' \<and>
    (\<forall>zid. zid \<noteq> z_id z \<longrightarrow> zone_alarms d' site zid = zone_alarms d site zid \<and>
       filter (occ_alarm site zid) evs = []) \<and>
    (clock_fresh d site now \<longrightarrow> settled d' evs site z)"
proof (cases "parse_cap (z_rules z)")
  case None
  with assms show ?thesis
    by (simp add: occupancy_zone_def occ_step_ok_def alarms_with_def settled_def)
next
  case (Some cap)
  let ?zid = "z_id z"
  consider (clear) b where "current_occupancy d site ?zid \<le> cap" "current_breach d site ?zid = Some b"
    | (none) "current_occupancy d site ?zid \<le> cap \<longleftrightarrow> current_breach d site ?zid = None"
    | (alarm) "current_occupancy d site ?zid > cap" "current_breach d site ?zid = None"
    by (cases "current_breach d site ?zid") force+
  then show ?thesis
  proof cases
    case clear
    then have r: "evs = []" "d' = replace_event b (cleared now b) d"
      using assms Some by (auto simp: occupancy_zone_def Let_def)
    have b: "occ_alarm site ?zid b"
      using latest_open_mem [OF clear(2) [unfolded current_breach_def]] by (simp add: zone_alarms_occ)
    have ts: "clock_fresh d site now \<Longrightarrow> clock_fresh d' site now"
      unfolding clock_fresh_def r
    proof (intro allI ballI)
      fix zid e
      assume f: "\<forall>zid. \<forall>e \<in> set (zone_alarms d site zid). e_ts e < now"
        and e: "e \<in> set (zone_alarms (replace_event b (cleared now b) d) site zid)"
      from e obtain e' where "e' \<in> set (zone_alarms d site zid)" "e_ts e = e_ts e'"
        by (cases "zid = ?zid") (auto simp: zone_alarms_replace_same [OF b]
            zone_alarms_replace_other [OF b] split: if_splits)
      with f show "e_ts e < now" by auto
    qed
    have "latest_open (zone_alarms d' site ?zid) = None"
      unfolding r zone_alarms_replace_same [OF b]
      by (rule latest_open_replace) (use clear(2) in \<open>simp add: current_breach_def\<close>)
    with ts clear(1) Some show ?thesis
      by (simp add: r occ_step_ok_def alarms_with_def settled_def zone_alarms_replace_other [OF b])
        (simp add: replace_event_def current_occupancy_def)
  next
    case none
    then have "evs = []" "d' = d"
      using assms Some by (auto simp: occupancy_zone_def Let_def split: if_splits)
    with none Some show ?thesis
      by (auto simp: occ_step_ok_def alarms_with_def settled_def current_breach_def)
  next
    case alarm
    with assms Some obtain ev where r: "occupancy_event d site now z (current_occupancy d site ?zid) cap = Inr (ev, d')"
      and evs: "evs = [ev]"
      by (auto simp: occupancy_zone_def Let_def and_then_Inr_iff)
    note ev = occupancy_event_Inr [OF r]
    have other: "zid \<noteq> ?zid \<Longrightarrow> \<not> occ_alarm site zid ev" for zid
      using ev by (auto simp: occ_alarm_def)
    have "clock_fresh d site now \<Longrightarrow> latest_open (zone_alarms d site ?zid @ [ev]) = Some ev"
      by (rule latest_open_snoc) (use ev in \<open>auto simp: clock_fresh_def\<close>)
    with ev alarm Some other show ?thesis
      by (auto simp: evs occ_step_ok_def alarms_with_def settled_def clock_fresh_def)
  qed
qed

lemma occupancy_scan_Inr:
  "occupancy_scan site now d zs = Inr (evs, d') \<Longrightarrow> distinct (map z_id zs) \<Longrightarrow>
     occ_step_ok site now d evs d' \<and>
     (\<forall>zid. zid \<notin> z_id ` set zs \<longrightarrow> zone_alarms d' site zid = zone_alarms d site zid \<and>
        filter (occ_alarm site zid) evs = []) \<and>
     (clock_fresh d site now \<longrightarrow> (\<forall>z \<in> set zs. settled d' evs site z))"
proof (induction zs arbitrary: d evs)
  case Nil
  then show ?case by (simp add: occ_step_ok_def alarms_with_def)
next
  case (Cons z zs)
  from Cons.prems(1) obtain evs1 d1 evs2 where
    1: "occupancy_zone site now d z = Inr (evs1, d1)"
    and 2: "occupancy_scan site now d1 zs = Inr (evs2, d')" and evs: "evs = evs1 @ evs2"
    by (auto simp: and_then_Inr_iff)
  note z = occupancy_zone_Inr [OF 1]
  have fresh: "z_id z \<notin> z_id ` set zs" "distinct (map z_id zs)" using Cons.prems(2) by auto
  note ih = Cons.IH [OF 2 fresh(2)]
  have st: "zone_states d' = zone_states d1" using ih by (simp add: occ_step_ok_def)
  have ok: "occ_step_ok site now d evs d'"
    using z ih by (auto simp: occ_step_ok_def evs)
  have "settled d' evs site z" if "settled d1 evs1 site z"
    using that ih fresh(1) st
    by (subst settled_cong [of d' evs site z d1 evs1]) (simp_all add: alarms_with_def evs)
  moreover have "settled d' evs site y" if "y \<in> set zs" "settled d' evs2 site y" for y
    using that z fresh(1)
    by (subst settled_cong [of d' evs site y d' evs2]) (auto simp: alarms_with_def evs image_iff)
  ultimately show ?case
    using ok z ih by (auto simp: occ_step_ok_def evs)
qed

text \<open>After a tick of the occupancy check on an advancing clock, a capped zone has an open
  occupancy alarm exactly when more assets are confirmed inside it than its cap, whatever the
  earlier alarms, acknowledgements and clears; the tick raises one alarm at most per zone.\<close>

theorem occupancy_alarm_open_iff_over:
  assumes "detect_zone_occupancy s d site now = Inr (evs, d')"
    and "distinct (map z_id (list_zones d site))" and "clock_fresh d site now"
    and "z \<in> set (list_zones d' site)" and "parse_cap (z_rules z) = Some cap"
  shows "current_breach d' site (z_id z) \<noteq> None \<longleftrightarrow> current_occupancy d' site (z_id z) > cap"
proof -
  from assms(1) obtain d1 where scan: "occupancy_scan site now d (list_zones d site) = Inr (evs, d1)"
    and d': "d' = foldl (persist_event s now) d1 evs"
    by (auto simp: detect_zone_occupancy_def and_then_Inr_iff)
  note props = occupancy_scan_Inr [OF scan assms(2)]
  from props have "\<forall>ev \<in> set evs. valid_event ev" by (simp add: occ_step_ok_def)
  note frame = persist_all_frame [OF this, of d1 s now, folded d']
  have "zone_rows d' = zone_rows d" using props frame by (simp add: occ_step_ok_def outbox_only_def)
  then have "settled d1 evs site z" using props assms(3,4) by (simp add: list_zones_def)
  moreover have "zone_alarms d' site (z_id z) = alarms_with d1 evs site (z_id z)"
    using frame by (simp add: alarms_with_def zone_alarms_occ)
  moreover have "current_occupancy d' site (z_id z) = current_occupancy d1 site (z_id z)"
    using frame by (simp add: current_occupancy_def outbox_only_def)
  ultimately show ?thesis using assms(5) by (simp add: settled_def current_breach_def)
qed

definition crowded_db :: db where
  "crowded_db = empty_db\<lparr>zone_rows := [yard [(''max_occupancy'', JInt 0)]],
     zone_states := [((''s1'', ''HT-01'', ''z1''), new_zone_state\<lparr>inside := True\<rparr>)]\<rparr>"

lemma detect_occupancy_crowded:
  "\<exists>evs d'. detect_zone_occupancy demo_settings crowded_db ''s1'' 5 = Inr (evs, d')"
  by (simp add: detect_zone_occupancy_def list_zones_def crowded_db_def yard_def occupancy_zone_def
      parse_cap_def current_occupancy_def current_breach_def latest_open_def zone_alarms_def
      occupancy_event_def new_event_id_def event_v1_def valid_event_def empty_db_def event_types_def
      severities_def event_states_def cap_severity_def get_or_def new_zone_state_def Let_def)

theorem occupancy_alarm_open_iff_over_witness:
  "\<exists>evs d'. detect_zone_occupancy demo_settings crowded_db ''s1'' 5 = Inr (evs, d') \<and>
     (current_breach d' ''s1'' ''z1'' \<noteq> None \<longleftrightarrow> current_occupancy d' ''s1'' ''z1'' > 0)"
proof -
  obtain evs d' where r: "detect_zone_occupancy demo_settings crowded_db ''s1'' 5 = Inr (evs, d')"
    using detect_occupancy_crowded by blast
  have "clock_fresh crowded_db ''s1'' 5"
    by (simp add: clock_fresh_def crowded_db_def zone_alarms_def empty_db_def)
  moreover have "distinct (map z_id (list_zones crowded_db ''s1''))"
    by (simp add: list_zones_def crowded_db_def)
  moreover have "yard [(''max_occupancy'', JInt 0)] \<in> set (list_zones d' ''s1'')"
  proof -
    from r obtain d1 where scan: "occupancy_scan ''s1'' 5 crowded_db (list_zones crowded_db ''s1'') = Inr (evs, d1)"
      and "d' = foldl (persist_event demo_settings 5) d1 evs"
      by (auto simp: detect_zone_occupancy_def and_then_Inr_iff)
    with occupancy_scan_Inr [OF scan] persist_all_frame [of evs d1 demo_settings 5]
    have "zone_rows d' = zone_rows crowded_db"
      by (simp add: occ_step_ok_def outbox_only_def list_zones_def crowded_db_def)
    then show ?thesis by (simp add: list_zones_def crowded_db_def yard_def)
  qed
  moreover have "parse_cap (z_rules (yard [(''max_occupancy'', JInt 0)])) = Some 0"
    by (simp add: parse_cap_def yard_def)
  ultimately have "current_breach d' ''s1'' (z_id (yard [(''max_occupancy'', JInt 0)])) \<noteq> None \<longleftrightarrow>
      current_occupancy d' ''s1'' (z_id (yard [(''max_occupancy'', JInt 0)])) > 0"
    by (intro occupancy_alarm_open_iff_over [OF r])
  then have "current_breach d' ''s1'' ''z1'' \<noteq> None \<longleftrightarrow> current_occupancy d' ''s1'' ''z1'' > 0"
    by (simp add: yard_def)
  with r show ?thesis by (intro exI conjI)
qed

text \<open>The dashboard's occupancy rows list exactly the capped zones, with the count the rule
  reads, so the rule and the dashboard cannot disagree about a zone being over.\<close>

theorem dashboard_agrees_with_rule:
  "map (\<lambda>r. (o_zone r, o_cap r, o_over r)) (occupancy_status d site) =
   List.map_filter (\<lambda>z. map_option (\<lambda>cap. (z_id z, cap, current_occupancy d site (z_id z) > cap))
     (parse_cap (z_rules z))) (list_zones d site)"
proof -
  have "map (\<lambda>r. (o_zone r, o_cap r, o_over r)) (List.map_filter (\<lambda>z. case parse_cap (z_rules z) of
         None \<Rightarrow> None
       | Some cap \<Rightarrow>
           let count = current_occupancy d site (z_id z)
           in Some \<lparr>o_zone = z_id z, o_name = z_name z, o_cap = cap, o_occupancy = count,
                    o_over = (count > cap), o_severity = cap_severity (z_rules z)\<rparr>) zs) =
     List.map_filter (\<lambda>z. map_option (\<lambda>cap. (z_id z, cap, current_occupancy d site (z_id z) > cap))
     (parse_cap (z_rules z))) zs" for zs
    by (induction zs) (auto simp: map_filter_simps Let_def split: option.splits)
  then show ?thesis by (simp add: occupancy_status_def)
qed

end
