(* ===== verification/SourceHealth.thy ===== *)
theory SourceHealth
  imports Pipeline
begin

text \<open>
  Reachability of polled feeds, \<^verbatim>\<open>src/src/minemonitor/ingest/source_health.py\<close>: the status row of a
  feed, what a successful and a failed poll do to it, and the alarm of an outage. The database of
  the store is extended with the table of statuses.
\<close>

record source_status =
  last_ok_at :: "time option"
  failing_since :: "time option"
  last_error :: "string option"

record feed_db = db +
  source_statuses :: "((string \<times> string) \<times> source_status) list"

definition source_offline :: string where "source_offline = ''source_offline''"
definition max_error_chars :: nat where "max_error_chars = 300"

definition status_of :: "'a feed_db_scheme \<Rightarrow> string \<Rightarrow> string \<Rightarrow> source_status" where
  "status_of d site source =
     (case map_of (source_statuses d) (site, source) of
        None \<Rightarrow> \<lparr>last_ok_at = None, failing_since = None, last_error = None\<rparr>
      | Some row \<Rightarrow> row)"

definition put_status :: "string \<Rightarrow> string \<Rightarrow> source_status \<Rightarrow> 'a feed_db_scheme \<Rightarrow> 'a feed_db_scheme" where
  "put_status site source row d = d\<lparr>source_statuses := dict_put (site, source) row (source_statuses d)\<rparr>"

definition outage_alarm :: "'a feed_db_scheme \<Rightarrow> string \<Rightarrow> string \<Rightarrow> time \<Rightarrow> event option" where
  "outage_alarm d site source since =
     max_by e_ts (filter (\<lambda>e. e_site e = site \<and> e_type e = source_offline \<and> e_source e = source \<and> e_ts e \<ge> since)
       (events d))"

text \<open>The whole minutes of a duration in seconds, \<^verbatim>\<open>int(s // 60)\<close>.\<close>

definition whole_minutes :: "real \<Rightarrow> int" where
  "whole_minutes s = \<lfloor>s / 60\<rfloor>"

definition note_recovery :: "time \<Rightarrow> time \<Rightarrow> event \<Rightarrow> event" where
  "note_recovery now since alarm =
     (let detail = (case e_detail alarm of None \<Rightarrow> [] | Some x \<Rightarrow> x)
      in alarm\<lparr>e_detail := Some (dict_put ''recovered_at'' (JTime now) detail),
           e_summary := e_summary alarm @ [Txt '' (restored after '', FmtInt (whole_minutes (total_seconds (now - since))), Txt '' min)'']\<rparr>)"

definition record_ok :: "string \<Rightarrow> string \<Rightarrow> time \<Rightarrow> 'a feed_db_scheme \<Rightarrow> 'a feed_db_scheme" where
  "record_ok site source now d =
     (let row = status_of d site source;
          d = (case failing_since row of
                 None \<Rightarrow> d
               | Some since \<Rightarrow>
                   (case outage_alarm d site source since of
                      None \<Rightarrow> d
                    | Some alarm \<Rightarrow>
                        if map_of (case e_detail alarm of None \<Rightarrow> [] | Some x \<Rightarrow> x) ''recovered_at'' = None
                        then d\<lparr>events := map (\<lambda>e. if e_id e = e_id alarm then note_recovery now since alarm else e) (events d)\<rparr>
                        else d))
      in put_status site source (row\<lparr>last_ok_at := Some now, failing_since := None, last_error := None\<rparr>) d)"

definition opt_time :: "time option \<Rightarrow> json" where
  "opt_time t = (case t of None \<Rightarrow> JNull | Some x \<Rightarrow> JTime x)"

definition record_failure ::
  "settings \<Rightarrow> string \<Rightarrow> string \<Rightarrow> string \<Rightarrow> int \<Rightarrow> time \<Rightarrow> string \<Rightarrow> 'a feed_db_scheme \<Rightarrow> event option \<times> 'a feed_db_scheme" where
  "record_failure s site source label offline_after_s now err d =
     (let row = status_of d site source;
          since = (case failing_since row of None \<Rightarrow> now | Some t \<Rightarrow> t);
          row = row\<lparr>failing_since := Some since, last_error := Some (take max_error_chars err)\<rparr>;
          d = put_status site source row d;
          down_s = total_seconds (now - since)
      in if down_s < of_int offline_after_s \<or> outage_alarm d site source since \<noteq> None then (None, d)
         else let (i, d) = new_event_id d;
                  alarm = \<lparr>e_id = i, e_site = site, e_ts = now, e_type = source_offline, e_severity = ''warning'',
                    e_asset = None, e_zone = None, e_source = source,
                    e_summary = [Txt label, Txt '' unreachable for '', FmtInt (whole_minutes down_s),
                      Txt '' min: its events are not arriving''],
                    e_detail = Some [(''failing_since'', JTime since), (''down_s'', JReal down_s),
                      (''offline_after_s'', JInt offline_after_s), (''last_ok_at'', opt_time (last_ok_at row)),
                      (''last_error'', JStr (take max_error_chars err)), (''provenance'', JStr ''observed'')],
                    e_evidence = None, e_advisory = True, e_state = ''open'', e_ack_by = None, e_ack_at = None\<rparr>
              in (Some alarm, persist_event s now d alarm))"

section \<open>Polls\<close>

datatype poll = Poll_ok time | Poll_failed time string

fun poll_do :: "settings \<Rightarrow> string \<Rightarrow> string \<Rightarrow> string \<Rightarrow> int \<Rightarrow> 'a feed_db_scheme \<Rightarrow> poll \<Rightarrow> 'a feed_db_scheme" where
  "poll_do s site source label after_s d (Poll_ok now) = record_ok site source now d"
| "poll_do s site source label after_s d (Poll_failed now err) = snd (record_failure s site source label after_s now err d)"

fun alarms_on :: "settings \<Rightarrow> string \<Rightarrow> string \<Rightarrow> string \<Rightarrow> int \<Rightarrow> 'a feed_db_scheme \<Rightarrow> poll \<Rightarrow> bool" where
  "alarms_on s site source label after_s d (Poll_ok now) = False"
| "alarms_on s site source label after_s d (Poll_failed now err) =
     (fst (record_failure s site source label after_s now err d) \<noteq> None)"

definition alarmed :: "string \<Rightarrow> string \<Rightarrow> 'a feed_db_scheme \<Rightarrow> bool" where
  "alarmed site source d =
     (case failing_since (status_of d site source) of
        None \<Rightarrow> False
      | Some since \<Rightarrow> outage_alarm d site source since \<noteq> None)"

definition recovers :: "'a feed_db_scheme \<Rightarrow> poll \<Rightarrow> bool" where
  "recovers d p = (case p of Poll_ok _ \<Rightarrow> True | _ \<Rightarrow> False)"

lemma status_of_put [simp]: "status_of (put_status site source row d) site source = row"
  by (simp add: status_of_def put_status_def)

lemma status_of_cong: "source_statuses d = source_statuses d' \<Longrightarrow> status_of d = status_of d'"
  by (simp add: status_of_def fun_eq_iff)

lemma events_put_status [simp]: "events (put_status site source row d) = events d"
  by (simp add: put_status_def)

lemma outage_alarm_exists:
  "outage_alarm d site source since \<noteq> None \<longleftrightarrow>
     (\<exists>e \<in> set (events d). e_site e = site \<and> e_type e = source_offline \<and> e_source e = source \<and> e_ts e \<ge> since)"
  by (auto simp: outage_alarm_def filter_empty_conv)

lemma statuses_persist [simp]: "source_statuses (persist_event s now d ev) = source_statuses d"
proof -
  have "db.more (persist_event s now d ev) = db.more d" using persist_event_frame [of d s now ev] by (simp add: outbox_only_def)
  then show ?thesis by (cases d, cases "persist_event s now d ev") simp
qed

lemma events_persist [simp]: "events (persist_event s now d ev) = events d @ [ev\<lparr>e_advisory := True\<rparr>]"
  using persist_event_frame [of d s now ev] by simp

definition since_of :: "string \<Rightarrow> string \<Rightarrow> time \<Rightarrow> 'a feed_db_scheme \<Rightarrow> time" where
  "since_of site source now d = (case failing_since (status_of d site source) of None \<Rightarrow> now | Some t \<Rightarrow> t)"

text \<open>What a failed poll leaves: the outage goes on, and its alarm is raised exactly when it is due and missing.\<close>

lemma record_failure_since:
  "failing_since (status_of (snd (record_failure s site source label after_s now err d)) site source) =
     Some (since_of site source now d)"
  by (simp add: record_failure_def Let_def new_event_id_def since_of_def status_of_def put_status_def split: option.splits)

lemma record_failure_fires:
  "fst (record_failure s site source label after_s now err d) \<noteq> None \<longleftrightarrow>
     of_int after_s \<le> total_seconds (now - since_of site source now d) \<and>
     outage_alarm d site source (since_of site source now d) = None"
  by (simp add: record_failure_def Let_def new_event_id_def since_of_def outage_alarm_def not_less split: option.split)

lemma record_failure_events:
  "\<exists>more. events (snd (record_failure s site source label after_s now err d)) = events d @ more \<and>
     (\<forall>e \<in> set more. e_site e = site \<and> e_type e = source_offline \<and> e_source e = source \<and> e_ts e = now) \<and>
     (more = [] \<longleftrightarrow> fst (record_failure s site source label after_s now err d) = None)"
  by (simp add: record_failure_def Let_def new_event_id_def)

lemma alarmed_after_failure:
  assumes "0 \<le> after_s"
  shows "alarmed site source (snd (record_failure s site source label after_s now err d)) \<longleftrightarrow>
    fst (record_failure s site source label after_s now err d) \<noteq> None \<or>
    outage_alarm d site source (since_of site source now d) \<noteq> None"
proof -
  let ?d = "snd (record_failure s site source label after_s now err d)" and ?since = "since_of site source now d"
  obtain more where m: "events ?d = events d @ more"
    "\<forall>e \<in> set more. e_site e = site \<and> e_type e = source_offline \<and> e_source e = source \<and> e_ts e = now"
    "more = [] \<longleftrightarrow> fst (record_failure s site source label after_s now err d) = None"
    using record_failure_events [of s site source label after_s now err d] by (elim exE conjE) (rule that)
  have late: "?since \<le> now" if "more \<noteq> []"
  proof -
    have "fst (record_failure s site source label after_s now err d) \<noteq> None" using that m(3) by blast
    then have "of_int after_s \<le> total_seconds (now - ?since)" by (rule record_failure_fires [THEN iffD1, THEN conjunct1])
    moreover have "(0 :: real) \<le> of_int after_s" using assms by simp
    ultimately have "0 \<le> total_seconds (now - ?since)" by linarith
    then show ?thesis by simp
  qed
  have "alarmed site source ?d \<longleftrightarrow> outage_alarm ?d site source ?since \<noteq> None"
    using record_failure_since [of s site source label after_s now err d] by (simp add: alarmed_def)
  also have "\<dots> \<longleftrightarrow> more \<noteq> [] \<or> outage_alarm d site source ?since \<noteq> None"
    unfolding outage_alarm_exists m(1) using m(2) late by (cases more) auto
  finally show ?thesis using m(3) by simp
qed

lemma alarmed_since: "alarmed site source d \<Longrightarrow> outage_alarm d site source (since_of site source now d) \<noteq> None"
  by (simp add: alarmed_def since_of_def split: option.splits)

text \<open>An outage alarms once: the contract of a latch that only a successful poll opens again.\<close>

interpretation feed: latch "alarms_on s site source label (int after_s)" "poll_do s site source label (int after_s)"
    "alarmed site source" recovers
proof
  fix d :: "'a feed_db_scheme" and p
  show "alarms_on s site source label (int after_s) d p \<Longrightarrow> \<not> alarmed site source d"
    by (cases p) (auto simp: alarmed_def record_failure_fires since_of_def simp del: not_None_eq split: option.splits)
  show "alarms_on s site source label (int after_s) d p \<Longrightarrow> \<not> recovers d p \<Longrightarrow>
      alarmed site source (poll_do s site source label (int after_s) d p)"
    by (cases p) (auto simp: alarmed_after_failure)
  show "alarmed site source d \<Longrightarrow> \<not> recovers d p \<Longrightarrow> alarmed site source (poll_do s site source label (int after_s) d p)"
    using alarmed_since [of site source d] by (cases p) (simp_all add: alarmed_after_failure recovers_def)
qed

definition failed_polls :: "(time \<times> string) list \<Rightarrow> poll list" where
  "failed_polls ps = map (\<lambda>p. Poll_failed (fst p) (snd p)) ps"

lemma failed_polls_no_recovery: "never recovers upd d (failed_polls ps)"
  by (induction ps arbitrary: d) (auto simp: failed_polls_def recovers_def)

lemma outage_alarms_in_time:
  assumes "since_of site source (fst p) d = t0" "outage_alarm d site source t0 = None"
    "\<exists>q \<in> set (p # ps). of_int (int after_s) \<le> total_seconds (fst q - t0)"
  shows "0 < fires (alarms_on s site source label (int after_s)) (poll_do s site source label (int after_s)) d (failed_polls (p # ps))"
  using assms
proof (induction ps arbitrary: p d)
  case Nil
  then show ?case using record_failure_fires [of s site source label "int after_s" "fst p" "snd p" d]
    by (simp add: failed_polls_def)
next
  case (Cons q ps)
  let ?fired = "fst (record_failure s site source label (int after_s) (fst p) (snd p) d) \<noteq> None"
  let ?d = "snd (record_failure s site source label (int after_s) (fst p) (snd p) d)"
  show ?case
  proof (cases ?fired)
    case True
    then show ?thesis by (simp add: failed_polls_def)
  next
    case False
    have since: "failing_since (status_of ?d site source) = Some t0"
      using record_failure_since [of s site source label "int after_s" "fst p" "snd p" d] Cons.prems(1) by simp
    then have 1: "since_of site source (fst q) ?d = t0" by (simp add: since_of_def)
    have "\<not> alarmed site source ?d" using alarmed_after_failure [of "int after_s" site source s label "fst p" "snd p" d] False Cons.prems(1,2) by simp
    then have 2: "outage_alarm ?d site source t0 = None" using since by (simp add: alarmed_def)
    have "\<not> of_int (int after_s) \<le> total_seconds (fst p - t0)"
      using False Cons.prems(1,2) record_failure_fires [of s site source label "int after_s" "fst p" "snd p" d] by simp
    then have 3: "\<exists>x \<in> set (q # ps). of_int (int after_s) \<le> total_seconds (fst x - t0)" using Cons.prems(3) by auto
    show ?thesis using Cons.IH [OF 1 2 3] by (simp add: failed_polls_def)
  qed
qed

text \<open>An outage of a feed is reported once, and it is reported: when a healthy feed starts to fail
  and one of its failing polls comes the configured time or more after the first, exactly one alarm is
  raised, however many polls fail, until a poll succeeds.\<close>

theorem outage_alarms_exactly_once:
  assumes "failing_since (status_of d site source) = None" "outage_alarm d site source t0 = None"
    and "\<exists>p \<in> set ((t0, err) # ps). of_int (int after_s) \<le> total_seconds (fst p - t0)"
  shows "fires (alarms_on s site source label (int after_s)) (poll_do s site source label (int after_s)) d
    (failed_polls ((t0, err) # ps)) = 1"
proof -
  have "since_of site source (fst (t0, err)) d = t0" using assms(1) by (simp add: since_of_def)
  from outage_alarms_in_time [OF this assms(2,3), of s label]
    feed.at_most_once [OF failed_polls_no_recovery, of s site source label after_s d "(t0, err) # ps"]
  show ?thesis by simp
qed

definition demo_feed :: feed_db where
  "demo_feed = db.extend empty_db \<lparr>source_statuses = []\<rparr>"

theorem outage_alarms_exactly_once_witness:
  "fires (alarms_on demo_settings ''s1'' ''dahua_gate'' ''Gate feed'' (int 60))
     (poll_do demo_settings ''s1'' ''dahua_gate'' ''Gate feed'' (int 60)) demo_feed
     (failed_polls [(0, ''timeout''), (30000000, ''timeout''), (60000000, ''timeout''), (90000000, ''reset'')]) = 1"
  by (rule outage_alarms_exactly_once)
     (simp_all add: demo_feed_def status_of_def outage_alarm_def db.extend_def empty_db_def total_seconds_def)

text \<open>A recovery ends the outage, and the alarm keeps its place in the queue with when the feed came back.\<close>

lemma recovery_ends_outage:
  assumes "distinct (map e_id (events d))"
  shows "failing_since (status_of (record_ok site source now d) site source) = None \<and>
   \<not> alarmed site source (record_ok site source now d) \<and>
   map (\<lambda>e. (e_id e, e_state e)) (events (record_ok site source now d)) = map (\<lambda>e. (e_id e, e_state e)) (events d)"
proof -
  have st: "failing_since (status_of (record_ok site source now d) site source) = None"
    by (simp add: record_ok_def Let_def)
  have "e_state e = e_state alarm" if "outage_alarm d site source since = Some alarm" "e \<in> set (events d)" "e_id e = e_id alarm"
    for e alarm since
  proof -
    have "alarm \<in> set (events d)" using max_by_Some that(1) unfolding outage_alarm_def by fastforce
    then have "e = alarm" using assms that(2,3) by (auto simp: distinct_map inj_on_def)
    then show ?thesis by simp
  qed
  then have "map (\<lambda>e. (e_id e, e_state e)) (events (record_ok site source now d)) = map (\<lambda>e. (e_id e, e_state e)) (events d)"
    by (auto simp: record_ok_def Let_def note_recovery_def split: option.splits)
  with st show ?thesis by (simp add: alarmed_def)
qed

end
