(* ===== verification/Bytes.thy ===== *)
theory Bytes
  imports RuleConfig "HOL-Library.Word"
begin

text \<open>
  Byte strings and the two textual encodings the source uses of them: lower-case hexadecimal
  (\<^verbatim>\<open>bytes.hex\<close>, \<^verbatim>\<open>bytes.fromhex\<close>) and decimal integers (\<^verbatim>\<open>str\<close> and \<^verbatim>\<open>int\<close>, which the rule
  configuration reads too).
\<close>

type_synonym byte = "8 word"
type_synonym bytes = "byte list"

section \<open>Hexadecimal\<close>

definition hex_digit :: "nat \<Rightarrow> char" where
  "hex_digit n = char_of (if n < 10 then 48 + n else 87 + n)"

definition hex_byte :: "byte \<Rightarrow> string" where
  "hex_byte b = [hex_digit (unat b div 16), hex_digit (unat b mod 16)]"

definition to_hex :: "bytes \<Rightarrow> string" where
  "to_hex bs = concat (map hex_byte bs)"

definition hex_value :: "char \<Rightarrow> nat option" where
  "hex_value ch =
     (let c = (of_char ch :: nat)
      in if 48 \<le> c \<and> c \<le> 57 then Some (c - 48)
         else if 97 \<le> c \<and> c \<le> 102 then Some (c - 87)
         else if 65 \<le> c \<and> c \<le> 70 then Some (c - 55)
         else None)"

text \<open>\<^verbatim>\<open>bytes.fromhex\<close>: pairs of digits, with white space allowed between pairs.\<close>

fun from_hex :: "string \<Rightarrow> bytes option" where
  "from_hex [] = Some []"
| "from_hex (c # cs) =
     (if is_space c then from_hex cs
      else case cs of
             [] \<Rightarrow> None
           | d # ds \<Rightarrow>
               (case (hex_value c, hex_value d) of
                  (Some a, Some b) \<Rightarrow> map_option (\<lambda>bs. word_of_nat (16 * a + b) # bs) (from_hex ds)
                | _ \<Rightarrow> None))"

lemma hex_value_digit: "n < 16 \<Longrightarrow> hex_value (hex_digit n) = Some n"
  by (auto simp: hex_value_def hex_digit_def)

lemma hex_digit_range:
  "n < 16 \<Longrightarrow> (of_char (hex_digit n) :: nat) \<in> {48..57} \<union> {97..102}"
  by (auto simp: hex_digit_def)

lemma hex_digit_no_space:
  assumes "n < 16"
  shows "\<not> is_space (hex_digit n)"
proof
  assume "is_space (hex_digit n)"
  then have "(of_char (hex_digit n) :: nat) \<le> 32" by (auto simp: is_space_def)
  with hex_digit_range [OF assms] show False by auto
qed

lemma byte_div_16: "unat (b :: byte) div 16 < 16"
proof -
  have "unat b < 2 ^ 8" using unsigned_less [of b, where ?'a = nat] by simp
  then show ?thesis by simp
qed

lemma from_hex_append: "from_hex (hex_byte b @ s) = map_option (\<lambda>bs. b # bs) (from_hex s)"
  by (simp add: hex_byte_def hex_digit_no_space hex_value_digit byte_div_16)

lemma from_to_hex [simp]: "from_hex (to_hex bs) = Some bs"
  by (induction bs) (simp_all add: to_hex_def from_hex_append)

lemma hex_char: "ch \<in> set (to_hex bs) \<Longrightarrow> (of_char ch :: nat) \<in> {48..57} \<union> {97..102}"
proof -
  assume "ch \<in> set (to_hex bs)"
  then obtain b where "ch = hex_digit (unat b div 16) \<or> ch = hex_digit (unat (b :: byte) mod 16)"
    by (auto simp: to_hex_def hex_byte_def)
  moreover have "unat b mod 16 < 16" by simp
  ultimately show ?thesis using hex_digit_range byte_div_16 [of b] by blast
qed

section \<open>Decimal integers\<close>

lemma digit_not:
  assumes "is_digit c"
  shows "\<not> is_space c" "c \<noteq> CHR ''_''" "c \<noteq> CHR ''-''" "c \<noteq> CHR ''+''" "c \<noteq> CHR ''$''"
  using assms by (auto simp: is_digit_def is_space_def)

lemma strip_no_space:
  assumes "\<And>c. c \<in> set s \<Longrightarrow> \<not> is_space c"
  shows "strip s = s"
proof -
  have "dropWhile is_space t = t" if "set t \<subseteq> set s" for t
    using that assms by (cases t) auto
  then show ?thesis by (simp add: strip_def)
qed

lemma py_int_show_nat [simp]: "py_int_of_str (show_nat n) = Inr (int n)"
proof -
  have d: "is_digit c" if "c \<in> set (show_nat n)" for c using show_nat_digits that by blast
  have s: "strip (show_nat n) = show_nat n" using d digit_not(1) by (intro strip_no_space) blast
  have u: "CHR ''_'' \<notin> set (show_nat n)" using d digit_not(2) by blast
  obtain c cs where c: "show_nat n = c # cs" by (cases "show_nat n") auto
  then have "strip_sign (show_nat n) = (False, show_nat n)" using digit_not [OF d, of c] by (simp add: strip_sign_def)
  moreover have "digits_of (show_nat n) = Some (show_nat n)"
    using d by (simp add: digits_of_def split_on_no_sep [OF u] list_all_iff)
  ultimately show ?thesis by (simp add: py_int_of_str_def s digits_val_show_nat)
qed

end
