(* ===== verification/Auth.thy ===== *)
theory Auth
  imports Bytes
begin

text \<open>
  Authentication and authorisation: \<^verbatim>\<open>src/src/minemonitor/auth/\<close> (\<^verbatim>\<open>hashing.py\<close>, \<^verbatim>\<open>cache.py\<close>,
  \<^verbatim>\<open>lockout.py\<close>, \<^verbatim>\<open>service.py\<close>, \<^verbatim>\<open>deps.py\<close>) and the audit row of \<^verbatim>\<open>audit.py\<close>. The standard library's
  PBKDF2 and HMAC are parameters: \<open>kdf\<close> derives a key (\<open>None\<close> where it raises \<^verbatim>\<open>ValueError\<close>) and
  \<open>token\<close> is the keyed digest of a password under the salt of the process. Salts, like the
  clock readings, are arguments.
\<close>

type_synonym kdf = "string \<Rightarrow> bytes \<Rightarrow> int \<Rightarrow> bytes option"

section \<open>Password hashes\<close>

definition algo :: string where "algo = ''pbkdf2_sha256''"

definition iterations :: int where "iterations = 240000"

definition hash_password :: "kdf \<Rightarrow> bytes \<Rightarrow> string \<Rightarrow> int \<Rightarrow> py_error + string" where
  "hash_password kdf salt password iters =
     (case kdf password salt iters of
        None \<Rightarrow> Inl ValueError
      | Some dk \<Rightarrow> Inr (join_with (CHR ''$'') [algo, show_int iters, to_hex salt, to_hex dk]))"

definition verify_password :: "kdf \<Rightarrow> string \<Rightarrow> string \<Rightarrow> bool" where
  "verify_password kdf password stored =
     (case split_on (CHR ''$'') stored of
        [a, iters, salt_hex, hash_hex] \<Rightarrow>
          if a \<noteq> algo then False
          else (case (from_hex salt_hex, py_int_of_str iters) of
                  (Some salt, Inr n) \<Rightarrow>
                    (case kdf password salt n of None \<Rightarrow> False | Some dk \<Rightarrow> to_hex dk = hash_hex)
                | _ \<Rightarrow> False)
      | _ \<Rightarrow> False)"

section \<open>Rows\<close>

record user =
  u_name :: string
  u_hash :: string
  u_role :: string
  u_site :: "string option"
  u_created :: time

record lockout_row =
  failed_count :: int
  locked_until :: "time option"
  lk_updated :: time

record audit_row =
  au_ts :: time
  au_actor :: string
  au_action :: string
  au_entity_type :: string
  au_entity_id :: "string option"
  au_site :: "string option"

text \<open>
  The tables, and the verify cache of the process: an expiry on the monotonic clock, the token
  of the password and the stored hash it was verified against.
\<close>

record auth_state =
  users :: "(string \<times> user) list"
  lockouts :: "(string \<times> lockout_row) list"
  audit_log :: "audit_row list"
  vcache :: "(string \<times> (real \<times> string \<times> string)) list"

record auth_settings =
  login_max_failures :: int
  login_lockout_minutes :: int
  auth_verify_cache_ttl_s :: int

definition minutes :: "int \<Rightarrow> int" where "minutes m = seconds (60 * m)"

definition audit_record :: "time \<Rightarrow> string \<Rightarrow> string \<Rightarrow> string \<Rightarrow> string option \<Rightarrow> string option \<Rightarrow> auth_state \<Rightarrow> auth_state" where
  "audit_record now actor action entity_type entity_id site s =
     s\<lparr>audit_log := audit_log s @ [\<lparr>au_ts = now, au_actor = actor, au_action = action,
        au_entity_type = entity_type, au_entity_id = entity_id, au_site = site\<rparr>]\<rparr>"

section \<open>The verify cache\<close>

definition cache_check :: "(string \<Rightarrow> string) \<Rightarrow> auth_state \<Rightarrow> real \<Rightarrow> string \<Rightarrow> string \<Rightarrow> string \<Rightarrow> bool" where
  "cache_check token s clk username password password_hash =
     (case map_of (vcache s) username of
        None \<Rightarrow> False
      | Some (expiry, tok, fingerprint) \<Rightarrow>
          if expiry \<le> clk then False else fingerprint = password_hash \<and> tok = token password)"

definition cache_store ::
  "(string \<Rightarrow> string) \<Rightarrow> real \<Rightarrow> int \<Rightarrow> string \<Rightarrow> string \<Rightarrow> string \<Rightarrow> auth_state \<Rightarrow> auth_state" where
  "cache_store token clk ttl_s username password password_hash s =
     s\<lparr>vcache := dict_put username (clk + of_int ttl_s, token password, password_hash) (vcache s)\<rparr>"

definition cache_invalidate :: "string \<Rightarrow> auth_state \<Rightarrow> auth_state" where
  "cache_invalidate username s = s\<lparr>vcache := dict_pop username (vcache s)\<rparr>"

section \<open>Lockout\<close>

definition is_locked :: "auth_state \<Rightarrow> string \<Rightarrow> time \<Rightarrow> bool" where
  "is_locked s username now =
     (case map_of (lockouts s) username of
        None \<Rightarrow> False
      | Some row \<Rightarrow> (case locked_until row of None \<Rightarrow> False | Some t \<Rightarrow> t > now))"

definition fail_row :: "int \<Rightarrow> int \<Rightarrow> time \<Rightarrow> lockout_row option \<Rightarrow> bool \<times> lockout_row" where
  "fail_row max_failures lockout_minutes now row0 =
     (let row = (case row0 of None \<Rightarrow> \<lparr>failed_count = 0, locked_until = None, lk_updated = now\<rparr> | Some r \<Rightarrow> r);
          row = row\<lparr>failed_count := failed_count row + 1, lk_updated := now\<rparr>
      in if failed_count row \<ge> max_failures
         then (True, row\<lparr>locked_until := Some (now + minutes lockout_minutes)\<rparr>) else (False, row))"

definition record_failure :: "int \<Rightarrow> int \<Rightarrow> time \<Rightarrow> string \<Rightarrow> auth_state \<Rightarrow> bool \<times> auth_state" where
  "record_failure max_failures lockout_minutes now username s =
     (case fail_row max_failures lockout_minutes now (map_of (lockouts s) username) of
        (locked, row) \<Rightarrow> (locked, s\<lparr>lockouts := dict_put username row (lockouts s)\<rparr>))"

definition lockout_clear :: "time \<Rightarrow> string \<Rightarrow> auth_state \<Rightarrow> auth_state" where
  "lockout_clear now username s =
     (case map_of (lockouts s) username of
        None \<Rightarrow> s
      | Some row \<Rightarrow>
          if failed_count row \<noteq> 0 \<or> locked_until row \<noteq> None
          then s\<lparr>lockouts := dict_put username
                   \<lparr>failed_count = 0, locked_until = None, lk_updated = now\<rparr> (lockouts s)\<rparr>
          else s)"

section \<open>Users\<close>

definition roles :: "string list" where
  "roles = [''viewer'', ''supervisor'', ''admin'', ''device'']"

definition create_user ::
  "kdf \<Rightarrow> bytes \<Rightarrow> time \<Rightarrow> string \<Rightarrow> string \<Rightarrow> string \<Rightarrow> string option \<Rightarrow> auth_state \<Rightarrow> py_error + (user \<times> auth_state)" where
  "create_user kdf salt now username password role site s =
     (if role \<notin> set roles then Inl ValueError
      else
        and_then (hash_password kdf salt password iterations) (\<lambda>h.
        let created = (case map_of (users s) username of None \<Rightarrow> now | Some u \<Rightarrow> u_created u);
            u = \<lparr>u_name = username, u_hash = h, u_role = role, u_site = site, u_created = created\<rparr>
        in Inr (u, lockout_clear now username (cache_invalidate username
                 (s\<lparr>users := dict_put username u (users s)\<rparr>)))))"

definition authenticate ::
  "kdf \<Rightarrow> (string \<Rightarrow> string) \<Rightarrow> auth_settings \<Rightarrow> time \<Rightarrow> real \<Rightarrow> string \<Rightarrow> string \<Rightarrow> auth_state
    \<Rightarrow> user option \<times> auth_state" where
  "authenticate kdf token cfg now clk username password s =
     (case map_of (users s) username of
        None \<Rightarrow> (None, s)
      | Some u \<Rightarrow>
          if is_locked s username now then (None, s)
          else if cache_check token s clk username password (u_hash u) then (Some u, s)
          else if verify_password kdf password (u_hash u)
          then (Some u, lockout_clear now username
                  (cache_store token clk (auth_verify_cache_ttl_s cfg) username password (u_hash u) s))
          else
            case record_failure (login_max_failures cfg) (login_lockout_minutes cfg) now username s of
              (locked, s') \<Rightarrow>
                (None, audit_record now username (if locked then ''auth.locked'' else ''auth.login_failed'')
                   ''user'' (Some username) (u_site u) s'))"

definition user_count :: "auth_state \<Rightarrow> nat" where
  "user_count s = length (users s)"

section \<open>Route guards\<close>

datatype http_error = Unauthorized401 | Forbidden403 | Unprocessable422 | NotFound404 | Conflict409

definition rank :: "string \<Rightarrow> int" where
  "rank role = (if role = ''viewer'' then 1 else if role = ''supervisor'' then 2 else if role = ''admin'' then 3 else 0)"

definition get_current_user ::
  "kdf \<Rightarrow> (string \<Rightarrow> string) \<Rightarrow> auth_settings \<Rightarrow> time \<Rightarrow> real \<Rightarrow> (string \<times> string) option \<Rightarrow> auth_state
    \<Rightarrow> (http_error + user) \<times> auth_state" where
  "get_current_user kdf token cfg now clk credentials s =
     (case credentials of
        None \<Rightarrow> (Inl Unauthorized401, s)
      | Some (username, password) \<Rightarrow>
          (case authenticate kdf token cfg now clk username password s of
             (None, s') \<Rightarrow> (Inl Unauthorized401, s')
           | (Some u, s') \<Rightarrow> (Inr u, s')))"

text \<open>\<open>path_site\<close> is the \<^verbatim>\<open>site_id\<close> parameter of the route, if it has one.\<close>

definition check_site :: "user \<Rightarrow> string option \<Rightarrow> http_error option" where
  "check_site u path_site =
     (case u_site u of
        None \<Rightarrow> None
      | Some own \<Rightarrow> (case path_site of None \<Rightarrow> None | Some p \<Rightarrow> if p \<noteq> own then Some Forbidden403 else None))"

definition require_role :: "string \<Rightarrow> user \<Rightarrow> string option \<Rightarrow> http_error + user" where
  "require_role min_role u path_site =
     (if rank (u_role u) < rank min_role then Inl Forbidden403
      else case check_site u path_site of Some e \<Rightarrow> Inl e | None \<Rightarrow> Inr u)"

definition require_device :: "user \<Rightarrow> string option \<Rightarrow> http_error + user" where
  "require_device u path_site =
     (if u_role u \<notin> {''device'', ''admin''} then Inl Forbidden403
      else case check_site u path_site of Some e \<Rightarrow> Inl e | None \<Rightarrow> Inr u)"

section \<open>A stored hash is verified by its password\<close>

lemma hash_fields:
  assumes "hash_password kdf salt password iters = Inr h" and "0 \<le> iters"
  shows "\<exists>dk. kdf password salt iters = Some dk \<and>
    split_on (CHR ''$'') h = [algo, show_nat (nat iters), to_hex salt, to_hex dk]"
proof -
  from assms(1) obtain dk where dk: "kdf password salt iters = Some dk"
    and h: "h = join_with (CHR ''$'') [algo, show_int iters, to_hex salt, to_hex dk]"
    by (auto simp: hash_password_def split: option.splits)
  have hex: "CHR ''$'' \<notin> set (to_hex bs)" for bs
    using hex_char [of "CHR ''$''" bs] by auto
  have num: "CHR ''$'' \<notin> set (show_nat (nat iters))"
    using show_nat_digits digit_not(5) by blast
  have "CHR ''$'' \<notin> set algo" by (simp add: algo_def)
  with hex num have "split_on (CHR ''$'') (join_with (CHR ''$'') [algo, show_nat (nat iters), to_hex salt, to_hex dk]) =
      [algo, show_nat (nat iters), to_hex salt, to_hex dk]"
    by (intro split_on_join) auto
  with dk h assms(2) show ?thesis by (simp add: show_int_def)
qed

lemma to_hex_inject: "to_hex a = to_hex b \<longleftrightarrow> a = b"
  by (metis from_to_hex option.inject)

lemma verify_hash_iff:
  assumes "hash_password kdf salt password iters = Inr h" and "0 \<le> iters"
  shows "verify_password kdf q h \<longleftrightarrow> kdf q salt iters = kdf password salt iters"
proof -
  from hash_fields [OF assms] obtain dk where dk: "kdf password salt iters = Some dk"
    and f: "split_on (CHR ''$'') h = [algo, show_nat (nat iters), to_hex salt, to_hex dk]" by blast
  with assms(2) show ?thesis by (simp add: verify_password_def f to_hex_inject split: option.split)
qed

text \<open>A hash written by \<^verbatim>\<open>hash_password\<close> verifies exactly the passwords that derive the same
  key from its salt and iteration count, and so the password it was made from.\<close>

theorem hashed_password_verifies:
  assumes "hash_password kdf salt password iters = Inr h" and "0 \<le> iters"
  shows "verify_password kdf password h \<and>
    (\<forall>q. verify_password kdf q h \<longleftrightarrow> kdf q salt iters = kdf password salt iters)"
  using verify_hash_iff [OF assms] by simp

definition demo_kdf :: kdf where
  "demo_kdf password salt n = (if n < 1 then None else Some (map (\<lambda>c. word_of_nat (of_char c)) password @ salt))"

theorem hashed_password_verifies_witness:
  "\<exists>h. hash_password demo_kdf [1, 171] ''pw'' iterations = Inr h \<and> verify_password demo_kdf ''pw'' h \<and>
     \<not> verify_password demo_kdf ''pv'' h"
proof -
  obtain h where h: "hash_password demo_kdf [1, 171] ''pw'' iterations = Inr h"
    by (simp add: hash_password_def demo_kdf_def iterations_def)
  from hashed_password_verifies [OF h] show ?thesis
    by (intro exI [of _ h]) (simp add: h [unfolded iterations_def] iterations_def demo_kdf_def)
qed

section \<open>Only the password opens an account\<close>

text \<open>What the cache holds was verified: each token is that of a password its hash accepts.\<close>

definition cache_ok :: "kdf \<Rightarrow> (string \<Rightarrow> string) \<Rightarrow> auth_state \<Rightarrow> bool" where
  "cache_ok kdf token s \<longleftrightarrow>
     (\<forall>name expiry tok h. map_of (vcache s) name = Some (expiry, tok, h) \<longrightarrow>
        (\<exists>pw. tok = token pw \<and> verify_password kdf pw h))"

datatype auth_act =
    Login time real string string
  | Create bytes time string string string "string option"
  | Restart

fun auth_do :: "kdf \<Rightarrow> (string \<Rightarrow> string) \<Rightarrow> auth_settings \<Rightarrow> auth_state \<Rightarrow> auth_act \<Rightarrow> auth_state" where
  "auth_do kdf token cfg s (Login now clk name pw) = snd (authenticate kdf token cfg now clk name pw s)"
| "auth_do kdf token cfg s (Create salt now name pw role site) =
     (case create_user kdf salt now name pw role site s of Inl _ \<Rightarrow> s | Inr (_, s') \<Rightarrow> s')"
| "auth_do kdf token cfg s Restart = s\<lparr>vcache := []\<rparr>"

lemma lockout_clear_keeps [simp]:
  "vcache (lockout_clear now name s) = vcache s" "users (lockout_clear now name s) = users s"
  by (simp_all add: lockout_clear_def split: option.split)

lemma record_failure_keeps [simp]:
  "vcache (snd (record_failure m l now name s)) = vcache s" "users (snd (record_failure m l now name s)) = users s"
  by (simp_all add: record_failure_def split: prod.split)

lemma audit_keeps [simp]:
  "vcache (audit_record now a b c d e s) = vcache s" "users (audit_record now a b c d e s) = users s"
  "lockouts (audit_record now a b c d e s) = lockouts s"
  by (simp_all add: audit_record_def)

lemma authenticate_cache_ok:
  assumes "cache_ok kdf token s"
  shows "cache_ok kdf token (snd (authenticate kdf token cfg now clk name pw s))"
proof (cases "map_of (users s) name")
  case (Some u)
  have "cache_ok kdf token (audit_record now a b c d e s')"
    if "record_failure (login_max_failures cfg) (login_lockout_minutes cfg) now name s = (locked, s')" for a b c d e locked s'
    using record_failure_keeps [of "login_max_failures cfg" "login_lockout_minutes cfg" now name s] that assms
    by (simp add: cache_ok_def)
  moreover have "cache_ok kdf token (lockout_clear now name (cache_store token clk ttl name pw (u_hash u) s))"
    if "verify_password kdf pw (u_hash u)" for ttl
    using assms that by (auto simp: cache_ok_def cache_store_def)
  ultimately show ?thesis
    using assms Some by (auto simp: authenticate_def split: prod.split)
qed (use assms in \<open>simp add: authenticate_def\<close>)

interpretation login: machine "auth_do kdf token cfg" "cache_ok kdf token"
proof
  fix s a assume ok: "cache_ok kdf token s"
  show "cache_ok kdf token (auth_do kdf token cfg s a)"
  proof (cases a)
    case (Create salt now name pw role site)
    then show ?thesis
      using ok by (auto simp: create_user_def Let_def cache_invalidate_def cache_ok_def and_then_Inr_iff
          split: sum.split if_splits)
  qed (use ok in \<open>simp_all add: authenticate_cache_ok, simp add: cache_ok_def\<close>)
qed

lemma authenticate_Some:
  assumes "authenticate kdf token cfg now clk name pw s = (Some u, s')" and "cache_ok kdf token s" and "inj token"
  shows "map_of (users s) name = Some u \<and> \<not> is_locked s name now \<and> verify_password kdf pw (u_hash u)"
proof -
  have u: "map_of (users s) name = Some u" and l: "\<not> is_locked s name now"
    and c: "cache_check token s clk name pw (u_hash u) \<or> verify_password kdf pw (u_hash u)"
    using assms(1) by (auto simp: authenticate_def split: option.splits if_splits prod.splits)
  have "verify_password kdf pw (u_hash u)" if "cache_check token s clk name pw (u_hash u)"
  proof -
    from that obtain e where "map_of (vcache s) name = Some (e, token pw, u_hash u)"
      by (auto simp: cache_check_def split: option.splits if_splits)
    with assms(2) obtain pw' where "token pw = token pw'" "verify_password kdf pw' (u_hash u)"
      unfolding cache_ok_def by blast
    with injD [OF assms(3)] show ?thesis by blast
  qed
  with u l c show ?thesis by blast
qed

text \<open>C12: an account opens only to its current password while it is not locked. However logins,
  password changes and restarts of the process follow one another, a login that succeeds,
  through the cache or not, gave a password that the hash now stored for the user verifies. The
  token of the cache is taken to be free of collisions.\<close>

theorem login_needs_the_current_password:
  assumes "inj token" and "vcache s0 = []"
    and "s = run_machine (auth_do kdf token cfg) s0 acts"
    and "authenticate kdf token cfg now clk name pw s = (Some u, s')"
  shows "map_of (users s) name = Some u \<and> \<not> is_locked s name now \<and> verify_password kdf pw (u_hash u)"
proof -
  have "cache_ok kdf token s0" using assms(2) by (simp add: cache_ok_def)
  then have "cache_ok kdf token s" unfolding assms(3) by (rule login.run_inv)
  from authenticate_Some [OF assms(4) this assms(1)] show ?thesis .
qed

definition demo_auth :: auth_state where
  "demo_auth = \<lparr>users = [], lockouts = [], audit_log = [], vcache = []\<rparr>"

definition demo_auth_settings :: auth_settings where
  "demo_auth_settings = \<lparr>login_max_failures = 2, login_lockout_minutes = 15, auth_verify_cache_ttl_s = 30\<rparr>"

lemma lockout_clear_unlocks [simp]: "\<not> is_locked (lockout_clear now name s) name t"
  by (auto simp: is_locked_def lockout_clear_def split: option.split)

lemma create_then_hash:
  assumes "create_user kdf salt now name pw role site s = Inr (u, s')"
  shows "map_of (users s') name = Some u \<and> hash_password kdf salt pw iterations = Inr (u_hash u) \<and>
    u_role u \<in> set roles \<and> \<not> is_locked s' name t \<and> map_of (vcache s') name = None"
  using assms
  by (auto simp: create_user_def Let_def and_then_Inr_iff cache_invalidate_def split: if_splits)

theorem login_needs_the_current_password_witness:
  "\<exists>s u s'. s = run_machine (auth_do demo_kdf id demo_auth_settings) demo_auth
       [Create [1] 0 ''ana'' ''pw'' ''admin'' None, Restart] \<and>
     authenticate demo_kdf id demo_auth_settings 5 0 ''ana'' ''pw'' s = (Some u, s') \<and>
     verify_password demo_kdf ''pw'' (u_hash u)"
proof -
  let ?acts = "[Create [1] 0 ''ana'' ''pw'' ''admin'' None, Restart]"
  obtain u s1 where c: "create_user demo_kdf [1] 0 ''ana'' ''pw'' ''admin'' None demo_auth = Inr (u, s1)"
    by (simp add: create_user_def roles_def hash_password_def demo_kdf_def iterations_def Let_def)
  from create_then_hash [OF c, of 5] have s1: "map_of (users s1) ''ana'' = Some u" "\<not> is_locked s1 ''ana'' 5"
    "hash_password demo_kdf [1] ''pw'' iterations = Inr (u_hash u)" by auto
  have s: "run_machine (auth_do demo_kdf id demo_auth_settings) demo_auth ?acts = s1\<lparr>vcache := []\<rparr>"
    by (simp add: c)
  have "verify_password demo_kdf ''pw'' (u_hash u)"
    using verify_hash_iff [OF s1(3)] by (simp add: iterations_def)
  then have "\<exists>s'. authenticate demo_kdf id demo_auth_settings 5 0 ''ana'' ''pw'' (s1\<lparr>vcache := []\<rparr>) = (Some u, s')"
    using s1 by (simp add: authenticate_def cache_check_def is_locked_def)
  then obtain s' where a: "authenticate demo_kdf id demo_auth_settings 5 0 ''ana'' ''pw'' (s1\<lparr>vcache := []\<rparr>) = (Some u, s')" ..
  have "vcache demo_auth = []" by (simp add: demo_auth_def)
  from login_needs_the_current_password [OF inj_on_id this s [symmetric] a] a s show ?thesis by auto
qed

section \<open>Guessing is bounded\<close>

definition fails_of :: "auth_state \<Rightarrow> string \<Rightarrow> int" where
  "fails_of s name = (case map_of (lockouts s) name of None \<Rightarrow> 0 | Some r \<Rightarrow> failed_count r)"

text \<open>Attempts on one account: the two clocks and the password tried.\<close>

type_synonym attempt = "time \<times> real \<times> string"

definition try_login :: "kdf \<Rightarrow> (string \<Rightarrow> string) \<Rightarrow> auth_settings \<Rightarrow> string \<Rightarrow> auth_state \<Rightarrow> attempt \<Rightarrow> auth_state" where
  "try_login kdf token cfg name s a = (case a of (now, clk, pw) \<Rightarrow> snd (authenticate kdf token cfg now clk name pw s))"

definition password_tested :: "string \<Rightarrow> auth_state \<Rightarrow> attempt \<Rightarrow> bool" where
  "password_tested name s a = (case a of (now, _, _) \<Rightarrow> \<not> is_locked s name now)"

text \<open>A wrong password: neither verified nor, with a sound cache, found there.\<close>

lemma wrong_password_step:
  assumes u: "map_of (users s) name = Some u" and ok: "cache_ok kdf token s" and inj: "inj token"
    and wrong: "\<not> verify_password kdf pw (u_hash u)" and unlocked: "\<not> is_locked s name now"
  shows "fails_of (try_login kdf token cfg name s (now, clk, pw)) name = fails_of s name + 1 \<and>
    (fails_of s name + 1 \<ge> login_max_failures cfg \<longrightarrow>
       (\<exists>r. map_of (lockouts (try_login kdf token cfg name s (now, clk, pw))) name = Some r \<and>
          locked_until r = Some (now + minutes (login_lockout_minutes cfg))))"
proof -
  have "\<not> cache_check token s clk name pw (u_hash u)"
  proof
    assume "cache_check token s clk name pw (u_hash u)"
    with u unlocked have "authenticate kdf token cfg now clk name pw s = (Some u, s)" by (simp add: authenticate_def)
    from authenticate_Some [OF this ok inj] wrong show False by blast
  qed
  with assms show ?thesis
    by (auto simp: try_login_def authenticate_def record_failure_def fail_row_def fails_of_def Let_def
        split: option.splits)
qed

lemma try_login_keeps: "users (try_login kdf token cfg name s a) = users s"
  by (auto simp: try_login_def authenticate_def cache_store_def split: prod.split option.split)
    (use record_failure_keeps in \<open>metis snd_conv\<close>)

lemma try_login_locked: "is_locked s name now \<Longrightarrow> try_login kdf token cfg name s (now, clk, pw) = s"
  by (simp add: try_login_def authenticate_def split: option.split)

lemma locked_tests_none:
  assumes "map_of (lockouts s) name = Some r" "locked_until r = Some t" and "\<forall>a \<in> set as. fst a < t"
  shows "fires (password_tested name) (try_login kdf token cfg name) s as = 0"
  using assms(3)
proof (induction as)
  case (Cons a as)
  obtain now clk pw where a: "a = (now, clk, pw)" by (cases a)
  have "is_locked s name now" using assms Cons.prems a by (simp add: is_locked_def)
  then show ?case using Cons a by (simp add: password_tested_def try_login_locked)
qed simp

text \<open>Guessing is bounded. Of any number of wrong passwords tried on an account within one
  lockout period, at most as many are tested as failures remain before the lock, and never
  more than one once the limit has been reached before; the rest are turned away untested.\<close>

theorem guesses_bounded:
  assumes "map_of (users s) name = Some u" and "cache_ok kdf token s" and "inj token"
    and "\<forall>(now, clk, pw) \<in> set as. t0 \<le> now \<and> now < t0 + minutes (login_lockout_minutes cfg) \<and>
       \<not> verify_password kdf pw (u_hash u)"
  shows "int (fires (password_tested name) (try_login kdf token cfg name) s as) \<le>
    max 1 (login_max_failures cfg - fails_of s name)"
  using assms
proof (induction as arbitrary: s)
  case (Cons a as)
  obtain now clk pw where a: "a = (now, clk, pw)" by (cases a)
  let ?s = "try_login kdf token cfg name s a"
  show ?case
  proof (cases "is_locked s name now")
    case True
    then show ?thesis using Cons a by (simp add: password_tested_def try_login_locked)
  next
    case False
    have wrong: "\<not> verify_password kdf pw (u_hash u)" and t: "t0 \<le> now" using Cons.prems(4) a by auto
    note st = wrong_password_step [OF Cons.prems(1,2,3) wrong False, of cfg clk, folded a]
    have "cache_ok kdf token ?s" using authenticate_cache_ok [OF Cons.prems(2)] by (simp add: a try_login_def)
    moreover have "map_of (users ?s) name = Some u" using Cons.prems(1) by (simp add: try_login_keeps)
    ultimately have ih: "int (fires (password_tested name) (try_login kdf token cfg name) ?s as) \<le>
        max 1 (login_max_failures cfg - fails_of ?s name)"
      using Cons.IH Cons.prems(3,4) by simp
    have tested: "int (fires (password_tested name) (try_login kdf token cfg name) s (a # as)) =
        1 + int (fires (password_tested name) (try_login kdf token cfg name) ?s as)"
      using False a by (simp add: password_tested_def)
    show ?thesis
    proof (cases "fails_of s name + 1 \<ge> login_max_failures cfg")
      case True
      with st obtain r where r: "map_of (lockouts ?s) name = Some r"
        "locked_until r = Some (now + minutes (login_lockout_minutes cfg))" by blast
      have "fires (password_tested name) (try_login kdf token cfg name) ?s as = 0"
        by (rule locked_tests_none [OF r]) (use Cons.prems(4) t in auto)
      then show ?thesis unfolding tested by simp
    next
      case False
      then show ?thesis using ih st unfolding tested by simp
    qed
  qed
qed simp

theorem guesses_bounded_witness:
  "\<exists>s u. map_of (users s) ''ana'' = Some u \<and> verify_password demo_kdf ''pw'' (u_hash u) \<and>
     int (fires (password_tested ''ana'') (try_login demo_kdf id demo_auth_settings ''ana'') s
       [(1, 0, ''a''), (2, 0, ''b''), (3, 0, ''c'')]) \<le> 2"
proof -
  obtain u s where c: "create_user demo_kdf [1] 0 ''ana'' ''pw'' ''admin'' None demo_auth = Inr (u, s)"
    by (simp add: create_user_def roles_def hash_password_def demo_kdf_def iterations_def Let_def)
  from create_then_hash [OF c, of 5] have u: "map_of (users s) ''ana'' = Some u"
    and h: "hash_password demo_kdf [1] ''pw'' iterations = Inr (u_hash u)" by auto
  note v = verify_hash_iff [OF h]
  have s: "lockouts s = []" "vcache s = []"
    using c by (auto simp: create_user_def Let_def and_then_Inr_iff cache_invalidate_def lockout_clear_def demo_auth_def
        dict_pop_def split: if_splits)
  have "int (fires (password_tested ''ana'') (try_login demo_kdf id demo_auth_settings ''ana'') s
       [(1, 0, ''a''), (2, 0, ''b''), (3, 0, ''c'')]) \<le> max 1 (login_max_failures demo_auth_settings - fails_of s ''ana'')"
    by (rule guesses_bounded [OF u _ inj_on_id, of _ _ 1])
      (use s v in \<open>simp_all add: cache_ok_def iterations_def demo_kdf_def demo_auth_settings_def minutes_def seconds_def\<close>)
  moreover have "max 1 (login_max_failures demo_auth_settings - fails_of s ''ana'') = 2"
    using s by (simp add: fails_of_def demo_auth_settings_def)
  moreover have "verify_password demo_kdf ''pw'' (u_hash u)" using v by (simp add: iterations_def)
  ultimately show ?thesis using u by (intro exI conjI) simp_all
qed

end
