(* ===== verification/Shifts.thy ===== *)
theory Shifts
  imports SourceHealth Auth "HOL-Library.Product_Lexorder"
begin

text \<open>
  Shifts, \<^verbatim>\<open>src/src/minemonitor/operations/shifts.py\<close>: the definitions of a site, the window of a
  definition on a day, the shift a moment falls in, the windows that end in an interval, and the
  window of a shift id; and the routes of \<^verbatim>\<open>api/routers/operations.py\<close> that write definitions. The
  time-zone database is a parameter: a zone gives the local reading of an instant and the instant
  of a local reading. A calendar day is its number since 1970-01-01.
\<close>

section \<open>Dates and zones\<close>

record zone_info =
  to_local :: "time \<Rightarrow> time"
  to_utc :: "time \<Rightarrow> time"

definition hour_us :: int where "hour_us = 3600000000"
definition day_us :: int where "day_us = 24 * hour_us"

definition local_day :: "zone_info \<Rightarrow> time \<Rightarrow> int" where
  "local_day tz t = to_local tz t div day_us"

text \<open>The proleptic Gregorian date of a day, and \<^verbatim>\<open>date.isoformat\<close>.\<close>

definition civil :: "int \<Rightarrow> int \<times> int \<times> int" where
  "civil day =
     (let z = day + 719468; era = z div 146097; doe = z mod 146097;
          yoe = (doe - doe div 1460 + doe div 36524 - doe div 146096) div 365;
          doy = doe - (365 * yoe + yoe div 4 - yoe div 100);
          mp = (5 * doy + 2) div 153; d = doy - (153 * mp + 2) div 5 + 1;
          m = (if mp < 10 then mp + 3 else mp - 9); y = yoe + era * 400
      in (if m \<le> 2 then y + 1 else y, m, d))"

definition padded :: "nat \<Rightarrow> int \<Rightarrow> string" where
  "padded width n = (let s = show_nat (nat n) in replicate (width - length s) (CHR ''0'') @ s)"

definition iso_date :: "int \<Rightarrow> string" where
  "iso_date day = (let (y, m, d) = civil day in padded 4 y @ ''-'' @ padded 2 m @ ''-'' @ padded 2 d)"

section \<open>Definitions\<close>

record shift_definition =
  sd_site :: string
  sd_name :: string
  sd_start_hour :: int
  sd_duration :: int
  sd_enabled :: bool

record shift_db = feed_db +
  site_timezones :: "(string \<times> string) list"
  shift_definitions :: "shift_definition list"

definition default_definitions :: "(string \<times> int \<times> int) list" where
  "default_definitions = [(''day'', 6, 12), (''night'', 18, 12)]"

definition site_timezone :: "(string \<Rightarrow> zone_info) \<Rightarrow> 'a shift_db_scheme \<Rightarrow> string \<Rightarrow> zone_info" where
  "site_timezone zones d site =
     (case map_of (site_timezones d) site of
        None \<Rightarrow> zones ''Africa/Harare''
      | Some name \<Rightarrow> if name = [] then zones ''Africa/Harare'' else zones name)"

definition definitions :: "'a shift_db_scheme \<Rightarrow> string \<Rightarrow> (string \<times> int \<times> int) list" where
  "definitions d site =
     (let rows = filter (\<lambda>r. sd_site r = site \<and> sd_enabled r) (shift_definitions d)
      in if rows \<noteq> [] then map (\<lambda>r. (sd_name r, sd_start_hour r, sd_duration r)) rows else default_definitions)"

record shift_window =
  w_site :: string
  w_name :: string
  w_shift_id :: string
  w_start :: time
  w_end :: time
  w_date :: int

definition window :: "string \<Rightarrow> string \<Rightarrow> int \<Rightarrow> int \<Rightarrow> int \<Rightarrow> zone_info \<Rightarrow> shift_window" where
  "window site name start_hour duration_h base_day tz =
     (let start_local = base_day * day_us + start_hour * hour_us; end_local = start_local + duration_h * hour_us
      in \<lparr>w_site = site, w_name = name, w_shift_id = site @ '':'' @ iso_date base_day @ '':'' @ name,
          w_start = to_utc tz start_local, w_end = to_utc tz end_local, w_date = base_day\<rparr>)"

text \<open>\<^verbatim>\<open>shift_id.rsplit(":", 2)\<close>; \<open>parse_date\<close> is \<^verbatim>\<open>date.fromisoformat\<close>, None where it raises.\<close>

fun take_until :: "char \<Rightarrow> string \<Rightarrow> (string \<times> string) option" where
  "take_until c [] = None"
| "take_until c (x # xs) = (if x = c then Some ([], xs) else map_option (\<lambda>(a, b). (x # a, b)) (take_until c xs))"

definition rsplit2 :: "string \<Rightarrow> (string \<times> string \<times> string) option" where
  "rsplit2 s =
     (case take_until (CHR '':'') (rev s) of
        None \<Rightarrow> None
      | Some (name, rest) \<Rightarrow>
          (case take_until (CHR '':'') rest of
             None \<Rightarrow> None
           | Some (day, site) \<Rightarrow> Some (rev site, rev day, rev name)))"

definition resolve_shift_by_id ::
  "(string \<Rightarrow> zone_info) \<Rightarrow> (string \<Rightarrow> int option) \<Rightarrow> 'a shift_db_scheme \<Rightarrow> string \<Rightarrow> string \<Rightarrow> shift_window option" where
  "resolve_shift_by_id zones parse_date d site shift_id =
     (case rsplit2 shift_id of
        None \<Rightarrow> None
      | Some (sid, date_str, name) \<Rightarrow>
          (case parse_date date_str of
             None \<Rightarrow> None
           | Some base_day \<Rightarrow>
               if sid \<noteq> site then None
               else map_option (\<lambda>(n, h, len). window site name h len base_day (site_timezone zones d site))
                      (List.find (\<lambda>(n, _, _). n = name) (definitions d site))))"

definition day_windows :: "string \<Rightarrow> zone_info \<Rightarrow> (string \<times> int \<times> int) list \<Rightarrow> int \<Rightarrow> shift_window list" where
  "day_windows site tz defs day = map (\<lambda>(name, h, len). window site name h len day tz) defs"

definition resolve_shift :: "(string \<Rightarrow> zone_info) \<Rightarrow> 'a shift_db_scheme \<Rightarrow> string \<Rightarrow> time \<Rightarrow> shift_window option" where
  "resolve_shift zones d site moment =
     (let tz = site_timezone zones d site; defs = definitions d site; today = local_day tz moment
      in List.find (\<lambda>w. w_start w \<le> moment \<and> moment < w_end w)
           (concat (map (day_windows site tz defs) [today, today - 1])))"

definition windows_ending_between ::
  "(string \<Rightarrow> zone_info) \<Rightarrow> 'a shift_db_scheme \<Rightarrow> string \<Rightarrow> time \<Rightarrow> time \<Rightarrow> shift_window list" where
  "windows_ending_between zones d site after until =
     (let tz = site_timezone zones d site; defs = definitions d site;
          longest_days = foldl max 0 (map (\<lambda>(_, _, len). len) defs) div 24 + 1;
          days = [local_day tz after - longest_days .. local_day tz until]
      in sort_key (\<lambda>w. (w_end w, w_name w))
           (filter (\<lambda>w. after < w_end w \<and> w_end w \<le> until) (concat (map (day_windows site tz defs) days))))"

section \<open>The routes that write definitions\<close>

definition sd_key :: "shift_definition \<Rightarrow> string \<times> string" where
  "sd_key r = (sd_site r, sd_name r)"

definition put_definition :: "shift_definition \<Rightarrow> shift_db \<Rightarrow> shift_db" where
  "put_definition r d =
     d\<lparr>shift_definitions :=
         (if sd_key r \<in> sd_key ` set (shift_definitions d)
          then map (\<lambda>q. if sd_key q = sd_key r then r else q) (shift_definitions d)
          else shift_definitions d @ [r])\<rparr>"

text \<open>The body's constraints are checked before the handler runs (422).\<close>

definition upsert_shift_definition ::
  "string \<Rightarrow> string \<Rightarrow> int \<Rightarrow> int \<Rightarrow> bool \<Rightarrow> shift_db \<Rightarrow> (http_error + shift_definition) \<times> shift_db" where
  "upsert_shift_definition site name start_hour duration enabled d =
     (if \<not> (0 \<le> start_hour \<and> start_hour \<le> 23 \<and> 1 \<le> duration \<and> duration \<le> 24) then (Inl Unprocessable422, d)
      else let r = \<lparr>sd_site = site, sd_name = name, sd_start_hour = start_hour, sd_duration = duration, sd_enabled = enabled\<rparr>
           in (Inr r, put_definition r d))"

definition delete_shift_definition :: "string \<Rightarrow> string \<Rightarrow> shift_db \<Rightarrow> http_error option \<times> shift_db" where
  "delete_shift_definition site name d =
     (let same = (\<lambda>q. sd_site q = site \<and> sd_name q = name)
      in if \<not> list_ex same (shift_definitions d) then (Some NotFound404, d)
         else (None, d\<lparr>shift_definitions := filter (\<lambda>q. \<not> same q) (shift_definitions d)\<rparr>))"

datatype definition_act =
    Upsert string string int int bool
  | Delete string string

fun definition_do :: "shift_db \<Rightarrow> definition_act \<Rightarrow> shift_db" where
  "definition_do d (Upsert site name h len enabled) = snd (upsert_shift_definition site name h len enabled d)"
| "definition_do d (Delete site name) = snd (delete_shift_definition site name d)"

definition definition_ok :: "string \<times> int \<times> int \<Rightarrow> bool" where
  "definition_ok e = (case e of (_, h, len) \<Rightarrow> 0 \<le> h \<and> h \<le> 23 \<and> 1 \<le> len \<and> len \<le> 24)"

definition row_ok :: "shift_definition \<Rightarrow> bool" where
  "row_ok r \<longleftrightarrow> definition_ok (sd_name r, sd_start_hour r, sd_duration r)"

definition definitions_ok :: "'a shift_db_scheme \<Rightarrow> bool" where
  "definitions_ok d \<longleftrightarrow> (\<forall>r \<in> set (shift_definitions d). row_ok r) \<and>
     distinct (map sd_key (shift_definitions d))"

lemma replace_keys: "map sd_key (map (\<lambda>q. if sd_key q = sd_key r then r else q) l) = map sd_key l"
  by (induction l) auto

lemma put_definition_keys:
  "distinct (map sd_key (shift_definitions d)) \<Longrightarrow> distinct (map sd_key (shift_definitions (put_definition r d)))"
  using replace_keys [of r "shift_definitions d"] by (simp add: put_definition_def del: map_map)

interpretation shift_config: machine definition_do definitions_ok
proof
  fix d :: shift_db and a
  assume ok: "definitions_ok d"
  show "definitions_ok (definition_do d a)"
  proof (cases a)
    case (Upsert site name h len enabled)
    let ?r = "\<lparr>sd_site = site, sd_name = name, sd_start_hour = h, sd_duration = len, sd_enabled = enabled\<rparr>"
    have "set (shift_definitions (put_definition ?r d)) \<subseteq> insert ?r (set (shift_definitions d))"
      by (auto simp: put_definition_def)
    then show ?thesis using ok put_definition_keys [of d ?r] Upsert
      by (auto simp: definitions_ok_def upsert_shift_definition_def row_ok_def definition_ok_def Let_def)
  next
    case (Delete site name)
    then show ?thesis using ok
      by (auto simp: definitions_ok_def delete_shift_definition_def Let_def distinct_map inj_on_def)
  qed
qed

section \<open>Which windows are found\<close>

text \<open>A zone with a fixed offset from UTC, as every zone of the region is (Harare: two hours).\<close>

definition fixed_offset :: "zone_info \<Rightarrow> int \<Rightarrow> bool" where
  "fixed_offset tz off \<longleftrightarrow> (\<forall>t. to_local tz t = t + off \<and> to_utc tz t = t - off)"

lemma window_bounds:
  assumes "fixed_offset tz off"
  shows "w_start (window site n h len day tz) = day * day_us + h * hour_us - off"
    "w_end (window site n h len day tz) = day * day_us + h * hour_us + len * hour_us - off"
  using assms by (simp_all add: window_def fixed_offset_def Let_def)

lemma local_day_bounds:
  assumes "fixed_offset tz off"
  shows "local_day tz t * day_us \<le> t + off" "t + off < local_day tz t * day_us + day_us"
proof -
  have l: "local_day tz t = (t + off) div day_us" using assms by (simp add: local_day_def fixed_offset_def)
  have pos: "0 < day_us" by (simp add: day_us_def hour_us_def)
  have "(t + off) div day_us * day_us + (t + off) mod day_us = t + off" by simp
  moreover have "0 \<le> (t + off) mod day_us" "(t + off) mod day_us < day_us" using pos by simp_all
  ultimately show "local_day tz t * day_us \<le> t + off" "t + off < local_day tz t * day_us + day_us"
    unfolding l by linarith+
qed

lemma days_less: "a * day_us < b * day_us + k * day_us \<Longrightarrow> a < b + k"
proof -
  assume "a * day_us < b * day_us + k * day_us"
  then have "a * day_us < (b + k) * day_us" by (simp add: distrib_right)
  moreover have "0 < day_us" by (simp add: day_us_def hour_us_def)
  ultimately show ?thesis by (simp add: mult_less_cancel_right)
qed

lemma day_windows_fields: "w \<in> set (day_windows site tz defs day) \<Longrightarrow> w_date w = day \<and> w_site w = site"
  by (auto simp: day_windows_def window_def Let_def)

lemma definitions_valid:
  assumes "\<forall>r \<in> set (shift_definitions d). row_ok r" "e \<in> set (definitions d site)"
  shows "definition_ok e"
  using assms
  by (auto simp: definitions_def Let_def row_ok_def default_definitions_def definition_ok_def split: if_splits)

text \<open>A window that contains a moment starts on its local day or the day before.\<close>

lemma window_day:
  assumes "fixed_offset tz off" "definition_ok (n, h, len)"
    "w_start (window site n h len day tz) \<le> t" "t < w_end (window site n h len day tz)"
  shows "day \<in> {local_day tz t, local_day tz t - 1}"
proof -
  have h: "0 \<le> h * hour_us" "h * hour_us + len * hour_us < 2 * day_us" "h * hour_us < day_us"
    using assms(2) by (simp_all add: definition_ok_def day_us_def hour_us_def)
  have "day * day_us < local_day tz t * day_us + 1 * day_us"
    using assms(3) local_day_bounds(2) [OF assms(1), of t] h(1) unfolding window_bounds [OF assms(1)] by linarith
  then have 1: "day < local_day tz t + 1" by (rule days_less)
  have "local_day tz t * day_us < day * day_us + 2 * day_us"
    using assms(4) local_day_bounds(1) [OF assms(1), of t] h(2) unfolding window_bounds [OF assms(1)] by linarith
  then have 2: "local_day tz t < day + 2" by (rule days_less)
  show ?thesis using 1 2 by auto
qed

lemma resolve_shift_none:
  assumes "definitions_ok d" "fixed_offset (site_timezone zones d site) off" "resolve_shift zones d site t = None"
    and w: "w \<in> set (day_windows site (site_timezone zones d site) (definitions d site) day)"
  shows "\<not> (w_start w \<le> t \<and> t < w_end w)"
proof
  assume a: "w_start w \<le> t \<and> t < w_end w"
  obtain n h len where e: "(n, h, len) \<in> set (definitions d site)" "w = window site n h len day (site_timezone zones d site)"
    using w by (auto simp: day_windows_def)
  have "definition_ok (n, h, len)" using definitions_valid [OF _ e(1)] assms(1) by (simp add: definitions_ok_def)
  then have "day \<in> {local_day (site_timezone zones d site) t, local_day (site_timezone zones d site) t - 1}"
    using window_day [OF assms(2)] a e(2) by blast
  then show False using assms(3) w a by (auto simp: resolve_shift_def Let_def find_None_iff_all)
qed

lemma resolve_shift_some:
  assumes "resolve_shift zones d site t = Some w"
  shows "w_start w \<le> t \<and> t < w_end w \<and> w_site w = site \<and>
    w \<in> set (day_windows site (site_timezone zones d site) (definitions d site) (w_date w))"
proof -
  have "w_start w \<le> t \<and> t < w_end w" "w \<in> set (concat (map (day_windows site (site_timezone zones d site) (definitions d site))
      [local_day (site_timezone zones d site) t, local_day (site_timezone zones d site) t - 1]))"
    using assms find_Some_mem unfolding resolve_shift_def Let_def by fastforce+
  then show ?thesis using day_windows_fields by auto
qed

text \<open>C37: a moment is off shift exactly when no shift of any day contains it: the two days the search
  looks at are enough, also for shifts that cross midnight; and the shift found contains the moment.\<close>

theorem resolve_shift_complete:
  assumes "definitions_ok d" "fixed_offset (site_timezone zones d site) off"
  shows "case resolve_shift zones d site t of
      None \<Rightarrow> \<forall>day. \<forall>w \<in> set (day_windows site (site_timezone zones d site) (definitions d site) day). \<not> (w_start w \<le> t \<and> t < w_end w)
    | Some w \<Rightarrow> w_start w \<le> t \<and> t < w_end w \<and> w_site w = site \<and>
        w \<in> set (day_windows site (site_timezone zones d site) (definitions d site) (w_date w))"
  using resolve_shift_none [OF assms] resolve_shift_some [of zones d site t] by (auto split: option.split)

lemma foldl_max_ge: "x \<in> set xs \<Longrightarrow> x \<le> foldl max a xs" "(a :: int) \<le> foldl max a xs"
proof -
  have 1: "a \<le> foldl max a xs" for a :: int
  proof (induction xs arbitrary: a)
    case (Cons x xs)
    from Cons [of "max a x"] show ?case by simp
  qed simp
  show "(a :: int) \<le> foldl max a xs" by (rule 1)
  show "x \<in> set xs \<Longrightarrow> x \<le> foldl max a xs"
  proof (induction xs arbitrary: a)
    case (Cons y ys)
    have "max a y \<le> foldl max (max a y) zs" for zs
    proof (induction zs arbitrary: a y)
      case (Cons z zs)
      from Cons [of "max a y" z] show ?case by simp
    qed simp
    from this [of ys] Cons show ?case by auto
  qed simp
qed

text \<open>No shift is left without its report: the windows found for an interval are exactly those of
  all days that end in it, each once for each definition and day, oldest end first.\<close>

theorem windows_ending_complete:
  assumes "definitions_ok d" "fixed_offset (site_timezone zones d site) off"
  shows "set (windows_ending_between zones d site after until) =
      {w. \<exists>day. w \<in> set (day_windows site (site_timezone zones d site) (definitions d site) day) \<and> after < w_end w \<and> w_end w \<le> until} \<and>
    sorted (map w_end (windows_ending_between zones d site after until))"
proof -
  let ?tz = "site_timezone zones d site" and ?defs = "definitions d site"
  let ?longest = "foldl max 0 (map (\<lambda>(_, _, len). len) ?defs) div 24 + 1"
  have pos: "0 < day_us" by (simp add: day_us_def hour_us_def)
  have inside: "day \<in> {local_day ?tz after - ?longest .. local_day ?tz until}"
    if w: "w \<in> set (day_windows site ?tz ?defs day)" "after < w_end w" "w_end w \<le> until" for w day
  proof -
    obtain n h len where e: "(n, h, len) \<in> set ?defs" "w = window site n h len day ?tz" using w(1) by (auto simp: day_windows_def)
    have ok: "definition_ok (n, h, len)" using definitions_valid [OF _ e(1)] assms(1) by (simp add: definitions_ok_def)
    then have h: "0 \<le> h * hour_us" "0 \<le> len * hour_us" "h * hour_us + len * hour_us < 2 * day_us" "len \<le> 24"
      by (simp_all add: definition_ok_def day_us_def hour_us_def)
    have "w_end w = day * day_us + h * hour_us + len * hour_us - off" using window_bounds [OF assms(2)] e(2) by simp
    then have "day * day_us \<le> until + off" "after + off < day * day_us + (h * hour_us + len * hour_us)" using w(2,3) h by simp_all
    then have "day * day_us < local_day ?tz until * day_us + 1 * day_us"
      "local_day ?tz after * day_us < day * day_us + 2 * day_us"
      using local_day_bounds(1) [OF assms(2), of after] local_day_bounds(2) [OF assms(2), of until] h(3) by linarith+
    then have "day < local_day ?tz until + 1 \<and> local_day ?tz after < day + 2" using days_less by blast
    moreover have "0 \<le> foldl max 0 (map (\<lambda>(_, _, len). len) ?defs) div 24"
      using foldl_max_ge(2) [of 0 "map (\<lambda>(_, _, len). len) ?defs"] by simp
    ultimately show ?thesis unfolding atLeastAtMost_iff by linarith
  qed
  let ?ws = "filter (\<lambda>w. after < w_end w \<and> w_end w \<le> until)
      (concat (map (day_windows site ?tz ?defs) [local_day ?tz after - ?longest .. local_day ?tz until]))"
  have ws: "windows_ending_between zones d site after until = sort_key (\<lambda>w. (w_end w, w_name w)) ?ws"
    by (simp add: windows_ending_between_def Let_def)
  have "set ?ws = {w. \<exists>day. w \<in> set (day_windows site ?tz ?defs day) \<and> after < w_end w \<and> w_end w \<le> until}"
    using inside by (auto simp del: atLeastAtMost_iff)
  moreover have "sorted (map w_end (sort_key (\<lambda>w. (w_end w, w_name w)) ?ws))"
    using sorted_sort_key [of "\<lambda>w. (w_end w, w_name w)" ?ws]
    unfolding sorted_map by (rule sorted_wrt_mono_rel [rotated]) (auto simp: less_eq_prod_def)
  ultimately show ?thesis unfolding ws by simp
qed

text \<open>C33: Whatever the routes are sent, in any order, the definitions stored stay well-formed: a start
  hour from 0 to 23, so that building a window's local time cannot raise, and a length of 1 to 24
  hours, so that every window is a proper interval of at most a day; and a site has at most one
  definition of a name.\<close>

theorem definitions_stay_well_formed:
  assumes "definitions_ok d" "d' = run_machine definition_do d acts" "(name, h, len) \<in> set (definitions d' site)"
    and "fixed_offset tz off"
  shows "0 \<le> h \<and> h \<le> 23 \<and> distinct (map fst (definitions d' site)) \<and>
    w_start (window site name h len day tz) < w_end (window site name h len day tz) \<and>
    w_end (window site name h len day tz) \<le> w_start (window site name h len day tz) + day_us"
proof -
  have ok: "definitions_ok d'" unfolding assms(2) by (rule shift_config.run_inv [OF assms(1)])
  then have e: "definition_ok (name, h, len)" using definitions_valid assms(3) by (auto simp: definitions_ok_def)
  have "0 < len * hour_us" "len * hour_us \<le> day_us" using e by (simp_all add: definition_ok_def day_us_def hour_us_def)
  moreover have "distinct (map fst (definitions d' site))"
  proof -
    have "distinct (map sd_name (filter (\<lambda>r. sd_site r = site \<and> sd_enabled r) (shift_definitions d')))"
      using ok by (auto simp: definitions_ok_def distinct_map inj_on_def sd_key_def)
    then show ?thesis by (simp add: definitions_def Let_def comp_def default_definitions_def)
  qed
  ultimately show ?thesis using e unfolding window_bounds [OF assms(4)] by (simp add: definition_ok_def)
qed

section \<open>Shift ids\<close>

lemma take_until_append: "c \<notin> set a \<Longrightarrow> take_until c (a @ c # b) = Some (a, b)"
  by (induction a) auto

lemma rsplit2_join:
  assumes "CHR '':'' \<notin> set b" "CHR '':'' \<notin> set c"
  shows "rsplit2 (a @ '':'' @ b @ '':'' @ c) = Some (a, b, c)"
proof -
  have "rev (a @ '':'' @ b @ '':'' @ c) = rev c @ CHR '':'' # rev b @ CHR '':'' # rev a" by simp
  then show ?thesis using assms by (simp only: rsplit2_def) (simp add: take_until_append)
qed

lemma iso_date_no_colon: "CHR '':'' \<notin> set (iso_date day)"
proof -
  have "CHR '':'' \<notin> set (show_nat n)" for n using show_nat_digits [of _ n] by (force simp: is_digit_def)
  then have "CHR '':'' \<notin> set (padded w n)" for w n by (auto simp: padded_def Let_def)
  then show ?thesis by (simp add: iso_date_def split_beta Let_def)
qed

lemma find_by_name:
  "distinct (map fst defs) \<Longrightarrow> (n, h, len) \<in> set defs \<Longrightarrow> List.find (\<lambda>(m, _, _). m = n) defs = Some (n, h, len)"
  by (induction defs) (auto simp: rev_image_eqI)

lemma definition_names_distinct:
  assumes "definitions_ok d"
  shows "distinct (map fst (definitions d site))"
proof -
  have "distinct (map sd_name (filter (\<lambda>r. sd_site r = site \<and> sd_enabled r) (shift_definitions d)))"
    using assms by (auto simp: definitions_ok_def distinct_map inj_on_def sd_key_def)
  then show ?thesis by (simp add: definitions_def Let_def comp_def default_definitions_def)
qed

text \<open>C38: A shift id leads back to its shift: resolving the id of a window gives that window, as long
  as the shift's name has no colon; the site id may have any.\<close>

theorem shift_id_roundtrip:
  assumes "definitions_ok d" "CHR '':'' \<notin> set (w_name w)" "parse_date (iso_date day) = Some day"
    and "w \<in> set (day_windows site (site_timezone zones d site) (definitions d site) day)"
  shows "resolve_shift_by_id zones parse_date d site (w_shift_id w) = Some w"
proof -
  obtain n h len where e: "(n, h, len) \<in> set (definitions d site)" "w = window site n h len day (site_timezone zones d site)"
    using assms(4) by (auto simp: day_windows_def)
  have "rsplit2 (w_shift_id w) = Some (site, iso_date day, n)"
    using rsplit2_join [OF iso_date_no_colon, of n site day] assms(2) e(2) by (simp add: window_def Let_def)
  then show ?thesis
    using find_by_name [OF definition_names_distinct [OF assms(1)] e(1)] assms(3) e(2)
    by (simp add: resolve_shift_by_id_def)
qed

text \<open>A name with a colon is accepted by the route, and its shifts cannot be resolved by their ids.\<close>

lemma colon_name_unresolvable:
  assumes "parse_date ''early'' = None"
  shows "fst (upsert_shift_definition site ''early:1'' 6 12 True d) =
      Inr \<lparr>sd_site = site, sd_name = ''early:1'', sd_start_hour = 6, sd_duration = 12, sd_enabled = True\<rparr> \<and>
    resolve_shift_by_id zones parse_date d' site (w_shift_id (window site ''early:1'' 6 12 day tz)) = None"
proof -
  have "rsplit2 ((site @ '':'' @ iso_date day) @ '':'' @ ''early'' @ '':'' @ ''1'') = Some (site @ '':'' @ iso_date day, ''early'', ''1'')"
    by (rule rsplit2_join) simp_all
  then show ?thesis using assms by (simp add: upsert_shift_definition_def resolve_shift_by_id_def window_def Let_def)
qed

section \<open>Concrete instances\<close>

definition harare :: zone_info where
  "harare = \<lparr>to_local = (\<lambda>t. t + 2 * hour_us), to_utc = (\<lambda>t. t - 2 * hour_us)\<rparr>"

definition demo_shifts :: shift_db where
  "demo_shifts = feed_db.extend (db.extend empty_db \<lparr>source_statuses = []\<rparr>) \<lparr>site_timezones = [], shift_definitions = []\<rparr>"

lemma demo_shifts_ok: "definitions_ok demo_shifts" "site_timezone (\<lambda>_. harare) demo_shifts ''s1'' = harare"
    "fixed_offset harare (2 * hour_us)" "definitions demo_shifts ''s1'' = default_definitions"
  by (simp_all add: demo_shifts_def db.extend_def feed_db.extend_def definitions_ok_def site_timezone_def harare_def fixed_offset_def definitions_def)

theorem resolve_shift_complete_witness:
  "case resolve_shift (\<lambda>_. harare) demo_shifts ''s1'' 0 of
      None \<Rightarrow> \<forall>day. \<forall>w \<in> set (day_windows ''s1'' (site_timezone (\<lambda>_. harare) demo_shifts ''s1'') (definitions demo_shifts ''s1'') day).
        \<not> (w_start w \<le> 0 \<and> 0 < w_end w)
    | Some w \<Rightarrow> w_start w \<le> 0 \<and> 0 < w_end w \<and> w_site w = ''s1'' \<and>
        w \<in> set (day_windows ''s1'' (site_timezone (\<lambda>_. harare) demo_shifts ''s1'') (definitions demo_shifts ''s1'') (w_date w))"
  by (rule resolve_shift_complete [OF demo_shifts_ok(1), where off = "2 * hour_us"]) (simp add: demo_shifts_ok)

theorem windows_ending_complete_witness:
  "sorted (map w_end (windows_ending_between (\<lambda>_. harare) demo_shifts ''s1'' 0 (3 * day_us)))"
  using windows_ending_complete [OF demo_shifts_ok(1), of "\<lambda>_. harare" "''s1''" "2 * hour_us" 0 "3 * day_us"] by (simp add: demo_shifts_ok)

theorem definitions_stay_well_formed_witness:
  "w_start (window ''s1'' ''night'' 18 12 0 harare) < w_end (window ''s1'' ''night'' 18 12 0 harare)"
proof -
  have "(''night'', 18, 12) \<in> set (definitions (run_machine definition_do demo_shifts []) ''s1'')"
    by (simp add: demo_shifts_ok default_definitions_def)
  from definitions_stay_well_formed [OF demo_shifts_ok(1) refl this demo_shifts_ok(3)] show ?thesis by simp
qed

theorem shift_id_roundtrip_witness:
  "resolve_shift_by_id (\<lambda>_. harare) (\<lambda>_. Some 19905) demo_shifts ''s1''
     (w_shift_id (window ''s1'' ''day'' 6 12 19905 harare)) = Some (window ''s1'' ''day'' 6 12 19905 harare)"
  by (rule shift_id_roundtrip [OF demo_shifts_ok(1), where day = 19905])
     (simp_all add: window_def Let_def demo_shifts_ok day_windows_def default_definitions_def)

end
