(* ===== verification/Breaches.thy ===== *)
theory Breaches
  imports Shifts
begin

text \<open>
  The register of personal-data breaches, \<^verbatim>\<open>src/src/minemonitor/breaches/service.py\<close>: recording a
  breach with its two notice deadlines, where each notice stands, recording a notice, closing a
  breach, the check of the maintenance tick, and the list of the people affected. The text of a
  local time (\<^verbatim>\<open>strftime\<close> in the site's time zone) is a parameter.
\<close>

record operator =
  op_id :: string
  op_site :: string
  op_name :: "string option"
  op_ref :: "string option"
  op_contact :: "string option"
  op_suspended :: bool
  op_inducted :: bool
  op_created :: time
  op_erased :: "time option"

record breach =
  b_id :: string
  b_site :: string
  b_discovered :: time
  b_occurred :: "time option"
  b_summary :: string
  b_classes :: "string list"
  b_notify_individuals :: bool
  b_regulator_due :: time
  b_individuals_due :: "time option"
  b_regulator_notified :: "time option"
  b_regulator_reference :: "string option"
  b_individuals_notified :: "time option"
  b_recorded_by :: string
  b_recorded :: time
  b_closed :: "time option"
  b_closed_by :: "string option"
  b_close_note :: "string option"

record audit_entry = audit_row +
  au_detail :: dict

record breach_db = shift_db +
  operators :: "operator list"
  breaches :: "breach list"
  breach_operators :: "(string \<times> string) list"
  breach_audit :: "audit_entry list"

record breach_settings = settings +
  breach_regulator_name :: string
  breach_regulator_notice_h :: int
  breach_individuals_notice_h :: int
  breach_warn_before_h :: int
  breach_deadline_from :: string

definition hours :: "int \<Rightarrow> time" where "hours h = seconds (3600 * h)"

definition data_classes :: "string list" where
  "data_classes = [''operator_records'', ''positions'', ''access_events'', ''events'', ''audit_log'', ''evidence'', ''other'']"

datatype notice = Regulator | Individuals

definition notices :: "notice list" where "notices = [Regulator, Individuals]"

datatype notice_state = Sent | Not_required | Not_sent | Pending | Due_soon | Overdue

datatype breach_error = BreachError | BreachConflict

definition deadlines :: "time \<Rightarrow> time option \<Rightarrow> bool \<Rightarrow> breach_settings \<Rightarrow> time \<times> time option" where
  "deadlines discovered_at occurred_at notify_individuals s =
     (let start = (if breach_deadline_from s = ''occurred''
                   then (case occurred_at of None \<Rightarrow> discovered_at | Some t \<Rightarrow> t) else discovered_at)
      in (start + hours (breach_regulator_notice_h s),
          if notify_individuals then Some (start + hours (breach_individuals_notice_h s)) else None))"

definition audit_breach :: "time \<Rightarrow> string \<Rightarrow> string \<Rightarrow> breach \<Rightarrow> dict \<Rightarrow> breach_db \<Rightarrow> breach_db" where
  "audit_breach now actor action b detail d =
     d\<lparr>breach_audit := breach_audit d @ [\<lparr>au_ts = now, au_actor = actor, au_action = action, au_entity_type = ''breach'',
        au_entity_id = Some (b_id b), au_site = Some (b_site b), au_detail = detail\<rparr>]\<rparr>"

definition record_breach ::
  "breach_settings \<Rightarrow> time \<Rightarrow> string \<Rightarrow> time \<Rightarrow> time option \<Rightarrow> string \<Rightarrow> string list \<Rightarrow> string list \<Rightarrow> bool \<Rightarrow> string
    \<Rightarrow> breach_db \<Rightarrow> breach_error + (breach \<times> breach_db)" where
  "record_breach s now site discovered_at occurred_at summary classes operator_ids notify_individuals actor d =
     (if discovered_at > now + seconds (max_future_skew_s s) then Inl BreachError
      else if (case occurred_at of None \<Rightarrow> False | Some t \<Rightarrow> t > discovered_at) then Inl BreachError
      else if classes = [] \<or> (\<exists>c \<in> set classes. c \<notin> set data_classes) then Inl BreachError
      else let ids = sort (remdups operator_ids)
           in if \<exists>i \<in> set ids. \<not> (\<exists>p \<in> set (operators d). op_site p = site \<and> op_id p = i) then Inl BreachError
              else let (regulator_due, individuals_due) = deadlines discovered_at occurred_at notify_individuals s;
                       (i, d) = new_event_id d;
                       row = \<lparr>b_id = i, b_site = site, b_discovered = discovered_at, b_occurred = occurred_at,
                         b_summary = summary, b_classes = sort (remdups classes), b_notify_individuals = notify_individuals,
                         b_regulator_due = regulator_due, b_individuals_due = individuals_due,
                         b_regulator_notified = None, b_regulator_reference = None, b_individuals_notified = None,
                         b_recorded_by = actor, b_recorded = now, b_closed = None, b_closed_by = None, b_close_note = None\<rparr>;
                       d = d\<lparr>breaches := breaches d @ [row],
                             breach_operators := breach_operators d @ map (\<lambda>x. (i, x)) ids\<rparr>
                   in Inr (row, audit_breach now actor ''breach.record'' row
                        [(''data_classes'', JArr (map JStr (b_classes row))), (''operators'', JInt (int (length ids))),
                         (''notify_individuals'', JBool notify_individuals), (''regulator_due_at'', JTime regulator_due),
                         (''individuals_due_at'', case individuals_due of None \<Rightarrow> JNull | Some t \<Rightarrow> JTime t)] d))"

text \<open>\<open>warn\<close> is a duration.\<close>

definition notice_status :: "breach \<Rightarrow> notice \<Rightarrow> time \<Rightarrow> time \<Rightarrow> notice_state" where
  "notice_status b n now warn =
     (let (sent, due) = (case n of Regulator \<Rightarrow> (b_regulator_notified b, Some (b_regulator_due b))
                                 | Individuals \<Rightarrow> (b_individuals_notified b, b_individuals_due b))
      in if sent \<noteq> None then Sent
         else case due of
                None \<Rightarrow> Not_required
              | Some t \<Rightarrow>
                  if b_closed b \<noteq> None then Not_sent
                  else if now \<ge> t then Overdue
                  else if warn > 0 \<and> now \<ge> t - warn then Due_soon
                  else Pending)"

definition notice_name :: "notice \<Rightarrow> string" where
  "notice_name n = (case n of Regulator \<Rightarrow> ''regulator'' | Individuals \<Rightarrow> ''individuals'')"

definition alarm_id :: "string \<Rightarrow> notice \<Rightarrow> string \<Rightarrow> string" where
  "alarm_id breach_id n stage = ''breach-'' @ breach_id @ ''-'' @ notice_name n @ ''-'' @ stage"

definition alarm_ids :: "string \<Rightarrow> notice list \<Rightarrow> string list" where
  "alarm_ids breach_id ns = concat (map (\<lambda>n. map (alarm_id breach_id n) [''due'', ''overdue'']) ns)"

definition acknowledge_open :: "string \<Rightarrow> time \<Rightarrow> event \<Rightarrow> event" where
  "acknowledge_open actor now e = e\<lparr>e_state := ''acknowledged'', e_ack_by := Some actor, e_ack_at := Some now\<rparr>"

definition acknowledge_alarms :: "breach \<Rightarrow> notice list \<Rightarrow> string \<Rightarrow> time \<Rightarrow> breach_db \<Rightarrow> nat \<times> breach_db" where
  "acknowledge_alarms b ns actor now d =
     (let hit = (\<lambda>e. e_id e \<in> set (alarm_ids (b_id b) ns) \<and> e_state e = ''open'')
      in (length (filter hit (events d)),
          d\<lparr>events := map (\<lambda>e. if hit e then acknowledge_open actor now e else e) (events d)\<rparr>))"

definition put_breach :: "breach \<Rightarrow> breach_db \<Rightarrow> breach_db" where
  "put_breach b d = d\<lparr>breaches := map (\<lambda>r. if b_id r = b_id b then b else r) (breaches d)\<rparr>"

definition record_notice ::
  "breach_settings \<Rightarrow> time \<Rightarrow> breach \<Rightarrow> notice \<Rightarrow> time \<Rightarrow> string option \<Rightarrow> string \<Rightarrow> breach_db
    \<Rightarrow> breach_error + (breach \<times> breach_db)" where
  "record_notice s now b n notified_at reference actor d =
     (if notified_at > now + seconds (max_future_skew_s s) then Inl BreachError
      else if n = Individuals \<and> \<not> b_notify_individuals b then Inl BreachConflict
      else let (previous, b) = (case n of
                 Regulator \<Rightarrow> (b_regulator_notified b, b\<lparr>b_regulator_notified := Some notified_at, b_regulator_reference := reference\<rparr>)
               | Individuals \<Rightarrow> (b_individuals_notified b, b\<lparr>b_individuals_notified := Some notified_at\<rparr>));
               (acked, d) = acknowledge_alarms b [n] actor now (put_breach b d)
           in Inr (b, audit_breach now actor (''breach.'' @ notice_name n @ ''_notified'') b
                [(''notified_at'', JTime notified_at), (''reference'', case reference of None \<Rightarrow> JNull | Some r \<Rightarrow> JStr r),
                 (''previous'', case previous of None \<Rightarrow> JNull | Some t \<Rightarrow> JTime t), (''alarms_acknowledged'', JInt (int acked))] d))"

definition close_breach ::
  "time \<Rightarrow> breach \<Rightarrow> string option \<Rightarrow> string \<Rightarrow> breach_db \<Rightarrow> breach_error + (breach \<times> breach_db)" where
  "close_breach now b msg actor d =
     (if b_closed b \<noteq> None then Inl BreachConflict
      else let outstanding = filter (\<lambda>n. notice_status b n now 0 \<in> {Pending, Overdue}) notices;
               b = b\<lparr>b_closed := Some now, b_closed_by := Some actor, b_close_note := msg\<rparr>;
               (acked, d) = acknowledge_alarms b notices actor now (put_breach b d)
           in Inr (b, audit_breach now actor ''breach.close'' b
                [(''outstanding_notices'', JArr (map (\<lambda>n. JStr (notice_name n)) outstanding)),
                 (''alarms_acknowledged'', JInt (int acked))] d))"

section \<open>The check of the maintenance tick\<close>

text \<open>The deadline of a notice and who it is for.\<close>

definition due_and_who :: "breach_settings \<Rightarrow> breach \<Rightarrow> notice \<Rightarrow> time \<times> string" where
  "due_and_who s b n =
     (case n of Regulator \<Rightarrow> (b_regulator_due b, breach_regulator_name s)
              | Individuals \<Rightarrow> (case b_individuals_due b of None \<Rightarrow> 0 | Some t \<Rightarrow> t, ''the people affected''))"

definition deadline_alarm :: "breach_settings \<Rightarrow> (time \<Rightarrow> string) \<Rightarrow> string \<Rightarrow> time \<Rightarrow> breach \<Rightarrow> notice \<Rightarrow> string \<Rightarrow> event" where
  "deadline_alarm s local_text site now b n stage =
     (let (due, who) = due_and_who s b n
      in \<lparr>e_id = alarm_id (b_id b) n stage, e_site = site, e_ts = now, e_type = ''breach_notice_due'',
          e_severity = (if stage = ''overdue'' then ''critical'' else ''warning''), e_asset = None, e_zone = None,
          e_source = ''breach_register'',
          e_summary = (if stage = ''overdue''
            then [Txt ''Breach '', Txt (b_id b), Txt '': notice to '', Txt who, Txt '' overdue since '', Txt (local_text due)]
            else [Txt ''Breach '', Txt (b_id b), Txt '': notify '', Txt who, Txt '' by '', Txt (local_text due)]),
          e_detail = Some [(''breach_id'', JStr (b_id b)), (''notice'', JStr (notice_name n)), (''stage'', JStr stage),
            (''due_at'', JTime due)],
          e_evidence = Some [(''breach_id'', JStr (b_id b))], e_advisory = True, e_state = ''open'',
          e_ack_by = None, e_ack_at = None\<rparr>)"

definition stage_of :: "notice_state \<Rightarrow> string option" where
  "stage_of st = (case st of Overdue \<Rightarrow> Some ''overdue'' | Due_soon \<Rightarrow> Some ''due'' | _ \<Rightarrow> None)"

fun check_loop ::
  "breach_settings \<Rightarrow> (time \<Rightarrow> string) \<Rightarrow> string \<Rightarrow> time \<Rightarrow> (breach \<times> notice) list \<Rightarrow> event list \<Rightarrow> breach_db
    \<Rightarrow> event list \<times> breach_db" where
  "check_loop s local_text site now [] evs d = (evs, d)"
| "check_loop s local_text site now ((b, n) # rest) evs d =
     (case stage_of (notice_status b n now (hours (breach_warn_before_h s))) of
        None \<Rightarrow> check_loop s local_text site now rest evs d
      | Some stage \<Rightarrow>
          if \<exists>e \<in> set (events d). e_id e = alarm_id (b_id b) n stage then check_loop s local_text site now rest evs d
          else let ev = deadline_alarm s local_text site now b n stage
               in check_loop s local_text site now rest (evs @ [ev]) (persist_event (settings.truncate s) now d ev))"

definition open_breaches :: "breach_db \<Rightarrow> string \<Rightarrow> breach list" where
  "open_breaches d site = sort_key b_discovered (filter (\<lambda>b. b_site b = site \<and> b_closed b = None) (breaches d))"

definition check_breach_deadlines ::
  "breach_settings \<Rightarrow> (time \<Rightarrow> string) \<Rightarrow> time \<Rightarrow> breach_db \<Rightarrow> string \<Rightarrow> event list \<times> breach_db" where
  "check_breach_deadlines s local_text now d site =
     check_loop s local_text site now (concat (map (\<lambda>b. map (Pair b) notices) (open_breaches d site))) [] d"

section \<open>The people affected\<close>

definition affected_operators :: "breach_db \<Rightarrow> breach \<Rightarrow> operator list" where
  "affected_operators d b = sort_key op_id (filter (\<lambda>p. (b_id b, op_id p) \<in> set (breach_operators d)) (operators d))"

definition formula_prefixes :: "char list" where
  "formula_prefixes = ''=+-@'' @ [CHR 0x09, CHR 0x0D, CHR 0x0A]"

definition csv_cell :: "string option \<Rightarrow> string" where
  "csv_cell v =
     (case v of
        None \<Rightarrow> []
      | Some [] \<Rightarrow> []
      | Some (c # cs) \<Rightarrow> if c \<in> set formula_prefixes then CHR 0x27 # c # cs else c # cs)"

text \<open>\<^verbatim>\<open>csv.writer\<close> with its defaults: a field with a comma, a quote or a line break is quoted.\<close>

definition csv_field :: "string \<Rightarrow> string" where
  "csv_field f =
     (if \<exists>c \<in> set f. c \<in> {CHR '','', CHR 0x22, CHR 0x0D, CHR 0x0A}
      then CHR 0x22 # concat (map (\<lambda>c. if c = CHR 0x22 then [c, c] else [c]) f) @ [CHR 0x22] else f)"

definition csv_row :: "string list \<Rightarrow> string" where
  "csv_row cells = join_with (CHR '','') (map csv_field cells) @ [CHR 0x0D, CHR 0x0A]"

definition affected_operators_csv :: "operator list \<Rightarrow> string" where
  "affected_operators_csv ps =
     csv_row [''operator_id'', ''display_name'', ''employee_ref'', ''contact'', ''erased''] @
     concat (map (\<lambda>p. csv_row [csv_cell (Some (op_id p)), csv_cell (op_name p), csv_cell (op_ref p), csv_cell (op_contact p),
       if op_erased p \<noteq> None then ''true'' else ''false'']) ps)"

section \<open>Deadlines are kept in front of people\<close>

lemma append_inj: "a @ ''-regulator-due'' = b @ ''-individuals-due'' \<longleftrightarrow> False"
  "a @ ''-regulator-overdue'' = b @ ''-individuals-overdue'' \<longleftrightarrow> False"
  "a @ ''-regulator-due'' = b @ ''-regulator-overdue'' \<longleftrightarrow> False"
  "a @ ''-regulator-due'' = b @ ''-individuals-overdue'' \<longleftrightarrow> False"
  "a @ ''-individuals-due'' = b @ ''-regulator-overdue'' \<longleftrightarrow> False"
  "a @ ''-individuals-due'' = b @ ''-individuals-overdue'' \<longleftrightarrow> False"
  by (auto dest: arg_cong [of _ _ rev])

text \<open>An alarm id names its breach, notice and stage.\<close>

lemma alarm_id_inj:
  assumes "alarm_id i n st = alarm_id j m st'" "st \<in> {''due'', ''overdue''}" "st' \<in> {''due'', ''overdue''}"
  shows "i = j \<and> n = m \<and> st = st'"
proof -
  have tail: "alarm_id x k w = ''breach-'' @ x @ ''-'' @ notice_name k @ ''-'' @ w" for x k w by (simp add: alarm_id_def)
  have "i @ ''-'' @ notice_name n @ ''-'' @ st = j @ ''-'' @ notice_name m @ ''-'' @ st'" using assms(1) by (simp add: tail)
  then show ?thesis using assms(2,3) append_inj
    by (cases n; cases m) (auto simp: notice_name_def append_inj dest: sym)
qed

definition wanted :: "breach_settings \<Rightarrow> time \<Rightarrow> breach \<Rightarrow> notice \<Rightarrow> string option" where
  "wanted s now b n = stage_of (notice_status b n now (hours (breach_warn_before_h s)))"

lemma events_persist_alarm:
  "events (persist_event (settings.truncate s) now d (deadline_alarm s local_text site now b n stage)) =
     events d @ [deadline_alarm s local_text site now b n stage]"
  using persist_event_frame [of d "settings.truncate s" now "deadline_alarm s local_text site now b n stage"]
  by (simp add: deadline_alarm_def Let_def split_beta)

lemma alarm_advisory [simp]:
  "deadline_alarm s local_text site now b n stage\<lparr>e_advisory := True\<rparr> = deadline_alarm s local_text site now b n stage"
  by (simp add: deadline_alarm_def Let_def split_beta)

lemma alarm_e_id [simp]: "e_id (deadline_alarm s local_text site now b n stage) = alarm_id (b_id b) n stage"
  by (simp add: deadline_alarm_def Let_def split_beta)

lemma check_loop_spec:
  assumes "check_loop s local_text site now ps evs d = (evs', d')"
  shows "\<exists>new. evs' = evs @ new \<and> events d' = events d @ new \<and> distinct (map e_id new) \<and>
    (\<forall>e \<in> set new. e_id e \<notin> e_id ` set (events d)) \<and>
    (\<forall>e \<in> set new. \<exists>p \<in> set ps. \<exists>stage. wanted s now (fst p) (snd p) = Some stage \<and>
       e = deadline_alarm s local_text site now (fst p) (snd p) stage) \<and>
    (\<forall>p \<in> set ps. \<forall>stage. wanted s now (fst p) (snd p) = Some stage \<longrightarrow>
       alarm_id (b_id (fst p)) (snd p) stage \<in> e_id ` set (events d'))"
  using assms
proof (induction ps arbitrary: evs d)
  case Nil
  then show ?case by (intro exI [of _ "[]"]) simp
next
  case (Cons p ps)
  obtain b n where p: "p = (b, n)" by (cases p)
  show ?case
  proof (cases "\<exists>stage. wanted s now b n = Some stage \<and> alarm_id (b_id b) n stage \<notin> e_id ` set (events d)")
    case False
    then have same: "check_loop s local_text site now ps evs d = (evs', d')"
      using Cons.prems by (force simp: p wanted_def split: option.splits if_splits)
    obtain new where n: "evs' = evs @ new" "events d' = events d @ new" "distinct (map e_id new)"
      "\<forall>e \<in> set new. e_id e \<notin> e_id ` set (events d)"
      "\<forall>e \<in> set new. \<exists>p \<in> set ps. \<exists>stage. wanted s now (fst p) (snd p) = Some stage \<and>
         e = deadline_alarm s local_text site now (fst p) (snd p) stage"
      "\<forall>p \<in> set ps. \<forall>stage. wanted s now (fst p) (snd p) = Some stage \<longrightarrow>
         alarm_id (b_id (fst p)) (snd p) stage \<in> e_id ` set (events d')"
      using Cons.IH [OF same] by blast
    show ?thesis using n False by (intro exI [of _ new]) (auto simp: p)
  next
    case True
    then obtain stage where st: "wanted s now b n = Some stage" "alarm_id (b_id b) n stage \<notin> e_id ` set (events d)" by blast
    let ?ev = "deadline_alarm s local_text site now b n stage"
    let ?d = "persist_event (settings.truncate s) now d ?ev"
    have rest: "check_loop s local_text site now ps (evs @ [?ev]) ?d = (evs', d')"
    proof -
      have "\<not> (\<exists>e \<in> set (events d). e_id e = alarm_id (b_id b) n stage)" using st(2) by (metis imageI)
      then show ?thesis using Cons.prems st(1) by (simp add: p wanted_def Let_def)
    qed
    obtain new where n: "evs' = (evs @ [?ev]) @ new" "events d' = events ?d @ new" "distinct (map e_id new)"
      "\<forall>e \<in> set new. e_id e \<notin> e_id ` set (events ?d)"
      "\<forall>e \<in> set new. \<exists>p \<in> set ps. \<exists>stage. wanted s now (fst p) (snd p) = Some stage \<and>
         e = deadline_alarm s local_text site now (fst p) (snd p) stage"
      "\<forall>p \<in> set ps. \<forall>stage. wanted s now (fst p) (snd p) = Some stage \<longrightarrow>
         alarm_id (b_id (fst p)) (snd p) stage \<in> e_id ` set (events d')"
      using Cons.IH [OF rest] by blast
    show ?thesis using n st by (intro exI [of _ "?ev # new"]) (auto simp: p events_persist_alarm)
  qed
qed

lemma open_pairs: "p \<in> set (concat (map (\<lambda>b. map (Pair b) notices) (open_breaches d site))) \<longleftrightarrow>
    fst p \<in> set (breaches d) \<and> b_site (fst p) = site \<and> b_closed (fst p) = None"
  by (cases p; cases "snd p") (auto simp: open_breaches_def notices_def)

text \<open>C25: no notice deadline passes unseen: after a tick at any moment, every open breach of the site
  with a notice that is overdue, or within the warning time, has the alarm of that stage; the tick
  raises only such alarms, critical when overdue and a warning before, and never one that exists
  already.\<close>

theorem deadlines_are_alarmed:
  assumes "check_breach_deadlines s local_text now d site = (evs, d')"
  shows "(\<forall>b n stage. b \<in> set (breaches d) \<and> b_site b = site \<and> b_closed b = None \<and>
      stage_of (notice_status b n now (hours (breach_warn_before_h s))) = Some stage \<longrightarrow>
      (\<exists>e \<in> set (events d'). e_id e = alarm_id (b_id b) n stage)) \<and>
    events d' = events d @ evs \<and> distinct (map e_id evs) \<and> (\<forall>e \<in> set evs. e_id e \<notin> e_id ` set (events d)) \<and>
    (\<forall>e \<in> set evs. \<exists>b \<in> set (breaches d). \<exists>n stage. b_site b = site \<and> b_closed b = None \<and>
      stage_of (notice_status b n now (hours (breach_warn_before_h s))) = Some stage \<and>
      e_id e = alarm_id (b_id b) n stage \<and> e_severity e = (if stage = ''overdue'' then ''critical'' else ''warning''))"
proof -
  obtain new where n: "evs = new" "events d' = events d @ new" "distinct (map e_id new)"
    "\<forall>e \<in> set new. e_id e \<notin> e_id ` set (events d)"
    "\<forall>e \<in> set new. \<exists>p \<in> set (concat (map (\<lambda>b. map (Pair b) notices) (open_breaches d site))). \<exists>stage.
       wanted s now (fst p) (snd p) = Some stage \<and> e = deadline_alarm s local_text site now (fst p) (snd p) stage"
    "\<forall>p \<in> set (concat (map (\<lambda>b. map (Pair b) notices) (open_breaches d site))). \<forall>stage.
       wanted s now (fst p) (snd p) = Some stage \<longrightarrow> alarm_id (b_id (fst p)) (snd p) stage \<in> e_id ` set (events d')"
    using check_loop_spec [OF assms [unfolded check_breach_deadlines_def]] by auto
  have sev: "e_severity (deadline_alarm s local_text site now b m stage) = (if stage = ''overdue'' then ''critical'' else ''warning'')"
    for b m stage by (simp add: deadline_alarm_def Let_def split_beta)
  have 1: "\<exists>e \<in> set (events d'). e_id e = alarm_id (b_id b) m stage"
    if "b \<in> set (breaches d)" "b_site b = site" "b_closed b = None"
      "stage_of (notice_status b m now (hours (breach_warn_before_h s))) = Some stage" for b m stage
  proof -
    have "(b, m) \<in> set (concat (map (\<lambda>b. map (Pair b) notices) (open_breaches d site)))"
      unfolding open_pairs using that by simp
    then have "alarm_id (b_id b) m stage \<in> e_id ` set (events d')" using n(6) that(4) by (auto simp: wanted_def)
    then show ?thesis by auto
  qed
  have 2: "\<exists>b \<in> set (breaches d). \<exists>m stage. b_site b = site \<and> b_closed b = None \<and>
      stage_of (notice_status b m now (hours (breach_warn_before_h s))) = Some stage \<and>
      e_id e = alarm_id (b_id b) m stage \<and> e_severity e = (if stage = ''overdue'' then ''critical'' else ''warning'')"
    if "e \<in> set evs" for e
  proof -
    have "e \<in> set new" using that n(1) by simp
    from bspec [OF n(5) this] obtain p stage where "p \<in> set (concat (map (\<lambda>b. map (Pair b) notices) (open_breaches d site)))"
      "wanted s now (fst p) (snd p) = Some stage" "e = deadline_alarm s local_text site now (fst p) (snd p) stage"
      by (elim bexE exE conjE)
    then show ?thesis unfolding open_pairs wanted_def
      by (intro bexI [of _ "fst p"] exI [of _ "snd p"] exI [of _ stage]) (simp_all add: sev)
  qed
  show ?thesis
  proof (intro conjI allI impI ballI)
    show "events d' = events d @ evs" "distinct (map e_id evs)" using n(1-3) by simp_all
    show "e_id e \<notin> e_id ` set (events d)" if "e \<in> set evs" for e using n(1,4) that by simp
  qed (elim conjE, rule 1, assumption+, rule 2, assumption)
qed

text \<open>The alarms of a notice, and whether any of them still waits to be acknowledged.\<close>

definition alarm_waiting :: "breach_db \<Rightarrow> string \<Rightarrow> notice \<Rightarrow> bool" where
  "alarm_waiting d breach_id n \<longleftrightarrow> (\<exists>e \<in> set (events d). e_id e \<in> set (alarm_ids breach_id [n]) \<and> e_state e = ''open'')"

lemma acknowledged_none_waiting:
  "n \<in> set ns \<Longrightarrow> \<not> alarm_waiting (snd (acknowledge_alarms b ns actor now d)) (b_id b) n"
  by (auto simp: alarm_waiting_def acknowledge_alarms_def acknowledge_open_def alarm_ids_def Let_def split: if_splits)

lemma alarm_waiting_events: "events d = events d' \<Longrightarrow> alarm_waiting d = alarm_waiting d'"
  by (simp add: alarm_waiting_def fun_eq_iff)

lemma acknowledge_keeps [simp]: "breaches (snd (acknowledge_alarms b ns actor now d)) = breaches d"
  by (simp add: acknowledge_alarms_def Let_def)

lemma audit_breach_keeps [simp]:
  "breaches (audit_breach now actor action b detail d) = breaches d" "events (audit_breach now actor action b detail d) = events d"
  by (simp_all add: audit_breach_def)

definition quiet :: "breach_db \<Rightarrow> string \<Rightarrow> notice \<Rightarrow> bool" where
  "quiet d breach_id n \<longleftrightarrow> \<not> alarm_waiting d breach_id n \<and>
     (\<forall>b \<in> set (breaches d). b_id b = breach_id \<longrightarrow> b_closed b \<noteq> None \<or>
        (case n of Regulator \<Rightarrow> b_regulator_notified b | Individuals \<Rightarrow> b_individuals_notified b) \<noteq> None)"

lemma quiet_not_wanted: "quiet d i n \<Longrightarrow> b \<in> set (breaches d) \<Longrightarrow> b_id b = i \<Longrightarrow> wanted s now b n = None"
  by (cases n) (auto simp: quiet_def wanted_def notice_status_def stage_of_def Let_def split: option.splits)

lemma wanted_stage: "wanted s now b n = Some stage \<Longrightarrow> stage \<in> {''due'', ''overdue''}"
  by (auto simp: wanted_def stage_of_def split: notice_state.splits)

lemma breaches_persist [simp]: "breaches (persist_event s now d ev) = breaches d"
proof -
  have "db.more (persist_event s now d ev) = db.more d" using persist_event_frame [of d s now ev] by (simp add: outbox_only_def)
  then show ?thesis by (cases d, cases "persist_event s now d ev") simp
qed

lemma check_loop_breaches: "breaches (snd (check_loop s local_text site now ps evs d)) = breaches d"
  by (induction s local_text site now ps evs d rule: check_loop.induct) (auto simp: Let_def split: option.split)

lemma check_stays_quiet:
  assumes q: "quiet d i n" and c: "check_breach_deadlines s local_text now d site = (evs, d')"
  shows "quiet d' i n \<and> (\<forall>e \<in> set evs. e_id e \<notin> set (alarm_ids i [n]))"
proof -
  obtain new where new: "evs = new" "events d' = events d @ new"
    "\<forall>e \<in> set new. \<exists>p \<in> set (concat (map (\<lambda>b. map (Pair b) notices) (open_breaches d site))). \<exists>stage.
       wanted s now (fst p) (snd p) = Some stage \<and> e = deadline_alarm s local_text site now (fst p) (snd p) stage"
    using check_loop_spec [OF c [unfolded check_breach_deadlines_def]] by auto
  have no: "e_id e \<notin> set (alarm_ids i [n])" if "e \<in> set new" for e
  proof
    assume hit: "e_id e \<in> set (alarm_ids i [n])"
    from bspec [OF new(3) that] obtain p stage where
      p: "p \<in> set (concat (map (\<lambda>b. map (Pair b) notices) (open_breaches d site)))"
      "wanted s now (fst p) (snd p) = Some stage" "e = deadline_alarm s local_text site now (fst p) (snd p) stage"
      by (elim bexE exE conjE)
    obtain st where "alarm_id (b_id (fst p)) (snd p) stage = alarm_id i n st" "st \<in> {''due'', ''overdue''}"
      using hit p(3) by (auto simp: alarm_ids_def)
    then have "b_id (fst p) = i" "snd p = n" using alarm_id_inj wanted_stage [OF p(2)] by blast+
    moreover have "fst p \<in> set (breaches d)" using p(1) unfolding open_pairs by simp
    ultimately show False using quiet_not_wanted [OF q] p(2) by (metis option.distinct(1))
  qed
  have "breaches d' = breaches d"
    using check_loop_breaches [of s local_text site now _ "[]" d] c unfolding check_breach_deadlines_def by (metis snd_conv)
  moreover have "\<not> alarm_waiting d' i n" using q no by (auto simp: quiet_def alarm_waiting_def new(2))
  ultimately show ?thesis using q no new(1) by (simp add: quiet_def)
qed

fun ticks :: "breach_settings \<Rightarrow> (time \<Rightarrow> string) \<Rightarrow> (time \<times> string) list \<Rightarrow> breach_db \<Rightarrow> event list \<times> breach_db" where
  "ticks s local_text [] d = ([], d)"
| "ticks s local_text ((now, site) # rest) d =
     (let (evs, d) = check_breach_deadlines s local_text now d site; (more_evs, d) = ticks s local_text rest d
      in (evs @ more_evs, d))"

lemma ticks_stay_quiet:
  "quiet d i n \<Longrightarrow> ticks s local_text ts d = (evs, d') \<Longrightarrow> quiet d' i n \<and> (\<forall>e \<in> set evs. e_id e \<notin> set (alarm_ids i [n]))"
proof (induction ts arbitrary: d evs)
  case (Cons t ts)
  obtain evs1 d1 where 1: "check_breach_deadlines s local_text (fst t) d (snd t) = (evs1, d1)" by fastforce
  obtain evs2 where 2: "ticks s local_text ts d1 = (evs2, d')" "evs = evs1 @ evs2"
    using Cons.prems(2) 1 by (cases t) (auto split: prod.splits)
  show ?case using check_stays_quiet [OF Cons.prems(1) 1] Cons.IH [OF _ 2(1)] 2(2) by auto
qed simp

text \<open>Dealing with a breach ends its alarms: once a notice is recorded, or the breach is closed,
  every alarm raised for that notice (for either notice, on closing) stands acknowledged, and no later
  tick, whenever it runs and whatever the settings then are, raises another.\<close>

theorem handled_notice_is_quiet:
  assumes "record_notice s now b n notified_at reference actor d = Inr (b', d1) \<or>
      close_breach now b close_msg actor d = Inr (b', d1)"
    and "ticks s' local_text ts d1 = (evs, d2)"
  shows "b_id b' = b_id b \<and> \<not> alarm_waiting d2 (b_id b) n \<and> (\<forall>e \<in> set evs. e_id e \<notin> set (alarm_ids (b_id b) [n]))"
proof -
  have "quiet d1 (b_id b) n \<and> b_id b' = b_id b"
    using assms(1)
  proof
    assume a: "record_notice s now b n notified_at reference actor d = Inr (b', d1)"
    obtain b1 where b1: "b1 = (case n of Regulator \<Rightarrow> b\<lparr>b_regulator_notified := Some notified_at, b_regulator_reference := reference\<rparr>
        | Individuals \<Rightarrow> b\<lparr>b_individuals_notified := Some notified_at\<rparr>)" by blast
    have ids: "b_id b1 = b_id b" by (cases n) (simp_all add: b1)
    have "b' = b1" "events d1 = events (snd (acknowledge_alarms b1 [n] actor now (put_breach b1 d)))"
      "breaches d1 = breaches (put_breach b1 d)"
      using a by (cases n; auto simp: record_notice_def b1 Let_def split_beta split: if_splits)+
    moreover have "(case n of Regulator \<Rightarrow> b_regulator_notified b1 | Individuals \<Rightarrow> b_individuals_notified b1) \<noteq> None"
      by (cases n) (simp_all add: b1)
    moreover have "\<not> alarm_waiting (snd (acknowledge_alarms b1 [n] actor now (put_breach b1 d))) (b_id b1) n"
      by (rule acknowledged_none_waiting) simp
    ultimately show ?thesis using ids by (auto simp: quiet_def put_breach_def alarm_waiting_def split: if_splits)
  next
    assume a: "close_breach now b close_msg actor d = Inr (b', d1)"
    let ?b = "b\<lparr>b_closed := Some now, b_closed_by := Some actor, b_close_note := close_msg\<rparr>"
    have "b' = ?b" "events d1 = events (snd (acknowledge_alarms ?b notices actor now (put_breach ?b d)))"
      "breaches d1 = breaches (put_breach ?b d)"
      using a by (auto simp: close_breach_def Let_def split_beta split: if_splits)
    moreover have "\<not> alarm_waiting (snd (acknowledge_alarms ?b notices actor now (put_breach ?b d))) (b_id ?b) n"
      by (rule acknowledged_none_waiting) (cases n; simp add: notices_def)
    ultimately show ?thesis by (auto simp: quiet_def put_breach_def alarm_waiting_def split: if_splits)
  qed
  then show ?thesis using ticks_stay_quiet [OF _ assms(2)] by (auto simp: quiet_def)
qed

text \<open>
  The alarm is one the contract accepts, so the tick never raises; and it says nothing of the
  breach but its id and deadline: two breaches that agree on these have the same alarms.
\<close>

lemma deadline_alarm_valid: "site \<noteq> [] \<Longrightarrow> valid_event (deadline_alarm s local_text site now b n stage)"
  by (simp add: valid_event_def deadline_alarm_def alarm_id_def event_types_def severities_def event_states_def Let_def split_beta)

lemma deadline_alarm_private:
  "b_id b = b_id b' \<Longrightarrow> b_regulator_due b = b_regulator_due b' \<Longrightarrow> b_individuals_due b = b_individuals_due b' \<Longrightarrow>
    deadline_alarm s local_text site now b n stage = deadline_alarm s local_text site now b' n stage"
  by (cases n) (simp_all add: deadline_alarm_def due_and_who_def)

text \<open>No cell of the list of people is read as a formula by a spreadsheet.\<close>

lemma csv_cell_no_formula: "csv_cell v = c # cs \<Longrightarrow> c \<notin> set formula_prefixes"
  by (auto simp: csv_cell_def formula_prefixes_def split: option.splits list.splits if_splits)

section \<open>Concrete instances\<close>

definition demo_breach :: breach where
  "demo_breach = \<lparr>b_id = ''01B'', b_site = ''s1'', b_discovered = 0, b_occurred = None, b_summary = ''lost phone'',
     b_classes = [''positions''], b_notify_individuals = False, b_regulator_due = hours 24, b_individuals_due = None,
     b_regulator_notified = None, b_regulator_reference = None, b_individuals_notified = None,
     b_recorded_by = ''admin'', b_recorded = 0, b_closed = None, b_closed_by = None, b_close_note = None\<rparr>"

definition demo_register :: breach_db where
  "demo_register = shift_db.extend demo_shifts \<lparr>operators = [], breaches = [demo_breach], breach_operators = [], breach_audit = []\<rparr>"

definition demo_breach_settings :: breach_settings where
  "demo_breach_settings = settings.extend demo_settings \<lparr>breach_regulator_name = ''POTRAZ'', breach_regulator_notice_h = 24,
     breach_individuals_notice_h = 72, breach_warn_before_h = 6, breach_deadline_from = ''discovered''\<rparr>"

theorem deadlines_are_alarmed_witness:
  "\<exists>e \<in> set (events (snd (check_breach_deadlines demo_breach_settings (\<lambda>_. ''Mon 01 Jan 00:00'') (hours 25) demo_register ''s1''))).
     e_id e = alarm_id ''01B'' Regulator ''overdue''"
proof -
  obtain evs d' where c: "check_breach_deadlines demo_breach_settings (\<lambda>_. ''Mon 01 Jan 00:00'') (hours 25) demo_register ''s1'' = (evs, d')"
    by fastforce
  have "demo_breach \<in> set (breaches demo_register)" "b_site demo_breach = ''s1''" "b_closed demo_breach = None" "b_id demo_breach = ''01B''"
    by (simp_all add: demo_register_def shift_db.extend_def demo_breach_def)
  moreover have "stage_of (notice_status demo_breach Regulator (hours 25) (hours (breach_warn_before_h demo_breach_settings))) = Some ''overdue''"
    by (simp add: notice_status_def stage_of_def demo_breach_def hours_def seconds_def)
  ultimately show ?thesis using deadlines_are_alarmed [OF c] c by fastforce
qed

theorem handled_notice_is_quiet_witness:
  "\<not> alarm_waiting (snd (ticks demo_breach_settings (\<lambda>_. []) [(hours 30, ''s1'')]
     (snd (projr (record_notice demo_breach_settings (hours 26) demo_breach Regulator (hours 26) None ''admin'' demo_register)))))
     ''01B'' Regulator"
proof -
  have "hours 26 \<le> hours 26 + seconds (max_future_skew_s (settings.truncate demo_breach_settings))"
    by (simp add: demo_breach_settings_def settings.extend_def settings.truncate_def demo_settings_def seconds_def)
  moreover have "max_future_skew_s (settings.truncate demo_breach_settings) = max_future_skew_s demo_breach_settings"
    by (simp add: settings.truncate_def)
  ultimately obtain b' d1 where r: "record_notice demo_breach_settings (hours 26) demo_breach Regulator (hours 26) None ''admin'' demo_register = Inr (b', d1)"
    by (auto simp: record_notice_def Let_def split_beta)
  obtain evs d2 where t: "ticks demo_breach_settings (\<lambda>_. []) [(hours 30, ''s1'')] d1 = (evs, d2)" by fastforce
  have "b_id demo_breach = ''01B''" by (simp add: demo_breach_def)
  with handled_notice_is_quiet [OF disjI1 [OF r] t] r t show ?thesis by simp
qed

end
