(* ===== verification/Access.thy ===== *)
theory Access
  imports Breaches
begin

text \<open>
  Gate passages, \<^verbatim>\<open>src/src/minemonitor/access/service.py\<close>: recording a passage once, the program's own
  verdict on it, the quarantine of passages from a gate whose clock is ahead, physical searches and
  the check of the maintenance tick for searches that were skipped. The shifts of a site come from
  Shifts, the operators table from Breaches. SHA-256 is a parameter (\<open>digest\<close>, the digest as a number).
  A function that raises changes nothing: its caller rolls back or has written nothing yet.
\<close>

section \<open>Tables\<close>

record access_event =
  ae_id :: string
  ae_site :: string
  ae_ts :: time
  ae_source :: string
  ae_gate :: string
  ae_credential :: "string option"
  ae_operator :: "string option"
  ae_decision :: string
  ae_reason :: "string option"
  ae_selected :: bool
  ae_completed :: "bool option"
  ae_metal :: "bool option"
  ae_created :: time
  ae_escalated :: "time option"

record quarantined_event =
  aq_id :: string
  aq_site :: string
  aq_source :: string
  aq_event :: string
  aq_gate :: string
  aq_decision :: string
  aq_claimed :: time
  aq_skew_s :: real
  aq_first_seen :: time

record access_db = breach_db +
  access_events :: "access_event list"
  access_quarantine :: "quarantined_event list"

record access_settings = settings +
  access_search_rate_percent :: int
  access_search_grace_s :: int
  access_gate_offline_s :: int
  retain_access_days :: int

datatype access_error = BadDecision | FutureTimestamp

text \<open>The keyword arguments a normalised gate event is passed in.\<close>

record passage =
  g_source :: string
  g_event :: string
  g_gate :: string
  g_decision :: string
  g_ts :: time
  g_credential :: "string option"
  g_operator :: "string option"
  g_reason :: "string option"
  g_selected :: bool
  g_completed :: "bool option"

section \<open>Recording\<close>

definition access_id :: "string \<Rightarrow> string \<Rightarrow> string \<Rightarrow> string" where
  "access_id site source event = ''access-'' @ site @ ''-'' @ source @ ''-'' @ event"

definition passage_id :: "string \<Rightarrow> passage \<Rightarrow> string" where
  "passage_id site k = access_id site (g_source k) (g_event k)"

definition select_for_search :: "(string \<Rightarrow> nat) \<Rightarrow> string \<Rightarrow> int \<Rightarrow> bool" where
  "select_for_search digest i rate_percent =
     (if rate_percent \<le> 0 then False else int (digest i mod 100) < min rate_percent 100)"

definition get_access :: "access_db \<Rightarrow> string \<Rightarrow> access_event option" where
  "get_access d i = List.find (\<lambda>r. ae_id r = i) (access_events d)"

definition put_access :: "access_event \<Rightarrow> access_db \<Rightarrow> access_db" where
  "put_access row d = d\<lparr>access_events := map (\<lambda>r. if ae_id r = ae_id row then row else r) (access_events d)\<rparr>"

definition record_access_event ::
  "string \<Rightarrow> passage \<Rightarrow> time \<Rightarrow> bool \<Rightarrow> access_db \<Rightarrow> access_error + ((access_event \<times> bool) \<times> access_db)" where
  "record_access_event site k now selected d =
     (if g_decision k \<notin> {''granted'', ''denied''} then Inl BadDecision
      else case get_access d (passage_id site k) of
             Some row \<Rightarrow> Inr ((row, False), d)
           | None \<Rightarrow>
               let row = \<lparr>ae_id = passage_id site k, ae_site = site, ae_ts = g_ts k, ae_source = g_source k,
                     ae_gate = g_gate k, ae_credential = g_credential k, ae_operator = g_operator k,
                     ae_decision = g_decision k, ae_reason = g_reason k, ae_selected = selected,
                     ae_completed = g_completed k, ae_metal = None, ae_created = now, ae_escalated = None\<rparr>
               in Inr ((row, True), d\<lparr>access_events := access_events d @ [row]\<rparr>))"

section \<open>Authorisation\<close>

definition authorize ::
  "(string \<Rightarrow> zone_info) \<Rightarrow> access_db \<Rightarrow> string \<Rightarrow> string option \<Rightarrow> time \<Rightarrow> string \<times> string option" where
  "authorize zones d site operator_ref at_ts =
     (if operator_ref = None \<or> operator_ref = Some [] then (''unknown'', Some ''no operator reference'')
      else case List.find (\<lambda>p. Some (op_id p) = operator_ref) (operators d) of
             None \<Rightarrow> (''unknown'', Some ''operator not registered'')
           | Some p \<Rightarrow>
               if op_site p \<noteq> site then (''unknown'', Some ''operator not registered'')
               else if op_erased p \<noteq> None then (''unknown'', Some ''operator erased'')
               else if op_suspended p then (''denied'', Some ''operator suspended'')
               else if \<not> op_inducted p then (''denied'', Some ''operator not inducted'')
               else if resolve_shift zones d site at_ts = None then (''denied'', Some ''off-shift'')
               else (''granted'', None))"

definition too_far_ahead :: "'s settings_scheme \<Rightarrow> time \<Rightarrow> time \<Rightarrow> bool" where
  "too_far_ahead s ts now \<longleftrightarrow> total_seconds (ts - now) > of_int (max_future_skew_s s)"

definition gate_source :: "string \<Rightarrow> string" where
  "gate_source gate = ''access_gate:'' @ gate"

definition denied_alarm :: "string \<Rightarrow> string \<Rightarrow> passage \<Rightarrow> string option \<Rightarrow> string \<Rightarrow> event" where
  "denied_alarm i site k why row_id =
     \<lparr>e_id = i, e_site = site, e_ts = g_ts k, e_type = ''access_denied'', e_severity = ''critical'', e_asset = None,
      e_zone = None, e_source = gate_source (g_gate k),
      e_summary = [Txt ''Unauthorised entry at '', Txt (g_gate k), Txt '': '',
        Txt (case why of None \<Rightarrow> ''None'' | Some w \<Rightarrow> w), Txt '' (gate granted access)''],
      e_detail = Some [(''gate_id'', JStr (g_gate k)), (''reason'', case why of None \<Rightarrow> JNull | Some w \<Rightarrow> JStr w),
        (''source_decision'', JStr (g_decision k))],
      e_evidence = Some [(''access_event_id'', JStr row_id)], e_advisory = True, e_state = ''open'',
      e_ack_by = None, e_ack_at = None\<rparr>"

definition ingest_access_event ::
  "access_settings \<Rightarrow> (string \<Rightarrow> zone_info) \<Rightarrow> (string \<Rightarrow> nat) \<Rightarrow> time \<Rightarrow> int option \<Rightarrow> string \<Rightarrow> passage \<Rightarrow> access_db
    \<Rightarrow> access_error + ((access_event \<times> bool \<times> event option) \<times> access_db)" where
  "ingest_access_event s zones digest now search_rate site k d =
     (if too_far_ahead s (g_ts k) now then Inl FutureTimestamp
      else
        let rate = (case search_rate of None \<Rightarrow> access_search_rate_percent s | Some r \<Rightarrow> r);
            selected = (g_selected k \<or> g_decision k = ''granted'' \<and> select_for_search digest (passage_id site k) rate)
        in case record_access_event site k now selected d of
             Inl e \<Rightarrow> Inl e
           | Inr ((row, False), d) \<Rightarrow> Inr ((row, False, None), d)
           | Inr ((row, True), d) \<Rightarrow>
               let (verdict, why) = authorize zones d site (g_operator k) (g_ts k)
               in if verdict = ''denied'' \<and> g_decision k = ''granted'' then
                    let (i, d) = new_event_id d; alarm = denied_alarm i site k why (ae_id row)
                    in Inr ((row, True, Some alarm), persist_event (settings.truncate s) now d alarm)
                  else Inr ((row, True, None), d))"

section \<open>Gates whose clock is ahead\<close>

definition human_s :: "real \<Rightarrow> text_pieces" where
  "human_s x =
     (case List.find (\<lambda>(unit, unit_s). x \<ge> unit_s) [('' d'', 86400), ('' h'', 3600), ('' min'', 60)] of
        Some (unit, unit_s) \<Rightarrow> [FmtInt (round_half_even (x / unit_s)), Txt unit]
      | None \<Rightarrow> [FmtInt (round_half_even x), Txt '' s''])"

definition clock_skew :: string where "clock_skew = ''source_clock_skew''"

definition open_skew_alarm :: "access_db \<Rightarrow> string \<Rightarrow> string \<Rightarrow> bool" where
  "open_skew_alarm d site source =
     list_ex (\<lambda>e. e_site e = site \<and> e_type e = clock_skew \<and> e_source e = source \<and> e_state e = ''open'') (events d)"

definition quarantine_future_event ::
  "access_settings \<Rightarrow> string \<Rightarrow> passage \<Rightarrow> time \<Rightarrow> access_db \<Rightarrow> event option \<times> access_db" where
  "quarantine_future_event s site k now d =
     (let qid = passage_id site k; skew_s = total_seconds (g_ts k - now)
      in if list_ex (\<lambda>q. aq_id q = qid) (access_quarantine d) then (None, d)
         else
           let d = d\<lparr>access_quarantine := access_quarantine d @
                 [\<lparr>aq_id = qid, aq_site = site, aq_source = g_source k, aq_event = g_event k, aq_gate = g_gate k,
                   aq_decision = g_decision k, aq_claimed = g_ts k, aq_skew_s = skew_s, aq_first_seen = now\<rparr>]\<rparr>;
               source = gate_source (g_gate k)
           in if open_skew_alarm d site source then (None, d)
              else let (i, d) = new_event_id d;
                       alarm = \<lparr>e_id = i, e_site = site, e_ts = now, e_type = clock_skew, e_severity = ''warning'',
                         e_asset = None, e_zone = None, e_source = source,
                         e_summary = [Txt ''Gate '', Txt (g_gate k), Txt '' clock is ''] @ human_s skew_s @
                           [Txt '' ahead: its passages are not being recorded until the terminal's time is corrected''],
                         e_detail = Some [(''gate_id'', JStr (g_gate k)), (''source_system'', JStr (g_source k)),
                           (''source_event_id'', JStr (g_event k)), (''claimed_ts'', JTime (g_ts k)),
                           (''skew_s'', JReal skew_s), (''max_future_skew_s'', JInt (max_future_skew_s s)),
                           (''provenance'', JStr ''inferred'')],
                         e_evidence = Some [(''access_quarantine_id'', JStr qid)], e_advisory = True, e_state = ''open'',
                         e_ack_by = None, e_ack_at = None\<rparr>
                   in (Some alarm, persist_event (settings.truncate s) now d alarm))"

definition set_operator_access_status ::
  "string \<Rightarrow> string \<Rightarrow> bool option \<Rightarrow> bool option \<Rightarrow> access_db \<Rightarrow> operator option \<times> access_db" where
  "set_operator_access_status site operator_id suspended inducted d =
     (case List.find (\<lambda>p. op_id p = operator_id) (operators d) of
        None \<Rightarrow> (None, d)
      | Some p \<Rightarrow>
          if op_site p \<noteq> site then (None, d)
          else let p = (case suspended of None \<Rightarrow> p | Some b \<Rightarrow> p\<lparr>op_suspended := b\<rparr>);
                   p = (case inducted of None \<Rightarrow> p | Some b \<Rightarrow> p\<lparr>op_inducted := b\<rparr>)
               in (Some p, d\<lparr>operators := map (\<lambda>q. if op_id q = operator_id then p else q) (operators d)\<rparr>))"

definition list_access_events ::
  "access_db \<Rightarrow> string \<Rightarrow> string option \<Rightarrow> string option \<Rightarrow> nat \<Rightarrow> access_event list" where
  "list_access_events d site gate decision limit =
     take (min limit 1000) (sort_key (\<lambda>r. - ae_ts r) (filter (\<lambda>r. ae_site r = site \<and>
        (case gate of None \<Rightarrow> True | Some g \<Rightarrow> ae_gate r = g) \<and>
        (case decision of None \<Rightarrow> True | Some x \<Rightarrow> ae_decision r = x)) (access_events d)))"

section \<open>Searches\<close>

definition event_exists :: "'a db_scheme \<Rightarrow> string \<Rightarrow> bool" where
  "event_exists d i = list_ex (\<lambda>e. e_id e = i) (events d)"

definition search_alarm :: "string \<Rightarrow> string \<Rightarrow> string \<Rightarrow> string \<Rightarrow> string \<Rightarrow> time \<Rightarrow> access_event \<Rightarrow> event" where
  "search_alarm i typ severity summary site now row =
     \<lparr>e_id = i, e_site = site, e_ts = now, e_type = typ, e_severity = severity, e_asset = None, e_zone = None,
      e_source = gate_source (ae_gate row), e_summary = [Txt summary, Txt (ae_gate row)],
      e_detail = Some [(''gate_id'', JStr (ae_gate row)), (''access_event_id'', JStr (ae_id row))],
      e_evidence = Some [(''access_event_id'', JStr (ae_id row))], e_advisory = True, e_state = ''open'',
      e_ack_by = None, e_ack_at = None\<rparr>"

definition complete_search ::
  "access_settings \<Rightarrow> string \<Rightarrow> string \<Rightarrow> bool option \<Rightarrow> time \<Rightarrow> access_db
    \<Rightarrow> (access_event option \<times> event option) \<times> access_db" where
  "complete_search s site i metal_detected now d =
     (case get_access d i of
        None \<Rightarrow> ((None, None), d)
      | Some row \<Rightarrow>
          if ae_site row \<noteq> site then ((None, None), d)
          else
            let row = row\<lparr>ae_completed := Some True\<rparr>;
                row = (case metal_detected of None \<Rightarrow> row | Some m \<Rightarrow> row\<lparr>ae_metal := Some m\<rparr>);
                d = put_access row d
            in if metal_detected = Some True \<and> \<not> event_exists d (''metal-'' @ ae_id row) then
                 let alarm = search_alarm (''metal-'' @ ae_id row) ''metal_detected'' ''critical''
                       ''Metal detected in search at '' site now row
                 in ((Some row, Some alarm), persist_event (settings.truncate s) now d alarm)
               else ((Some row, None), d))"

definition missed_id :: "string \<Rightarrow> string" where
  "missed_id i = ''search-missed-'' @ i"

fun missed_loop ::
  "access_settings \<Rightarrow> string \<Rightarrow> time \<Rightarrow> time \<Rightarrow> access_event list \<Rightarrow> event list \<Rightarrow> access_db \<Rightarrow> event list \<times> access_db" where
  "missed_loop s site now cutoff [] evs d = (evs, d)"
| "missed_loop s site now cutoff (row # rows) evs d =
     (if ae_ts row > cutoff then missed_loop s site now cutoff rows evs d
      else
        let d = put_access (row\<lparr>ae_escalated := Some now\<rparr>) d
        in if event_exists d (missed_id (ae_id row)) then missed_loop s site now cutoff rows evs d
           else let ev = search_alarm (missed_id (ae_id row)) ''search_missed'' ''warning''
                      ''Selected search not completed at '' site now row
                in missed_loop s site now cutoff rows (evs @ [ev]) (persist_event (settings.truncate s) now d ev))"

definition search_pending :: "string \<Rightarrow> access_event \<Rightarrow> bool" where
  "search_pending site r \<longleftrightarrow> ae_site r = site \<and> ae_selected r \<and> ae_completed r \<noteq> Some True \<and> ae_escalated r = None"

definition detect_missed_searches ::
  "access_settings \<Rightarrow> time \<Rightarrow> int option \<Rightarrow> access_db \<Rightarrow> string \<Rightarrow> event list \<times> access_db" where
  "detect_missed_searches s now grace_s d site =
     (let grace = (case grace_s of None \<Rightarrow> access_search_grace_s s | Some g \<Rightarrow> g); cutoff = now - seconds grace
      in missed_loop s site now cutoff (filter (search_pending site) (access_events d)) [] d)"

section \<open>What a stored alarm leaves alone\<close>

lemma persist_keeps [simp]:
  "access_events (persist_event st now d ev) = access_events d"
  "access_quarantine (persist_event st now d ev) = access_quarantine d"
  "operators (persist_event st now d ev) = operators d"
proof -
  have more: "db.more (persist_event st now d ev) = db.more d" using persist_event_frame [of d st now ev] by (simp add: outbox_only_def)
  show "access_events (persist_event st now d ev) = access_events d"
    "access_quarantine (persist_event st now d ev) = access_quarantine d"
    "operators (persist_event st now d ev) = operators d"
    using more by (cases d, cases "persist_event st now d ev", simp)+
qed

lemma get_access_None: "get_access d i = None \<longleftrightarrow> i \<notin> ae_id ` set (access_events d)"
  by (auto simp: get_access_def find_None_iff_all)

lemma get_access_Some: "get_access d i = Some r \<Longrightarrow> r \<in> set (access_events d) \<and> ae_id r = i"
  unfolding get_access_def by (rule find_Some_mem)

lemma ids_put_access [simp]: "ae_id ` set (access_events (put_access row d)) = ae_id ` set (access_events d)"
proof -
  have "map ae_id (access_events (put_access row d)) = map ae_id (access_events d)" by (simp add: put_access_def)
  then show ?thesis by (metis list.set_map)
qed

lemma events_put_access [simp]: "events (put_access row d) = events d"
  by (simp add: put_access_def)

lemma event_exists_iff: "event_exists d i \<longleftrightarrow> i \<in> e_id ` set (events d)"
  by (auto simp: event_exists_def list_ex_iff)

lemma alarm_ids_simps [simp]:
  "e_id (search_alarm i typ severity summary site now row) = i"
  "e_id (denied_alarm i site k why row_id) = i"
  "search_alarm i typ severity summary site now row\<lparr>e_advisory := True\<rparr> = search_alarm i typ severity summary site now row"
  "denied_alarm i site k why row_id\<lparr>e_advisory := True\<rparr> = denied_alarm i site k why row_id"
  by (simp_all add: search_alarm_def denied_alarm_def)

section \<open>Who should not have been let in\<close>

definition barred :: "(string \<Rightarrow> zone_info) \<Rightarrow> access_db \<Rightarrow> string \<Rightarrow> string option \<Rightarrow> time \<Rightarrow> bool" where
  "barred zones d site operator_ref t \<longleftrightarrow>
     operator_ref \<noteq> Some [] \<and> (\<exists>p. List.find (\<lambda>p. Some (op_id p) = operator_ref) (operators d) = Some p \<and>
        op_site p = site \<and> op_erased p = None \<and>
        (op_suspended p \<or> \<not> op_inducted p \<or>
         (\<forall>day. \<forall>w \<in> set (day_windows site (site_timezone zones d site) (definitions d site) day).
            \<not> (w_start w \<le> t \<and> t < w_end w))))"

lemma authorize_denied:
  assumes "definitions_ok d'" "fixed_offset (site_timezone zones d site) off"
    and same: "shift_definitions d' = shift_definitions d"
  shows "fst (authorize zones d site operator_ref t) = ''denied'' \<longleftrightarrow> barred zones d site operator_ref t"
proof -
  have ok: "definitions_ok d" using assms(1) same by (simp add: definitions_ok_def)
  have "resolve_shift zones d site t = None \<longleftrightarrow>
      (\<forall>day. \<forall>w \<in> set (day_windows site (site_timezone zones d site) (definitions d site) day). \<not> (w_start w \<le> t \<and> t < w_end w))"
    (is "?none \<longleftrightarrow> ?outside")
  proof
    assume ?none
    then show ?outside using resolve_shift_none [OF ok assms(2)] by simp
  next
    assume ?outside
    then show ?none using resolve_shift_some [of zones d site t] by (cases "resolve_shift zones d site t") auto
  qed
  then show ?thesis
    by (cases "List.find (\<lambda>p. Some (op_id p) = operator_ref) (operators d)")
      (auto simp: authorize_def barred_def dest: find_Some_mem)
qed

text \<open>C18: an unauthorised entry the gate let through is always alarmed, and nothing else is: a passage is
  stored exactly when its id is new, and a critical alarm is raised exactly when it is stored, the
  gate granted it, and its registered operator is suspended, not inducted or outside every shift of
  the site; a passage seen before changes nothing.\<close>

theorem unauthorised_entry_is_alarmed:
  assumes "ingest_access_event s zones digest now rate site k d = Inr ((row, created, alarm), d')"
    and "definitions_ok d" "fixed_offset (site_timezone zones d site) off"
  shows "(created \<longleftrightarrow> passage_id site k \<notin> ae_id ` set (access_events d)) \<and>
    (if created then access_events d' = access_events d @ [row] \<and> ae_id row = passage_id site k \<and> ae_ts row = g_ts k \<and>
        ae_decision row = g_decision k else d' = d \<and> row \<in> set (access_events d) \<and> ae_id row = passage_id site k) \<and>
    (alarm \<noteq> None \<longleftrightarrow> created \<and> g_decision k = ''granted'' \<and> barred zones d site (g_operator k) (g_ts k)) \<and>
    events d' = events d @ (case alarm of None \<Rightarrow> [] | Some ev \<Rightarrow> [ev]) \<and>
    pred_option (\<lambda>ev. e_severity ev = ''critical'' \<and> e_type ev = ''access_denied'' \<and> e_site ev = site \<and>
      e_ts ev = g_ts k) alarm"
proof -
  let ?sel = "g_selected k \<or> g_decision k = ''granted'' \<and> select_for_search digest (passage_id site k)
      (case rate of None \<Rightarrow> access_search_rate_percent s | Some r \<Rightarrow> r)"
  obtain row' new d1 where r: "record_access_event site k now ?sel d = Inr ((row', new), d1)"
    using assms(1) by (auto simp: ingest_access_event_def Let_def split: if_splits sum.splits)
  show ?thesis
  proof (cases new)
    case False
    then have "row' \<in> set (access_events d) \<and> ae_id row' = passage_id site k" "d1 = d"
      using r get_access_Some [of d "passage_id site k"] by (auto simp: record_access_event_def Let_def split: if_splits option.splits)
    moreover have "row = row'" "created = False" "alarm = None" "d' = d1"
      using assms(1) r False by (auto simp: ingest_access_event_def Let_def split: if_splits)
    ultimately show ?thesis by force
  next
    case True
    then have new: "passage_id site k \<notin> ae_id ` set (access_events d)"
      and row: "ae_id row' = passage_id site k" "ae_ts row' = g_ts k" "ae_decision row' = g_decision k"
      and d1: "d1 = d\<lparr>access_events := access_events d @ [row']\<rparr>"
      using r get_access_None [of d "passage_id site k"]
      by (auto simp: record_access_event_def Let_def split: if_splits option.splits)
    have off: "fixed_offset (site_timezone zones d1 site) off" using assms(3) d1 by (simp add: site_timezone_def)
    have "fst (authorize zones d1 site (g_operator k) (g_ts k)) = ''denied'' \<longleftrightarrow> barred zones d1 site (g_operator k) (g_ts k)"
      by (rule authorize_denied [OF assms(2) off]) (simp add: d1)
    then have verdict: "fst (authorize zones d1 site (g_operator k) (g_ts k)) = ''denied'' \<longleftrightarrow> barred zones d site (g_operator k) (g_ts k)"
      by (simp add: barred_def d1 site_timezone_def definitions_def)
    show ?thesis
      using assms(1) r True new row d1 verdict
      by (auto simp: ingest_access_event_def Let_def new_event_id_def split_beta denied_alarm_def split: if_splits)
  qed
qed

section \<open>A skipped search is reported once\<close>

text \<open>What happens to the access tables between two looks at them; \<open>Purge\<close> is retention deleting events.\<close>

datatype gate_act =
    Pass_gate time "int option" string passage
  | Searched string string "bool option" time
  | Missed_check time string
  | Purge "event \<Rightarrow> bool"
  | Staff string string "bool option" "bool option"

fun gate_do ::
  "access_settings \<Rightarrow> (string \<Rightarrow> zone_info) \<Rightarrow> (string \<Rightarrow> nat) \<Rightarrow> access_db \<Rightarrow> gate_act \<Rightarrow> access_db" where
  "gate_do s zones digest d (Pass_gate now rate site k) =
     (case ingest_access_event s zones digest now rate site k d of
        Inl FutureTimestamp \<Rightarrow> snd (quarantine_future_event s site k now d)
      | Inl BadDecision \<Rightarrow> d
      | Inr (_, d') \<Rightarrow> d')"
| "gate_do s zones digest d (Searched site i metal now) = snd (complete_search s site i metal now d)"
| "gate_do s zones digest d (Missed_check now site) = snd (detect_missed_searches s now None d site)"
| "gate_do s zones digest d (Purge keep) = d\<lparr>events := filter keep (events d)\<rparr>"
| "gate_do s zones digest d (Staff site i suspended inducted) = snd (set_operator_access_status site i suspended inducted d)"

fun reports :: "access_settings \<Rightarrow> string \<Rightarrow> access_db \<Rightarrow> gate_act \<Rightarrow> bool" where
  "reports s i d (Missed_check now site) = (missed_id i \<in> e_id ` set (fst (detect_missed_searches s now None d site)))"
| "reports s i d _ = False"

definition settled :: "string \<Rightarrow> access_db \<Rightarrow> bool" where
  "settled i d \<longleftrightarrow> i \<in> ae_id ` set (access_events d) \<and>
     (\<forall>r \<in> set (access_events d). ae_id r = i \<longrightarrow> ae_escalated r \<noteq> None)"

lemma missed_id_inj [simp]: "missed_id i = missed_id j \<longleftrightarrow> i = j"
  by (simp add: missed_id_def)

lemma settled_put:
  assumes "ae_id row = i \<Longrightarrow> ae_escalated row \<noteq> None" "settled i d \<or> ae_id row = i \<and> i \<in> ae_id ` set (access_events d)"
  shows "settled i (put_access row d)"
proof -
  have "i \<in> ae_id ` set (access_events (put_access row d))" using assms(2) by (auto simp only: settled_def ids_put_access)
  moreover have "ae_escalated r \<noteq> None" if "r \<in> set (access_events (put_access row d))" "ae_id r = i" for r
    using that assms by (auto simp: settled_def put_access_def split: if_splits)
  ultimately show ?thesis by (simp add: settled_def)
qed

lemma settled_persist [simp]: "settled i (persist_event st now d ev) = settled i d"
  by (simp add: settled_def)

text \<open>One pass of the check over pending rows.\<close>

lemma missed_loop_spec:
  assumes "missed_loop s site now cutoff rows evs d = (evs', d')"
    and "\<forall>r \<in> set rows. ae_id r \<in> ae_id ` set (access_events d)"
  shows "(missed_id i \<in> e_id ` set evs' \<longleftrightarrow> missed_id i \<in> e_id ` set evs \<or>
      (\<exists>r \<in> set rows. ae_id r = i \<and> ae_ts r \<le> cutoff) \<and> missed_id i \<notin> e_id ` set (events d)) \<and>
    (settled i d \<longrightarrow> settled i d') \<and> ((\<exists>r \<in> set rows. ae_id r = i \<and> ae_ts r \<le> cutoff) \<longrightarrow> settled i d')"
  using assms
proof (induction rows arbitrary: evs d)
  case Nil
  then show ?case by simp
next
  case (Cons row rows)
  show ?case
  proof (cases "ae_ts row > cutoff")
    case True
    then have "missed_loop s site now cutoff rows evs d = (evs', d')" using Cons.prems(1) by simp
    from Cons.IH [OF this] show ?thesis using Cons.prems(2) True by auto
  next
    case False
    define d1 where "d1 = put_access (row\<lparr>ae_escalated := Some now\<rparr>) d"
    have ids: "ae_id ` set (access_events d1) = ae_id ` set (access_events d)" "events d1 = events d" by (simp_all add: d1_def)
    have s1: "settled (ae_id row) d1" "settled i d \<Longrightarrow> settled i d1"
      using settled_put [of "row\<lparr>ae_escalated := Some now\<rparr>" _ d] Cons.prems(2) by (simp_all add: d1_def)
    show ?thesis
    proof (cases "event_exists d1 (missed_id (ae_id row))")
      case True
      then have "missed_loop s site now cutoff rows evs d1 = (evs', d')" using Cons.prems(1) False by (simp add: d1_def)
      from Cons.IH [OF this] show ?thesis using Cons.prems(2) False True ids s1 by (auto simp: event_exists_iff)
    next
      case new: False
      let ?ev = "search_alarm (missed_id (ae_id row)) ''search_missed'' ''warning'' ''Selected search not completed at '' site now row"
      have "missed_loop s site now cutoff rows (evs @ [?ev]) (persist_event (settings.truncate s) now d1 ?ev) = (evs', d')"
        using Cons.prems(1) False new by (simp add: d1_def Let_def)
      from Cons.IH [OF this] show ?thesis using Cons.prems(2) False new ids s1 by (auto simp: event_exists_iff)
    qed
  qed
qed

lemma detect_spec:
  "missed_id i \<in> e_id ` set (fst (detect_missed_searches s now None d site)) \<longleftrightarrow>
     (\<exists>r \<in> set (access_events d). search_pending site r \<and> ae_id r = i \<and> ae_ts r + seconds (access_search_grace_s s) \<le> now) \<and>
     missed_id i \<notin> e_id ` set (events d)"
  "settled i d \<Longrightarrow> settled i (snd (detect_missed_searches s now None d site))"
  "r \<in> set (access_events d) \<Longrightarrow> search_pending site r \<Longrightarrow> ae_ts r + seconds (access_search_grace_s s) \<le> now \<Longrightarrow>
     settled (ae_id r) (snd (detect_missed_searches s now None d site))"
proof -
  obtain evs' d' where m: "missed_loop s site now (now - seconds (access_search_grace_s s))
      (filter (search_pending site) (access_events d)) [] d = (evs', d')" by fastforce
  then have det: "detect_missed_searches s now None d site = (evs', d')" by (simp add: detect_missed_searches_def Let_def)
  note spec = missed_loop_spec [OF m]
  show "missed_id i \<in> e_id ` set (fst (detect_missed_searches s now None d site)) \<longleftrightarrow>
     (\<exists>r \<in> set (access_events d). search_pending site r \<and> ae_id r = i \<and> ae_ts r + seconds (access_search_grace_s s) \<le> now) \<and>
     missed_id i \<notin> e_id ` set (events d)"
    using spec [of i] by (auto simp: det le_diff_eq)
  show "settled i d \<Longrightarrow> settled i (snd (detect_missed_searches s now None d site))"
    using spec [of i] by (auto simp: det)
  show "r \<in> set (access_events d) \<Longrightarrow> search_pending site r \<Longrightarrow> ae_ts r + seconds (access_search_grace_s s) \<le> now \<Longrightarrow>
     settled (ae_id r) (snd (detect_missed_searches s now None d site))"
    using spec [of "ae_id r"] by (force simp: det le_diff_eq)
qed

lemma gate_settled_cong: "access_events d' = access_events d \<Longrightarrow> settled i d' = settled i d"
  by (simp add: settled_def)

lemma ingest_keeps_rows:
  assumes "ingest_access_event s zones digest now rate site k d = Inr (res, d')"
  shows "access_events d' = access_events d \<or>
    (\<exists>row. access_events d' = access_events d @ [row] \<and> ae_id row \<notin> ae_id ` set (access_events d))"
  using assms get_access_None [of d "passage_id site k"]
  by (auto simp: ingest_access_event_def record_access_event_def Let_def new_event_id_def split_beta
      split: if_splits option.splits)

lemma quarantine_keeps_rows [simp]: "access_events (snd (quarantine_future_event s site k now d)) = access_events d"
  by (simp add: quarantine_future_event_def Let_def new_event_id_def)

lemma settled_step:
  assumes "settled i d"
  shows "settled i (gate_do s zones digest d act)"
proof (cases act)
  case (Pass_gate now rate site k)
  show ?thesis
  proof (cases "ingest_access_event s zones digest now rate site k d")
    case (Inl e)
    then show ?thesis using assms Pass_gate by (cases e) (simp_all add: settled_def)
  next
    case (Inr x)
    obtain res d' where x: "x = (res, d')" by (cases x)
    show ?thesis using ingest_keeps_rows [OF Inr [unfolded x]] assms Inr Pass_gate x by (auto simp: settled_def)
  qed
next
  case (Searched site j metal now)
  show ?thesis
  proof (cases "get_access d j")
    case None
    then show ?thesis using assms Searched by (simp add: complete_search_def)
  next
    case (Some row)
    let ?row = "(case metal of None \<Rightarrow> row\<lparr>ae_completed := Some True\<rparr> | Some m \<Rightarrow> row\<lparr>ae_completed := Some True, ae_metal := Some m\<rparr>)"
    have row: "row \<in> set (access_events d)" "ae_id row = j" using get_access_Some [OF Some] by simp_all
    have "settled i (put_access ?row d)"
      using assms row by (intro settled_put) (auto simp: settled_def split: option.split)
    then show ?thesis using assms Searched Some
      by (cases metal) (auto simp: complete_search_def Let_def)
  qed
next
  case (Missed_check now site)
  then show ?thesis using assms by (simp add: detect_spec)
next
  case (Purge keep)
  then show ?thesis using assms by (simp add: settled_def)
next
  case (Staff site j suspended inducted)
  then show ?thesis using assms by (simp add: settled_def set_operator_access_status_def Let_def split: option.split)
qed

text \<open>A passage whose search is reported is latched for good: nothing ever re-arms it.\<close>

interpretation skipped: latch "reports s i" "gate_do s zones digest" "settled i" "\<lambda>_ _. False"
proof
  fix d act
  have pending: "\<exists>r \<in> set (access_events d). search_pending site r \<and> ae_id r = i \<and> ae_ts r + seconds (access_search_grace_s s) \<le> now"
    if "reports s i d act" "act = Missed_check now site" for now site
    using that detect_spec(1) [of i s now d site] by simp
  show "\<not> settled i d" if fired: "reports s i d act"
  proof (cases act)
    case (Missed_check now site)
    then show ?thesis using pending [OF fired Missed_check] by (auto simp: settled_def search_pending_def)
  qed (use fired in simp_all)
  show "settled i (gate_do s zones digest d act)" if fired: "reports s i d act"
  proof (cases act)
    case (Missed_check now site)
    then show ?thesis using pending [OF fired Missed_check] detect_spec(3) [of _ d site s now] by auto
  qed (use fired in simp_all)
  show "settled i d \<Longrightarrow> settled i (gate_do s zones digest d act)" by (rule settled_step)
qed

text \<open>A search that was skipped is reported, once: the check that first finds the grace period of a
  selected, uncompleted passage over raises its alarm, and none is raised for it again whatever
  happens after: later checks, passages, late completion, even retention deleting the alarm.\<close>

theorem skipped_search_reported_once:
  assumes "r \<in> set (access_events d)" "search_pending site r"
    and "ae_ts r + seconds (access_search_grace_s s) \<le> now" "\<not> event_exists d (missed_id (ae_id r))"
  shows "fires (reports s (ae_id r)) (gate_do s zones digest) d (Missed_check now site # acts) = 1"
proof -
  have "reports s (ae_id r) d (Missed_check now site)"
    using assms detect_spec(1) [of "ae_id r" s now d site] by (auto simp: event_exists_iff)
  moreover have "never (\<lambda>_ _. False) (gate_do s zones digest) d' acts" for d' by (induction acts arbitrary: d') simp_all
  moreover from calculation(2) have "fires (reports s (ae_id r)) (gate_do s zones digest) d (Missed_check now site # acts) \<le> 1"
    by (intro skipped.at_most_once) simp
  ultimately show ?thesis by simp
qed

section \<open>Concrete instances\<close>

definition demo_gate_settings :: access_settings where
  "demo_gate_settings = settings.extend demo_settings \<lparr>access_search_rate_percent = 0, access_search_grace_s = 900,
     access_gate_offline_s = 600, retain_access_days = 365\<rparr>"

definition demo_worker :: operator where
  "demo_worker = \<lparr>op_id = ''OP-1'', op_site = ''s1'', op_name = Some ''A Person'', op_ref = None, op_contact = None,
     op_suspended = True, op_inducted = True, op_created = 0, op_erased = None\<rparr>"

definition demo_gate :: access_db where
  "demo_gate = breach_db.extend (demo_register\<lparr>operators := [demo_worker]\<rparr>) \<lparr>access_events = [], access_quarantine = []\<rparr>"

definition demo_passage :: passage where
  "demo_passage = \<lparr>g_source = ''dahua_gate'', g_event = ''g-1'', g_gate = ''main'', g_decision = ''granted'', g_ts = 8 * hour_us,
     g_credential = None, g_operator = Some ''OP-1'', g_reason = None, g_selected = True, g_completed = None\<rparr>"

lemma demo_gate_simps [simp]:
  "access_events demo_gate = []" "operators demo_gate = [demo_worker]" "shift_definitions demo_gate = []"
  "site_timezones demo_gate = []" "events demo_gate = []"
  by (simp_all add: demo_gate_def demo_register_def demo_shifts_def breach_db.extend_def shift_db.extend_def
      feed_db.extend_def db.extend_def empty_db_def)

lemma demo_gate_ok: "definitions_ok demo_gate" "fixed_offset (site_timezone (\<lambda>_. harare) demo_gate ''s1'') (2 * hour_us)"
  by (simp_all add: definitions_ok_def site_timezone_def fixed_offset_def harare_def)

theorem unauthorised_entry_is_alarmed_witness:
  "\<exists>row ev d'. ingest_access_event demo_gate_settings (\<lambda>_. harare) (\<lambda>_. 0) (8 * hour_us) None ''s1'' demo_passage demo_gate =
       Inr ((row, True, Some ev), d') \<and> e_severity ev = ''critical'' \<and> events d' = [ev]"
proof -
  obtain row created alarm d' where i: "ingest_access_event demo_gate_settings (\<lambda>_. harare) (\<lambda>_. 0) (8 * hour_us) None ''s1''
      demo_passage demo_gate = Inr ((row, created, alarm), d')"
    by (simp add: ingest_access_event_def too_far_ahead_def demo_gate_settings_def settings.extend_def demo_settings_def
        record_access_event_def demo_passage_def get_access_def Let_def authorize_def demo_worker_def new_event_id_def)
  have "barred (\<lambda>_. harare) demo_gate ''s1'' (g_operator demo_passage) (g_ts demo_passage)"
    by (simp add: barred_def demo_passage_def demo_worker_def)
  then show ?thesis
    using unauthorised_entry_is_alarmed [OF i demo_gate_ok] i
    by (cases alarm) (auto simp: demo_passage_def)
qed

definition demo_gate_row :: access_event where
  "demo_gate_row = \<lparr>ae_id = ''access-s1-dahua_gate-g-1'', ae_site = ''s1'', ae_ts = 0, ae_source = ''dahua_gate'', ae_gate = ''main'',
     ae_credential = None, ae_operator = None, ae_decision = ''granted'', ae_reason = None, ae_selected = True,
     ae_completed = None, ae_metal = None, ae_created = 0, ae_escalated = None\<rparr>"

theorem skipped_search_reported_once_witness:
  "fires (reports demo_gate_settings (ae_id demo_gate_row)) (gate_do demo_gate_settings (\<lambda>_. harare) (\<lambda>_. 0))
     (demo_gate\<lparr>access_events := [demo_gate_row]\<rparr>)
     [Missed_check (seconds 900) ''s1'', Purge (\<lambda>_. False), Missed_check (seconds 1800) ''s1''] = 1"
  by (rule skipped_search_reported_once)
     (simp_all add: demo_gate_row_def search_pending_def demo_gate_settings_def settings.extend_def event_exists_def)

text \<open>
  The id of a passage joins its parts with hyphens, which the parts may contain: passages of two
  sources can get one id, and the second is then taken for a replay of the first, neither stored nor
  checked.
\<close>

lemma passage_ids_collide:
  "passage_id ''s1'' (demo_passage\<lparr>g_source := ''gate'', g_event := ''b-1''\<rparr>) =
   passage_id ''s1'' (demo_passage\<lparr>g_source := ''gate-b'', g_event := ''1''\<rparr>)"
  by (simp add: passage_id_def access_id_def)

lemma colliding_passage_is_lost:
  assumes "passage_id site k \<in> ae_id ` set (access_events d)" "g_decision k \<in> {''granted'', ''denied''}"
    and "\<not> too_far_ahead s (g_ts k) now"
  shows "\<exists>row. ingest_access_event s zones digest now rate site k d = Inr ((row, False, None), d)"
  using assms get_access_None [of d "passage_id site k"]
  by (auto simp: ingest_access_event_def record_access_event_def Let_def)

end
