(* ===== verification/GatePoller.thy ===== *)
theory GatePoller
  imports Access
begin

text \<open>
  The poller of the gate appliance, \<^verbatim>\<open>src/src/minemonitor/ingest/adapters/dahua_gate.py\<close>, and the
  normaliser of gate events, \<^verbatim>\<open>src/src/minemonitor/ingest/adapters/access_sim.py\<close>. It composes the
  recording of passages (Access) with the reachability of the feed (SourceHealth). The appliance is
  a parameter: \<open>fetch\<close> gives the raw events newer than a time or the text of an error. So are \<^verbatim>\<open>str\<close> on
  values that are not texts (\<open>text_of\<close>) and \<^verbatim>\<open>datetime.fromisoformat\<close> (\<open>fromiso\<close>: None where it raises, and
  whether the text carries an offset). A credential, operator or reason that is not a text is read
  as its text.
\<close>

section \<open>Normalising\<close>

type_synonym raw = dict

definition truth :: "json \<Rightarrow> bool" where
  "truth v = (case v of JNull \<Rightarrow> False | JBool b \<Rightarrow> b | JInt n \<Rightarrow> n \<noteq> 0 | JReal x \<Rightarrow> x \<noteq> 0 | JStr t \<Rightarrow> t \<noteq> []
     | JTime _ \<Rightarrow> True | JArr xs \<Rightarrow> xs \<noteq> [] | JObj d \<Rightarrow> d \<noteq> [])"

definition str_of :: "(json \<Rightarrow> string) \<Rightarrow> json \<Rightarrow> string" where
  "str_of text_of v = (case v of JStr t \<Rightarrow> t | _ \<Rightarrow> text_of v)"

definition raw_get :: "raw \<Rightarrow> string \<Rightarrow> json \<Rightarrow> json" where
  "raw_get raw k dflt = (case map_of raw k of None \<Rightarrow> dflt | Some v \<Rightarrow> v)"

definition opt_text :: "(json \<Rightarrow> string) \<Rightarrow> raw \<Rightarrow> string \<Rightarrow> string option" where
  "opt_text text_of raw k = (case raw_get raw k JNull of JNull \<Rightarrow> None | v \<Rightarrow> Some (str_of text_of v))"

definition biometric_keys :: "string list" where
  "biometric_keys = [''face_template'', ''template'', ''image'', ''photo'', ''face'', ''embedding'', ''biometric'']"

definition required_keys :: "string list" where
  "required_keys = [''id'', ''source_system'', ''gate_id'', ''time'', ''decision'']"

definition zulu :: "string \<Rightarrow> string" where
  "zulu t = concat (map (\<lambda>c. if c = CHR ''Z'' then ''+00:00'' else [c]) t)"

definition parse_ts :: "(string \<Rightarrow> (time \<times> bool) option) \<Rightarrow> json \<Rightarrow> time option" where
  "parse_ts fromiso v =
     (case v of
        JStr t \<Rightarrow> (case fromiso (zulu t) of None \<Rightarrow> None | Some (ts, aware) \<Rightarrow> if aware then Some ts else None)
      | _ \<Rightarrow> None)"

text \<open>None where the source raises \<^verbatim>\<open>ValueError\<close>.\<close>

definition normalise_access_event ::
  "(json \<Rightarrow> string) \<Rightarrow> (string \<Rightarrow> (time \<times> bool) option) \<Rightarrow> raw \<Rightarrow> passage option" where
  "normalise_access_event text_of fromiso raw =
     (if \<exists>k \<in> set biometric_keys. k \<in> fst ` set raw then None
      else if \<exists>k \<in> set required_keys. raw_get raw k JNull = JNull \<or> raw_get raw k JNull = JStr [] then None
      else case parse_ts fromiso (raw_get raw ''time'' JNull) of
             None \<Rightarrow> None
           | Some ts \<Rightarrow>
               let text = (\<lambda>k. str_of text_of (raw_get raw k JNull))
               in Some \<lparr>g_source = text ''source_system'', g_event = text ''id'', g_gate = text ''gate_id'',
                    g_decision = text ''decision'', g_ts = ts, g_credential = opt_text text_of raw ''credential_ref'',
                    g_operator = opt_text text_of raw ''operator_ref'', g_reason = opt_text text_of raw ''reason'',
                    g_selected = truth (raw_get raw ''search_selected'' (JBool False)),
                    g_completed = (case raw_get raw ''search_completed'' JNull of JNull \<Rightarrow> None | v \<Rightarrow> Some (truth v))\<rparr>)"

text \<open>A recorded batch: None where an event is refused, which aborts the batch before its commit.\<close>

fun ingest_access_events ::
  "access_settings \<Rightarrow> (string \<Rightarrow> zone_info) \<Rightarrow> (string \<Rightarrow> nat) \<Rightarrow> (json \<Rightarrow> string) \<Rightarrow> (string \<Rightarrow> (time \<times> bool) option) \<Rightarrow> time
    \<Rightarrow> string \<Rightarrow> raw list \<Rightarrow> access_event list \<Rightarrow> event list \<Rightarrow> access_db \<Rightarrow> ((access_event list \<times> event list) \<times> access_db) option" where
  "ingest_access_events s zones digest text_of fromiso now site [] new alarms d = Some ((new, alarms), d)"
| "ingest_access_events s zones digest text_of fromiso now site (raw # raws) new alarms d =
     (case normalise_access_event text_of fromiso raw of
        None \<Rightarrow> None
      | Some k \<Rightarrow>
          (case ingest_access_event s zones digest now None site k d of
             Inl _ \<Rightarrow> None
           | Inr ((row, created, alarm), d) \<Rightarrow>
               ingest_access_events s zones digest text_of fromiso now site raws
                 (if created then new @ [row] else new)
                 (case alarm of None \<Rightarrow> alarms | Some ev \<Rightarrow> alarms @ [ev]) d))"

section \<open>The appliance\<close>

definition lower :: "string \<Rightarrow> string" where
  "lower t = map (\<lambda>c. if CHR ''A'' \<le> c \<and> c \<le> CHR ''Z'' then char_of (of_char c + (32 :: nat)) else c) t"

definition json_or :: "json \<Rightarrow> json \<Rightarrow> json" where
  "json_or a b = (if truth a then a else b)"

text \<open>One vendor event as a raw event; keys without a value are left out.\<close>

definition to_raw :: "(json \<Rightarrow> string) \<Rightarrow> string \<Rightarrow> raw \<Rightarrow> raw" where
  "to_raw text_of source_system vendor =
     (let get2 = (\<lambda>a b. raw_get vendor a (raw_get vendor b (JStr [])));
          status = lower (str_of text_of (get2 ''Status'' ''Result''));
          decision = (if status \<in> {''granted'', ''pass'', ''allow'', ''1'', ''true''} then ''granted'' else ''denied'')
      in filter (\<lambda>(k, v). v \<noteq> JNull)
           [(''id'', JStr (str_of text_of (get2 ''RecordID'' ''id''))), (''source_system'', JStr source_system),
            (''gate_id'', JStr (str_of text_of (get2 ''DeviceName'' ''gate_id''))), (''time'', get2 ''AlarmTime'' ''time''),
            (''decision'', JStr decision),
            (''credential_ref'', json_or (raw_get vendor ''CardNo'' JNull) (raw_get vendor ''credential_ref'' JNull)),
            (''operator_ref'', json_or (raw_get vendor ''PersonRef'' JNull) (raw_get vendor ''operator_ref'' JNull)),
            (''reason'', json_or (raw_get vendor ''Reason'' JNull) (raw_get vendor ''reason'' JNull))])"

text \<open>The body of the vendor's answer: None where the source raises because it is not a list of events.\<close>

definition fetch_payload :: "(json \<Rightarrow> string) \<Rightarrow> string \<Rightarrow> json \<Rightarrow> raw list option" where
  "fetch_payload text_of source_system payload =
     (case (case payload of JObj d \<Rightarrow> raw_get d ''events'' payload | _ \<Rightarrow> payload) of
        JArr vs \<Rightarrow> those (map (\<lambda>v. case v of JObj d \<Rightarrow> Some (to_raw text_of source_system d) | _ \<Rightarrow> None) vs)
      | _ \<Rightarrow> None)"

text \<open>
  The appliance that keeps a list of events and answers with those newer than a time; an event
  without a time, or whose time does not parse, makes it raise.
\<close>

definition simulated_time :: "(json \<Rightarrow> string) \<Rightarrow> (string \<Rightarrow> (time \<times> bool) option) \<Rightarrow> raw \<Rightarrow> (time \<times> bool) option" where
  "simulated_time text_of fromiso raw =
     (case map_of raw ''time'' of None \<Rightarrow> None | Some v \<Rightarrow> fromiso (zulu (str_of text_of v)))"

definition simulated_fetch ::
  "(json \<Rightarrow> string) \<Rightarrow> (string \<Rightarrow> (time \<times> bool) option) \<Rightarrow> raw list \<Rightarrow> time option \<Rightarrow> string + raw list" where
  "simulated_fetch text_of fromiso stored since =
     (case since of
        None \<Rightarrow> Inr stored
      | Some t \<Rightarrow>
          if \<exists>raw \<in> set stored. simulated_time text_of fromiso raw = None then Inl ''ValueError''
          else Inr (filter (\<lambda>raw. case simulated_time text_of fromiso raw of
                 None \<Rightarrow> False | Some (ts, aware) \<Rightarrow> aware \<and> ts > t) stored))"

section \<open>The poller\<close>

definition feed_rows :: "access_db \<Rightarrow> string \<Rightarrow> string \<Rightarrow> access_event list" where
  "feed_rows d site source = filter (\<lambda>r. ae_site r = site \<and> ae_source r = source) (access_events d)"

definition since_cursor :: "access_db \<Rightarrow> string \<Rightarrow> string \<Rightarrow> int \<Rightarrow> time option" where
  "since_cursor d site source overlap_s =
     (case (max_by ae_ts (feed_rows d site source), max_by ae_created (feed_rows d site source)) of
        (Some a, Some b) \<Rightarrow> Some (min (ae_ts a) (ae_created b) - seconds overlap_s)
      | _ \<Rightarrow> None)"

definition retention_floor :: "time \<Rightarrow> int \<Rightarrow> time option" where
  "retention_floor now days = (if days > 0 then Some (now - seconds (86400 * days)) else None)"

definition resume_from :: "access_db \<Rightarrow> string \<Rightarrow> string \<Rightarrow> int \<Rightarrow> time option \<Rightarrow> time option" where
  "resume_from d site source overlap_s flr =
     (let since = since_cursor d site source overlap_s
      in case flr of
           None \<Rightarrow> since
         | Some f \<Rightarrow> (case since of None \<Rightarrow> flr | Some t \<Rightarrow> if t < f then flr else since))"

definition opt_list :: "'a option \<Rightarrow> 'a list" where
  "opt_list v = (case v of None \<Rightarrow> [] | Some x \<Rightarrow> [x])"

fun poll_loop ::
  "access_settings \<Rightarrow> (string \<Rightarrow> zone_info) \<Rightarrow> (string \<Rightarrow> nat) \<Rightarrow> time \<Rightarrow> time option \<Rightarrow> string \<Rightarrow> passage option list
    \<Rightarrow> access_event list \<Rightarrow> event list \<Rightarrow> access_db \<Rightarrow> (access_event list \<times> event list) \<times> access_db" where
  "poll_loop s zones digest now flr site [] new alarms d = ((new, alarms), d)"
| "poll_loop s zones digest now flr site (None # ks) new alarms d = poll_loop s zones digest now flr site ks new alarms d"
| "poll_loop s zones digest now flr site (Some k # ks) new alarms d =
     (if (case flr of None \<Rightarrow> False | Some f \<Rightarrow> g_ts k < f) then poll_loop s zones digest now flr site ks new alarms d
      else case ingest_access_event s zones digest now None site k d of
             Inl FutureTimestamp \<Rightarrow>
               let (alarm, d) = quarantine_future_event s site k now d
               in poll_loop s zones digest now flr site ks new (alarms @ opt_list alarm) d
           | Inl BadDecision \<Rightarrow> poll_loop s zones digest now flr site ks new alarms d
           | Inr ((row, created, alarm), d) \<Rightarrow>
               poll_loop s zones digest now flr site ks (if created then new @ [row] else new) (alarms @ opt_list alarm) d)"

definition poll_once ::
  "access_settings \<Rightarrow> (string \<Rightarrow> zone_info) \<Rightarrow> (string \<Rightarrow> nat) \<Rightarrow> (json \<Rightarrow> string) \<Rightarrow> (string \<Rightarrow> (time \<times> bool) option)
    \<Rightarrow> string \<Rightarrow> (time option \<Rightarrow> string + raw list) \<Rightarrow> string \<Rightarrow> int \<Rightarrow> time \<Rightarrow> access_db
    \<Rightarrow> (access_event list \<times> event list) \<times> access_db" where
  "poll_once s zones digest text_of fromiso site fetch source_system overlap_s now d =
     (let src = ''access_feed:'' @ source_system; flr = retention_floor now (retain_access_days s)
      in case fetch (resume_from d site source_system overlap_s flr) of
           Inl err \<Rightarrow>
             let (outage, d) = SourceHealth.record_failure (settings.truncate s) site src (''Gate feed '' @ source_system)
                   (access_gate_offline_s s) now err d
             in (([], opt_list outage), d)
         | Inr raws \<Rightarrow>
             poll_loop s zones digest now flr site (map (normalise_access_event text_of fromiso) raws) [] []
               (record_ok site src now d))"

section \<open>What a poll keeps\<close>

lemma feed_rows_frame [simp]:
  "access_events (record_ok site src now d) = access_events d"
  "access_events (snd (SourceHealth.record_failure st site src label after_s now err d)) = access_events d"
  by (simp_all add: record_ok_def SourceHealth.record_failure_def put_status_def Let_def new_event_id_def split: option.split)

text \<open>Every stored passage was stored with its time within the permitted skew, by the clock of the server.\<close>

definition row_timely :: "'s settings_scheme \<Rightarrow> time \<Rightarrow> access_event \<Rightarrow> bool" where
  "row_timely s clock r \<longleftrightarrow> total_seconds (ae_ts r - ae_created r) \<le> of_int (max_future_skew_s s) \<and> ae_created r \<le> clock"

definition timely :: "access_settings \<Rightarrow> time \<Rightarrow> access_db \<Rightarrow> bool" where
  "timely s clock d \<longleftrightarrow> (\<forall>r \<in> set (access_events d). row_timely s clock r)"

lemma ingest_rows:
  assumes "ingest_access_event s zones digest now rate site k d = Inr ((row, created, alarm), d')"
  shows "access_events d' = access_events d @ (if created then [row] else [])"
    "created \<Longrightarrow> ae_ts row = g_ts k \<and> ae_created row = now" "passage_id site k \<in> ae_id ` set (access_events d')"
    "\<not> too_far_ahead s (g_ts k) now"
  using assms get_access_Some [of d "passage_id site k"]
  by (auto simp: ingest_access_event_def record_access_event_def Let_def new_event_id_def split_beta
      intro: rev_image_eqI split: if_splits option.splits)

lemma ingest_timely:
  assumes "ingest_access_event s zones digest now rate site k d = Inr ((row, created, alarm), d')"
    and "timely s clock d" "clock \<le> now"
  shows "timely s now d'"
proof -
  have "\<forall>r \<in> set (access_events d). row_timely s now r" using assms(2,3) by (force simp: timely_def row_timely_def)
  moreover have "created \<Longrightarrow> row_timely s now row"
    using ingest_rows(2,4) [OF assms(1)] by (auto simp: row_timely_def too_far_ahead_def)
  ultimately show ?thesis using ingest_rows(1) [OF assms(1)] by (auto simp: timely_def)
qed

lemma timely_cong: "access_events d' = access_events d \<Longrightarrow> timely s clock d' = timely s clock d"
  by (simp add: timely_def)

lemma poll_loop_timely:
  assumes "timely s now d"
  shows "timely s now (snd (poll_loop s zones digest now flr site ks new alarms d))"
  using assms
proof (induction ks arbitrary: new alarms d)
  case (Cons k ks)
  show ?case
  proof (cases k)
    case None
    then show ?thesis using Cons by simp
  next
    case (Some k)
    show ?thesis
    proof (cases "ingest_access_event s zones digest now None site k d")
      case (Inl e)
      have "timely s now (snd (quarantine_future_event s site k now d))" using Cons.prems by (simp add: timely_def)
      then show ?thesis using Cons Inl \<open>_ = Some k\<close> by (cases e) (auto simp: Let_def split_beta)
    next
      case (Inr x)
      obtain row created alarm d' where x: "x = ((row, created, alarm), d')" by (cases x) auto
      have "timely s now d'" using ingest_timely [OF Inr [unfolded x] Cons.prems] by simp
      then show ?thesis using Cons Inr \<open>_ = Some k\<close> x by auto
    qed
  qed
qed simp

section \<open>Stored times keep behind the clock\<close>

lemma timely_put:
  assumes "timely s clock d" "row_timely s clock row"
  shows "timely s clock (put_access row d)"
  using assms by (auto simp: timely_def put_access_def)

lemma missed_loop_timely:
  assumes "timely s clock d" "\<forall>r \<in> set rows. row_timely s clock r"
  shows "timely s clock (snd (missed_loop s site now cutoff rows evs d))"
  using assms
proof (induction rows arbitrary: evs d)
  case (Cons row rows)
  have "row_timely s clock (row\<lparr>ae_escalated := Some now\<rparr>)" using Cons.prems(2) by (simp add: row_timely_def)
  then have "timely s clock (put_access (row\<lparr>ae_escalated := Some now\<rparr>) d)" by (rule timely_put [OF Cons.prems(1)])
  then show ?case using Cons by (simp add: Let_def timely_cong [OF persist_keeps(1)])
qed simp

lemma gate_do_timely:
  assumes "timely s clock d" "case act of Pass_gate now _ _ _ \<Rightarrow> now = clock | _ \<Rightarrow> True"
  shows "timely s clock (gate_do s zones digest d act)"
proof (cases act)
  case (Pass_gate now rate site k)
  show ?thesis
  proof (cases "ingest_access_event s zones digest now rate site k d")
    case (Inl e)
    then show ?thesis using assms(1) Pass_gate by (cases e) (simp_all add: timely_def)
  next
    case (Inr x)
    obtain row created alarm d' where x: "x = ((row, created, alarm), d')" by (cases x) auto
    then show ?thesis using ingest_timely [OF Inr [unfolded x] assms(1)] assms(2) Inr Pass_gate by simp
  qed
next
  case (Searched site j metal now)
  show ?thesis
  proof (cases "get_access d j")
    case (Some row)
    then have "row_timely s clock row" using get_access_Some assms(1) by (auto simp: timely_def)
    then have "timely s clock (put_access (case metal of None \<Rightarrow> row\<lparr>ae_completed := Some True\<rparr>
        | Some m \<Rightarrow> row\<lparr>ae_completed := Some True, ae_metal := Some m\<rparr>) d)"
      using assms(1) by (intro timely_put) (auto simp: row_timely_def split: option.split)
    then show ?thesis using assms(1) Searched Some
      by (cases metal) (auto simp: complete_search_def Let_def timely_cong [OF persist_keeps(1)])
  qed (use assms Searched in \<open>simp add: complete_search_def\<close>)
next
  case (Missed_check now site)
  have "\<forall>r \<in> set (filter (search_pending site) (access_events d)). row_timely s clock r"
    using assms(1) by (simp add: timely_def)
  then show ?thesis using missed_loop_timely [OF assms(1)] Missed_check by (simp add: detect_missed_searches_def Let_def)
next
  case (Purge keep)
  then show ?thesis using assms(1) by (simp add: timely_def)
next
  case (Staff site j suspended inducted)
  then show ?thesis using assms(1) by (simp add: timely_def set_operator_access_status_def Let_def split: option.split)
qed

lemma poll_once_timely:
  assumes "timely s clock d" "clock \<le> now"
  shows "timely s now (snd (poll_once s zones digest text_of fromiso site fetch source_system overlap_s now d))"
proof -
  have "timely s now d" using assms by (force simp: timely_def row_timely_def)
  then show ?thesis
    by (auto simp: poll_once_def Let_def split_beta timely_def intro!: poll_loop_timely [unfolded timely_def] split: sum.split)
qed

text \<open>The life of the access tables: polls of any appliance and everything else, at the server's clock.\<close>

datatype gate_life =
    Poll string "time option \<Rightarrow> string + raw list" string int
  | Act gate_act

definition act_at :: "time \<Rightarrow> gate_act \<Rightarrow> gate_act" where
  "act_at clock act = (case act of Pass_gate _ rate site k \<Rightarrow> Pass_gate clock rate site k | _ \<Rightarrow> act)"

fun gate_life_do ::
  "access_settings \<Rightarrow> (string \<Rightarrow> zone_info) \<Rightarrow> (string \<Rightarrow> nat) \<Rightarrow> (json \<Rightarrow> string) \<Rightarrow> (string \<Rightarrow> (time \<times> bool) option)
    \<Rightarrow> time \<times> access_db \<Rightarrow> time \<times> gate_life \<Rightarrow> time \<times> access_db" where
  "gate_life_do s zones digest text_of fromiso (clock, d) (later, Poll site fetch source_system overlap_s) =
     (max clock later, snd (poll_once s zones digest text_of fromiso site fetch source_system overlap_s (max clock later) d))"
| "gate_life_do s zones digest text_of fromiso (clock, d) (later, Act act) =
     (max clock later, gate_do s zones digest d (act_at (max clock later) act))"

interpretation timed: machine "gate_life_do s zones digest text_of fromiso" "\<lambda>st. timely s (fst st) (snd st)"
proof
  fix st :: "time \<times> access_db" and ev :: "time \<times> gate_life"
  assume inv: "timely s (fst st) (snd st)"
  obtain clock d later e where st: "st = (clock, d)" "ev = (later, e)" by (cases st, cases ev) blast
  have d: "timely s (max clock later) d" using inv by (force simp: st timely_def row_timely_def)
  show "timely s (fst (gate_life_do s zones digest text_of fromiso st ev)) (snd (gate_life_do s zones digest text_of fromiso st ev))"
  proof (cases e)
    case (Poll site fetch source_system overlap_s)
    then show ?thesis using poll_once_timely [OF d order_refl] by (simp add: st)
  next
    case (Act act)
    then show ?thesis using gate_do_timely [OF d, of "act_at (max clock later) act"]
      by (simp add: st act_at_def split: gate_act.split)
  qed
qed

lemma normalise_ts:
  "normalise_access_event text_of fromiso raw = Some k \<Longrightarrow> parse_ts fromiso (raw_get raw ''time'' JNull) = Some (g_ts k)"
  by (auto simp: normalise_access_event_def Let_def split: if_splits option.splits)

section \<open>Polling the same events again\<close>

definition ahead :: "access_settings \<Rightarrow> time \<Rightarrow> passage \<Rightarrow> bool" where
  "ahead s now k = too_far_ahead s (g_ts k) now"

definition handled :: "access_settings \<Rightarrow> time \<Rightarrow> time option \<Rightarrow> string \<Rightarrow> access_db \<Rightarrow> passage \<Rightarrow> bool" where
  "handled s now flr site d k \<longleftrightarrow> (case flr of None \<Rightarrow> False | Some f \<Rightarrow> g_ts k < f) \<or>
     (if ahead s now k then passage_id site k \<in> aq_id ` set (access_quarantine d)
      else g_decision k \<notin> {''granted'', ''denied''} \<or> passage_id site k \<in> ae_id ` set (access_events d))"

definition grows :: "access_db \<Rightarrow> access_db \<Rightarrow> bool" where
  "grows d d' \<longleftrightarrow> ae_id ` set (access_events d) \<subseteq> ae_id ` set (access_events d') \<and>
     aq_id ` set (access_quarantine d) \<subseteq> aq_id ` set (access_quarantine d')"

lemma grows_refl [simp]: "grows d d" by (simp add: grows_def)

lemma grows_trans: "grows d d' \<Longrightarrow> grows d' d'' \<Longrightarrow> grows d d''"
  unfolding grows_def by (meson order_trans)

lemma handled_grows: "grows d d' \<Longrightarrow> handled s now flr site d k \<Longrightarrow> handled s now flr site d' k"
  by (auto simp: handled_def grows_def split: if_splits)

lemma quarantine_grows:
  "grows d (snd (quarantine_future_event s site k now d))"
  "passage_id site k \<in> aq_id ` set (access_quarantine (snd (quarantine_future_event s site k now d)))"
  by (auto simp: grows_def quarantine_future_event_def Let_def new_event_id_def list_ex_iff intro: rev_image_eqI)

lemma quarantine_again:
  "passage_id site k \<in> aq_id ` set (access_quarantine d) \<Longrightarrow> quarantine_future_event s site k now d = (None, d)"
  by (auto simp: quarantine_future_event_def Let_def list_ex_iff)

lemma ingest_grows:
  assumes "ingest_access_event s zones digest now rate site k d = Inr (res, d')"
  shows "grows d d'"
proof -
  have "access_quarantine d' = access_quarantine d"
    using assms by (auto simp: ingest_access_event_def record_access_event_def Let_def new_event_id_def split_beta
        split: if_splits option.splits)
  then show ?thesis using ingest_keeps_rows [OF assms] by (auto simp: grows_def)
qed

lemma ingest_error:
  "ingest_access_event s zones digest now rate site k d = Inl FutureTimestamp \<longleftrightarrow> ahead s now k"
  "ingest_access_event s zones digest now rate site k d = Inl BadDecision \<longleftrightarrow>
     \<not> ahead s now k \<and> g_decision k \<notin> {''granted'', ''denied''}"
  by (auto simp: ingest_access_event_def record_access_event_def ahead_def Let_def split_beta split: option.split)

text \<open>After one event of the batch it is handled.\<close>

definition poll_event ::
  "access_settings \<Rightarrow> (string \<Rightarrow> zone_info) \<Rightarrow> (string \<Rightarrow> nat) \<Rightarrow> time \<Rightarrow> string \<Rightarrow> passage \<Rightarrow> access_db \<Rightarrow> access_db" where
  "poll_event s zones digest now site k d =
     (case ingest_access_event s zones digest now None site k d of
        Inl FutureTimestamp \<Rightarrow> snd (quarantine_future_event s site k now d)
      | Inl BadDecision \<Rightarrow> d
      | Inr (_, d') \<Rightarrow> d')"

lemma poll_event_handles:
  "grows d (poll_event s zones digest now site k d) \<and> handled s now flr site (poll_event s zones digest now site k d) k"
proof (cases "ingest_access_event s zones digest now None site k d")
  case (Inl e)
  show ?thesis
  proof (cases e)
    case BadDecision
    then show ?thesis using Inl ingest_error(2) [of s zones digest now None site k d] by (simp add: poll_event_def handled_def)
  next
    case FutureTimestamp
    then have "ahead s now k" using Inl ingest_error(1) [of s zones digest now None site k d] by simp
    then show ?thesis using Inl FutureTimestamp quarantine_grows [where d = d and s = s and site = site and k = k and now = now] by (simp add: poll_event_def handled_def)
  qed
next
  case (Inr x)
  obtain row created alarm d' where x: "x = ((row, created, alarm), d')" by (cases x) auto
  have "\<not> ahead s now k" using Inr ingest_error(1) by (metis Inl_Inr_False)
  then show ?thesis using ingest_grows Inr x ingest_rows(3) [OF Inr [unfolded x]] by (simp add: poll_event_def handled_def)
qed

lemma poll_loop_step:
  "snd (poll_loop s zones digest now flr site (Some k # ks) new alarms d) =
     (if case flr of None \<Rightarrow> False | Some f \<Rightarrow> g_ts k < f
      then snd (poll_loop s zones digest now flr site ks new alarms d)
      else snd (poll_loop s zones digest now flr site ks [] [] (poll_event s zones digest now site k d)))"
proof -
  have irrelevant: "snd (poll_loop s zones digest now flr site js n a d) = snd (poll_loop s zones digest now flr site js n' a' d)"
    for js n a n' a' d
  proof (induction js arbitrary: n a n' a' d)
    case (Cons j js)
    show ?case
    proof (cases j)
      case None
      then show ?thesis using Cons.IH by simp
    next
      case (Some p)
      show ?thesis using Some Cons.IH
        by (cases "ingest_access_event s zones digest now None site p d")
          (auto simp: Let_def split_beta split: access_error.split)
    qed
  qed simp
  show ?thesis
    by (cases "ingest_access_event s zones digest now None site k d")
      (auto simp: poll_event_def Let_def split_beta intro: irrelevant split: access_error.split)
qed

lemma poll_loop_handles:
  "grows d (snd (poll_loop s zones digest now flr site ks new alarms d)) \<and>
   (\<forall>k. Some k \<in> set ks \<longrightarrow> handled s now flr site (snd (poll_loop s zones digest now flr site ks new alarms d)) k)"
proof (induction ks arbitrary: new alarms d)
  case (Cons x ks)
  show ?case
  proof (cases x)
    case None
    then show ?thesis using Cons by auto
  next
    case (Some k)
    let ?d = "poll_event s zones digest now site k d"
    show ?thesis
    proof (cases "case flr of None \<Rightarrow> False | Some f \<Rightarrow> g_ts k < f")
      case True
      then have "handled s now flr site d' k" for d' by (simp add: handled_def)
      then show ?thesis unfolding Some poll_loop_step using True Cons.IH [where d = d and new = new and alarms = alarms] by simp
    next
      case False
      let ?rest = "snd (poll_loop s zones digest now flr site ks [] [] ?d)"
      note ih = Cons.IH [where d = ?d and new = "[]" and alarms = "[]"]
      note one = poll_event_handles [of d s zones digest now site k flr]
      have "grows d ?rest" using ih one by (blast intro: grows_trans)
      moreover have "handled s now flr site ?rest k" using ih one by (blast intro: handled_grows)
      ultimately show ?thesis unfolding Some poll_loop_step using False ih by auto
    qed
  qed
qed simp

lemma poll_loop_silent:
  assumes "\<forall>k. Some k \<in> set ks \<longrightarrow> handled s now flr site d k"
  shows "poll_loop s zones digest now flr site ks new alarms d = ((new, alarms), d)"
  using assms
proof (induction ks)
  case (Cons x ks)
  show ?case
  proof (cases x)
    case (Some k)
    have h: "handled s now flr site d k" using Cons.prems Some by simp
    show ?thesis
    proof (cases "case flr of None \<Rightarrow> False | Some f \<Rightarrow> g_ts k < f")
      case True
      then show ?thesis using Cons Some by simp
    next
      case late: False
      show ?thesis
      proof (cases "ahead s now k")
        case True
        then have "passage_id site k \<in> aq_id ` set (access_quarantine d)" using h late by (simp add: handled_def)
        then have q: "quarantine_future_event s site k now d = (None, d)" by (rule quarantine_again)
        have "ingest_access_event s zones digest now None site k d = Inl FutureTimestamp"
          using True ingest_error(1) by blast
        then show ?thesis using Cons Some late q by (simp add: opt_list_def)
      next
        case False
        then consider "g_decision k \<notin> {''granted'', ''denied''}" | "passage_id site k \<in> ae_id ` set (access_events d)"
            "g_decision k \<in> {''granted'', ''denied''}" using h late by (auto simp: handled_def)
        then show ?thesis
        proof cases
          case 1
          then show ?thesis using Cons Some late False ingest_error(2) [of s zones digest now None site k d] by simp
        next
          case 2
          then obtain row where "ingest_access_event s zones digest now None site k d = Inr ((row, False, None), d)"
            using colliding_passage_is_lost [OF 2] False by (fastforce simp: ahead_def)
          then show ?thesis using Cons Some late by (simp add: opt_list_def)
        qed
      qed
    qed
  qed (use Cons in simp)
qed simp

section \<open>No passage is lost to an outage\<close>

text \<open>
  What may happen while a feed is silent: anything but a new passage of it. A poll fails, is of another
  site, or answers with passages of other sources only.
\<close>

fun quiet_for ::
  "(json \<Rightarrow> string) \<Rightarrow> (string \<Rightarrow> (time \<times> bool) option) \<Rightarrow> string \<Rightarrow> string \<Rightarrow> gate_life \<Rightarrow> bool" where
  "quiet_for text_of fromiso site source (Poll at_site fetch _ _) =
     (at_site \<noteq> site \<or> (\<forall>since raws. fetch since = Inr raws \<longrightarrow>
        (\<forall>raw \<in> set raws. \<forall>k. normalise_access_event text_of fromiso raw = Some k \<longrightarrow> g_source k \<noteq> source)))"
| "quiet_for text_of fromiso site source (Act (Pass_gate _ _ at_site k)) = (at_site \<noteq> site \<or> g_source k \<noteq> source)"
| "quiet_for text_of fromiso site source (Act _) = True"

text \<open>Whatever bounds the times of a feed's rows bounds them through a quiet stretch.\<close>

definition row_bounded :: "(time \<Rightarrow> time \<Rightarrow> bool) \<Rightarrow> string \<Rightarrow> string \<Rightarrow> access_event \<Rightarrow> bool" where
  "row_bounded B site source r \<longleftrightarrow> (ae_site r = site \<and> ae_source r = source \<longrightarrow> B (ae_ts r) (ae_created r))"

definition feed_bounded :: "(time \<Rightarrow> time \<Rightarrow> bool) \<Rightarrow> string \<Rightarrow> string \<Rightarrow> access_db \<Rightarrow> bool" where
  "feed_bounded B site source d \<longleftrightarrow> (\<forall>r \<in> set (access_events d). row_bounded B site source r)"

lemma feed_bounded_cong: "access_events d' = access_events d \<Longrightarrow> feed_bounded B site source d' = feed_bounded B site source d"
  by (simp add: feed_bounded_def)

lemma feed_bounded_put:
  "feed_bounded B site source d \<Longrightarrow> row_bounded B site source row \<Longrightarrow> feed_bounded B site source (put_access row d)"
  by (auto simp: feed_bounded_def put_access_def)

lemma row_bounded_upd [simp]:
  "row_bounded B site source (r\<lparr>ae_escalated := e\<rparr>) = row_bounded B site source r"
  "row_bounded B site source (r\<lparr>ae_completed := c\<rparr>) = row_bounded B site source r"
  "row_bounded B site source (r\<lparr>ae_metal := m\<rparr>) = row_bounded B site source r"
  by (simp_all add: row_bounded_def)

lemma ingest_feed:
  assumes "ingest_access_event s zones digest now rate at_site k d = Inr ((row, created, alarm), d')"
    and "at_site \<noteq> site \<or> g_source k \<noteq> source" and "feed_bounded B site source d"
  shows "feed_bounded B site source d'"
proof -
  have "created \<Longrightarrow> ae_site row = at_site \<and> ae_source row = g_source k"
    using assms(1) by (auto simp: ingest_access_event_def record_access_event_def Let_def new_event_id_def split_beta
        split: if_splits option.splits)
  then have "created \<Longrightarrow> row_bounded B site source row" using assms(2) by (auto simp: row_bounded_def)
  then show ?thesis using ingest_rows(1) [OF assms(1)] assms(3) by (auto simp: feed_bounded_def)
qed

lemma poll_loop_feed:
  assumes "at_site \<noteq> site \<or> (\<forall>k. Some k \<in> set ks \<longrightarrow> g_source k \<noteq> source)" and "feed_bounded B site source d"
  shows "feed_bounded B site source (snd (poll_loop s zones digest now flr at_site ks new alarms d))"
  using assms
proof (induction ks arbitrary: new alarms d)
  case (Cons x ks)
  have tail: "at_site \<noteq> site \<or> (\<forall>k. Some k \<in> set ks \<longrightarrow> g_source k \<noteq> source)" using Cons.prems(1) by auto
  show ?case
  proof (cases x)
    case (Some k)
    show ?thesis
    proof (cases "ingest_access_event s zones digest now None at_site k d")
      case (Inl e)
      have "feed_bounded B site source (snd (quarantine_future_event s at_site k now d))"
        using Cons.prems(2) by (simp add: feed_bounded_def)
      then show ?thesis using Cons.IH [OF tail] Cons.prems(2) Inl Some by (cases e) (auto simp: Let_def split_beta)
    next
      case (Inr y)
      obtain row created alarm d' where y: "y = ((row, created, alarm), d')" by (cases y) auto
      have "at_site \<noteq> site \<or> g_source k \<noteq> source" using Cons.prems(1) Some by auto
      from ingest_feed [OF Inr [unfolded y] this Cons.prems(2)] show ?thesis
        using Cons.IH [OF tail] Cons.prems(2) Inr Some y by auto
    qed
  qed (use Cons.IH [OF tail] Cons.prems(2) in simp)
qed simp

lemma missed_loop_feed:
  assumes "feed_bounded B site source d" "\<forall>r \<in> set rows. row_bounded B site source r"
  shows "feed_bounded B site source (snd (missed_loop s at_site now cutoff rows evs d))"
  using assms
proof (induction rows arbitrary: evs d)
  case (Cons row rows)
  have "feed_bounded B site source (put_access (row\<lparr>ae_escalated := Some now\<rparr>) d)"
    using Cons.prems by (intro feed_bounded_put) simp_all
  then show ?case using Cons by (simp add: Let_def feed_bounded_cong [OF persist_keeps(1)])
qed simp

lemma gate_do_feed:
  assumes "feed_bounded B site source d" and "quiet_for text_of fromiso site source (Act act)"
  shows "feed_bounded B site source (gate_do s zones digest d act)"
proof (cases act)
  case (Pass_gate now rate at_site k)
  show ?thesis
  proof (cases "ingest_access_event s zones digest now rate at_site k d")
    case (Inl e)
    then show ?thesis using assms(1) Pass_gate by (cases e) (simp_all add: feed_bounded_def)
  next
    case (Inr x)
    obtain row created alarm d' where x: "x = ((row, created, alarm), d')" by (cases x) auto
    then show ?thesis using ingest_feed [OF Inr [unfolded x] _ assms(1)] assms(2) Inr Pass_gate by simp
  qed
next
  case (Searched at_site j metal now)
  show ?thesis
  proof (cases "get_access d j")
    case (Some row)
    then have "row_bounded B site source row" using get_access_Some assms(1) by (auto simp: feed_bounded_def)
    then have "feed_bounded B site source (put_access (case metal of None \<Rightarrow> row\<lparr>ae_completed := Some True\<rparr>
        | Some m \<Rightarrow> row\<lparr>ae_completed := Some True, ae_metal := Some m\<rparr>) d)"
      using assms(1) by (intro feed_bounded_put) (auto split: option.split)
    then show ?thesis using assms(1) Searched Some
      by (cases metal) (auto simp: complete_search_def Let_def feed_bounded_cong [OF persist_keeps(1)])
  qed (use assms Searched in \<open>simp add: complete_search_def\<close>)
next
  case (Missed_check now at_site)
  have "\<forall>r \<in> set (filter (search_pending at_site) (access_events d)). row_bounded B site source r"
    using assms(1) by (simp add: feed_bounded_def)
  then show ?thesis using missed_loop_feed [OF assms(1)] Missed_check by (simp add: detect_missed_searches_def Let_def)
next
  case (Purge keep)
  then show ?thesis using assms(1) by (simp add: feed_bounded_def)
next
  case (Staff at_site j suspended inducted)
  then show ?thesis using assms(1) by (simp add: feed_bounded_def set_operator_access_status_def Let_def split: option.split)
qed

lemma poll_once_feed:
  assumes "quiet_for text_of fromiso site source (Poll at_site fetch sys overlap_s)" and "feed_bounded B site source d"
  shows "feed_bounded B site source (snd (poll_once s zones digest text_of fromiso at_site fetch sys overlap_s now d))"
proof (cases "fetch (resume_from d at_site sys overlap_s (retention_floor now (retain_access_days s)))")
  case (Inl e)
  then show ?thesis using assms(2) by (simp add: poll_once_def Let_def split_beta feed_bounded_def)
next
  case (Inr raws)
  let ?ks = "map (normalise_access_event text_of fromiso) raws" and ?d = "record_ok at_site (''access_feed:'' @ sys) now d"
  have "feed_bounded B site source ?d" using assms(2) by (simp add: feed_bounded_def)
  moreover have "at_site \<noteq> site \<or> (\<forall>k. Some k \<in> set ?ks \<longrightarrow> g_source k \<noteq> source)" using assms(1) Inr by force
  ultimately show ?thesis using Inr by (simp add: poll_once_def Let_def poll_loop_feed)
qed

lemma quiet_run_feed:
  assumes "\<forall>(t, ev) \<in> set outage. quiet_for text_of fromiso site source ev" and "feed_bounded B site source (snd st)"
  shows "feed_bounded B site source (snd (run_machine (gate_life_do s zones digest text_of fromiso) st outage))"
  using assms
proof (induction outage arbitrary: st)
  case (Cons ev outage)
  obtain clock d later e where st: "st = (clock, d)" "ev = (later, e)" by (cases st, cases ev) blast
  have quiet: "quiet_for text_of fromiso site source e" and d: "feed_bounded B site source d" using Cons.prems st by auto
  have "feed_bounded B site source (snd (gate_life_do s zones digest text_of fromiso st ev))"
  proof (cases e)
    case (Poll at_site fetch sys overlap_s)
    then show ?thesis using poll_once_feed quiet d by (simp add: st)
  next
    case (Act act)
    then have "quiet_for text_of fromiso site source (Act (act_at (max clock later) act))"
      using quiet by (cases act) (simp_all add: act_at_def)
    then show ?thesis using gate_do_feed d Act by (simp add: st)
  qed
  then show ?case using Cons by simp
qed simp

lemma cursor_below:
  assumes "since_cursor d site source overlap_s = Some t"
    and "(\<forall>r \<in> set (feed_rows d site source). ae_ts r < u) \<or> (\<forall>r \<in> set (feed_rows d site source). ae_created r < u)"
  shows "t < u - seconds overlap_s"
proof -
  obtain a b where m: "max_by ae_ts (feed_rows d site source) = Some a" "max_by ae_created (feed_rows d site source) = Some b"
    "t = min (ae_ts a) (ae_created b) - seconds overlap_s"
    using assms(1) by (auto simp: since_cursor_def split: option.splits)
  then show ?thesis using assms(2) max_by_Some [OF m(1)] max_by_Some [OF m(2)] by auto
qed

text \<open>C10: a passage is not lost to an outage of its feed or to the clocks of other gates. Take any past of the
  access tables, and then any stretch, however long, in which nothing of the feed is stored: every poll of it
  fails, while other feeds, searches, checks and purges go on. The first poll the appliance answers with the
  passage stores it, or quarantines it if it is dated too far ahead of the server's clock then. It must lie
  within retention and, less the overlap, the server's clock when the stretch began or every time the feed had
  stored by then must be before it: a gate that runs slow by more than the overlap beside another is not covered.\<close>

theorem no_passage_is_hidden:
  assumes "run_machine (gate_life_do s zones digest text_of fromiso) (c0, d0) life = (c1, d1)" "timely s c0 d0"
    and "run_machine (gate_life_do s zones digest text_of fromiso) (c1, d1) outage = (c2, d)"
    and "\<forall>(t, ev) \<in> set outage. quiet_for text_of fromiso site source_system ev"
    and "\<And>since. (\<And>t. since = Some t \<Longrightarrow> t < g_ts k) \<Longrightarrow> \<exists>raws. fetch since = Inr raws \<and> raw \<in> set raws"
    and "normalise_access_event text_of fromiso raw = Some k" "g_decision k \<in> {''granted'', ''denied''}"
    and "c1 - seconds overlap_s < g_ts k \<or>
      (\<forall>r \<in> set (feed_rows d1 site source_system). ae_ts r - seconds overlap_s < g_ts k)"
    and "retain_access_days s > 0 \<Longrightarrow> now - seconds (86400 * retain_access_days s) < g_ts k"
  shows "(let d' = snd (poll_once s zones digest text_of fromiso site fetch source_system overlap_s now d)
    in if too_far_ahead s (g_ts k) now then passage_id site k \<in> aq_id ` set (access_quarantine d')
       else passage_id site k \<in> ae_id ` set (access_events d'))"
proof -
  have timely: "timely s c1 d1" using timed.run_inv [of s "(c0, d0)" zones digest text_of fromiso life] assms(1,2) by simp
  let ?u = "g_ts k + seconds overlap_s"
  define B :: "time \<Rightarrow> time \<Rightarrow> bool" where "B = (if c1 < ?u then (\<lambda>ts created. created < ?u) else (\<lambda>ts created. ts < ?u))"
  have "feed_bounded B site source_system d1"
    using timely assms(8) by (force simp: feed_bounded_def row_bounded_def B_def timely_def row_timely_def feed_rows_def)
  then have "feed_bounded B site source_system d"
    using quiet_run_feed [OF assms(4), of B "(c1, d1)" s zones digest] assms(3) by simp
  then have "(\<forall>r \<in> set (feed_rows d site source_system). ae_ts r < ?u) \<or> (\<forall>r \<in> set (feed_rows d site source_system). ae_created r < ?u)"
    by (cases "c1 < ?u") (auto simp: feed_bounded_def row_bounded_def B_def feed_rows_def)
  note cursor = cursor_below [OF _ this]
  define flr where "flr = retention_floor now (retain_access_days s)"
  have flr: "f < g_ts k" if "flr = Some f" for f using that assms(9) by (auto simp: flr_def retention_floor_def split: if_splits)
  have resume: "t < g_ts k" if "resume_from d site source_system overlap_s flr = Some t" for t
    using that flr cursor by (fastforce simp: resume_from_def Let_def split: option.splits if_splits)
  obtain raws where raws: "fetch (resume_from d site source_system overlap_s flr) = Inr raws" "raw \<in> set raws"
    using assms(5) [OF resume] by blast
  let ?ks = "map (normalise_access_event text_of fromiso) raws"
  have "Some k \<in> set ?ks" using raws(2) assms(6) by force
  then have "handled s now flr site (snd (poll_loop s zones digest now flr site ?ks [] []
      (record_ok site (''access_feed:'' @ source_system) now d))) k"
    using poll_loop_handles by blast
  moreover have "\<not> (case flr of None \<Rightarrow> False | Some f \<Rightarrow> g_ts k < f)" using flr by (auto split: option.splits)
  ultimately show ?thesis using raws(1) assms(7) by (auto simp: poll_once_def Let_def flr_def handled_def ahead_def)
qed

text \<open>
  The slow gate left out: once the feed has stored a passage later than it and later in the server's time, a
  passage dated no later than the cursor is never asked for again, and an appliance that answers with what is
  newer than the cursor does not present it.
\<close>

lemma slow_clock_hides_a_passage:
  assumes "since_cursor d site source_system overlap_s = Some t" and "g_ts k \<le> t" and "retain_access_days s = 0"
    and "simulated_fetch text_of fromiso stored (Some t) = Inr raws" and "simulated_time text_of fromiso raw = Some (g_ts k, aware)"
  shows "resume_from d site source_system overlap_s (retention_floor now (retain_access_days s)) = Some t \<and> raw \<notin> set raws"
  using assms by (auto simp: resume_from_def retention_floor_def simulated_fetch_def split: if_splits)

lemma record_ok_quarantine [simp]: "access_quarantine (record_ok site src now d) = access_quarantine d"
  by (simp add: record_ok_def put_status_def Let_def split: option.split)

lemma later_flr: "retention_floor now days = Some f \<Longrightarrow> now \<le> now' \<Longrightarrow> \<exists>f'. retention_floor now' days = Some f' \<and> f \<le> f'"
  by (auto simp: retention_floor_def split: if_splits)

text \<open>An appliance may answer with the same events again and again: after one poll has read them,
  a later poll that reads any of them again stores nothing, quarantines nothing and raises no alarm,
  as long as no event it had found ahead of the clock has come within the permitted skew.\<close>

theorem polling_again_is_silent:
  assumes "fetch (resume_from d site source_system overlap_s (retention_floor now (retain_access_days s))) = Inr raws"
    and "poll_once s zones digest text_of fromiso site fetch source_system overlap_s now d = (res, d1)"
    and "fetch' (resume_from d1 site source_system overlap_s (retention_floor now' (retain_access_days s))) = Inr raws'"
    and "set raws' \<subseteq> set raws" "now \<le> now'"
    and "\<forall>raw \<in> set raws'. \<forall>k. normalise_access_event text_of fromiso raw = Some k \<longrightarrow>
      too_far_ahead s (g_ts k) now \<longrightarrow> too_far_ahead s (g_ts k) now'"
  shows "\<exists>d2. poll_once s zones digest text_of fromiso site fetch' source_system overlap_s now' d1 = (([], []), d2) \<and>
    access_events d2 = access_events d1 \<and> access_quarantine d2 = access_quarantine d1"
proof -
  let ?flr = "retention_floor now (retain_access_days s)" and ?flr' = "retention_floor now' (retain_access_days s)"
  let ?src = "''access_feed:'' @ source_system"
  let ?d1 = "record_ok site ?src now' d1"
  have d1: "d1 = snd (poll_loop s zones digest now ?flr site (map (normalise_access_event text_of fromiso) raws) [] []
      (record_ok site ?src now d))"
    using assms(1,2) by (simp add: poll_once_def Let_def)
  have "handled s now' ?flr' site ?d1 k" if k: "Some k \<in> set (map (normalise_access_event text_of fromiso) raws')" for k
  proof -
    obtain raw where raw: "raw \<in> set raws'" "normalise_access_event text_of fromiso raw = Some k" using k by auto
    have "Some k \<in> set (map (normalise_access_event text_of fromiso) raws)" using raw assms(4) by force
    then have "handled s now ?flr site d1 k" unfolding d1 using poll_loop_handles by blast
    moreover have "ahead s now' k \<longleftrightarrow> ahead s now k"
    proof -
      have "total_seconds (g_ts k - now') \<le> total_seconds (g_ts k - now)" using assms(5) by (intro total_seconds_mono) simp
      moreover have "ahead s now k \<Longrightarrow> ahead s now' k" using assms(6) raw by (simp add: ahead_def)
      ultimately show ?thesis unfolding ahead_def too_far_ahead_def by (meson less_le_trans)
    qed
    moreover have "(case ?flr of None \<Rightarrow> False | Some f \<Rightarrow> g_ts k < f) \<Longrightarrow> (case ?flr' of None \<Rightarrow> False | Some f \<Rightarrow> g_ts k < f)"
      using later_flr [OF _ assms(5), of "retain_access_days s"] by (fastforce split: option.splits)
    ultimately show ?thesis unfolding handled_def by auto
  qed
  then have "poll_loop s zones digest now' ?flr' site (map (normalise_access_event text_of fromiso) raws') [] [] ?d1 = (([], []), ?d1)"
    by (intro poll_loop_silent) blast
  then show ?thesis using assms(3) by (simp add: poll_once_def Let_def)
qed

section \<open>Concrete instances\<close>

definition demo_raw :: raw where
  "demo_raw = [(''id'', JStr ''g-1''), (''source_system'', JStr ''dahua_gate''), (''gate_id'', JStr ''main''),
     (''time'', JStr ''2026-09-12T06:02:11+02:00''), (''decision'', JStr ''granted'')]"

definition demo_iso :: "time \<Rightarrow> string \<Rightarrow> (time \<times> bool) option" where
  "demo_iso ts t = Some (ts, True)"

definition demo_read :: "time \<Rightarrow> passage" where
  "demo_read ts = \<lparr>g_source = ''dahua_gate'', g_event = ''g-1'', g_gate = ''main'', g_decision = ''granted'', g_ts = ts,
     g_credential = None, g_operator = None, g_reason = None, g_selected = False, g_completed = None\<rparr>"

lemma demo_normalise: "normalise_access_event text_of (demo_iso ts) demo_raw = Some (demo_read ts)"
  by (simp add: normalise_access_event_def demo_raw_def biometric_keys_def required_keys_def raw_get_def parse_ts_def
      zulu_def demo_iso_def str_of_def opt_text_def truth_def demo_read_def Let_def)

lemma demo_settings_simps [simp]:
  "max_future_skew_s demo_gate_settings = 120" "retain_access_days demo_gate_settings = 365"
  by (simp_all add: demo_gate_settings_def settings.extend_def demo_settings_def)

lemma demo_answers:
  "(\<And>t. since = Some t \<Longrightarrow> t < g_ts (demo_read ts)) \<Longrightarrow>
   \<exists>raws. simulated_fetch (\<lambda>_. []) (demo_iso ts) [demo_raw] since = Inr raws \<and> demo_raw \<in> set raws"
  by (cases since) (simp_all add: simulated_fetch_def simulated_time_def demo_raw_def demo_iso_def demo_read_def)

text \<open>The feed is down for more than an hour; the passage of 100 s is read at 6000 s.\<close>

theorem no_passage_is_hidden_witness:
  "passage_id ''s1'' (demo_read (seconds 100)) \<in> ae_id ` set (access_events (snd (poll_once demo_gate_settings
     (\<lambda>_. harare) (\<lambda>_. 0) (\<lambda>_. []) (demo_iso (seconds 100)) ''s1'' (simulated_fetch (\<lambda>_. []) (demo_iso (seconds 100)) [demo_raw])
     ''dahua_gate'' 30 (seconds 6000)
     (snd (run_machine (gate_life_do demo_gate_settings (\<lambda>_. harare) (\<lambda>_. 0) (\<lambda>_. []) (demo_iso (seconds 100)))
       (run_machine (gate_life_do demo_gate_settings (\<lambda>_. harare) (\<lambda>_. 0) (\<lambda>_. []) (demo_iso (seconds 100))) (0, demo_gate)
         [(seconds 60, Act (Purge (\<lambda>_. True)))])
       [(seconds 110, Poll ''s1'' (\<lambda>_. Inl ''timeout'') ''dahua_gate'' 30),
        (seconds 4000, Poll ''s1'' (\<lambda>_. Inl ''timeout'') ''dahua_gate'' 30)])))))"
proof -
  let ?do = "gate_life_do demo_gate_settings (\<lambda>_. harare) (\<lambda>_. 0) (\<lambda>_. []) (demo_iso (seconds 100))"
  let ?st1 = "run_machine ?do (0, demo_gate) [(seconds 60, Act (Purge (\<lambda>_. True)))]"
  let ?st2 = "run_machine ?do ?st1 [(seconds 110, Poll ''s1'' (\<lambda>_. Inl ''timeout'') ''dahua_gate'' 30),
        (seconds 4000, Poll ''s1'' (\<lambda>_. Inl ''timeout'') ''dahua_gate'' 30)]"
  have st1: "?st1 = (seconds 60, snd ?st1)" by (simp add: seconds_def)
  have st2: "run_machine ?do (seconds 60, snd ?st1) [(seconds 110, Poll ''s1'' (\<lambda>_. Inl ''timeout'') ''dahua_gate'' 30),
        (seconds 4000, Poll ''s1'' (\<lambda>_. Inl ''timeout'') ''dahua_gate'' 30)] = (seconds 4000, snd ?st2)"
    by (simp add: seconds_def)
  have "\<not> too_far_ahead demo_gate_settings (g_ts (demo_read (seconds 100))) (seconds 6000)"
    by (simp add: too_far_ahead_def demo_read_def seconds_def total_seconds_def)
  moreover have "let d' = snd (poll_once demo_gate_settings (\<lambda>_. harare) (\<lambda>_. 0) (\<lambda>_. []) (demo_iso (seconds 100)) ''s1''
      (simulated_fetch (\<lambda>_. []) (demo_iso (seconds 100)) [demo_raw]) ''dahua_gate'' 30 (seconds 6000) (snd ?st2))
    in if too_far_ahead demo_gate_settings (g_ts (demo_read (seconds 100))) (seconds 6000)
       then passage_id ''s1'' (demo_read (seconds 100)) \<in> aq_id ` set (access_quarantine d')
       else passage_id ''s1'' (demo_read (seconds 100)) \<in> ae_id ` set (access_events d')"
    by (rule no_passage_is_hidden [OF st1 _ st2 _ demo_answers demo_normalise])
      (simp_all add: timely_def demo_read_def seconds_def)
  ultimately show ?thesis by (simp only: Let_def if_False)
qed

theorem polling_again_is_silent_witness:
  "\<exists>d2. poll_once demo_gate_settings (\<lambda>_. harare) (\<lambda>_. 0) (\<lambda>_. []) (demo_iso (seconds 900)) ''s1'' (\<lambda>_. Inr [demo_raw])
      ''dahua_gate'' 30 (seconds 160)
      (snd (poll_once demo_gate_settings (\<lambda>_. harare) (\<lambda>_. 0) (\<lambda>_. []) (demo_iso (seconds 900)) ''s1'' (\<lambda>_. Inr [demo_raw])
        ''dahua_gate'' 30 (seconds 100) demo_gate)) = (([], []), d2)"
proof -
  obtain res d1 where p: "poll_once demo_gate_settings (\<lambda>_. harare) (\<lambda>_. 0) (\<lambda>_. []) (demo_iso (seconds 900)) ''s1''
      (\<lambda>_. Inr [demo_raw]) ''dahua_gate'' 30 (seconds 100) demo_gate = (res, d1)" by fastforce
  have "\<exists>d2. poll_once demo_gate_settings (\<lambda>_. harare) (\<lambda>_. 0) (\<lambda>_. []) (demo_iso (seconds 900)) ''s1'' (\<lambda>_. Inr [demo_raw])
      ''dahua_gate'' 30 (seconds 160) d1 = (([], []), d2) \<and> access_events d2 = access_events d1 \<and>
      access_quarantine d2 = access_quarantine d1"
    by (rule polling_again_is_silent [OF refl p refl])
      (simp_all add: demo_normalise, simp_all add: demo_read_def too_far_ahead_def seconds_def total_seconds_def)
  then show ?thesis unfolding p by auto
qed

text \<open>
  A passage refused because its gate's clock was ahead is stored after all, with its wrong time, when
  the appliance presents it again once the server's clock has come near that time: recording does
  not consult the quarantine.
\<close>

lemma refused_passage_is_stored_later:
  assumes "ahead s now k" "\<not> ahead s later k" "g_decision k \<in> {''granted'', ''denied''}"
    and "passage_id site k \<notin> ae_id ` set (access_events d)"
  shows "\<exists>row alarm d'. ingest_access_event s zones digest later rate site k (snd (quarantine_future_event s site k now d)) =
    Inr ((row, True, alarm), d') \<and> ae_ts row = g_ts k"
proof -
  have "get_access (snd (quarantine_future_event s site k now d)) (passage_id site k) = None"
    using assms(4) by (simp add: get_access_None)
  then show ?thesis using assms(2,3)
    by (auto simp: ingest_access_event_def record_access_event_def ahead_def Let_def split_beta new_event_id_def)
qed

end
