(* ===== verification/Incidents.thy ===== *)
theory Incidents
  imports Pipeline Auth
begin

text \<open>
  The incident lifecycle, \<^verbatim>\<open>src/src/minemonitor/operations/incidents.py\<close>, and the request handlers of
  \<^verbatim>\<open>api/routers/incidents.py\<close>. A request reads an incident, works on its copy and commits; the
  commit checks the row's version (\<^verbatim>\<open>version_id_col\<close>), so requests of several operators interleave
  at reads and commits. Routes are guarded by \<^verbatim>\<open>require_supervisor\<close>, which is modelled with
  authentication.
\<close>

section \<open>The lifecycle\<close>

definition incident_states :: "string list" where
  "incident_states = [''open'', ''acknowledged'', ''investigating'', ''assigned'', ''resolved'', ''closed'']"

definition allowed :: "(string \<times> string list) list" where
  "allowed =
     [(''open'', [''acknowledged'', ''investigating'', ''assigned'', ''resolved'', ''closed'']),
      (''acknowledged'', [''investigating'', ''assigned'', ''resolved'', ''closed'']),
      (''investigating'', [''assigned'', ''resolved'', ''closed'']),
      (''assigned'', [''investigating'', ''resolved'', ''closed'']),
      (''resolved'', [''closed'', ''investigating'']),
      (''closed'', [])]"

definition can_transition :: "string \<Rightarrow> string \<Rightarrow> bool" where
  "can_transition current target =
     (target \<in> set (case map_of allowed current of None \<Rightarrow> [] | Some ts \<Rightarrow> ts))"

record incident =
  i_id :: string
  i_version :: nat
  i_site :: string
  i_event :: "string option"
  i_type :: string
  i_severity :: string
  i_asset :: "string option"
  i_zone :: "string option"
  i_summary :: text_pieces
  i_state :: string
  i_assignee :: "string option"
  i_resolution :: "string option"
  i_category :: "string option"
  i_created_by :: string
  i_created :: time
  i_updated :: time
  i_resolved :: "time option"
  i_closed :: "time option"

record incident_note =
  in_id :: string
  in_incident :: string
  in_site :: string
  in_ts :: time
  in_actor :: string
  in_kind :: string
  in_from :: "string option"
  in_to :: "string option"
  in_text :: "text_pieces option"

record ops_db = db +
  incidents :: "incident list"
  incident_notes :: "incident_note list"
  ops_audit :: "audit_row list"

datatype transition_error = InvalidTransition | MissingField

definition append_note ::
  "string \<Rightarrow> incident \<Rightarrow> string \<Rightarrow> string \<Rightarrow> string option \<Rightarrow> string option \<Rightarrow> text_pieces option \<Rightarrow> time \<Rightarrow> incident_note" where
  "append_note nid incident actor kind from_state to_state msg now =
     \<lparr>in_id = nid, in_incident = i_id incident, in_site = i_site incident, in_ts = now, in_actor = actor,
      in_kind = kind, in_from = from_state, in_to = to_state, in_text = msg\<rparr>"

definition create_incident ::
  "string \<Rightarrow> text_pieces \<Rightarrow> string \<Rightarrow> string \<Rightarrow> string \<Rightarrow> string option \<Rightarrow> string option \<Rightarrow> string option \<Rightarrow> time
    \<Rightarrow> 'a ops_db_scheme \<Rightarrow> incident \<times> 'a ops_db_scheme" where
  "create_incident site summary typ severity actor asset zone event_id now d =
     (let (i, d) = new_event_id d; (nid, d) = new_event_id d;
          incident = \<lparr>i_id = i, i_version = 1, i_site = site, i_event = event_id, i_type = typ, i_severity = severity,
            i_asset = asset, i_zone = zone, i_summary = summary, i_state = ''open'', i_assignee = None,
            i_resolution = None, i_category = None, i_created_by = actor, i_created = now, i_updated = now,
            i_resolved = None, i_closed = None\<rparr>;
          entry = append_note nid incident actor ''state_change'' None (Some ''open'') (Some summary) now
      in (incident, d\<lparr>incidents := incidents d @ [incident], incident_notes := incident_notes d @ [entry]\<rparr>))"

definition get_incident :: "'a ops_db_scheme \<Rightarrow> string \<Rightarrow> string \<Rightarrow> incident option" where
  "get_incident d site incident_id =
     (case List.find (\<lambda>r. i_id r = incident_id) (incidents d) of
        None \<Rightarrow> None
      | Some row \<Rightarrow> if i_site row \<noteq> site then None else Some row)"

definition list_incidents :: "'a ops_db_scheme \<Rightarrow> string \<Rightarrow> string option \<Rightarrow> string option \<Rightarrow> nat \<Rightarrow> incident list" where
  "list_incidents d site state severity limit =
     take limit (sort_key (\<lambda>r. - i_created r) (filter (\<lambda>r. i_site r = site \<and>
        (case state of None \<Rightarrow> True | Some x \<Rightarrow> i_state r = x) \<and>
        (case severity of None \<Rightarrow> True | Some x \<Rightarrow> i_severity r = x)) (incidents d)))"

definition timeline :: "'a ops_db_scheme \<Rightarrow> string \<Rightarrow> incident_note list" where
  "timeline d incident_id = sort_key in_ts (filter (\<lambda>n. in_incident n = incident_id) (incident_notes d))"

definition truthy :: "string option \<Rightarrow> bool" where
  "truthy v = (case v of None \<Rightarrow> False | Some x \<Rightarrow> x \<noteq> [])"

text \<open>\<^verbatim>\<open>add_note\<close> and \<^verbatim>\<open>transition_incident\<close> on a copy of the row: the copy as it is left, and the entry or the error.\<close>

definition add_note :: "string \<Rightarrow> incident \<Rightarrow> string \<Rightarrow> text_pieces \<Rightarrow> time \<Rightarrow> incident \<times> incident_note" where
  "add_note nid incident actor msg now =
     (incident\<lparr>i_updated := now\<rparr>, append_note nid incident actor ''note'' None None (Some msg) now)"

record transition_in =
  to_state :: string
  t_note :: "text_pieces option"
  t_assignee :: "string option"
  t_resolution :: "string option"
  t_category :: "string option"

definition transition_incident ::
  "string \<Rightarrow> incident \<Rightarrow> string \<Rightarrow> transition_in \<Rightarrow> time \<Rightarrow> (transition_error + incident_note) \<times> incident" where
  "transition_incident nid incident actor body now =
     (let target = to_state body
      in if target \<notin> set incident_states then (Inl InvalidTransition, incident)
         else if \<not> can_transition (i_state incident) target then (Inl InvalidTransition, incident)
         else
           let wanted = (case t_assignee body of None \<Rightarrow> i_assignee incident | Some a \<Rightarrow> Some a)
           in if target = ''assigned'' \<and> \<not> truthy wanted then (Inl MissingField, incident)
              else
                let incident = incident\<lparr>i_assignee := wanted\<rparr>
                in if target = ''resolved'' \<and> \<not> truthy (t_resolution body) then (Inl MissingField, incident)
                   else
                     let incident = (if target = ''resolved''
                           then incident\<lparr>i_resolution := t_resolution body, i_category := t_category body, i_resolved := Some now\<rparr>
                           else incident);
                         incident = (if target = ''closed'' then incident\<lparr>i_closed := Some now\<rparr> else incident);
                         from_state = i_state incident;
                         incident = incident\<lparr>i_state := target, i_updated := now\<rparr>
                     in (Inr (append_note nid incident actor ''state_change'' (Some from_state) (Some target) (t_note body) now),
                         incident))"

section \<open>Request handlers\<close>

text \<open>
  The flush of a changed row: \<^verbatim>\<open>UPDATE ... WHERE incident_id = ? AND version_id = ?\<close>, which raises
  \<^verbatim>\<open>StaleDataError\<close> when no row matches, together with the inserts of the same transaction.
\<close>

definition flush_row :: "incident \<Rightarrow> incident_note \<Rightarrow> audit_row \<Rightarrow> 'a ops_db_scheme \<Rightarrow> 'a ops_db_scheme option" where
  "flush_row row entry audit d =
     (if \<exists>r \<in> set (incidents d). i_id r = i_id row \<and> i_version r = i_version row
      then Some (d\<lparr>incidents := map (\<lambda>r. if i_id r = i_id row \<and> i_version r = i_version row
                       then row\<lparr>i_version := i_version row + 1\<rparr> else r) (incidents d),
              incident_notes := incident_notes d @ [entry], ops_audit := ops_audit d @ [audit]\<rparr>)
      else None)"

definition incident_audit :: "time \<Rightarrow> string \<Rightarrow> string \<Rightarrow> string \<Rightarrow> string \<Rightarrow> audit_row" where
  "incident_audit now actor action incident_id site =
     \<lparr>au_ts = now, au_actor = actor, au_action = action, au_entity_type = ''incident'',
      au_entity_id = Some incident_id, au_site = Some site\<rparr>"

text \<open>The part of each handler after it has read its copy of the row.\<close>

definition finish_transition ::
  "string \<Rightarrow> incident \<Rightarrow> transition_in \<Rightarrow> time \<Rightarrow> 'a ops_db_scheme \<Rightarrow> (http_error + incident) \<times> 'a ops_db_scheme" where
  "finish_transition actor copy body now d =
     (let (nid, d) = new_event_id d
      in case transition_incident nid copy actor body now of
           (Inl InvalidTransition, _) \<Rightarrow> (Inl Conflict409, d)
         | (Inl MissingField, _) \<Rightarrow> (Inl Unprocessable422, d)
         | (Inr entry, row) \<Rightarrow>
             (case flush_row row entry (incident_audit now actor ''incident.transition'' (i_id copy) (i_site copy)) d of
                None \<Rightarrow> (Inl Conflict409, d)
              | Some d' \<Rightarrow> (Inr (row\<lparr>i_version := i_version row + 1\<rparr>), d')))"

text \<open>The handler of a note does not catch \<^verbatim>\<open>StaleDataError\<close>: None is the error 500.\<close>

definition finish_note ::
  "string \<Rightarrow> incident \<Rightarrow> text_pieces \<Rightarrow> time \<Rightarrow> 'a ops_db_scheme \<Rightarrow> incident_note option \<times> 'a ops_db_scheme" where
  "finish_note actor copy msg now d =
     (let (nid, d) = new_event_id d; (row, entry) = add_note nid copy actor msg now
      in case flush_row row entry (incident_audit now actor ''incident.note'' (i_id copy) (i_site copy)) d of
           None \<Rightarrow> (None, d)
         | Some d' \<Rightarrow> (Some entry, d'))"

record incident_in =
  b_summary :: string
  b_type :: string
  b_severity :: string
  b_asset :: "string option"
  b_zone :: "string option"
  b_event :: "string option"

definition event_on_site :: "'a ops_db_scheme \<Rightarrow> string \<Rightarrow> string \<Rightarrow> event option" where
  "event_on_site d site event_id =
     (case List.find (\<lambda>e. e_id e = event_id) (events d) of
        None \<Rightarrow> None
      | Some ev \<Rightarrow> if e_site ev \<noteq> site then None else Some ev)"

definition audited :: "audit_row \<Rightarrow> 'a ops_db_scheme \<Rightarrow> 'a ops_db_scheme" where
  "audited row d = d\<lparr>ops_audit := ops_audit d @ [row]\<rparr>"

definition post_incident ::
  "string \<Rightarrow> string \<Rightarrow> incident_in \<Rightarrow> time \<Rightarrow> 'a ops_db_scheme \<Rightarrow> (http_error + incident) \<times> 'a ops_db_scheme" where
  "post_incident site actor body now d =
     (if b_summary body = [] then (Inl Unprocessable422, d)
      else if (case b_event body of None \<Rightarrow> False | Some e \<Rightarrow> event_on_site d site e = None) then (Inl NotFound404, d)
      else let (row, d) = create_incident site [Txt (b_summary body)] (b_type body) (b_severity body) actor
                 (b_asset body) (b_zone body) (b_event body) now d
           in (Inr row, audited (incident_audit now actor ''incident.create'' (i_id row) site) d))"

definition incident_from_event ::
  "string \<Rightarrow> string \<Rightarrow> string \<Rightarrow> time \<Rightarrow> 'a ops_db_scheme \<Rightarrow> (http_error + incident) \<times> 'a ops_db_scheme" where
  "incident_from_event site actor event_id now d =
     (case event_on_site d site event_id of
        None \<Rightarrow> (Inl NotFound404, d)
      | Some ev \<Rightarrow>
          let (row, d) = create_incident site (e_summary ev) (e_type ev) (e_severity ev) actor (e_asset ev) (e_zone ev)
                (Some (e_id ev)) now d
          in (Inr row, audited (incident_audit now actor ''incident.create'' (i_id row) site) d))"

section \<open>Interleaved requests\<close>

text \<open>
  The committed database, the server's clock, and the requests in flight: the copy each has read
  and when it began. A handler takes its time stamp between its read and its commit.
\<close>

record ops_run =
  o_db :: ops_db
  o_clock :: time
  o_open :: "(incident \<times> time) list"

inductive ops_step :: "ops_run \<Rightarrow> ops_run \<Rightarrow> bool" where
  clock: "o_clock s \<le> t \<Longrightarrow> ops_step s (s\<lparr>o_clock := t\<rparr>)"
| post: "post_incident site actor body (o_clock s) (o_db s) = (res, d) \<Longrightarrow> ops_step s (s\<lparr>o_db := d\<rparr>)"
| from_event: "incident_from_event site actor event_id (o_clock s) (o_db s) = (res, d) \<Longrightarrow> ops_step s (s\<lparr>o_db := d\<rparr>)"
| read_row: "get_incident (o_db s) site incident_id = Some row \<Longrightarrow>
     ops_step s (s\<lparr>o_open := (row, o_clock s) # o_open s\<rparr>)"
| transition: "(copy, begun) \<in> set (o_open s) \<Longrightarrow> begun \<le> t \<Longrightarrow> t \<le> o_clock s \<Longrightarrow>
     finish_transition actor copy body t (o_db s) = (res, d) \<Longrightarrow> ops_step s (s\<lparr>o_db := d\<rparr>)"
| write_note: "(copy, begun) \<in> set (o_open s) \<Longrightarrow> begun \<le> t \<Longrightarrow> t \<le> o_clock s \<Longrightarrow>
     finish_note actor copy msg t (o_db s) = (res', d) \<Longrightarrow> ops_step s (s\<lparr>o_db := d\<rparr>)"

inductive_cases ops_stepE: "ops_step s s'"

text \<open>
  The history of an incident: its recorded changes replayed from nothing, each a legal move from
  where the one before ended.
\<close>

fun replay :: "string option \<Rightarrow> incident_note list \<Rightarrow> string option option" where
  "replay cur [] = Some cur"
| "replay cur (n # ns) =
     (if in_kind n \<noteq> ''state_change'' then replay cur ns
      else if in_from n = cur \<and>
        (case (cur, in_to n) of
           (None, Some t) \<Rightarrow> t = ''open''
         | (Some f, Some t) \<Rightarrow> can_transition f t
         | _ \<Rightarrow> False)
      then replay (in_to n) ns else None)"

definition notes_of :: "'a ops_db_scheme \<Rightarrow> string \<Rightarrow> incident_note list" where
  "notes_of d i = filter (\<lambda>n. in_incident n = i) (incident_notes d)"

definition fields_ok :: "incident \<Rightarrow> bool" where
  "fields_ok r \<longleftrightarrow> i_state r \<in> set incident_states \<and>
     (i_state r = ''assigned'' \<longrightarrow> truthy (i_assignee r)) \<and>
     (i_state r = ''resolved'' \<longrightarrow> truthy (i_resolution r) \<and> i_resolved r \<noteq> None) \<and>
     (i_state r = ''closed'' \<longrightarrow> i_closed r \<noteq> None)"

definition row_history_ok :: "'a ops_db_scheme \<Rightarrow> incident \<Rightarrow> bool" where
  "row_history_ok d r \<longleftrightarrow> fields_ok r \<and> replay None (notes_of d (i_id r)) = Some (Some (i_state r)) \<and>
     i_version r = length (notes_of d (i_id r)) \<and> sorted (map in_ts (notes_of d (i_id r)))"

definition ids_ok :: "'a ops_db_scheme \<Rightarrow> bool" where
  "ids_ok d \<longleftrightarrow> inj (ulid d) \<and> distinct (map i_id (incidents d)) \<and>
     i_id ` set (incidents d) \<subseteq> ulid d ` {..<ids_drawn d} \<and>
     in_incident ` set (incident_notes d) \<subseteq> i_id ` set (incidents d)"

definition open_ok :: "'a ops_db_scheme \<Rightarrow> time \<Rightarrow> incident \<times> time \<Rightarrow> bool" where
  "open_ok d now e \<longleftrightarrow> snd e \<le> now \<and>
     (\<exists>r \<in> set (incidents d). i_id r = i_id (fst e) \<and> i_version (fst e) \<le> i_version r \<and>
        (i_version r = i_version (fst e) \<longrightarrow> r = fst e \<and> (\<forall>n \<in> set (notes_of d (i_id r)). in_ts n \<le> snd e)))"

definition ops_ok :: "ops_run \<Rightarrow> bool" where
  "ops_ok s \<longleftrightarrow> ids_ok (o_db s) \<and> (\<forall>r \<in> set (incidents (o_db s)). row_history_ok (o_db s) r) \<and>
     (\<forall>n \<in> set (incident_notes (o_db s)). in_ts n \<le> o_clock s) \<and>
     (\<forall>e \<in> set (o_open s). open_ok (o_db s) (o_clock s) e)"

lemma replay_snoc:
  "replay cur (ns @ [n]) = (case replay cur ns of None \<Rightarrow> None | Some c \<Rightarrow> replay c [n])"
  by (induction cur ns rule: replay.induct) auto

lemma can_transition_known: "can_transition a b \<Longrightarrow> b \<in> set incident_states"
  by (auto simp: can_transition_def allowed_def incident_states_def split: if_splits option.splits)

text \<open>What a transition of a copy does when it is accepted.\<close>

lemma transition_accepted:
  assumes "transition_incident nid copy actor body now = (Inr entry, row)"
  shows "i_id row = i_id copy" "i_version row = i_version copy" "fields_ok row"
    "in_incident entry = i_id copy" "in_ts entry = now" "in_kind entry = ''state_change''"
    "in_from entry = Some (i_state copy)" "in_to entry = Some (i_state row)"
    "can_transition (i_state copy) (i_state row)"
  using assms by (auto simp: transition_incident_def append_note_def Let_def fields_ok_def split: if_splits)

lemma ops_ok_draw: "ops_ok s \<Longrightarrow> ops_ok (s\<lparr>o_db := (o_db s)\<lparr>ids_drawn := ids_drawn (o_db s) + k\<rparr>\<rparr>)"
proof -
  assume ok: "ops_ok s"
  let ?d = "(o_db s)\<lparr>ids_drawn := ids_drawn (o_db s) + k\<rparr>"
  have "ids_ok ?d" using ok image_mono [of "{..<ids_drawn (o_db s)}" "{..<ids_drawn (o_db s) + k}" "ulid (o_db s)"]
    by (simp add: ops_ok_def ids_ok_def) (meson subset_trans)
  moreover have "row_history_ok ?d = row_history_ok (o_db s)" "open_ok ?d = open_ok (o_db s)"
    by (simp_all add: row_history_ok_def open_ok_def notes_of_def fun_eq_iff)
  ultimately show ?thesis using ok by (simp add: ops_ok_def)
qed

lemma open_current:
  assumes "ops_ok s" "(copy, begun) \<in> set (o_open s)" "r \<in> set (incidents (o_db s))"
    "i_id r = i_id copy" "i_version r = i_version copy"
  shows "r = copy" "\<forall>n \<in> set (notes_of (o_db s) (i_id copy)). in_ts n \<le> begun"
proof -
  obtain q where q: "q \<in> set (incidents (o_db s))" "i_id q = i_id copy"
    "i_version q = i_version copy \<longrightarrow> q = copy \<and> (\<forall>n \<in> set (notes_of (o_db s) (i_id q)). in_ts n \<le> begun)"
    using assms(1,2) by (fastforce simp: ops_ok_def open_ok_def)
  have "inj_on i_id (set (incidents (o_db s)))" using assms(1) by (simp add: ops_ok_def ids_ok_def distinct_map)
  then have "q = r" using q(1,2) assms(3,4) by (simp add: inj_on_def)
  then show "r = copy" "\<forall>n \<in> set (notes_of (o_db s) (i_id copy)). in_ts n \<le> begun" using q(3) assms(5) by auto
qed

text \<open>A commit that passes the version check keeps the history of every incident.\<close>

lemma flush_keeps_ok:
  assumes ok: "ops_ok s" and opened: "(copy, begun) \<in> set (o_open s)" and t: "begun \<le> t" "t \<le> o_clock s"
    and row: "i_id row = i_id copy" "i_version row = i_version copy" "fields_ok copy \<Longrightarrow> fields_ok row"
    and entry: "in_incident entry = i_id copy" "in_ts entry = t"
      "replay (Some (i_state copy)) [entry] = Some (Some (i_state row))"
    and fl: "flush_row row entry audit (o_db s) = Some d'"
  shows "ops_ok (s\<lparr>o_db := d'\<rparr>)"
proof -
  let ?d = "o_db s" and ?new = "row\<lparr>i_version := i_version row + 1\<rparr>"
  obtain r where r: "r \<in> set (incidents ?d)" "i_id r = i_id copy" "i_version r = i_version copy"
    using fl row(1,2) by (auto simp: flush_row_def split: if_splits)
  note cur = open_current [OF ok opened r]
  have inj: "inj_on i_id (set (incidents ?d))" using ok by (simp add: ops_ok_def ids_ok_def distinct_map)
  have at: "i_id x = i_id copy \<longleftrightarrow> x = copy" if "x \<in> set (incidents ?d)" for x
    using that r(1) cur(1) inj by (auto simp: inj_on_def)
  have inc: "incidents d' = map (\<lambda>x. if x = copy then ?new else x) (incidents ?d)"
    using fl at row(1,2) by (auto simp: flush_row_def split: if_splits)
  have rest: "incident_notes d' = incident_notes ?d @ [entry]" "ulid d' = ulid ?d" "ids_drawn d' = ids_drawn ?d"
    using fl by (auto simp: flush_row_def split: if_splits)
  have entries: "notes_of d' i = notes_of ?d i @ (if i = i_id copy then [entry] else [])" for i
    using entry(1) by (simp add: notes_of_def rest)
  have ids: "map i_id (incidents d') = map i_id (incidents ?d)" using row(1) by (auto simp: inc)
  have idset: "i_id ` set (incidents d') = i_id ` set (incidents ?d)" using arg_cong [OF ids, of set] by simp
  have "in_incident entry \<in> i_id ` set (incidents ?d)" using r(1,2) entry(1) by (metis imageI)
  then have 1: "ids_ok d'" using ok unfolding ops_ok_def ids_ok_def rest ids idset by simp
  have hist: "row_history_ok ?d copy" using ok r(1) cur(1) by (auto simp: ops_ok_def)
  have new: "row_history_ok d' ?new"
    using hist row entry cur(2) t(1)
    by (auto simp: row_history_ok_def entries replay_snoc fields_ok_def sorted_append truthy_def)
  have old: "row_history_ok d' x" if "x \<in> set (incidents ?d)" "x \<noteq> copy" for x
    using ok that at [OF that(1)] by (auto simp: row_history_ok_def entries ops_ok_def)
  have 2: "\<forall>x \<in> set (incidents d'). row_history_ok d' x" using new old by (auto simp: inc)
  have 3: "\<forall>n \<in> set (incident_notes d'). in_ts n \<le> o_clock s" using ok t entry(2) by (auto simp: rest ops_ok_def)
  have 4: "open_ok d' (o_clock s) e" if "e \<in> set (o_open s)" for e
  proof -
    have "open_ok ?d (o_clock s) e" using ok that by (simp add: ops_ok_def)
    then obtain x where x: "snd e \<le> o_clock s" "x \<in> set (incidents ?d)" "i_id x = i_id (fst e)"
      "i_version (fst e) \<le> i_version x"
      "i_version x = i_version (fst e) \<longrightarrow> x = fst e \<and> (\<forall>n \<in> set (notes_of ?d (i_id x)). in_ts n \<le> snd e)"
      by (auto simp: open_ok_def)
    show ?thesis
    proof (cases "x = copy")
      case True
      then have "?new \<in> set (incidents d')" "i_id ?new = i_id (fst e)" "i_version (fst e) < i_version ?new"
        using x(2-4) row(1,2) by (auto simp: inc)
      then show ?thesis using x(1) unfolding open_ok_def by (intro conjI bexI [of _ ?new]) auto
    next
      case False
      then have "x \<in> set (incidents d')" "notes_of d' (i_id x) = notes_of ?d (i_id x)"
        using x(2) at [OF x(2)] by (auto simp: inc entries)
      then show ?thesis using x unfolding open_ok_def by (intro conjI bexI [of _ x]) auto
    qed
  qed
  show ?thesis using 1 2 3 4 by (simp add: ops_ok_def)
qed

lemma create_keeps_ok:
  assumes ok: "ops_ok s"
    and c: "create_incident site summary typ severity actor asset zone event_id (o_clock s) (o_db s) = (row, d')"
  shows "ops_ok (s\<lparr>o_db := audited a d'\<rparr>)"
proof -
  let ?d = "o_db s"
  define entry where "entry = append_note (ulid ?d (ids_drawn ?d + 1)) row actor ''state_change'' None (Some ''open'') (Some summary) (o_clock s)"
  have row: "i_id row = ulid ?d (ids_drawn ?d)" "i_version row = 1" "i_state row = ''open''"
    using c by (auto simp: create_incident_def new_event_id_def Let_def)
  have d': "d' = ?d\<lparr>ids_drawn := ids_drawn ?d + 2, incidents := incidents ?d @ [row], incident_notes := incident_notes ?d @ [entry]\<rparr>"
    using c by (auto simp: create_incident_def new_event_id_def Let_def entry_def)
  have ids: "ids_ok ?d" using ok by (simp add: ops_ok_def)
  have "ulid ?d (ids_drawn ?d) \<notin> ulid ?d ` {..<ids_drawn ?d}"
    using ids by (auto simp: ids_ok_def dest: injD)
  then have fresh: "i_id row \<notin> i_id ` set (incidents ?d)" using ids row(1) by (auto simp: ids_ok_def)
  have e: "in_incident entry = i_id row" by (simp add: entry_def append_note_def)
  have "ulid ?d ` {..<ids_drawn ?d} \<subseteq> ulid ?d ` {..<ids_drawn ?d + 2}" by (rule image_mono) auto
  moreover have "i_id row \<in> ulid ?d ` {..<ids_drawn ?d + 2}" using row(1) by auto
  ultimately have 1: "ids_ok d'" using ids fresh e by (auto simp: ids_ok_def d')
  have "in_incident n \<noteq> i_id row" if "n \<in> set (incident_notes ?d)" for n
    using ids fresh that unfolding ids_ok_def by (metis imageI subsetD)
  then have none: "notes_of ?d (i_id row) = []" by (simp add: notes_of_def)
  have old: "notes_of d' (i_id x) = notes_of ?d (i_id x)" if "x \<in> set (incidents ?d)" for x
    using that fresh e by (auto simp: notes_of_def d')
  have new: "row_history_ok d' row"
    using none row e by (auto simp: row_history_ok_def notes_of_def d' fields_ok_def incident_states_def entry_def append_note_def)
  have 2: "\<forall>x \<in> set (incidents d'). row_history_ok d' x"
    using new old ok by (auto simp: d' row_history_ok_def ops_ok_def)
  have 3: "\<forall>n \<in> set (incident_notes d'). in_ts n \<le> o_clock s"
    using ok by (auto simp: d' ops_ok_def entry_def append_note_def)
  have 4: "open_ok d' (o_clock s) x" if "x \<in> set (o_open s)" for x
  proof -
    have "open_ok ?d (o_clock s) x" using ok that by (simp add: ops_ok_def)
    then obtain r where r: "r \<in> set (incidents ?d)" and rest: "snd x \<le> o_clock s" "i_id r = i_id (fst x)"
      "i_version (fst x) \<le> i_version r"
      "i_version r = i_version (fst x) \<longrightarrow> r = fst x \<and> (\<forall>n \<in> set (notes_of ?d (i_id r)). in_ts n \<le> snd x)"
      by (auto simp: open_ok_def)
    have "r \<in> set (incidents d')" using r by (simp add: d')
    then show ?thesis using rest old [OF r] unfolding open_ok_def by (intro conjI bexI [of _ r]) auto
  qed
  have "row_history_ok (audited a d') = row_history_ok d'" "open_ok (audited a d') = open_ok d'" "ids_ok (audited a d') = ids_ok d'"
    by (simp_all add: audited_def row_history_ok_def open_ok_def notes_of_def ids_ok_def fun_eq_iff)
  then show "ops_ok (s\<lparr>o_db := audited a d'\<rparr>)" using 1 2 3 4 by (simp add: ops_ok_def) (simp add: audited_def)
qed

lemma flush_ids: "flush_row row entry a d = Some d' \<Longrightarrow> i_id ` set (incidents d) = i_id ` set (incidents d')"
proof -
  assume "flush_row row entry a d = Some d'"
  then have "map i_id (incidents d') = map i_id (incidents d)" by (auto simp: flush_row_def split: if_splits)
  then show ?thesis by (metis list.set_map)
qed

lemma finish_transition_ok:
  assumes ok: "ops_ok s" and opened: "(copy, begun) \<in> set (o_open s)" "begun \<le> t" "t \<le> o_clock s"
    and f: "finish_transition actor copy body t (o_db s) = (res, d')"
  shows "ops_ok (s\<lparr>o_db := d'\<rparr>)"
proof -
  let ?s = "s\<lparr>o_db := (o_db s)\<lparr>ids_drawn := ids_drawn (o_db s) + 1\<rparr>\<rparr>"
  have ok': "ops_ok ?s" by (rule ops_ok_draw [OF ok])
  obtain r row where tr: "transition_incident (ulid (o_db s) (ids_drawn (o_db s))) copy actor body t = (r, row)"
    by fastforce
  show ?thesis
  proof (cases "d' = o_db ?s")
    case True
    then show ?thesis using ok' by simp
  next
    case False
    then obtain entry where e: "r = Inr entry"
      and fl: "flush_row row entry (incident_audit t actor ''incident.transition'' (i_id copy) (i_site copy)) (o_db ?s) = Some d'"
      using f tr by (auto simp: finish_transition_def new_event_id_def split: sum.splits transition_error.splits option.splits)
    note a = transition_accepted [OF tr [unfolded e]]
    have "ops_ok (?s\<lparr>o_db := d'\<rparr>)"
      by (rule flush_keeps_ok [OF ok' _ opened(2) _ a(1,2,3,4,5) _ fl])
         (use opened a(6-9) in auto)
    then show ?thesis by simp
  qed
qed

lemma finish_note_ok:
  assumes ok: "ops_ok s" and opened: "(copy, begun) \<in> set (o_open s)" "begun \<le> t" "t \<le> o_clock s"
    and f: "finish_note actor copy msg t (o_db s) = (res, d')"
  shows "ops_ok (s\<lparr>o_db := d'\<rparr>)"
proof -
  let ?s = "s\<lparr>o_db := (o_db s)\<lparr>ids_drawn := ids_drawn (o_db s) + 1\<rparr>\<rparr>"
    and ?entry = "append_note (ulid (o_db s) (ids_drawn (o_db s))) copy actor ''note'' None None (Some msg) t"
  have ok': "ops_ok ?s" by (rule ops_ok_draw [OF ok])
  show ?thesis
  proof (cases "d' = o_db ?s")
    case True
    then show ?thesis using ok' by simp
  next
    case False
    then have fl: "flush_row (copy\<lparr>i_updated := t\<rparr>) ?entry (incident_audit t actor ''incident.note'' (i_id copy) (i_site copy))
        (o_db ?s) = Some d'"
      using f by (auto simp: finish_note_def new_event_id_def add_note_def split: option.splits)
    have "ops_ok (?s\<lparr>o_db := d'\<rparr>)"
      by (rule flush_keeps_ok [OF ok' _ opened(2) _ _ _ _ _ _ _ fl])
         (use opened in \<open>auto simp: fields_ok_def append_note_def\<close>)
    then show ?thesis by simp
  qed
qed

lemma ops_step_ok: "ops_step s s' \<Longrightarrow> ops_ok s \<Longrightarrow> ops_ok s'"
proof (induction rule: ops_step.induct)
  case (clock s t)
  then show ?case by (fastforce simp: ops_ok_def open_ok_def)
next
  case (post site actor body s res d)
  then show ?case using create_keeps_ok [OF post(2)]
    by (auto simp: post_incident_def split: if_splits option.splits prod.splits)
next
  case (from_event site actor event_id s res d)
  then show ?case using create_keeps_ok [OF from_event(2)]
    by (auto simp: incident_from_event_def split: option.splits prod.splits)
next
  case (read_row s site incident_id row)
  then have "row \<in> set (incidents (o_db s))" by (auto simp: get_incident_def dest: find_Some_mem split: option.splits if_splits)
  then have "open_ok (o_db s) (o_clock s) (row, o_clock s)"
    using read_row(2) by (auto simp: open_ok_def ops_ok_def notes_of_def)
  then show ?case using read_row(2) by (simp add: ops_ok_def)
qed (blast intro: finish_transition_ok finish_note_ok)+

lemma create_ids:
  "create_incident site summary typ severity actor asset zone event_id now d = (row, d') \<Longrightarrow>
    i_id ` set (incidents d) \<subseteq> i_id ` set (incidents d')"
  by (auto simp: create_incident_def new_event_id_def Let_def)

lemma ops_step_ids: "ops_step s s' \<Longrightarrow> i_id ` set (incidents (o_db s)) \<subseteq> i_id ` set (incidents (o_db s'))"
proof (induction rule: ops_step.induct)
  case (post site actor body s res d)
  then show ?case using create_ids
    by (fastforce simp: post_incident_def audited_def split: if_splits option.splits prod.splits)
next
  case (from_event site actor event_id s res d)
  then show ?case using create_ids by (fastforce simp: incident_from_event_def audited_def split: option.splits prod.splits)
next
  case (transition copy begun s t actor body res d)
  then show ?case
    by (auto simp: finish_transition_def new_event_id_def dest!: flush_ids
        split: prod.splits sum.splits transition_error.splits option.splits)
next
  case (write_note copy begun s t actor msg res d)
  then show ?case
    by (auto simp: finish_note_def add_note_def new_event_id_def dest!: flush_ids split: option.splits)
qed simp_all

text \<open>Incidents are in custody: none disappears, and the history of each stays whole.\<close>

interpretation lifecycle: custody ops_step ops_ok "\<lambda>s. i_id ` set (incidents (o_db s))"
    "\<lambda>s i. \<exists>r \<in> set (incidents (o_db s)). i_id r = i \<and> row_history_ok (o_db s) r"
  by unfold_locales (auto simp: ops_ok_def dest: ops_step_ok ops_step_ids [THEN subsetD])

section \<open>What holds in every interleaving\<close>

definition ops_start :: "ops_run \<Rightarrow> bool" where
  "ops_start s \<longleftrightarrow> inj (ulid (o_db s)) \<and> incidents (o_db s) = [] \<and> incident_notes (o_db s) = [] \<and> o_open s = []"

lemma ops_ok_start: "ops_start s \<Longrightarrow> ops_ok s"
  by (simp add: ops_start_def ops_ok_def ids_ok_def)

lemma reachable_ok: "ops_start s0 \<Longrightarrow> ops_step\<^sup>*\<^sup>* s0 s \<Longrightarrow> ops_ok s"
  using lifecycle.reach ops_ok_start by blast

lemma flush_notes: "flush_row row entry a d = Some d' \<Longrightarrow> incident_notes d' = incident_notes d @ [entry]"
  by (auto simp: flush_row_def split: if_splits)

lemma create_notes:
  "create_incident site summary typ severity actor asset zone event_id now d = (row, d') \<Longrightarrow>
    \<exists>more. incident_notes d' = incident_notes d @ more"
  by (auto simp: create_incident_def new_event_id_def Let_def)

lemma ops_step_notes: "ops_step s s' \<Longrightarrow> \<exists>more. incident_notes (o_db s') = incident_notes (o_db s) @ more"
proof (induction rule: ops_step.induct)
  case (post site actor body s res d)
  then show ?case using create_notes
    by (fastforce simp: post_incident_def audited_def split: if_splits option.splits prod.splits)
next
  case (from_event site actor event_id s res d)
  then show ?case using create_notes by (fastforce simp: incident_from_event_def audited_def split: option.splits prod.splits)
next
  case (transition copy begun s t actor body res d)
  then show ?case
    by (auto simp: finish_transition_def new_event_id_def dest!: flush_notes
        split: prod.splits sum.splits transition_error.splits option.splits)
next
  case (write_note copy begun s t actor msg res d)
  then show ?case
    by (auto simp: finish_note_def add_note_def new_event_id_def dest!: flush_notes split: option.splits)
qed simp_all

lemma run_notes: "ops_step\<^sup>*\<^sup>* s s' \<Longrightarrow> \<exists>more. notes_of (o_db s') i = notes_of (o_db s) i @ more"
proof (induction rule: rtranclp_induct)
  case (step y z)
  then show ?case using ops_step_notes [of y z] by (auto simp: notes_of_def)
qed simp

lemma replay_append: "replay cur (ns @ ms) = (case replay cur ns of None \<Rightarrow> None | Some c \<Rightarrow> replay c ms)"
  by (induction cur ns rule: replay.induct) auto

lemma replay_closed: "replay (Some ''closed'') ms = Some c \<Longrightarrow> c = Some ''closed''"
  by (induction ms) (auto simp: can_transition_def allowed_def split: if_splits option.splits)

lemma timeline_in_order: "row_history_ok d r \<Longrightarrow> timeline d (i_id r) = notes_of d (i_id r)"
  by (simp add: row_history_ok_def timeline_def notes_of_def sort_key_id_if_sorted)

text \<open>C7: an incident's timeline is its whole history: however the requests of several operators
  interleave, in every reachable state the recorded changes of each incident, in the order the
  timeline shows them, are a legal path through the lifecycle from its opening to its present state,
  none is missing (the version counts them), an assigned incident has an assignee, a resolved one a
  resolution and a closed one the time it closed; and an incident never disappears, nor leaves the
  closed state, afterwards.\<close>

theorem timeline_is_the_history:
  assumes "ops_start s0" "ops_step\<^sup>*\<^sup>* s0 s" "r \<in> set (incidents (o_db s))" "ops_step\<^sup>*\<^sup>* s s'"
  shows "replay None (timeline (o_db s) (i_id r)) = Some (Some (i_state r)) \<and>
    i_version r = length (timeline (o_db s) (i_id r)) \<and> fields_ok r \<and>
    (\<exists>r' \<in> set (incidents (o_db s')). i_id r' = i_id r \<and> (i_state r = ''closed'' \<longrightarrow> i_state r' = ''closed''))"
proof -
  have ok: "ops_ok s" by (rule reachable_ok [OF assms(1,2)])
  then have r: "row_history_ok (o_db s) r" using assms(3) by (simp add: ops_ok_def)
  obtain r' where r': "r' \<in> set (incidents (o_db s'))" "i_id r' = i_id r" "row_history_ok (o_db s') r'"
    using lifecycle.never_lost [OF ok _ assms(4), of "i_id r"] assms(3) by blast
  obtain more where "notes_of (o_db s') (i_id r) = notes_of (o_db s) (i_id r) @ more" using run_notes [OF assms(4)] by blast
  then have "i_state r = ''closed'' \<Longrightarrow> i_state r' = ''closed''"
    using r r'(2,3) replay_closed by (auto simp: row_history_ok_def replay_append)
  then show ?thesis using r r'(1,2) timeline_in_order [OF r] by (auto simp: row_history_ok_def)
qed

text \<open>No operator overwrites another: a transition or a note that commits was decided on the row as
  it then was; when anyone changed the incident after the request had read it, the request is refused
  and neither the incidents nor their timelines change.\<close>

theorem stale_request_is_refused:
  assumes "ops_start s0" "ops_step\<^sup>*\<^sup>* s0 s" "(copy, begun) \<in> set (o_open s)" "copy \<notin> set (incidents (o_db s))"
  shows "(case finish_transition actor copy body t (o_db s) of
      (res, d) \<Rightarrow> res \<in> {Inl Conflict409, Inl Unprocessable422} \<and> incidents d = incidents (o_db s) \<and>
        incident_notes d = incident_notes (o_db s)) \<and>
    (case finish_note actor copy msg t (o_db s) of
      (res, d) \<Rightarrow> res = None \<and> incidents d = incidents (o_db s) \<and> incident_notes d = incident_notes (o_db s))"
proof -
  have ok: "ops_ok s" by (rule reachable_ok [OF assms(1,2)])
  have none: "flush_row row entry a (snd (new_event_id (o_db s))) = None"
    if "i_id row = i_id copy" "i_version row = i_version copy" for row entry a
    using open_current(1) [OF ok assms(3)] assms(4) that by (auto simp: flush_row_def new_event_id_def)
  obtain nid d where n: "new_event_id (o_db s) = (nid, d)" by fastforce
  have d: "incidents d = incidents (o_db s)" "incident_notes d = incident_notes (o_db s)"
    using n by (auto simp: new_event_id_def)
  obtain r row where tr: "transition_incident nid copy actor body t = (r, row)" by fastforce
  have "(case finish_transition actor copy body t (o_db s) of
      (res, d) \<Rightarrow> res \<in> {Inl Conflict409, Inl Unprocessable422} \<and> incidents d = incidents (o_db s) \<and>
        incident_notes d = incident_notes (o_db s))"
  proof (cases r)
    case (Inl e)
    then show ?thesis using n d tr by (cases e) (simp_all add: finish_transition_def)
  next
    case (Inr entry)
    note a = transition_accepted(1,2) [OF tr [unfolded Inr]]
    show ?thesis using none [OF a] n d tr Inr by (simp add: finish_transition_def)
  qed
  moreover have "(case finish_note actor copy msg t (o_db s) of
      (res, d) \<Rightarrow> res = None \<and> incidents d = incidents (o_db s) \<and> incident_notes d = incident_notes (o_db s))"
    using none n d by (simp add: finish_note_def add_note_def)
  ultimately show ?thesis by blast
qed

section \<open>Concrete instances\<close>

definition demo_ops :: ops_run where
  "demo_ops = \<lparr>o_db = db.extend empty_db \<lparr>incidents = [], incident_notes = [], ops_audit = []\<rparr>, o_clock = 0, o_open = []\<rparr>"

lemma inj_show_nat: "inj show_nat"
  by (rule inj_on_inverseI [of _ "\<lambda>s. nat (digits_val s)"]) (simp add: digits_val_show_nat)

lemma demo_ops_start: "ops_start demo_ops"
  using inj_show_nat by (simp add: ops_start_def demo_ops_def db.extend_def empty_db_def inj_def)

definition demo_incident_in :: incident_in where
  "demo_incident_in = \<lparr>b_summary = ''spill'', b_type = ''operational'', b_severity = ''info'', b_asset = None,
     b_zone = None, b_event = None\<rparr>"

definition demo_posted :: ops_run where
  "demo_posted = demo_ops\<lparr>o_db := snd (post_incident ''s1'' ''anna'' demo_incident_in 0 (o_db demo_ops))\<rparr>"

definition demo_row_0 :: incident where
  "demo_row_0 = hd (incidents (o_db demo_posted))"

definition demo_move :: transition_in where
  "demo_move = \<lparr>to_state = ''acknowledged'', t_note = None, t_assignee = None, t_resolution = None, t_category = None\<rparr>"

definition demo_open :: ops_run where
  "demo_open = demo_posted\<lparr>o_open := [(demo_row_0, 0)]\<rparr>"

definition demo_taken :: ops_run where
  "demo_taken = demo_open\<lparr>o_db := snd (finish_transition ''ben'' demo_row_0 demo_move 0 (o_db demo_open))\<rparr>"

lemma demo_rows: "incidents (o_db demo_posted) = [demo_row_0]" "i_state demo_row_0 = ''open''" "i_site demo_row_0 = ''s1''"
    "i_version demo_row_0 = 1" "o_clock demo_posted = 0" "o_open demo_posted = []"
  by (simp_all add: demo_posted_def demo_row_0_def demo_ops_def demo_incident_in_def post_incident_def create_incident_def
      new_event_id_def audited_def Let_def db.extend_def)

lemma demo_reach: "ops_step\<^sup>*\<^sup>* demo_ops demo_posted" "ops_step\<^sup>*\<^sup>* demo_posted demo_taken"
proof -
  have "ops_step demo_ops demo_posted"
    unfolding demo_posted_def
    by (rule post [where res = "fst (post_incident ''s1'' ''anna'' demo_incident_in 0 (o_db demo_ops))"])
       (simp add: demo_ops_def)
  then show "ops_step\<^sup>*\<^sup>* demo_ops demo_posted" by blast
  have "get_incident (o_db demo_posted) ''s1'' (i_id demo_row_0) = Some demo_row_0"
    by (simp add: get_incident_def demo_rows)
  then have "ops_step demo_posted demo_open"
    using read_row [of demo_posted "''s1''" "i_id demo_row_0" demo_row_0] by (simp add: demo_rows demo_open_def)
  moreover have "ops_step demo_open demo_taken"
    unfolding demo_taken_def
    by (rule transition [where res = "fst (finish_transition ''ben'' demo_row_0 demo_move 0 (o_db demo_open))" and begun = 0])
       (simp_all add: demo_open_def demo_rows)
  ultimately show "ops_step\<^sup>*\<^sup>* demo_posted demo_taken" by (meson converse_rtranclp_into_rtranclp r_into_rtranclp)
qed

theorem timeline_is_the_history_witness:
  "replay None (timeline (o_db demo_posted) (i_id demo_row_0)) = Some (Some ''open'') \<and>
   i_version demo_row_0 = length (timeline (o_db demo_posted) (i_id demo_row_0)) \<and> fields_ok demo_row_0 \<and>
   (\<exists>r' \<in> set (incidents (o_db demo_taken)). i_id r' = i_id demo_row_0)"
  using timeline_is_the_history [OF demo_ops_start demo_reach(1) _ demo_reach(2), of demo_row_0] demo_rows by auto

lemma demo_row_gone: "demo_row_0 \<notin> set (incidents (o_db demo_taken))"
proof -
  have "\<forall>r \<in> set (incidents (o_db demo_taken)). i_version r \<noteq> i_version demo_row_0"
    using demo_rows by (auto simp: demo_taken_def demo_open_def finish_transition_def new_event_id_def transition_incident_def
        demo_move_def incident_states_def can_transition_def allowed_def flush_row_def append_note_def Let_def)
  then show ?thesis by blast
qed

theorem stale_request_is_refused_witness:
  "fst (finish_note ''cleo'' demo_row_0 [Txt ''late''] 0 (o_db demo_taken)) = None \<and>
   incidents (snd (finish_transition ''cleo'' demo_row_0 demo_move 0 (o_db demo_taken))) = incidents (o_db demo_taken)"
proof -
  have "(demo_row_0, 0) \<in> set (o_open demo_taken)" by (simp add: demo_taken_def demo_open_def)
  from stale_request_is_refused [OF demo_ops_start rtranclp_trans [OF demo_reach] this demo_row_gone,
      where actor = "''cleo''" and body = demo_move and t = 0 and msg = "[Txt ''late'']"]
  show ?thesis by (simp add: split_beta)
qed

end
