(* ===== verification/Operations.thy ===== *)
theory Operations
  imports Shifts Incidents Cycles Metrics
begin

text \<open>
  What operators read about a shift, \<^verbatim>\<open>src/src/minemonitor/operations/\<close>: the state of a machine
  (\<^verbatim>\<open>equipment.py\<close>), what needs attention (\<^verbatim>\<open>exceptions.py\<close>), the scorecard of a shift
  (\<^verbatim>\<open>scorecard.py\<close>), delay classifications (\<^verbatim>\<open>delays.py\<close>), handovers (\<^verbatim>\<open>handover.py\<close>), trends
  (\<^verbatim>\<open>trends.py\<close>), bottlenecks (\<^verbatim>\<open>bottlenecks.py\<close>), data quality (\<^verbatim>\<open>dataquality.py\<close>) and the health
  verdict (\<^verbatim>\<open>systemhealth.py\<close>). The database of shifts is extended with the tables read here.
\<close>

record delay =
  d_id :: string
  d_site :: string
  d_asset :: "string option"
  d_zone :: "string option"
  d_category :: string
  d_start :: time
  d_end :: time
  d_note :: "string option"
  d_source :: string
  d_created_by :: string
  d_created :: time

section \<open>Delays\<close>

definition delay_categories :: "string list" where
  "delay_categories =
     [''loader_unavailable'', ''truck_unavailable'', ''maintenance'', ''breakdown'', ''road_congestion'', ''refuelling'',
      ''blasting'', ''shift_change'', ''operational_delay'', ''weather'', ''other'', ''unknown'']"

definition is_valid_category :: "string \<Rightarrow> bool" where
  "is_valid_category c = (c \<in> set delay_categories)"

text \<open>None where the source raises \<^verbatim>\<open>ValueError\<close>; \<open>i\<close> is the ULID drawn.\<close>

definition create_classification ::
  "string \<Rightarrow> string \<Rightarrow> string \<Rightarrow> time \<Rightarrow> time \<Rightarrow> string \<Rightarrow> string option \<Rightarrow> string option \<Rightarrow> string option \<Rightarrow> string \<Rightarrow> time
    \<Rightarrow> delay option" where
  "create_classification i site category start_at end_at actor asset zone msg source now =
     (if \<not> is_valid_category category then None
      else if end_at \<le> start_at then None
      else Some \<lparr>d_id = i, d_site = site, d_asset = asset, d_zone = zone, d_category = category, d_start = start_at,
             d_end = end_at, d_note = msg, d_source = source, d_created_by = actor, d_created = now\<rparr>)"

definition get_classification :: "delay list \<Rightarrow> string \<Rightarrow> string \<Rightarrow> delay option" where
  "get_classification ds site i =
     (case List.find (\<lambda>r. d_id r = i) ds of None \<Rightarrow> None | Some r \<Rightarrow> if d_site r \<noteq> site then None else Some r)"

definition list_classifications ::
  "delay list \<Rightarrow> string \<Rightarrow> string option \<Rightarrow> string option \<Rightarrow> time option \<Rightarrow> time option \<Rightarrow> nat \<Rightarrow> delay list" where
  "list_classifications ds site category asset from until limit =
     take limit (sort_key (\<lambda>r. - d_start r) (filter (\<lambda>r. d_site r = site \<and>
        (case category of None \<Rightarrow> True | Some c \<Rightarrow> d_category r = c) \<and>
        (case asset of None \<Rightarrow> True | Some a \<Rightarrow> d_asset r = Some a) \<and>
        (case from of None \<Rightarrow> True | Some t \<Rightarrow> d_end r > t) \<and>
        (case until of None \<Rightarrow> True | Some t \<Rightarrow> d_start r < t)) ds))"

section \<open>The scorecard of a shift\<close>

record cycles_summary =
  cs_count :: nat
  cs_mean :: "real option"
  cs_queue_pct :: "real option"
  cs_segment_pct :: "(string \<times> real) list"

record utilisation =
  ut_moving :: real
  ut_idle :: real
  ut_pct :: "real option"

record scorecard =
  sc_shift :: shift_window
  sc_cycles :: cycles_summary
  sc_utilisation :: utilisation
  sc_events :: nat
  sc_by_severity :: "(string \<times> nat) list"
  sc_delay_s :: real
  sc_by_category :: "(string \<times> real) list"
  sc_open_now :: nat
  sc_opened :: nat

record handover =
  h_id :: string
  h_site :: string
  h_shift :: string
  h_state :: string
  h_summary :: scorecard
  h_outgoing_by :: string
  h_outgoing_notes :: "string option"
  h_created :: time
  h_incoming_by :: "string option"
  h_incoming_notes :: "string option"
  h_acknowledged :: "time option"

record report_db = shift_db +
  rp_cycles :: "(string \<times> cycle) list"
  rp_buckets :: "bucket list"
  rp_delays :: "delay list"
  rp_incidents :: "incident list"
  rp_handovers :: "handover list"

definition segments :: "(string \<times> (cycle \<Rightarrow> real)) list" where
  "segments = [(''queue_s'', queue_s), (''load_s'', load_s), (''haul_s'', haul_s), (''dump_s'', dump_s), (''return_s'', return_s)]"

definition cycles_summary_of :: "cycle list \<Rightarrow> cycles_summary" where
  "cycles_summary_of rows =
     (if rows = [] then \<lparr>cs_count = 0, cs_mean = None, cs_queue_pct = None, cs_segment_pct = []\<rparr>
      else let total = sum_list (map cycle_time_s rows);
               pct = (\<lambda>seg. if total \<noteq> 0 then 100 * sum_list (map seg rows) / total else 0)
           in \<lparr>cs_count = length rows, cs_mean = Some (total / real (length rows)), cs_queue_pct = Some (pct queue_s),
                cs_segment_pct = map (\<lambda>(name, seg). (name, pct seg)) segments\<rparr>)"

definition utilisation_of :: "bucket list \<Rightarrow> utilisation" where
  "utilisation_of rows =
     (let moving = sum_list (map moving_time_s rows); idle = sum_list (map idle_time_s rows); denom = moving + idle
      in \<lparr>ut_moving = moving, ut_idle = idle, ut_pct = (if denom \<noteq> 0 then Some (100 * moving / denom) else None)\<rparr>)"

definition dict_add :: "'k \<Rightarrow> 'v::monoid_add \<Rightarrow> ('k \<times> 'v) list \<Rightarrow> ('k \<times> 'v) list" where
  "dict_add k v d = dict_put k ((case map_of d k of None \<Rightarrow> 0 | Some x \<Rightarrow> x) + v) d"

definition in_span :: "time \<Rightarrow> time \<Rightarrow> time \<Rightarrow> bool" where
  "in_span a b t \<longleftrightarrow> a \<le> t \<and> t < b"

definition site_cycles :: "'a report_db_scheme \<Rightarrow> string \<Rightarrow> time \<Rightarrow> time \<Rightarrow> cycle list" where
  "site_cycles d site a b = map snd (filter (\<lambda>(s, c). s = site \<and> in_span a b (start_ts c)) (rp_cycles d))"

definition site_events :: "'a db_scheme \<Rightarrow> string \<Rightarrow> time \<Rightarrow> time \<Rightarrow> event list" where
  "site_events d site a b = filter (\<lambda>e. e_site e = site \<and> in_span a b (e_ts e)) (events d)"

definition overlap_s :: "time \<Rightarrow> time \<Rightarrow> delay \<Rightarrow> real" where
  "overlap_s a b r = total_seconds (min (d_end r) b - max (d_start r) a)"

definition overlapping :: "'a report_db_scheme \<Rightarrow> string \<Rightarrow> time \<Rightarrow> time \<Rightarrow> delay list" where
  "overlapping d site a b =
     filter (\<lambda>r. overlap_s a b r > 0) (filter (\<lambda>r. d_site r = site \<and> d_end r > a \<and> d_start r < b) (rp_delays d))"

definition open_incident_states :: "string list" where
  "open_incident_states = [''open'', ''acknowledged'', ''investigating'', ''assigned'']"

definition compute_scorecard :: "'a report_db_scheme \<Rightarrow> string \<Rightarrow> shift_window \<Rightarrow> scorecard" where
  "compute_scorecard d site w =
     (let a = w_start w; b = w_end w; evs = site_events d site a b; delays = overlapping d site a b
      in \<lparr>sc_shift = w, sc_cycles = cycles_summary_of (site_cycles d site a b),
          sc_utilisation = utilisation_of (filter (\<lambda>m. m_site m = site \<and> in_span a b (bucket_start m)) (rp_buckets d)),
          sc_events = length evs, sc_by_severity = fold (\<lambda>e. dict_add (e_severity e) 1) evs [],
          sc_delay_s = sum_list (map (overlap_s a b) delays),
          sc_by_category = fold (\<lambda>r. dict_add (d_category r) (overlap_s a b r)) delays [],
          sc_open_now = length (filter (\<lambda>i. i_site i = site \<and> i_state i \<in> set open_incident_states) (rp_incidents d)),
          sc_opened = length (filter (\<lambda>i. i_site i = site \<and> in_span a b (i_created i)) (rp_incidents d))\<rparr>)"

definition delta :: "real option \<Rightarrow> real option \<Rightarrow> real option" where
  "delta current previous =
     (case current of None \<Rightarrow> None | Some x \<Rightarrow> (case previous of None \<Rightarrow> None | Some y \<Rightarrow> Some (x - y)))"

record comparison =
  cmp_previous :: string
  cmp_queue :: "real option"
  cmp_mean :: "real option"
  cmp_utilisation :: "real option"
  cmp_cycles :: int

definition scorecard_with_comparison ::
  "(string \<Rightarrow> zone_info) \<Rightarrow> 'a report_db_scheme \<Rightarrow> string \<Rightarrow> time \<Rightarrow> (scorecard \<times> comparison option) option" where
  "scorecard_with_comparison zones d site t =
     (case resolve_shift zones d site t of
        None \<Rightarrow> None
      | Some w \<Rightarrow>
          let current = compute_scorecard d site w
          in Some (current,
               case resolve_shift zones d site (w_start w - seconds 1) of
                 None \<Rightarrow> None
               | Some p \<Rightarrow>
                   if w_shift_id p = w_shift_id w then None
                   else let previous = compute_scorecard d site p
                        in Some \<lparr>cmp_previous = w_shift_id p,
                             cmp_queue = delta (cs_queue_pct (sc_cycles current)) (cs_queue_pct (sc_cycles previous)),
                             cmp_mean = delta (cs_mean (sc_cycles current)) (cs_mean (sc_cycles previous)),
                             cmp_utilisation = delta (ut_pct (sc_utilisation current)) (ut_pct (sc_utilisation previous)),
                             cmp_cycles = int (cs_count (sc_cycles current)) - int (cs_count (sc_cycles previous))\<rparr>))"

section \<open>Handovers\<close>

definition create_handover ::
  "string \<Rightarrow> string \<Rightarrow> shift_window \<Rightarrow> string \<Rightarrow> string option \<Rightarrow> time \<Rightarrow> report_db \<Rightarrow> handover \<times> report_db" where
  "create_handover i site w by_user msg now d =
     (let row = \<lparr>h_id = i, h_site = site, h_shift = w_shift_id w, h_state = ''open'',
            h_summary = compute_scorecard d site w, h_outgoing_by = by_user, h_outgoing_notes = msg, h_created = now,
            h_incoming_by = None, h_incoming_notes = None, h_acknowledged = None\<rparr>
      in (row, d\<lparr>rp_handovers := rp_handovers d @ [row]\<rparr>))"

definition get_handover :: "report_db \<Rightarrow> string \<Rightarrow> string \<Rightarrow> handover option" where
  "get_handover d site i =
     (case List.find (\<lambda>h. h_id h = i) (rp_handovers d) of None \<Rightarrow> None | Some h \<Rightarrow> if h_site h \<noteq> site then None else Some h)"

definition list_handovers :: "report_db \<Rightarrow> string \<Rightarrow> string option \<Rightarrow> nat \<Rightarrow> handover list" where
  "list_handovers d site shift limit =
     take limit (sort_key (\<lambda>h. - h_created h) (filter (\<lambda>h. h_site h = site \<and>
        (case shift of None \<Rightarrow> True | Some x \<Rightarrow> h_shift h = x)) (rp_handovers d)))"

definition acknowledge_handover :: "handover \<Rightarrow> string \<Rightarrow> string option \<Rightarrow> time \<Rightarrow> handover option" where
  "acknowledge_handover h by_user msg now =
     (if h_state h \<noteq> ''open'' then None
      else Some (h\<lparr>h_state := ''acknowledged'', h_incoming_by := Some by_user, h_incoming_notes := msg,
             h_acknowledged := Some now\<rparr>))"

section \<open>Trends\<close>

text \<open>The windows found so far (newest first) and the probes left.\<close>

fun probe ::
  "(string \<Rightarrow> zone_info) \<Rightarrow> 'a shift_db_scheme \<Rightarrow> string \<Rightarrow> nat \<Rightarrow> nat \<Rightarrow> shift_window list \<Rightarrow> time \<Rightarrow> shift_window list" where
  "probe zones d site 0 wanted_n ws cursor_ts = ws"
| "probe zones d site (Suc n) wanted_n ws cursor_ts =
     (if length ws \<ge> wanted_n then ws
      else case resolve_shift zones d site cursor_ts of
             None \<Rightarrow> probe zones d site n wanted_n ws (cursor_ts - seconds 3600)
           | Some w \<Rightarrow>
               probe zones d site n wanted_n (if w_shift_id w \<in> w_shift_id ` set ws then ws else ws @ [w])
                 (w_start w - seconds 1))"

definition recent_windows :: "(string \<Rightarrow> zone_info) \<Rightarrow> 'a shift_db_scheme \<Rightarrow> string \<Rightarrow> time \<Rightarrow> nat \<Rightarrow> shift_window list" where
  "recent_windows zones d site t wanted_n = probe zones d site (wanted_n * 4) wanted_n [] t"

definition compute_trends ::
  "(string \<Rightarrow> zone_info) \<Rightarrow> 'a report_db_scheme \<Rightarrow> string \<Rightarrow> time \<Rightarrow> nat \<Rightarrow> scorecard list" where
  "compute_trends zones d site t wanted_n = map (compute_scorecard d site) (recent_windows zones d site t wanted_n)"

section \<open>Bottlenecks\<close>

datatype observation =
    Segment_share string real nat
  | Slow_asset string real real nat
  | Top_downtime string real

text \<open>\<^verbatim>\<open>max(d, key=...)\<close>: the first key with the largest value.\<close>

fun first_max :: "('k \<times> real) list \<Rightarrow> 'k \<times> real \<Rightarrow> 'k \<times> real" where
  "first_max [] best = best"
| "first_max ((k, v) # d) best = first_max d (if v > snd best then (k, v) else best)"

definition largest :: "('k \<times> real) list \<Rightarrow> ('k \<times> real) option" where
  "largest d = (case d of [] \<Rightarrow> None | e # es \<Rightarrow> Some (first_max es e))"

definition mean :: "real list \<Rightarrow> real" where
  "mean xs = sum_list xs / real (length xs)"

definition times_of :: "cycle list \<Rightarrow> string \<Rightarrow> real list" where
  "times_of cs asset = map cycle_time_s (filter (\<lambda>c. c_asset c = asset) cs)"

definition outlier_ratio :: real where "outlier_ratio = 125 / 100"

definition compute_bottlenecks :: "'a report_db_scheme \<Rightarrow> string \<Rightarrow> shift_window \<Rightarrow> observation list" where
  "compute_bottlenecks d site w =
     (let cs = site_cycles d site (w_start w) (w_end w); total = sum_list (map cycle_time_s cs);
          fleet = mean (map cycle_time_s cs);
          share = (if cs = [] \<or> \<not> total > 0 then []
                   else case largest (map (\<lambda>(name, seg). (name, sum_list (map seg cs))) segments) of
                          None \<Rightarrow> []
                        | Some (name, v) \<Rightarrow> [Segment_share name (100 * v / total) (length cs)]);
          slow = (if cs = [] then []
                  else concat (map (\<lambda>asset. let ts = times_of cs asset
                         in if fleet > 0 \<and> mean ts \<ge> outlier_ratio * fleet then [Slow_asset asset (mean ts) fleet (length ts)]
                            else []) (sort (remdups (map c_asset cs)))));
          top = (case largest (sc_by_category (compute_scorecard d site w)) of
                   None \<Rightarrow> [] | Some (cat, v) \<Rightarrow> [Top_downtime cat v])
      in share @ slow @ top)"

section \<open>Machines and what needs attention\<close>

record equipment_status =
  eq_state :: string
  eq_observed :: bool
  eq_age_s :: "real option"
  eq_reason :: text_pieces

definition em_dash :: string where "em_dash = [CHR 0xE2, CHR 0x80, CHR 0x94]"

definition moving_from_kph :: real where "moving_from_kph = 3"

definition derive_state ::
  "time option \<Rightarrow> real option \<Rightarrow> bool option \<Rightarrow> time \<Rightarrow> real \<Rightarrow> real \<Rightarrow> equipment_status" where
  "derive_state latest_ts speed ignition now offline_after_s threshold =
     (case latest_ts of
        None \<Rightarrow> \<lparr>eq_state = ''unknown'', eq_observed = False, eq_age_s = None, eq_reason = [Txt ''no telemetry on record'']\<rparr>
      | Some ts \<Rightarrow>
          let age = total_seconds (now - ts); st = (\<lambda>name reason. \<lparr>eq_state = name, eq_observed = True, eq_age_s = Some age, eq_reason = reason\<rparr>)
          in if age > offline_after_s then
               \<lparr>eq_state = ''offline'', eq_observed = False, eq_age_s = Some age,
                eq_reason = [Txt ''no fix for '', FmtInt (trunc age), Txt ''s '', Txt em_dash, Txt '' data feed unavailable'']\<rparr>
             else case speed of
                    Some v \<Rightarrow> if v \<ge> threshold then st ''moving'' [Txt ''moving at '', FmtF 0 v, Txt '' kph'']
                              else if ignition = Some False then st ''stopped'' [Txt ''stationary, ignition off'']
                              else st ''idle'' [Txt ''stationary, ignition on/unknown'']
                  | None \<Rightarrow> if ignition = Some False then st ''stopped'' [Txt ''stationary, ignition off'']
                            else st ''idle'' [Txt ''stationary, ignition on/unknown''])"

record exception_groups =
  ex_critical :: "event list"
  ex_incidents :: "incident list"
  ex_stopped :: "(string \<times> equipment_status) list"
  ex_offline :: "(string \<times> equipment_status) list"

definition compute_exceptions :: "'a report_db_scheme \<Rightarrow> string \<Rightarrow> time \<Rightarrow> real \<Rightarrow> exception_groups" where
  "compute_exceptions d site now offline_after_s =
     (let items = map (\<lambda>p. (p_asset p, derive_state (Some (p_ts p)) (p_speed p) (p_ignition p) now offline_after_s
            moving_from_kph)) (latest_positions d site)
      in \<lparr>ex_critical = take 100 (sort_key (\<lambda>e. - e_ts e)
            (filter (\<lambda>e. e_site e = site \<and> e_severity e = ''critical'' \<and> e_state e \<noteq> ''resolved'') (events d))),
          ex_incidents = take 100 (sort_key (\<lambda>i. - i_created i)
            (filter (\<lambda>i. i_site i = site \<and> i_state i \<in> set open_incident_states) (rp_incidents d))),
          ex_stopped = filter (\<lambda>(_, st). eq_state st = ''stopped'') items,
          ex_offline = filter (\<lambda>(_, st). eq_state st = ''offline'') items\<rparr>)"

definition healthy :: "exception_groups \<Rightarrow> bool" where
  "healthy x \<longleftrightarrow> ex_critical x = [] \<and> ex_incidents x = [] \<and> ex_stopped x = [] \<and> ex_offline x = []"

section \<open>Data quality and health\<close>

definition backfill_lag_s :: real where "backfill_lag_s = 120"
definition clock_skew_s :: real where "clock_skew_s = 120"
definition impossible_kph :: real where "impossible_kph = 160"

record quality =
  q_sample :: nat
  q_confidence :: string
  q_late :: nat
  q_future :: nat
  q_disordered :: nat
  q_impossible :: nat
  q_missing :: nat
  q_stale :: "string list"

fun disordered :: "position list \<Rightarrow> nat" where
  "disordered (p # q # ps) = (if total_seconds (p_ts q - p_ts p) \<le> 0 then 1 else 0) + disordered (q # ps)"
| "disordered _ = 0"

fun impossible_moves :: "position list \<Rightarrow> nat" where
  "impossible_moves (p # q # ps) =
     (let dt = total_seconds (p_ts q - p_ts p)
      in if \<not> dt \<le> 0 \<and> haversine_m (p_lat p) (p_lon p) (p_lat q) (p_lon q) / dt * (36 / 10) > impossible_kph then 1 else 0) +
     impossible_moves (q # ps)"
| "impossible_moves _ = 0"

definition lag :: "position \<Rightarrow> real" where
  "lag p = total_seconds (p_received p - p_ts p)"

definition compute_data_quality :: "'a db_scheme \<Rightarrow> string \<Rightarrow> time \<Rightarrow> real \<Rightarrow> quality" where
  "compute_data_quality d site now offline_after_s =
     (let ps = list_positions d site None 1000 None None ''desc'';
          assets = remdups (map p_asset ps);
          track = (\<lambda>a. sort_key p_ts (filter (\<lambda>p. p_asset p = a) ps));
          stale = filter (\<lambda>a. total_seconds (now - p_ts (last (track a))) > offline_after_s) assets;
          late = length (filter (\<lambda>p. lag p > backfill_lag_s) ps);
          future = length (filter (\<lambda>p. \<not> lag p > backfill_lag_s \<and> lag p < - clock_skew_s) ps);
          disord = sum_list (map (disordered \<circ> track) assets); imposs = sum_list (map (impossible_moves \<circ> track) assets);
          missing = length (filter (\<lambda>p. p_hdop p = None \<or> p_sats p = None) ps);
          rate = (if ps = [] then 0 else real (late + future + disord + imposs + missing) / real (length ps))
      in \<lparr>q_sample = length ps,
          q_confidence = (if ps = [] then ''unknown'' else if rate < 2 / 100 \<and> stale = [] then ''good''
             else if rate < 10 / 100 then ''fair'' else ''poor''),
          q_late = late, q_future = future, q_disordered = disord, q_impossible = imposs, q_missing = missing,
          q_stale = sort stale\<rparr>)"

record verdict =
  vd_verdict :: string
  vd_assets :: nat
  vd_silent :: nat
  vd_age_s :: "real option"
  vd_flowing :: bool

definition compute_system_health ::
  "'a db_scheme \<Rightarrow> string \<Rightarrow> time \<Rightarrow> real \<Rightarrow> bool \<Rightarrow> bool \<Rightarrow> bool \<Rightarrow> string list \<Rightarrow> verdict" where
  "compute_system_health d site now offline_after_s ingestor_fresh mqtt_ok db_ok failing =
     (let newest = (\<lambda>ps. map_option p_ts (max_by p_ts ps));
          age = map_option (\<lambda>t. total_seconds (now - t)) (newest (filter (\<lambda>p. p_site p = site) (positions d)));
          assets = map snd (filter (\<lambda>(s, a). s = site) (map fst (asset_rows d)));
          silent = filter (\<lambda>a. case newest (filter (\<lambda>p. p_site p = site \<and> p_asset p = a) (positions d)) of
                None \<Rightarrow> True | Some t \<Rightarrow> total_seconds (now - t) > offline_after_s) assets;
          app_ok = (db_ok \<and> mqtt_ok \<and> ingestor_fresh \<and> failing = []);
          flowing = (case age of None \<Rightarrow> False | Some x \<Rightarrow> x \<le> offline_after_s)
      in \<lparr>vd_verdict = (if app_ok \<and> flowing then ''healthy'' else if \<not> app_ok then ''platform_degraded'' else ''field_degraded''),
          vd_assets = length assets, vd_silent = length silent, vd_age_s = age, vd_flowing = flowing\<rparr>)"

section \<open>Scorecards account for everything once\<close>

text \<open>Shifts that follow one another without a gap.\<close>

fun chained :: "shift_window list \<Rightarrow> bool" where
  "chained (v # w # ws) = (w_start v \<le> w_end v \<and> w_end v = w_start w \<and> chained (w # ws))"
| "chained [w] = (w_start w \<le> w_end w)"
| "chained [] = True"

lemma chained_span: "chained (w # ws) \<Longrightarrow> w_start w \<le> w_end (last (w # ws))"
  by (induction ws arbitrary: w) fastforce+

lemma in_span_split: "a \<le> b \<Longrightarrow> b \<le> c \<Longrightarrow> in_span a c t \<longleftrightarrow> in_span a b t \<or> in_span b c t"
  and in_span_disjoint: "\<not> (in_span a b t \<and> in_span b c t)"
  by (auto simp: in_span_def)

lemma length_filter_span:
  assumes "a \<le> b" "b \<le> c"
  shows "length (filter (\<lambda>x. P x \<and> in_span a b (f x)) xs) + length (filter (\<lambda>x. P x \<and> in_span b c (f x)) xs) =
    length (filter (\<lambda>x. P x \<and> in_span a c (f x)) xs)"
  using assms by (induction xs) (auto simp: in_span_def)

text \<open>A counted thing is counted in exactly one of the shifts.\<close>

lemma chained_count:
  assumes "chained (w # ws)"
  shows "sum_list (map (\<lambda>v. length (filter (\<lambda>x. P x \<and> in_span (w_start v) (w_end v) (f x)) xs)) (w # ws)) =
    length (filter (\<lambda>x. P x \<and> in_span (w_start w) (w_end (last (w # ws))) (f x)) xs)"
  using assms
proof (induction ws arbitrary: w)
  case (Cons v ws)
  then have c: "chained (v # ws)" "w_start w \<le> w_end w" "w_end w = w_start v" by simp_all
  show ?case
    using Cons.IH [OF c(1)] chained_span [OF c(1)] c(2,3) length_filter_span [of "w_start w" "w_end w" "w_end (last (v # ws))" P f xs]
    by simp
qed simp

definition clipped :: "time \<Rightarrow> time \<Rightarrow> delay \<Rightarrow> real" where
  "clipped a b r = total_seconds (max 0 (min (d_end r) b - max (d_start r) a))"

lemma total_seconds_max: "total_seconds (max x y) = max (total_seconds x) (total_seconds y)"
  by (auto simp: max_def)

lemma overlapping_sum:
  assumes "a \<le> b"
  shows "sum_list (map (overlap_s a b) (overlapping d site a b)) =
    sum_list (map (clipped a b) (filter (\<lambda>r. d_site r = site) (rp_delays d)))"
proof -
  have "sum_list (map (overlap_s a b) (filter (\<lambda>r. overlap_s a b r > 0) (filter (\<lambda>r. d_site r = site \<and> d_end r > a \<and> d_start r < b) rs))) =
      sum_list (map (clipped a b) (filter (\<lambda>r. d_site r = site) rs))" for rs
  proof (induction rs)
    case (Cons r rs)
    have "overlap_s a b r > 0 \<Longrightarrow> d_end r > a \<and> d_start r < b" by (auto simp: overlap_s_def)
    moreover have "overlap_s a b r > 0 \<Longrightarrow> clipped a b r = overlap_s a b r" "\<not> overlap_s a b r > 0 \<Longrightarrow> clipped a b r = 0"
      by (auto simp: overlap_s_def clipped_def)
    ultimately show ?case using Cons by auto
  qed simp
  then show ?thesis by (simp add: overlapping_def)
qed

lemma clipped_split: "a \<le> b \<Longrightarrow> b \<le> c \<Longrightarrow> clipped a b r + clipped b c r = clipped a c r"
proof -
  assume "a \<le> b" "b \<le> c"
  then have "max 0 (min (d_end r) b - max (d_start r) a) + max 0 (min (d_end r) c - max (d_start r) b) =
      max 0 (min (d_end r) c - max (d_start r) a)" by (auto simp: max_def min_def)
  then show ?thesis unfolding clipped_def by (metis total_seconds_add)
qed

lemma chained_clipped:
  assumes "chained (w # ws)"
  shows "sum_list (map (\<lambda>v. sum_list (map (clipped (w_start v) (w_end v)) rs)) (w # ws)) =
    sum_list (map (clipped (w_start w) (w_end (last (w # ws)))) rs)"
  using assms
proof (induction ws arbitrary: w)
  case (Cons v ws)
  then have c: "chained (v # ws)" "w_start w \<le> w_end w" "w_end w = w_start v" by simp_all
  have "sum_list (map (clipped (w_start w) (w_end w)) rs) + sum_list (map (clipped (w_end w) (w_end (last (v # ws)))) rs) =
      sum_list (map (clipped (w_start w) (w_end (last (v # ws)))) rs)"
    using clipped_split [OF c(2)] chained_span [OF c(1)] c(3) by (simp add: sum_list_addf [symmetric])
  then show ?case using Cons.IH [OF c(1)] c(3) by simp
qed simp

lemma chained_all: "chained ws \<Longrightarrow> w \<in> set ws \<Longrightarrow> w_start w \<le> w_end w"
  by (induction ws rule: chained.induct) auto

lemma site_cycles_count: "cs_count (sc_cycles (compute_scorecard d site w)) =
    length (filter (\<lambda>p. fst p = site \<and> in_span (w_start w) (w_end w) (start_ts (snd p))) (rp_cycles d))"
  by (auto simp: compute_scorecard_def cycles_summary_of_def site_cycles_def Let_def case_prod_unfold)

text \<open>C34: the scorecards of consecutive shifts add up: every haul cycle, alarm and incident of the whole
  time is counted in exactly one of them, and the downtime of a delay is split between the shifts it
  overlaps without loss or overlap.\<close>

theorem scorecards_add_up:
  assumes "chained (w # ws)"
  shows "sum_list (map (\<lambda>v. cs_count (sc_cycles (compute_scorecard d site v))) (w # ws)) =
      length (filter (\<lambda>p. fst p = site \<and> in_span (w_start w) (w_end (last (w # ws))) (start_ts (snd p))) (rp_cycles d)) \<and>
    sum_list (map (\<lambda>v. sc_events (compute_scorecard d site v)) (w # ws)) =
      length (filter (\<lambda>e. e_site e = site \<and> in_span (w_start w) (w_end (last (w # ws))) (e_ts e)) (events d)) \<and>
    sum_list (map (\<lambda>v. sc_opened (compute_scorecard d site v)) (w # ws)) =
      length (filter (\<lambda>i. i_site i = site \<and> in_span (w_start w) (w_end (last (w # ws))) (i_created i)) (rp_incidents d)) \<and>
    sum_list (map (\<lambda>v. sc_delay_s (compute_scorecard d site v)) (w # ws)) =
      sum_list (map (clipped (w_start w) (w_end (last (w # ws)))) (filter (\<lambda>r. d_site r = site) (rp_delays d)))"
proof (intro conjI)
  show "sum_list (map (\<lambda>v. cs_count (sc_cycles (compute_scorecard d site v))) (w # ws)) =
      length (filter (\<lambda>p. fst p = site \<and> in_span (w_start w) (w_end (last (w # ws))) (start_ts (snd p))) (rp_cycles d))"
    unfolding site_cycles_count by (rule chained_count [OF assms])
  have e: "sc_events (compute_scorecard d site v) =
      length (filter (\<lambda>e. e_site e = site \<and> in_span (w_start v) (w_end v) (e_ts e)) (events d))" for v
    by (simp add: compute_scorecard_def site_events_def Let_def)
  show "sum_list (map (\<lambda>v. sc_events (compute_scorecard d site v)) (w # ws)) =
      length (filter (\<lambda>e. e_site e = site \<and> in_span (w_start w) (w_end (last (w # ws))) (e_ts e)) (events d))"
    unfolding e by (rule chained_count [OF assms])
  have i: "sc_opened (compute_scorecard d site v) =
      length (filter (\<lambda>i. i_site i = site \<and> in_span (w_start v) (w_end v) (i_created i)) (rp_incidents d))" for v
    by (simp add: compute_scorecard_def Let_def)
  show "sum_list (map (\<lambda>v. sc_opened (compute_scorecard d site v)) (w # ws)) =
      length (filter (\<lambda>i. i_site i = site \<and> in_span (w_start w) (w_end (last (w # ws))) (i_created i)) (rp_incidents d))"
    unfolding i by (rule chained_count [OF assms])
  have "sc_delay_s (compute_scorecard d site v) =
      sum_list (map (clipped (w_start v) (w_end v)) (filter (\<lambda>r. d_site r = site) (rp_delays d)))" if "v \<in> set (w # ws)" for v
    using overlapping_sum [OF chained_all [OF assms that]] by (simp add: compute_scorecard_def Let_def)
  then have "map (\<lambda>v. sc_delay_s (compute_scorecard d site v)) (w # ws) =
      map (\<lambda>v. sum_list (map (clipped (w_start v) (w_end v)) (filter (\<lambda>r. d_site r = site) (rp_delays d)))) (w # ws)"
    by (intro map_cong refl)
  then show "sum_list (map (\<lambda>v. sc_delay_s (compute_scorecard d site v)) (w # ws)) =
      sum_list (map (clipped (w_start w) (w_end (last (w # ws)))) (filter (\<lambda>r. d_site r = site) (rp_delays d)))"
    using chained_clipped [OF assms] by metis
qed

section \<open>Quiet when healthy\<close>

lemma sort_key_empty [simp]: "sort_key f xs = [] \<longleftrightarrow> xs = []"
  by (metis length_0_conv length_sort)

lemma derive_state_cases:
  "eq_state (derive_state (Some t) speed ignition now limit threshold) = ''offline'' \<longleftrightarrow> total_seconds (now - t) > limit"
  "eq_state (derive_state (Some t) speed ignition now limit threshold) = ''stopped'' \<longleftrightarrow> \<not> total_seconds (now - t) > limit \<and>
     (case speed of None \<Rightarrow> True | Some v \<Rightarrow> v < threshold) \<and> ignition = Some False"
  by (auto simp: derive_state_def Let_def split: option.split)

text \<open>The exception layer is quiet exactly when there is nothing to attend to: no critical alarm that
  is not resolved, no open incident, and every machine's newest fix is recent and does not show it
  stationary with its ignition off.\<close>

theorem quiet_iff_nothing_to_attend:
  "healthy (compute_exceptions d site now offline_after_s) \<longleftrightarrow>
    \<not> (\<exists>e \<in> set (events d). e_site e = site \<and> e_severity e = ''critical'' \<and> e_state e \<noteq> ''resolved'') \<and>
    \<not> (\<exists>i \<in> set (rp_incidents d). i_site i = site \<and> i_state i \<in> set open_incident_states) \<and>
    \<not> (\<exists>p \<in> set (latest_positions d site). total_seconds (now - p_ts p) > offline_after_s \<or>
       (case p_speed p of None \<Rightarrow> True | Some v \<Rightarrow> v < moving_from_kph) \<and> p_ignition p = Some False)"
proof -
  show ?thesis
    by (auto simp: healthy_def compute_exceptions_def Let_def filter_empty_conv derive_state_cases)
qed

text \<open>
  No code sets the state of an event to resolved: acknowledging a critical alarm leaves the layer as
  loud as before.
\<close>

lemma acknowledged_alarm_still_counts:
  assumes "e \<in> set (events d)" "e_site e = site" "e_severity e = ''critical''" "e_state e = ''acknowledged''"
  shows "\<not> healthy (compute_exceptions d site now offline_after_s)"
  using assms by (auto simp: healthy_def compute_exceptions_def Let_def filter_empty_conv)

section \<open>Trends go back in time\<close>

lemma probe_backwards:
  assumes "sorted_wrt (\<lambda>v w. w_start w < w_start v) ws" "\<forall>v \<in> set ws. cursor_ts < w_start v" "distinct (map w_shift_id ws)"
    and "length ws \<le> wanted_n" "P ws" "\<And>vs w t. P vs \<Longrightarrow> resolve_shift zones d site t = Some w \<Longrightarrow> P (vs @ [w])"
  shows "sorted_wrt (\<lambda>v w. w_start w < w_start v) (probe zones d site n wanted_n ws cursor_ts) \<and>
    distinct (map w_shift_id (probe zones d site n wanted_n ws cursor_ts)) \<and>
    length (probe zones d site n wanted_n ws cursor_ts) \<le> wanted_n \<and> P (probe zones d site n wanted_n ws cursor_ts)"
  using assms(1-5)
proof (induction n arbitrary: ws cursor_ts)
  case (Suc n)
  show ?case
  proof (cases "length ws \<ge> wanted_n \<or> resolve_shift zones d site cursor_ts = None")
    case True
    have "cursor_ts - seconds 3600 < w_start v" if "v \<in> set ws" for v using Suc.prems(2) that by (force simp: seconds_def)
    then show ?thesis using True Suc.prems Suc.IH [of ws "cursor_ts - seconds 3600"] by auto
  next
    case False
    then obtain w where w: "resolve_shift zones d site cursor_ts = Some w" "length ws < wanted_n" by auto
    have start: "w_start w \<le> cursor_ts" using resolve_shift_some [OF w(1)] by simp
    let ?ws = "if w_shift_id w \<in> w_shift_id ` set ws then ws else ws @ [w]"
    have older: "w_start w < w_start v" if "v \<in> set ws" for v using Suc.prems(2) start that by force
    have 1: "sorted_wrt (\<lambda>v w. w_start w < w_start v) ?ws" using Suc.prems(1) older by (simp add: sorted_wrt_append)
    have "w_start w - seconds 1 < w_start v" if "v \<in> set (w # ws)" for v
      using older [of v] that by (cases "v = w") (simp_all add: seconds_def)
    then have 2: "\<forall>v \<in> set ?ws. w_start w - seconds 1 < w_start v" by auto
    have 3: "distinct (map w_shift_id ?ws)" "length ?ws \<le> wanted_n" using Suc.prems(3,4) w(2) by auto
    have 4: "P ?ws" using Suc.prems(5) assms(6) [OF _ w(1)] by simp
    show ?thesis using Suc.IH [OF 1 2 3 4] w by simp
  qed
qed (use assms in simp)

text \<open>The trend of a site is a series of different shifts, each one earlier than the one before it,
  never more than asked for, and each the shift of some moment.\<close>

theorem trend_goes_back_in_time:
  "sorted_wrt (\<lambda>v w. w_start w < w_start v) (recent_windows zones d site t n) \<and>
   distinct (map w_shift_id (recent_windows zones d site t n)) \<and> length (recent_windows zones d site t n) \<le> n \<and>
   set (recent_windows zones d site t n) \<subseteq> {w. \<exists>u. resolve_shift zones d site u = Some w}"
  unfolding recent_windows_def
  by (rule probe_backwards [where P = "\<lambda>ws. set ws \<subseteq> {w. \<exists>u. resolve_shift zones d site u = Some w}"]) auto

text \<open>
  The search probes four times for each shift wanted, and an hour back on each miss. A site that works
  one shift of eight hours a day is off shift for sixteen, so its trend has fewer shifts than there are.
\<close>

definition day_shift_only :: shift_db where
  "day_shift_only = demo_shifts\<lparr>shift_definitions := [\<lparr>sd_site = ''s1'', sd_name = ''day'', sd_start_hour = 6, sd_duration = 8,
     sd_enabled = True\<rparr>]\<rparr>"

lemma day_shift_at:
  "resolve_shift (\<lambda>_. harare) day_shift_only ''s1'' t =
    (let day = local_day harare t; inside = (\<lambda>k. k * day_us + 6 * hour_us - 2 * hour_us \<le> t \<and>
           t < k * day_us + 6 * hour_us + 8 * hour_us - 2 * hour_us)
     in if inside day then Some (window ''s1'' ''day'' 6 8 day harare)
        else if inside (day - 1) then Some (window ''s1'' ''day'' 6 8 (day - 1) harare) else None)"
proof -
  have tz: "fixed_offset harare (2 * hour_us)" by (simp add: fixed_offset_def harare_def)
  have d: "site_timezone (\<lambda>_. harare) day_shift_only ''s1'' = harare" "definitions day_shift_only ''s1'' = [(''day'', 6, 8)]"
    by (simp_all add: day_shift_only_def demo_shifts_def feed_db.extend_def db.extend_def site_timezone_def definitions_def)
  show ?thesis unfolding resolve_shift_def Let_def d day_windows_def by (simp add: window_bounds [OF tz])
qed

lemma probe_gap:
  "(\<And>i. i < n \<Longrightarrow> resolve_shift zones d site (cursor_ts - int i * seconds 3600) = None) \<Longrightarrow>
   probe zones d site n wanted_n ws cursor_ts = ws"
proof (induction n arbitrary: cursor_ts)
  case (Suc n)
  have "resolve_shift zones d site (cursor_ts - seconds 3600 - int i * seconds 3600) = None" if "i < n" for i
    using Suc.prems [of "Suc i"] that by (simp add: algebra_simps)
  then show ?case using Suc.IH [of "cursor_ts - seconds 3600"] Suc.prems [of 0] by simp
qed simp

lemma trend_misses_shifts:
  "length (recent_windows (\<lambda>_. harare) day_shift_only ''s1'' (100 * day_us + 8 * hour_us) 3) = 1"
proof -
  let ?t = "100 * day_us + 8 * hour_us" and ?w = "window ''s1'' ''day'' 6 8 100 harare"
  have day: "local_day harare u = (u + 7200000000) div 86400000000" for u
    by (simp add: local_day_def harare_def day_us_def hour_us_def)
  have w: "w_start ?w = 8654400000000" by (simp add: window_def Let_def harare_def day_us_def hour_us_def)
  have first: "resolve_shift (\<lambda>_. harare) day_shift_only ''s1'' ?t = Some ?w"
    unfolding day_shift_at day Let_def by (simp add: day_us_def hour_us_def)
  have "resolve_shift (\<lambda>_. harare) day_shift_only ''s1'' (w_start ?w - seconds 1 - int i * seconds 3600) = None"
    if "i < 11" for i
  proof -
    have "i = 0 \<or> i = 1 \<or> i = 2 \<or> i = 3 \<or> i = 4 \<or> i = 5 \<or> i = 6 \<or> i = 7 \<or> i = 8 \<or> i = 9 \<or> i = 10"
      using that by (simp add: eval_nat_numeral less_Suc_eq)
    then show ?thesis unfolding day_shift_at day Let_def w by (auto simp: day_us_def hour_us_def seconds_def)
  qed
  then have "probe (\<lambda>_. harare) day_shift_only ''s1'' 11 3 [?w] (w_start ?w - seconds 1) = [?w]" by (rule probe_gap)
  moreover have "probe (\<lambda>_. harare) day_shift_only ''s1'' 12 3 [] ?t =
      probe (\<lambda>_. harare) day_shift_only ''s1'' 11 3 [?w] (w_start ?w - seconds 1)"
    using probe.simps(2) [of "\<lambda>_. harare" day_shift_only "''s1''" 11 3 "[]" ?t] unfolding first by simp
  ultimately show ?thesis by (simp add: recent_windows_def)
qed

section \<open>Fixes out of order\<close>

text \<open>
  The count of fixes out of order is always zero: the fixes of an asset are sorted by time before they
  are compared, and the store keeps one fix for each time.
\<close>

lemma sorted_no_disorder:
  assumes "sorted (map p_ts ps)" "distinct (map p_ts ps)"
  shows "disordered ps = 0"
  using assms by (induction ps rule: disordered.induct) (auto simp: order_class.le_less total_seconds_def)

lemma disorder_never_reported:
  assumes "distinct (map (\<lambda>p. (p_site p, p_asset p, p_ts p)) (positions d))"
  shows "q_disordered (compute_data_quality d site now offline_after_s) = 0"
proof -
  let ?ps = "list_positions d site None 1000 None None ''desc''"
  have inj: "inj_on (\<lambda>p. (p_site p, p_asset p, p_ts p)) (set (positions d))" and dis: "distinct (positions d)"
    using assms by (simp_all add: distinct_map)
  have sub: "set ?ps \<subseteq> {p \<in> set (positions d). p_site p = site}"
    by (auto simp: list_positions_def Let_def dest: in_set_takeD)
  have "distinct ?ps" using dis by (simp add: list_positions_def Let_def)
  moreover have "disordered (sort_key p_ts (filter (\<lambda>p. p_asset p = a) ?ps)) = 0" for a
  proof (rule sorted_no_disorder)
    show "distinct (map p_ts (sort_key p_ts (filter (\<lambda>p. p_asset p = a) ?ps)))"
    proof -
      have "inj_on p_ts (set (filter (\<lambda>p. p_asset p = a) ?ps))"
      proof (rule inj_onI)
        fix p q
        assume "p \<in> set (filter (\<lambda>p. p_asset p = a) ?ps)" "q \<in> set (filter (\<lambda>p. p_asset p = a) ?ps)" "p_ts p = p_ts q"
        then have "p \<in> set (positions d)" "q \<in> set (positions d)" "(p_site p, p_asset p, p_ts p) = (p_site q, p_asset q, p_ts q)"
          using sub by auto
        then show "p = q" using inj by (simp add: inj_on_def)
      qed
      then show ?thesis using \<open>distinct ?ps\<close> by (simp add: distinct_map)
    qed
  qed simp
  ultimately show ?thesis by (simp add: compute_data_quality_def Let_def comp_def)
qed

section \<open>Concrete instances\<close>

definition shift_of :: "int \<Rightarrow> shift_window" where
  "shift_of h = window ''s1'' ''shift'' h 12 0 harare"

definition demo_report :: report_db where
  "demo_report = shift_db.extend demo_shifts \<lparr>rp_cycles = [], rp_buckets = [], rp_delays =
     [\<lparr>d_id = ''D1'', d_site = ''s1'', d_asset = None, d_zone = None, d_category = ''blasting'', d_start = 15 * hour_us,
       d_end = 17 * hour_us, d_note = None, d_source = ''manual'', d_created_by = ''a'', d_created = 0\<rparr>],
     rp_incidents = [], rp_handovers = []\<rparr>"

theorem scorecards_add_up_witness:
  "sc_delay_s (compute_scorecard demo_report ''s1'' (shift_of 6)) + sc_delay_s (compute_scorecard demo_report ''s1'' (shift_of 18)) =
     7200"
  using scorecards_add_up [of "shift_of 6" "[shift_of 18]" demo_report "''s1''"]
  by (simp add: shift_of_def window_def Let_def harare_def demo_report_def shift_db.extend_def clipped_def
      hour_us_def day_us_def total_seconds_def)

end
