(* ===== verification/Maintenance.thy ===== *)
theory Maintenance
  imports GatePoller Operations
begin

text \<open>
  Maintenance and generators: \<^verbatim>\<open>src/src/minemonitor/maintenance/service.py\<close> (service plans, work orders,
  the health of a component derived from them), \<^verbatim>\<open>generator/service.py\<close> (readings of genset controllers,
  their alarms, the engine hours the health is derived from) and the normaliser of
  \<^verbatim>\<open>ingest/adapters/dse_sim.py\<close>. \<^verbatim>\<open>float\<close> on a JSON value, \<^verbatim>\<open>str\<close> on one and ISO parsing are parameters.
\<close>

section \<open>Plans and work orders\<close>

record service_plan =
  pl_id :: string
  pl_site :: string
  pl_asset :: string
  pl_component :: string
  pl_hours :: "real option"
  pl_days :: "int option"
  pl_note :: "string option"
  pl_created :: time

record work_order =
  wo_id :: string
  wo_site :: string
  wo_asset :: string
  wo_component :: string
  wo_type :: string
  wo_status :: string
  wo_opened :: time
  wo_closed :: "time option"
  wo_hours :: "real option"
  wo_note :: "string option"
  wo_created_by :: string
  wo_created :: time

record reading =
  gr_id :: string
  gr_site :: string
  gr_asset :: string
  gr_source :: string
  gr_ts :: time
  gr_hours :: "real option"
  gr_running :: bool
  gr_fuel :: "real option"
  gr_expected :: "bool option"
  gr_fault :: bool
  gr_code :: "string option"
  gr_created :: time

record upkeep_db = access_db +
  plans :: "service_plan list"
  work_orders :: "work_order list"
  readings :: "reading list"

datatype upkeep_error = NoInterval | BadType | NotOpen

definition valid_wo_types :: "string list" where
  "valid_wo_types = [''service'', ''repair'', ''inspection'']"

definition get_plan :: "'a upkeep_db_scheme \<Rightarrow> string \<Rightarrow> string \<Rightarrow> string \<Rightarrow> service_plan option" where
  "get_plan d site asset component =
     List.find (\<lambda>p. pl_site p = site \<and> pl_asset p = asset \<and> pl_component p = component) (plans d)"

definition upsert_plan ::
  "string \<Rightarrow> string \<Rightarrow> string \<Rightarrow> real option \<Rightarrow> int option \<Rightarrow> string option \<Rightarrow> time \<Rightarrow> 'a upkeep_db_scheme
    \<Rightarrow> upkeep_error + (service_plan \<times> 'a upkeep_db_scheme)" where
  "upsert_plan site asset component interval_hours interval_days msg now d =
     (if interval_hours \<in> {None, Some 0} \<and> interval_days \<in> {None, Some 0} then Inl NoInterval
      else case get_plan d site asset component of
             Some p \<Rightarrow>
               let p' = p\<lparr>pl_hours := interval_hours, pl_days := interval_days, pl_note := msg\<rparr>
               in Inr (p', d\<lparr>plans := map (\<lambda>q. if pl_id q = pl_id p then p' else q) (plans d)\<rparr>)
           | None \<Rightarrow>
               let (i, d) = new_event_id d;
                   p = \<lparr>pl_id = i, pl_site = site, pl_asset = asset, pl_component = component, pl_hours = interval_hours,
                     pl_days = interval_days, pl_note = msg, pl_created = now\<rparr>
               in Inr (p, d\<lparr>plans := plans d @ [p]\<rparr>))"

definition list_plans :: "'a upkeep_db_scheme \<Rightarrow> string \<Rightarrow> service_plan list" where
  "list_plans d site = sort_key (\<lambda>p. (pl_asset p, pl_component p)) (filter (\<lambda>p. pl_site p = site) (plans d))"

definition open_work_order ::
  "string \<Rightarrow> string \<Rightarrow> string \<Rightarrow> string \<Rightarrow> string \<Rightarrow> real option \<Rightarrow> string option \<Rightarrow> time \<Rightarrow> 'a upkeep_db_scheme
    \<Rightarrow> upkeep_error + (work_order \<times> 'a upkeep_db_scheme)" where
  "open_work_order site asset component typ by_user at_hours msg now d =
     (if typ \<notin> set valid_wo_types then Inl BadType
      else let (i, d) = new_event_id d;
               w = \<lparr>wo_id = i, wo_site = site, wo_asset = asset, wo_component = component, wo_type = typ, wo_status = ''open'',
                 wo_opened = now, wo_closed = None, wo_hours = at_hours, wo_note = msg, wo_created_by = by_user, wo_created = now\<rparr>
           in Inr (w, d\<lparr>work_orders := work_orders d @ [w]\<rparr>))"

definition complete_work_order ::
  "string \<Rightarrow> string \<Rightarrow> time \<Rightarrow> real option \<Rightarrow> 'a upkeep_db_scheme
    \<Rightarrow> upkeep_error + (work_order option \<times> 'a upkeep_db_scheme)" where
  "complete_work_order site i now at_hours d =
     (case List.find (\<lambda>w. wo_id w = i) (work_orders d) of
        None \<Rightarrow> Inr (None, d)
      | Some w \<Rightarrow>
          if wo_site w \<noteq> site then Inr (None, d)
          else if wo_status w = ''done'' then Inr (Some w, d)
          else if wo_status w \<notin> {''open'', ''in_progress''} then Inl NotOpen
          else let w' = w\<lparr>wo_status := ''done'', wo_closed := Some now,
                     wo_hours := (case at_hours of None \<Rightarrow> wo_hours w | Some h \<Rightarrow> Some h)\<rparr>
               in Inr (Some w', d\<lparr>work_orders := map (\<lambda>q. if wo_id q = i then w' else q) (work_orders d)\<rparr>))"

definition list_work_orders ::
  "'a upkeep_db_scheme \<Rightarrow> string \<Rightarrow> string option \<Rightarrow> string option \<Rightarrow> nat \<Rightarrow> work_order list" where
  "list_work_orders d site asset status limit =
     take (min limit 1000) (sort_key (\<lambda>w. - wo_opened w) (filter (\<lambda>w. wo_site w = site \<and>
        (case asset of None \<Rightarrow> True | Some a \<Rightarrow> wo_asset w = a) \<and>
        (case status of None \<Rightarrow> True | Some x \<Rightarrow> wo_status w = x)) (work_orders d)))"

text \<open>Every order that is done has its closing time, so the order of the query is that of the times.\<close>

definition closing :: "work_order \<Rightarrow> time" where
  "closing w = (case wo_closed w of None \<Rightarrow> 0 | Some t \<Rightarrow> t)"

definition service_done :: "string \<Rightarrow> string \<Rightarrow> string \<Rightarrow> work_order \<Rightarrow> bool" where
  "service_done site asset component w \<longleftrightarrow>
     wo_site w = site \<and> wo_asset w = asset \<and> wo_component w = component \<and> wo_type w = ''service'' \<and> wo_status w = ''done''"

definition latest_completed_service :: "'a upkeep_db_scheme \<Rightarrow> string \<Rightarrow> string \<Rightarrow> string \<Rightarrow> work_order option" where
  "latest_completed_service d site asset component =
     max_by closing (filter (service_done site asset component) (work_orders d))"

section \<open>Health\<close>

definition risk_of :: "real \<Rightarrow> string" where
  "risk_of fraction =
     (if fraction < 75 / 100 then ''Normal'' else if fraction < 90 / 100 then ''Watch''
      else if fraction < 1 then ''Elevated'' else if fraction < 115 / 100 then ''High'' else ''Critical'')"

definition right_arrow :: string where "right_arrow = [CHR 0xE2, CHR 0x86, CHR 0x92]"

definition action_for :: "string \<Rightarrow> string" where
  "action_for risk =
     (if risk = ''Normal'' then ''No action; within the service interval.''
      else if risk = ''Watch'' then ''Plan the next service.''
      else if risk = ''Elevated'' then ''Schedule service before the next major shift.''
      else if risk = ''High'' then ''Service overdue '' @ em_dash @ '' inspect and service promptly.''
      else if risk = ''Critical'' then ''Service significantly overdue '' @ em_dash @ '' inspect before further operation.''
      else ''Insufficient data '' @ em_dash @ '' record a service baseline / engine-hour reading.'')"

text \<open>\<^verbatim>\<open>round(x, n)\<close>.\<close>

definition round_to :: "nat \<Rightarrow> real \<Rightarrow> real" where
  "round_to n x = of_int (round_half_even (x * 10 ^ n)) / 10 ^ n"

record candidate =
  k_dimension :: string
  k_fraction :: real
  k_remaining :: real
  k_basis :: string
  k_confidence :: real
  k_evidence :: text_pieces

record health =
  he_risk :: string
  he_basis :: string
  he_confidence :: real
  he_dimension :: "string option"
  he_fraction :: "real option"
  he_remaining :: "real option"
  he_evidence :: "text_pieces list"
  he_action :: string

definition unknown_health :: "text_pieces list \<Rightarrow> health" where
  "unknown_health ev =
     \<lparr>he_risk = ''Unknown'', he_basis = ''unknown'', he_confidence = 0, he_dimension = None, he_fraction = None,
      he_remaining = None, he_evidence = ev, he_action = action_for ''Unknown''\<rparr>"

definition days_candidate :: "service_plan \<Rightarrow> work_order option \<Rightarrow> time \<Rightarrow> candidate list" where
  "days_candidate p last_service now =
     (case pl_days p of
        None \<Rightarrow> []
      | Some n \<Rightarrow>
          if n = 0 then []
          else
            let baseline = (case last_service of None \<Rightarrow> pl_created p
                  | Some w \<Rightarrow> (case wo_closed w of None \<Rightarrow> pl_created p | Some t \<Rightarrow> t));
                days_since = total_seconds (now - baseline) / 86400;
                label = (if last_service = None then ''plan start'' else ''last service'')
            in [\<lparr>k_dimension = ''days'', k_fraction = days_since / of_int n, k_remaining = round_to 1 (of_int n - days_since),
                 k_basis = ''observed'', k_confidence = 9 / 10,
                 k_evidence = [FmtF 0 days_since, Txt (''d since '' @ label @ ''; interval ''), FmtInt n, Txt ''d'']\<rparr>])"

definition hours_candidate :: "service_plan \<Rightarrow> work_order option \<Rightarrow> real option \<Rightarrow> candidate list" where
  "hours_candidate p last_service current =
     (case (pl_hours p, current, last_service) of
        (Some n, Some h, Some w) \<Rightarrow>
          (case wo_hours w of
             None \<Rightarrow> []
           | Some h0 \<Rightarrow>
               if n = 0 \<or> \<not> h - h0 \<ge> 0 then []
               else [\<lparr>k_dimension = ''hours'', k_fraction = (h - h0) / n, k_remaining = round_to 1 (n - (h - h0)),
                      k_basis = ''measured'', k_confidence = 85 / 100,
                      k_evidence = [FmtF 0 (h - h0), Txt ''h since last service ('', FmtF 0 h0, Txt right_arrow, FmtF 0 h,
                        Txt ''); interval '', FmtF 0 n, Txt ''h'']\<rparr>])
      | _ \<Rightarrow> [])"

text \<open>\<^verbatim>\<open>max(candidates, key=...)\<close>: the first with the largest fraction.\<close>

fun most_urgent :: "candidate \<Rightarrow> candidate list \<Rightarrow> candidate" where
  "most_urgent best [] = best"
| "most_urgent best (c # cs) = most_urgent (if k_fraction c > k_fraction best then c else best) cs"

definition assess_health ::
  "'a upkeep_db_scheme \<Rightarrow> string \<Rightarrow> string \<Rightarrow> string \<Rightarrow> time \<Rightarrow> real option \<Rightarrow> health" where
  "assess_health d site asset component now current =
     (case get_plan d site asset component of
        None \<Rightarrow> unknown_health [[Txt ''no maintenance plan defined for this asset/component'']]
      | Some p \<Rightarrow>
          let last_service = latest_completed_service d site asset component;
              candidates = days_candidate p last_service now @ hours_candidate p last_service current;
              by_hours = pl_hours p \<notin> {None, Some 0}
          in case candidates of
               [] \<Rightarrow> unknown_health ([[Txt ''service plan defined but no baseline to measure from'']] @
                   (if by_hours \<and> current = None then [[Txt ''engine-hours reading unavailable'']] else []) @
                   (if by_hours \<and> (case last_service of None \<Rightarrow> True | Some w \<Rightarrow> wo_hours w = None)
                    then [[Txt ''no service-baseline engine hours recorded'']] else []))
             | c # cs \<Rightarrow>
                 let m = most_urgent c cs
                 in \<lparr>he_risk = risk_of (k_fraction m), he_basis = k_basis m, he_confidence = k_confidence m,
                     he_dimension = Some (k_dimension m), he_fraction = Some (round_to 3 (k_fraction m)),
                     he_remaining = Some (k_remaining m), he_evidence = map k_evidence candidates,
                     he_action = action_for (risk_of (k_fraction m))\<rparr>)"

section \<open>Generator readings\<close>

text \<open>\<^verbatim>\<open>ts.strftime("%Y%m%dT%H%M%SZ")\<close> in UTC.\<close>

definition second_stamp :: "time \<Rightarrow> string" where
  "second_stamp t =
     (let (y, m, d) = civil (t div day_us); s = t mod day_us div 1000000
      in padded 4 y @ padded 2 m @ padded 2 d @ ''T'' @ padded 2 (s div 3600) @ padded 2 (s div 60 mod 60) @
         padded 2 (s mod 60) @ ''Z'')"

definition reading_id :: "string \<Rightarrow> string \<Rightarrow> time \<Rightarrow> string" where
  "reading_id site asset ts = ''gen-'' @ site @ ''-'' @ asset @ ''-'' @ second_stamp ts"

text \<open>The fields a normalised reading is passed in.\<close>

record raw_reading =
  rr_asset :: string
  rr_ts :: time
  rr_running :: bool
  rr_source :: string
  rr_hours :: "real option"
  rr_fuel :: "real option"
  rr_expected :: "bool option"
  rr_fault :: bool
  rr_code :: "string option"

definition persist_deduped :: "settings \<Rightarrow> time \<Rightarrow> event \<Rightarrow> 'a db_scheme \<Rightarrow> event list \<times> 'a db_scheme" where
  "persist_deduped s now ev d = (if event_exists d (e_id ev) then ([], d) else ([ev], persist_event s now d ev))"

definition generator_alarm :: "string \<Rightarrow> string \<Rightarrow> string \<Rightarrow> text_pieces \<Rightarrow> dict \<Rightarrow> string \<Rightarrow> raw_reading \<Rightarrow> event" where
  "generator_alarm i typ severity summary detail site k =
     \<lparr>e_id = i, e_site = site, e_ts = rr_ts k, e_type = typ, e_severity = severity, e_asset = Some (rr_asset k), e_zone = None,
      e_source = ''generator:'' @ rr_asset k, e_summary = summary, e_detail = Some detail, e_evidence = None,
      e_advisory = True, e_state = ''open'', e_ack_by = None, e_ack_at = None\<rparr>"

definition fault_alarm :: "string \<Rightarrow> string \<Rightarrow> raw_reading \<Rightarrow> event" where
  "fault_alarm rid site k =
     generator_alarm (''gen-fault-'' @ rid) ''generator_fault'' ''critical''
       (Txt ''Generator '' # Txt (rr_asset k) # Txt '' reported a fault'' #
        (case rr_code k of None \<Rightarrow> [] | Some c \<Rightarrow> if c = [] then [] else [Txt '' ('', Txt c, Txt '')'']))
       [(''fault_code'', case rr_code k of None \<Rightarrow> JNull | Some c \<Rightarrow> JStr c), (''provenance'', JStr ''observed'')] site k"

definition unexpected_alarm :: "string \<Rightarrow> string \<Rightarrow> raw_reading \<Rightarrow> event" where
  "unexpected_alarm rid site k =
     generator_alarm (''gen-unexpected-'' @ rid) ''generator_unexpected_run'' ''warning''
       [Txt ''Generator '', Txt (rr_asset k), Txt '' is running while scheduled off''] [(''provenance'', JStr ''inferred'')] site k"

definition record_reading ::
  "settings \<Rightarrow> time \<Rightarrow> string \<Rightarrow> raw_reading \<Rightarrow> 'a upkeep_db_scheme \<Rightarrow> (reading \<times> bool \<times> event list) \<times> 'a upkeep_db_scheme" where
  "record_reading s now site k d =
     (let rid = reading_id site (rr_asset k) (rr_ts k)
      in case List.find (\<lambda>r. gr_id r = rid) (readings d) of
           Some row \<Rightarrow> ((row, False, []), d)
         | None \<Rightarrow>
             let row = \<lparr>gr_id = rid, gr_site = site, gr_asset = rr_asset k, gr_source = rr_source k, gr_ts = rr_ts k,
                   gr_hours = rr_hours k, gr_running = rr_running k, gr_fuel = rr_fuel k, gr_expected = rr_expected k,
                   gr_fault = rr_fault k, gr_code = rr_code k, gr_created = now\<rparr>;
                 d = d\<lparr>readings := readings d @ [row]\<rparr>;
                 (a, d) = (if rr_fault k then persist_deduped s now (fault_alarm rid site k) d else ([], d));
                 (b, d) = (if rr_expected k = Some False \<and> rr_running k
                           then persist_deduped s now (unexpected_alarm rid site k) d else ([], d))
             in ((row, True, a @ b), d))"

definition asset_readings :: "'a upkeep_db_scheme \<Rightarrow> string \<Rightarrow> string \<Rightarrow> reading list" where
  "asset_readings d site asset = filter (\<lambda>r. gr_site r = site \<and> gr_asset r = asset) (readings d)"

definition latest_reading :: "'a upkeep_db_scheme \<Rightarrow> string \<Rightarrow> string \<Rightarrow> reading option" where
  "latest_reading d site asset = max_by gr_ts (asset_readings d site asset)"

definition latest_engine_hours :: "'a upkeep_db_scheme \<Rightarrow> string \<Rightarrow> string \<Rightarrow> real option" where
  "latest_engine_hours d site asset =
     (case max_by gr_ts (filter (\<lambda>r. gr_hours r \<noteq> None) (asset_readings d site asset)) of
        None \<Rightarrow> None | Some r \<Rightarrow> gr_hours r)"

definition list_readings ::
  "'a upkeep_db_scheme \<Rightarrow> string \<Rightarrow> string option \<Rightarrow> time option \<Rightarrow> time option \<Rightarrow> nat \<Rightarrow> reading list" where
  "list_readings d site asset since until limit =
     take (min limit 1000) (sort_key (\<lambda>r. - gr_ts r) (filter (\<lambda>r. gr_site r = site \<and>
        (case asset of None \<Rightarrow> True | Some a \<Rightarrow> gr_asset r = a) \<and>
        (case since of None \<Rightarrow> True | Some t \<Rightarrow> gr_ts r \<ge> t) \<and> (case until of None \<Rightarrow> True | Some t \<Rightarrow> gr_ts r < t)) (readings d)))"

definition generator_health :: "'a upkeep_db_scheme \<Rightarrow> string \<Rightarrow> string \<Rightarrow> string \<Rightarrow> time \<Rightarrow> health" where
  "generator_health d site asset component now =
     assess_health d site asset component now (latest_engine_hours d site asset)"

section \<open>Controller data\<close>

definition reading_required :: "string list" where
  "reading_required = [''asset_id'', ''time'', ''running'']"

text \<open>None where the source raises; \<open>float_of\<close> is \<^verbatim>\<open>float(raw)\<close>, None where that raises.\<close>

definition num_or_none :: "(json \<Rightarrow> real option) \<Rightarrow> json \<Rightarrow> real option option" where
  "num_or_none float_of v = (if v = JNull \<or> v = JStr [] then Some None else map_option Some (float_of v))"

definition normalise_reading ::
  "(json \<Rightarrow> string) \<Rightarrow> (json \<Rightarrow> real option) \<Rightarrow> (string \<Rightarrow> (time \<times> bool) option) \<Rightarrow> raw \<Rightarrow> raw_reading option" where
  "normalise_reading text_of float_of fromiso raw =
     (let get = (\<lambda>k. raw_get raw k JNull)
      in if \<exists>k \<in> set reading_required. get k = JNull \<or> get k = JStr [] then None
         else case (parse_ts fromiso (get ''time''), num_or_none float_of (get ''engine_hours''), num_or_none float_of (get ''fuel_level_pct'')) of
                (Some ts, Some eng, Some fuel) \<Rightarrow>
                  Some \<lparr>rr_asset = str_of text_of (get ''asset_id''), rr_ts = ts, rr_running = truth (get ''running''),
                    rr_source = str_of text_of (raw_get raw ''source'' (JStr ''dse_sim'')), rr_hours = eng, rr_fuel = fuel,
                    rr_expected = (if get ''expected_running'' = JNull then None else Some (truth (get ''expected_running''))),
                    rr_fault = truth (raw_get raw ''fault'' (JBool False)),
                    rr_code = (if truth (get ''fault_code'') then Some (str_of text_of (get ''fault_code'')) else None)\<rparr>
              | _ \<Rightarrow> None)"

definition register_raw :: "string \<Rightarrow> raw \<Rightarrow> raw" where
  "register_raw asset reg =
     (let get = (\<lambda>k. raw_get reg k JNull); either = (\<lambda>a b. json_or (get a) (get b))
      in [(''asset_id'', JStr asset), (''time'', json_or (either ''timestamp'' ''ts'') (JStr [])),
          (''running'', JBool (truth (either ''running'' ''engine_running''))),
          (''engine_hours'', either ''engine_hours'' ''run_hours''), (''fuel_level_pct'', either ''fuel_level'' ''fuel_pct''),
          (''expected_running'', get ''expected_running''), (''fault'', JBool (truth (either ''fault'' ''common_alarm''))),
          (''fault_code'', either ''fault_code'' ''alarm_code''), (''source'', JStr ''dse_modbus'')])"

text \<open>A batch: None where a reading is refused, which aborts it before its commit.\<close>

fun ingest_readings ::
  "settings \<Rightarrow> (json \<Rightarrow> string) \<Rightarrow> (json \<Rightarrow> real option) \<Rightarrow> (string \<Rightarrow> (time \<times> bool) option) \<Rightarrow> time \<Rightarrow> string \<Rightarrow> raw list
    \<Rightarrow> reading list \<Rightarrow> event list \<Rightarrow> 'a upkeep_db_scheme \<Rightarrow> ((reading list \<times> event list) \<times> 'a upkeep_db_scheme) option" where
  "ingest_readings s text_of float_of fromiso now site [] new alarms d = Some ((new, alarms), d)"
| "ingest_readings s text_of float_of fromiso now site (raw # raws) new alarms d =
     (case normalise_reading text_of float_of fromiso raw of
        None \<Rightarrow> None
      | Some k \<Rightarrow>
          let ((row, created, evs), d) = record_reading s now site k d
          in ingest_readings s text_of float_of fromiso now site raws (if created then new @ [row] else new) (alarms @ evs) d)"

section \<open>Waiting never improves health\<close>

definition band_of :: "string \<Rightarrow> nat" where
  "band_of risk = (if risk = ''Normal'' then 1 else if risk = ''Watch'' then 2 else if risk = ''Elevated'' then 3
     else if risk = ''High'' then 4 else if risk = ''Critical'' then 5 else 0)"

lemma band_of_risk_mono: "x \<le> y \<Longrightarrow> band_of (risk_of x) \<le> band_of (risk_of y)"
  by (simp add: band_of_def risk_of_def)

lemma rank_risk_pos: "1 \<le> band_of (risk_of x)"
  by (simp add: band_of_def risk_of_def)

lemma most_urgent_ge:
  "k_fraction c \<le> k_fraction (most_urgent c cs) \<and> (\<forall>x \<in> set cs. k_fraction x \<le> k_fraction (most_urgent c cs))"
proof (induction cs arbitrary: c)
  case (Cons e cs)
  let ?b = "if k_fraction e > k_fraction c then e else c"
  have "k_fraction c \<le> k_fraction ?b" "k_fraction e \<le> k_fraction ?b" by auto
  moreover have "most_urgent c (e # cs) = most_urgent ?b cs" by simp
  ultimately show ?case using Cons.IH [of ?b] by (metis order_trans set_ConsD)
qed simp

lemma most_urgent_mem: "most_urgent c cs \<in> set (c # cs)"
  by (induction cs arbitrary: c) (auto split: if_splits)

definition candidates_of :: "service_plan \<Rightarrow> work_order option \<Rightarrow> time \<Rightarrow> real option \<Rightarrow> candidate list" where
  "candidates_of p w now current = days_candidate p w now @ hours_candidate p w current"

definition plan_ok :: "service_plan \<Rightarrow> bool" where
  "plan_ok p \<longleftrightarrow> (\<forall>n. pl_days p = Some n \<longrightarrow> 0 \<le> n) \<and> (\<forall>x. pl_hours p = Some x \<longrightarrow> 0 \<le> x)"

definition no_less :: "real option \<Rightarrow> real option \<Rightarrow> bool" where
  "no_less a b = (case a of None \<Rightarrow> True | Some x \<Rightarrow> (case b of None \<Rightarrow> False | Some y \<Rightarrow> x \<le> y))"

lemma days_grow:
  assumes "plan_ok p" "t \<le> t'" "c \<in> set (days_candidate p w t)"
  shows "\<exists>c' \<in> set (days_candidate p w t'). k_fraction c \<le> k_fraction c'"
proof -
  obtain n where n: "pl_days p = Some n" "n \<noteq> 0"
    using assms(3) by (cases "pl_days p") (auto simp: days_candidate_def simp del: Let_def split: if_splits)
  then have "0 < (of_int n :: real)" using assms(1) by (auto simp: plan_ok_def le_less)
  moreover have "total_seconds (t - b) \<le> total_seconds (t' - b)" for b using assms(2) by (simp add: total_seconds_def)
  ultimately have "total_seconds (t - b) / 86400 / of_int n \<le> total_seconds (t' - b) / 86400 / of_int n" for b
    by (simp add: divide_right_mono)
  then show ?thesis using assms(3) n by (auto simp: days_candidate_def Let_def)
qed

lemma hours_grow:
  assumes "plan_ok p" "no_less h h'" "c \<in> set (hours_candidate p w h)"
  shows "\<exists>c' \<in> set (hours_candidate p w h'). k_fraction c \<le> k_fraction c'"
proof -
  obtain n x v where some: "pl_hours p = Some n" "h = Some x" "w = Some v"
    using assms(3) by (cases "pl_hours p"; cases h; cases w) (simp_all add: hours_candidate_def)
  moreover obtain h0 where "wo_hours v = Some h0" using assms(3) some by (cases "wo_hours v") (simp_all add: hours_candidate_def)
  moreover have "n \<noteq> 0" "x - h0 \<ge> 0" using assms(3) calculation by (auto simp: hours_candidate_def split: if_splits)
  ultimately have n: "pl_hours p = Some n" "h = Some x" "w = Some v" "wo_hours v = Some h0" "n \<noteq> 0" "x - h0 \<ge> 0" by simp_all
  obtain y where y: "h' = Some y" "x \<le> y" using assms(2) n(2) by (auto simp: no_less_def split: option.splits)
  have "0 < n" using assms(1) n(1,5) by (auto simp: plan_ok_def le_less)
  then have "(x - h0) / n \<le> (y - h0) / n" using y(2) by (simp add: divide_right_mono)
  then show ?thesis using assms(3) n y by (auto simp: hours_candidate_def)
qed

lemma assess_health_risk:
  "he_risk (assess_health d site asset component now current) =
     (case get_plan d site asset component of
        None \<Rightarrow> ''Unknown''
      | Some p \<Rightarrow> (case candidates_of p (latest_completed_service d site asset component) now current of
           [] \<Rightarrow> ''Unknown'' | c # cs \<Rightarrow> risk_of (k_fraction (most_urgent c cs))))"
  by (simp add: assess_health_def unknown_health_def candidates_of_def Let_def split: option.split list.split)

text \<open>With the plan and the services as they are, neither time passing nor more engine hours ever
  makes a component look healthier: its risk band only moves up.\<close>

theorem waiting_never_improves_health:
  assumes "\<forall>p \<in> set (plans d). plan_ok p" "now \<le> later" "no_less current more_hours"
  shows "band_of (he_risk (assess_health d site asset component now current)) \<le>
    band_of (he_risk (assess_health d site asset component later more_hours))"
proof (cases "get_plan d site asset component")
  case None
  then show ?thesis by (simp add: assess_health_risk)
next
  case (Some p)
  let ?w = "latest_completed_service d site asset component"
  have ok: "plan_ok p" using Some assms(1) find_Some_mem unfolding get_plan_def by fastforce
  show ?thesis
  proof (cases "candidates_of p ?w now current")
    case Nil
    then show ?thesis by (simp add: assess_health_risk Some band_of_def)
  next
    case (Cons c cs)
    let ?m = "most_urgent c cs"
    have "?m \<in> set (days_candidate p ?w now) \<union> set (hours_candidate p ?w current)"
      using most_urgent_mem [of c cs] unfolding Cons [symmetric] candidates_of_def set_append .
    then obtain c' where c': "c' \<in> set (candidates_of p ?w later more_hours)" "k_fraction ?m \<le> k_fraction c'"
      using days_grow [OF ok assms(2), of ?m ?w] hours_grow [OF ok assms(3), of ?m ?w] unfolding candidates_of_def set_append by blast
    then obtain e es where e: "candidates_of p ?w later more_hours = e # es" by (cases "candidates_of p ?w later more_hours") auto
    have "k_fraction c' \<le> k_fraction (most_urgent e es)" using c'(1) most_urgent_ge [of e es] unfolding e by auto
    then have "k_fraction ?m \<le> k_fraction (most_urgent e es)" using c'(2) by simp
    then show ?thesis by (simp add: assess_health_risk Some Cons e band_of_risk_mono)
  qed
qed

section \<open>A completed service is final\<close>

datatype upkeep_act =
    Plan string string string "real option" "int option" "string option" time
  | Open string string string string string "real option" "string option" time
  | Complete string string time "real option"
  | Reading time string raw_reading

text \<open>A request that is refused changes nothing.\<close>

fun upkeep_do :: "settings \<Rightarrow> 'a upkeep_db_scheme \<Rightarrow> upkeep_act \<Rightarrow> 'a upkeep_db_scheme" where
  "upkeep_do s d (Plan site asset component h n msg now) =
     (case upsert_plan site asset component h n msg now d of Inl _ \<Rightarrow> d | Inr (_, d') \<Rightarrow> d')"
| "upkeep_do s d (Open site asset component typ by_user h msg now) =
     (case open_work_order site asset component typ by_user h msg now d of Inl _ \<Rightarrow> d | Inr (_, d') \<Rightarrow> d')"
| "upkeep_do s d (Complete site i now h) =
     (case complete_work_order site i now h d of Inl _ \<Rightarrow> d | Inr (_, d') \<Rightarrow> d')"
| "upkeep_do s d (Reading now site k) = snd (record_reading s now site k d)"

definition is_final :: "string \<Rightarrow> work_order \<Rightarrow> 'a upkeep_db_scheme \<Rightarrow> bool" where
  "is_final i w d \<longleftrightarrow> wo_status w = ''done'' \<and> List.find (\<lambda>q. wo_id q = i) (work_orders d) = Some w"

lemma find_map_same:
  "(\<And>q. wo_id (f q) = wo_id q) \<Longrightarrow> List.find (\<lambda>q. wo_id q = i) (map f t) = map_option f (List.find (\<lambda>q. wo_id q = i) t)"
  by (induction t) auto

lemma find_append_some: "List.find P xs = Some x \<Longrightarrow> List.find P (xs @ ys) = Some x"
  by (induction xs) (auto split: if_splits)

lemma persist_keeps_orders [simp]:
  "work_orders (persist_event st now d ev) = work_orders d" "readings (persist_event st now d ev) = readings d"
  "plans (persist_event st now d ev) = plans d"
proof -
  have more: "db.more (persist_event st now d ev) = db.more d" using persist_event_frame [of d st now ev] by (simp add: outbox_only_def)
  show "work_orders (persist_event st now d ev) = work_orders d" "readings (persist_event st now d ev) = readings d"
    "plans (persist_event st now d ev) = plans d"
    using more by (cases d, cases "persist_event st now d ev", simp)+
qed

lemma deduped_keeps [simp]:
  "work_orders (snd (persist_deduped s now ev d)) = work_orders d" "readings (snd (persist_deduped s now ev d)) = readings d"
  by (simp_all add: persist_deduped_def)

lemma record_reading_orders: "work_orders (snd (record_reading s now site k d)) = work_orders d"
  by (simp add: record_reading_def Let_def split_beta split: option.split)

definition completed :: "time \<Rightarrow> real option \<Rightarrow> work_order \<Rightarrow> work_order" where
  "completed now h w = w\<lparr>wo_status := ''done'', wo_closed := Some now, wo_hours := (case h of None \<Rightarrow> wo_hours w | Some x \<Rightarrow> Some x)\<rparr>"

lemma completed_id [simp]: "wo_id (completed now h w) = wo_id w"
  by (simp add: completed_def)

lemma complete_found:
  "List.find (\<lambda>w. wo_id w = i) (work_orders d) = Some w \<Longrightarrow> complete_work_order site i now h d =
     (if wo_site w \<noteq> site then Inr (None, d) else if wo_status w = ''done'' then Inr (Some w, d)
      else if wo_status w \<notin> {''open'', ''in_progress''} then Inl NotOpen
      else Inr (Some (completed now h w), d\<lparr>work_orders := map (\<lambda>q. if wo_id q = i then completed now h w else q) (work_orders d)\<rparr>))"
  by (simp add: complete_work_order_def completed_def Let_def)

lemma complete_is_final:
  assumes "complete_work_order site i now h d = Inr (Some w, d')"
  shows "is_final i w d'"
proof -
  obtain w0 where w0: "List.find (\<lambda>w. wo_id w = i) (work_orders d) = Some w0"
    using assms by (auto simp: complete_work_order_def split: option.splits)
  have id: "wo_id w0 = i" using find_Some_mem [OF w0] by simp
  show ?thesis
  proof (cases "wo_status w0 = ''done''")
    case True
    then show ?thesis using assms w0 by (auto simp: complete_work_order_def is_final_def split: if_splits)
  next
    case False
    let ?w = "w0\<lparr>wo_status := ''done'', wo_closed := Some now, wo_hours := (case h of None \<Rightarrow> wo_hours w0 | Some x \<Rightarrow> Some x)\<rparr>"
    have "w = ?w" "work_orders d' = map (\<lambda>q. if wo_id q = i then ?w else q) (work_orders d)"
      using assms w0 False by (auto simp: complete_work_order_def Let_def split: if_splits)
    moreover have "List.find (\<lambda>q. wo_id q = i) (map (\<lambda>q. if wo_id q = i then ?w else q) (work_orders d)) = Some ?w"
      using w0 id by (subst find_map_same) auto
    ultimately show ?thesis by (simp add: is_final_def)
  qed
qed

lemma final_step: "is_final i w d \<Longrightarrow> is_final i w (upkeep_do s d a)"
proof (cases a)
  case (Plan site asset component h n msg now)
  moreover assume "is_final i w d"
  ultimately show ?thesis
    by (auto simp: is_final_def upsert_plan_def new_event_id_def Let_def split: option.split)
next
  case (Open site asset component ty by_user h msg now)
  moreover assume "is_final i w d"
  ultimately show ?thesis
    by (auto simp: is_final_def open_work_order_def new_event_id_def Let_def find_append_some)
next
  case (Reading now site k)
  moreover assume "is_final i w d"
  ultimately show ?thesis by (simp add: is_final_def record_reading_orders)
next
  case (Complete site j now h)
  moreover assume fin: "is_final i w d"
  moreover have "is_final i w d'" if e: "complete_work_order site j now h d = Inr (r, d')" for r d'
  proof (cases "d' = d")
    case False
    obtain w0 where w0: "List.find (\<lambda>w. wo_id w = j) (work_orders d) = Some w0"
      using e False by (cases "List.find (\<lambda>w. wo_id w = j) (work_orders d)") (simp_all add: complete_work_order_def)
    let ?v = "completed now h w0"
    have nd: "wo_status w0 \<noteq> ''done''" using e False unfolding complete_found [OF w0] by (auto split: if_split_asm)
    have "d' = d\<lparr>work_orders := map (\<lambda>q. if wo_id q = j then ?v else q) (work_orders d)\<rparr>"
      using e False unfolding complete_found [OF w0] by (simp only: split: if_split_asm) simp_all
    then have d': "work_orders d' = map (\<lambda>q. if wo_id q = j then ?v else q) (work_orders d)" by simp
    have "wo_id w0 = j" using find_Some_mem [OF w0] by simp
    moreover have "i \<noteq> j" using fin w0 nd by (auto simp: is_final_def)
    moreover have "wo_id w = i" using find_Some_mem [of "\<lambda>q. wo_id q = i" "work_orders d" w] fin by (simp add: is_final_def)
    moreover have "List.find (\<lambda>q. wo_id q = i) (work_orders d') =
        map_option (\<lambda>q. if wo_id q = j then ?v else q) (List.find (\<lambda>q. wo_id q = i) (work_orders d))"
      unfolding d' using \<open>wo_id w0 = j\<close> by (intro find_map_same) simp
    ultimately show ?thesis using fin by (simp add: is_final_def)
  qed (use fin in simp)
  ultimately show ?thesis by (auto split: sum.split)
qed

interpretation final_order: machine "upkeep_do s" "is_final i w"
  by unfold_locales (rule final_step)

text \<open>C40: the baseline of a component's health never moves by itself: once a work order is completed,
  no later request, a delayed retry of the completion included, changes it, and the retry answers
  with the order as it was completed.\<close>

theorem completed_service_is_final:
  assumes "complete_work_order site i now h d = Inr (Some w, d1)"
    and "d2 = run_machine (upkeep_do s) d1 acts"
  shows "complete_work_order site i later h' d2 = Inr (Some w, d2)"
proof -
  have fin: "is_final i w d2" unfolding assms(2) by (rule final_order.run_inv [OF complete_is_final [OF assms(1)]])
  moreover have "wo_site w = site"
    using assms(1) by (auto simp: complete_work_order_def Let_def split: option.splits if_splits)
  ultimately show ?thesis by (simp add: complete_work_order_def is_final_def)
qed

section \<open>Replayed readings\<close>

definition known_reading :: "string \<Rightarrow> raw_reading \<Rightarrow> 'a upkeep_db_scheme \<Rightarrow> bool" where
  "known_reading site k d \<longleftrightarrow> reading_id site (rr_asset k) (rr_ts k) \<in> gr_id ` set (readings d)"

lemma record_known: "known_reading site k d \<Longrightarrow> \<exists>row. record_reading s now site k d = ((row, False, []), d)"
proof -
  assume "known_reading site k d"
  then have "List.find (\<lambda>r. gr_id r = reading_id site (rr_asset k) (rr_ts k)) (readings d) \<noteq> None"
    by (auto simp: known_reading_def find_None_iff_all)
  then show ?thesis by (auto simp: record_reading_def Let_def)
qed

lemma record_reading_rows:
  "gr_id ` set (readings (snd (record_reading s now site k d))) =
     insert (reading_id site (rr_asset k) (rr_ts k)) (gr_id ` set (readings d))"
proof (cases "List.find (\<lambda>r. gr_id r = reading_id site (rr_asset k) (rr_ts k)) (readings d)")
  case None
  then show ?thesis by (simp add: record_reading_def Let_def split_beta)
next
  case (Some row)
  then have "reading_id site (rr_asset k) (rr_ts k) \<in> gr_id ` set (readings d)" using find_Some_mem [OF Some] by force
  then show ?thesis using Some by (auto simp: record_reading_def Let_def)
qed

lemma ingest_readings_rows:
  assumes "ingest_readings s text_of float_of fromiso now site raws new alarms d = Some (res, d')"
  shows "gr_id ` set (readings d) \<subseteq> gr_id ` set (readings d') \<and>
    (\<forall>raw \<in> set raws. \<exists>k. normalise_reading text_of float_of fromiso raw = Some k \<and> known_reading site k d')"
  using assms
proof (induction raws arbitrary: new alarms d)
  case (Cons raw raws)
  then obtain k where k: "normalise_reading text_of float_of fromiso raw = Some k" by (auto split: option.splits)
  let ?d = "snd (record_reading s now site k d)"
  obtain new' alarms' where "ingest_readings s text_of float_of fromiso now site raws new' alarms' ?d = Some (res, d')"
    using Cons.prems k by (auto simp: Let_def split_beta)
  from Cons.IH [OF this] show ?case using k record_reading_rows [of s now site k d] by (auto simp: known_reading_def)
qed simp

lemma ingest_known:
  assumes "\<forall>raw \<in> set raws. \<exists>k. normalise_reading text_of float_of fromiso raw = Some k \<and> known_reading site k d"
  shows "ingest_readings s text_of float_of fromiso now site raws new alarms d = Some ((new, alarms), d)"
  using assms
proof (induction raws arbitrary: new alarms)
  case (Cons raw raws)
  then obtain k where k: "normalise_reading text_of float_of fromiso raw = Some k" "known_reading site k d" by auto
  obtain row where "record_reading s now site k d = ((row, False, []), d)" using record_known [OF k(2)] by blast
  then show ?case using Cons k by simp
qed simp

text \<open>A batch of controller readings that was accepted can be replayed or backfilled at any time: it
  stores nothing, raises nothing and leaves the database as it is.\<close>

theorem replayed_readings_are_silent:
  assumes "ingest_readings s text_of float_of fromiso now site raws [] [] d = Some (res, d1)"
    and "set raws' \<subseteq> set raws"
  shows "ingest_readings s text_of float_of fromiso later site raws' [] [] d1 = Some (([], []), d1)"
  using ingest_readings_rows [OF assms(1)] assms(2) by (intro ingest_known) blast

section \<open>Where readings are lost or read wrongly\<close>

text \<open>The id of a reading has whole seconds, so of two readings within one second the later is dropped, its fault with it.\<close>

lemma fault_within_the_second_is_lost:
  "snd (record_reading s now site (k\<lparr>rr_ts := 500000, rr_fault := True\<rparr>) (snd (record_reading s now site (k\<lparr>rr_ts := 0, rr_fault := False\<rparr>) d))) =
     snd (record_reading s now site (k\<lparr>rr_ts := 0, rr_fault := False\<rparr>) d)"
proof -
  let ?d = "snd (record_reading s now site (k\<lparr>rr_ts := 0, rr_fault := False\<rparr>) d)"
  have "second_stamp 500000 = second_stamp 0" by (simp add: second_stamp_def day_us_def hour_us_def)
  then have "known_reading site (k\<lparr>rr_ts := 500000, rr_fault := True\<rparr>) ?d"
    by (simp add: known_reading_def record_reading_rows reading_id_def)
  then show ?thesis by (metis record_known snd_conv)
qed

text \<open>A controller that reports its state as text is always running: \<^verbatim>\<open>bool("false")\<close> is true.\<close>

lemma running_text_is_coerced:
  "normalise_reading text_of float_of (\<lambda>_. Some (0, True))
     [(''asset_id'', JStr ''GEN-01''), (''time'', JStr ''t''), (''running'', JStr ''false'')] =
   Some \<lparr>rr_asset = ''GEN-01'', rr_ts = 0, rr_running = True, rr_source = ''dse_sim'', rr_hours = None, rr_fuel = None,
     rr_expected = None, rr_fault = False, rr_code = None\<rparr>"
  by (simp add: normalise_reading_def reading_required_def raw_get_def parse_ts_def num_or_none_def str_of_def truth_def Let_def)

section \<open>Concrete instances\<close>

definition demo_upkeep :: upkeep_db where
  "demo_upkeep = access_db.extend demo_gate
     \<lparr>plans = [\<lparr>pl_id = ''P1'', pl_site = ''s1'', pl_asset = ''GEN-01'', pl_component = ''engine'', pl_hours = Some 250,
        pl_days = Some 30, pl_note = None, pl_created = 0\<rparr>],
      work_orders = [\<lparr>wo_id = ''W1'', wo_site = ''s1'', wo_asset = ''GEN-01'', wo_component = ''engine'', wo_type = ''service'',
        wo_status = ''open'', wo_opened = 0, wo_closed = None, wo_hours = None, wo_note = None, wo_created_by = ''a'', wo_created = 0\<rparr>],
      readings = []\<rparr>"

lemma demo_upkeep_simps:
  "plans demo_upkeep = [\<lparr>pl_id = ''P1'', pl_site = ''s1'', pl_asset = ''GEN-01'', pl_component = ''engine'', pl_hours = Some 250,
     pl_days = Some 30, pl_note = None, pl_created = 0\<rparr>]"
  "work_orders demo_upkeep = [\<lparr>wo_id = ''W1'', wo_site = ''s1'', wo_asset = ''GEN-01'', wo_component = ''engine'', wo_type = ''service'',
     wo_status = ''open'', wo_opened = 0, wo_closed = None, wo_hours = None, wo_note = None, wo_created_by = ''a'', wo_created = 0\<rparr>]"
  by (simp_all add: demo_upkeep_def access_db.extend_def)

theorem waiting_never_improves_health_witness:
  "band_of (he_risk (assess_health demo_upkeep ''s1'' ''GEN-01'' ''engine'' 0 None)) \<le>
   band_of (he_risk (assess_health demo_upkeep ''s1'' ''GEN-01'' ''engine'' (seconds 2592000) (Some 100)))"
  by (rule waiting_never_improves_health) (simp_all add: demo_upkeep_simps plan_ok_def seconds_def no_less_def)

definition demo_done :: work_order where
  "demo_done = (hd (work_orders demo_upkeep))\<lparr>wo_status := ''done'', wo_closed := Some 7, wo_hours := Some 250\<rparr>"

theorem completed_service_is_final_witness:
  "complete_work_order ''s1'' ''W1'' 99 (Some 900)
     (run_machine (upkeep_do demo_settings) (demo_upkeep\<lparr>work_orders := [demo_done]\<rparr>) [Open ''s1'' ''GEN-01'' ''engine'' ''repair'' ''a'' None None 8]) =
   Inr (Some demo_done, run_machine (upkeep_do demo_settings) (demo_upkeep\<lparr>work_orders := [demo_done]\<rparr>)
     [Open ''s1'' ''GEN-01'' ''engine'' ''repair'' ''a'' None None 8])"
  by (rule completed_service_is_final [where d = demo_upkeep and now = 7 and h = "Some 250", OF _ refl])
     (simp add: complete_work_order_def demo_upkeep_simps demo_done_def Let_def)

theorem replayed_readings_are_silent_witness:
  "\<exists>new alarms d1. ingest_readings demo_settings (\<lambda>_. []) (\<lambda>_. None) (\<lambda>_. Some (0, True)) 5 ''s1''
       [[(''asset_id'', JStr ''GEN-01''), (''time'', JStr ''t''), (''running'', JBool True), (''fault'', JBool True)]] [] [] demo_upkeep =
         Some ((new, alarms), d1) \<and>
     ingest_readings demo_settings (\<lambda>_. []) (\<lambda>_. None) (\<lambda>_. Some (0, True)) 9 ''s1''
       [[(''asset_id'', JStr ''GEN-01''), (''time'', JStr ''t''), (''running'', JBool True), (''fault'', JBool True)]] [] [] d1 =
         Some (([], []), d1)"
proof -
  let ?raws = "[[(''asset_id'', JStr ''GEN-01''), (''time'', JStr ''t''), (''running'', JBool True), (''fault'', JBool True)]]"
  obtain new alarms d1 where r: "ingest_readings demo_settings (\<lambda>_. []) (\<lambda>_. None) (\<lambda>_. Some (0, True)) 5 ''s1'' ?raws [] [] demo_upkeep =
      Some ((new, alarms), d1)"
    by (simp add: normalise_reading_def reading_required_def raw_get_def parse_ts_def num_or_none_def str_of_def truth_def Let_def split_beta)
  from replayed_readings_are_silent [OF r subset_refl] r show ?thesis by blast
qed

end
