(* ===== verification/RetryQueue.thy ===== *)
theory RetryQueue
  imports Prelude
begin

text \<open>
  What the two outbound queues of the source share (alarm notifications and shift reports):
  rows that are pending, sent or failed, passes that try the rows that are due, oldest first,
  and a retry rule with exponential backoff and a limit. The locale states the contract of the
  retry rule; its lemmas bound how often anything is sent, over every sequence of additions,
  passes and power cuts, and show that a queue drains once the network is back.
\<close>

section \<open>Passes over a queue\<close>

text \<open>
  \<^verbatim>\<open>select ... where state = 'pending' and next_attempt_at <= now order by next_attempt_at limit batch\<close>.
\<close>

definition due_rows :: "('r \<Rightarrow> string) \<Rightarrow> ('r \<Rightarrow> time) \<Rightarrow> time \<Rightarrow> nat \<Rightarrow> 'r list \<Rightarrow> 'r list" where
  "due_rows state due now batch t =
     take batch (sort_key due (filter (\<lambda>r. state r = ''pending'' \<and> due r \<le> now) t))"

text \<open>The rows of a table that a pass settles are mutated in place.\<close>

definition settle :: "('r \<Rightarrow> 'r) \<Rightarrow> 'r list \<Rightarrow> 'r list \<Rightarrow> 'r list" where
  "settle f rows t = map (\<lambda>r. if r \<in> set rows then f r else r) t"

text \<open>
  A queue over time: its rows, what was put on the wire (and whether it was accepted), and how
  often the power was cut inside a pass. A cut keeps the rows committed so far and loses the
  record of the sends after them.
\<close>

record ('k, 'r) queue =
  q_rows :: "'r list"
  q_log :: "('k \<times> bool) list"
  q_cuts :: nat

datatype 'r queue_act =
    Add 'r
  | Pass time nat "'r \<Rightarrow> string option"
  | Cut_pass time nat "'r \<Rightarrow> string option" nat nat

definition wire :: "('r \<Rightarrow> 'k) \<Rightarrow> ('r \<Rightarrow> string option) \<Rightarrow> 'r list \<Rightarrow> ('k \<times> bool) list" where
  "wire key send rows = map (\<lambda>r. (key r, send r = None)) rows"

fun queue_do ::
  "('r \<Rightarrow> 'k) \<Rightarrow> ('r \<Rightarrow> string) \<Rightarrow> ('r \<Rightarrow> int) \<Rightarrow> ('r \<Rightarrow> time) \<Rightarrow> (time \<Rightarrow> string option \<Rightarrow> 'r \<Rightarrow> 'r)
    \<Rightarrow> ('k, 'r) queue \<Rightarrow> 'r queue_act \<Rightarrow> ('k, 'r) queue" where
  "queue_do key state attempts due attempt q (Add r) =
     (if key r \<in> key ` set (q_rows q) \<or> state r \<noteq> ''pending'' \<or> attempts r \<noteq> 0 then q
      else q\<lparr>q_rows := q_rows q @ [r]\<rparr>)"
| "queue_do key state attempts due attempt q (Pass now batch send) =
     (let rows = due_rows state due now batch (q_rows q)
      in q\<lparr>q_rows := settle (\<lambda>r. attempt now (send r) r) rows (q_rows q), q_log := q_log q @ wire key send rows\<rparr>)"
| "queue_do key state attempts due attempt q (Cut_pass now batch send kept tried) =
     (let rows = due_rows state due now batch (q_rows q)
      in q\<lparr>q_rows := settle (\<lambda>r. attempt now (send r) r) (take kept rows) (q_rows q),
           q_log := q_log q @ wire key send (take (max kept tried) rows), q_cuts := q_cuts q + 1\<rparr>)"

definition sends :: "('k \<times> bool) list \<Rightarrow> 'k \<Rightarrow> nat" where
  "sends w k = length (filter (\<lambda>e. fst e = k) w)"

definition accepted :: "('k \<times> bool) list \<Rightarrow> 'k \<Rightarrow> nat" where
  "accepted w k = length (filter (\<lambda>e. e = (k, True)) w)"

lemma sends_append [simp]: "sends (v @ w) k = sends v k + sends w k"
  by (simp add: sends_def)

lemma accepted_append [simp]: "accepted (v @ w) k = accepted v k + accepted w k"
  by (simp add: accepted_def)

lemma accepted_le_sends: "accepted w k \<le> sends w k"
  by (induction w) (auto simp: accepted_def sends_def)

lemma sends_wire:
  assumes "distinct (map key rows)"
  shows "sends (wire key send rows) k = (if k \<in> key ` set rows then 1 else 0)"
  using assms by (induction rows) (auto simp: sends_def wire_def filter_map comp_def filter_empty_conv)

lemma accepted_wire:
  assumes "distinct (map key rows)"
  shows "accepted (wire key send rows) k = (if \<exists>r \<in> set rows. key r = k \<and> send r = None then 1 else 0)"
  using assms by (induction rows) (auto simp: accepted_def wire_def rev_image_eqI)

section \<open>The contract of a retry rule\<close>

locale retry_queue =
  fixes key :: "'r \<Rightarrow> 'k"
    and state :: "'r \<Rightarrow> string"
    and attempts :: "'r \<Rightarrow> int"
    and due :: "'r \<Rightarrow> time"
    and attempt :: "time \<Rightarrow> string option \<Rightarrow> 'r \<Rightarrow> 'r"
    and max_attempts :: int
    and base :: int
  assumes attempt_key: "key (attempt now res r) = key r"
    and attempt_counts: "attempts (attempt now res r) = attempts r + 1"
    and attempt_accepted: "state (attempt now None r) = ''sent''"
    and attempt_refused: "state (attempt now (Some err) r) =
      (if attempts r + 1 \<ge> max_attempts then ''failed'' else state r)"
    and attempt_backoff: "attempts r + 1 < max_attempts \<Longrightarrow>
      due (attempt now (Some err) r) = now + seconds (base * 2 ^ nat (attempts r))"
begin

lemma due_rows_mem:
  "r \<in> set (due_rows state due now batch t) \<Longrightarrow> r \<in> set t \<and> state r = ''pending'' \<and> due r \<le> now"
  by (auto simp: due_rows_def dest: in_set_takeD)

lemma settle_keys: "map key (settle (\<lambda>r. attempt now (send r) r) rows t) = map key t"
  by (simp add: settle_def attempt_key)

lemma due_rows_distinct:
  assumes "distinct (map key t)"
  shows "distinct (map key (due_rows state due now batch t))"
proof -
  have "distinct (sort_key due (filter (\<lambda>r. state r = ''pending'' \<and> due r \<le> now) t))"
    using assms by (simp add: distinct_map)
  then have "distinct (due_rows state due now batch t)" by (simp add: due_rows_def)
  moreover have "inj_on key (set (due_rows state due now batch t))"
    using assms due_rows_mem by (fastforce simp: distinct_map inj_on_def)
  ultimately show ?thesis by (simp add: distinct_map)
qed

definition row_ok :: "('k, 'r) queue \<Rightarrow> 'r \<Rightarrow> bool" where
  "row_ok q r \<longleftrightarrow> 0 \<le> attempts r \<and> attempts r \<le> max 1 max_attempts \<and>
     (state r = ''pending'' \<longrightarrow> attempts r < max 1 max_attempts) \<and>
     sends (q_log q) (key r) \<le> nat (attempts r) + q_cuts q \<and>
     accepted (q_log q) (key r) \<le> (if state r = ''sent'' then 1 else 0) + q_cuts q"

definition queue_ok :: "('k, 'r) queue \<Rightarrow> bool" where
  "queue_ok q \<longleftrightarrow> distinct (map key (q_rows q)) \<and> (\<forall>r \<in> set (q_rows q). row_ok q r) \<and>
     (\<forall>k. k \<notin> key ` set (q_rows q) \<longrightarrow> sends (q_log q) k = 0)"

text \<open>One pass, complete or cut short: the first \<open>i\<close> of the due rows are settled, the first \<open>j\<close> were sent.\<close>

lemma tried_ok:
  assumes "queue_ok q" "i \<le> j" "i = j \<and> c = 0 \<or> c = 1"
    and rows: "rows = due_rows state due now batch (q_rows q)"
    and q': "q' = q\<lparr>q_rows := settle (\<lambda>r. attempt now (send r) r) (take i rows) (q_rows q),
        q_log := q_log q @ wire key send (take j rows), q_cuts := q_cuts q + c\<rparr>"
  shows "queue_ok q'"
proof -
  let ?f = "\<lambda>r. if r \<in> set (take i rows) then attempt now (send r) r else r"
  have dis: "distinct (map key (q_rows q))" using assms(1) by (simp add: queue_ok_def)
  have dj: "distinct (map key (take j rows))"
    using due_rows_distinct [OF dis] by (simp add: rows take_map [symmetric])
  have sub: "set (take i rows) \<subseteq> set (take j rows)" using assms(2) by (rule set_take_subset_set_take)
  have mem: "r \<in> set (q_rows q) \<and> state r = ''pending''" if "r \<in> set (take j rows)" for r
    using due_rows_mem [of r now batch "q_rows q"] in_set_takeD [OF that] by (simp add: rows)
  have inj: "inj_on key (set (q_rows q))" using dis by (simp add: distinct_map)
  have row: "row_ok q' (?f r)" if r: "r \<in> set (q_rows q)" for r
  proof -
    have k: "key r \<in> key ` set (take j rows) \<longleftrightarrow> r \<in> set (take j rows)"
      using inj_on_image_mem_iff [OF inj r, of "set (take j rows)"] mem by blast
    have e: "(\<exists>x \<in> set (take j rows). key x = key r \<and> send x = None) \<longleftrightarrow> r \<in> set (take j rows) \<and> send r = None"
      using inj r mem by (auto simp: inj_on_def)
    have ok: "row_ok q r" using assms(1) r by (simp add: queue_ok_def)
    have st: "state (attempt now (send r) r) = (if send r = None then ''sent'' else
        if attempts r + 1 \<ge> max_attempts then ''failed'' else state r)"
      by (cases "send r") (simp_all add: attempt_accepted attempt_refused)
    show ?thesis
    proof (cases "r \<in> set (take i rows)")
      case True
      then have "state r = ''pending''" "r \<in> set (take j rows)" using mem sub by auto
      then show ?thesis using True ok st assms(3)
        by (auto simp: row_ok_def q' attempt_key attempt_counts sends_wire [OF dj] accepted_wire [OF dj] k e)
    next
      case False
      then have "c = 1 \<or> r \<notin> set (take j rows)" using assms(3) by auto
      then show ?thesis using False ok
        by (auto simp: row_ok_def q' sends_wire [OF dj] accepted_wire [OF dj] k e)
    qed
  qed
  have keys: "key ` set (q_rows q') = key ` set (q_rows q)"
    using arg_cong [OF settle_keys [of now send "take i rows" "q_rows q"], of set] by (simp add: q')
  have "sends (q_log q') x = 0" if "x \<notin> key ` set (q_rows q)" for x
  proof -
    have "x \<notin> key ` set (take j rows)" using that mem by blast
    then show ?thesis using assms(1) that by (simp add: q' queue_ok_def sends_wire [OF dj])
  qed
  moreover have "distinct (map key (q_rows q'))" using dis by (simp add: q' settle_keys)
  moreover have "set (q_rows q') = ?f ` set (q_rows q)" by (simp add: q' settle_def)
  ultimately show ?thesis using row keys unfolding queue_ok_def by (metis (no_types, lifting) imageE)
qed

lemma step_ok: "queue_ok q \<Longrightarrow> queue_ok (queue_do key state attempts due attempt q a)"
proof (cases a)
  case (Add r)
  moreover assume "queue_ok q"
  ultimately show ?thesis using accepted_le_sends [of "q_log q" "key r"] by (auto simp: queue_ok_def row_ok_def)
next
  case (Pass now batch send)
  moreover assume "queue_ok q"
  ultimately show ?thesis
    using tried_ok [of q batch batch 0 "due_rows state due now batch (q_rows q)" now batch _ send]
    by (simp add: due_rows_def Let_def)
next
  case (Cut_pass now batch send kept tried)
  moreover assume "queue_ok q"
  ultimately show ?thesis
    using tried_ok [of q kept "max kept tried" 1 "due_rows state due now batch (q_rows q)" now batch _ send]
    by (simp add: Let_def)
qed

end

sublocale retry_queue \<subseteq> runs: machine "queue_do key state attempts due attempt" queue_ok
  by unfold_locales (rule step_ok)

context retry_queue
begin

lemma sends_bounded:
  assumes "queue_ok q" "q' = run_machine (queue_do key state attempts due attempt) q acts"
  shows "sends (q_log q') k \<le> nat (max 1 max_attempts) + q_cuts q' \<and> accepted (q_log q') k \<le> 1 + q_cuts q'"
proof -
  have ok: "queue_ok q'" unfolding assms(2) by (rule runs.run_inv [OF assms(1)])
  have le: "accepted (q_log q') k \<le> sends (q_log q') k" by (rule accepted_le_sends)
  show ?thesis
  proof (cases "k \<in> key ` set (q_rows q')")
    case True
    then obtain r where "r \<in> set (q_rows q')" "k = key r" by blast
    then show ?thesis using ok by (auto simp: queue_ok_def row_ok_def split: if_splits)
  next
    case False
    then have "sends (q_log q') k = 0" using ok by (simp add: queue_ok_def)
    with le show ?thesis by simp
  qed
qed

text \<open>A row that was sent, or given up, stays as it is.\<close>

lemma final_row_kept:
  "r \<in> set (q_rows q) \<Longrightarrow> state r \<noteq> ''pending'' \<Longrightarrow> r \<in> set (q_rows (queue_do key state attempts due attempt q a))"
proof -
  assume r: "r \<in> set (q_rows q)" "state r \<noteq> ''pending''"
  have "r \<notin> set (take n (due_rows state due now batch (q_rows q)))" for n now batch
    using r(2) by (auto dest: in_set_takeD due_rows_mem)
  moreover have "r \<notin> set (due_rows state due now batch (q_rows q))" for now batch
    using r(2) by (auto dest: due_rows_mem)
  ultimately show ?thesis using r(1) by (cases a) (auto simp: settle_def Let_def rev_image_eqI)
qed

text \<open>With the network back, each pass sends the next batch.\<close>

definition overdue :: "time \<Rightarrow> 'r list \<Rightarrow> 'r list" where
  "overdue now t = filter (\<lambda>r. state r = ''pending'' \<and> due r \<le> now) t"

lemma pass_drains:
  assumes "distinct t" "rows = due_rows state due now batch t"
  shows "length (overdue now (settle (\<lambda>r. attempt now None r) rows t)) = length (overdue now t) - batch"
proof -
  have sub: "set rows \<subseteq> set (overdue now t)"
    by (auto simp: assms(2) overdue_def due_rows_def dest: in_set_takeD)
  have d: "distinct (overdue now t)" using assms(1) by (simp add: overdue_def)
  have "distinct rows" using assms by (simp add: due_rows_def)
  have "length rows = min batch (length (overdue now t))"
    by (simp add: assms(2) due_rows_def overdue_def)
  have "overdue now (settle (\<lambda>r. attempt now None r) rows t) = filter (\<lambda>r. r \<notin> set rows) (overdue now t)"
    unfolding overdue_def settle_def by (induction t) (auto simp: attempt_accepted)
  moreover have "length (filter (\<lambda>r. r \<notin> set rows) (overdue now t)) = card (set (overdue now t) - set rows)"
    using assms(1) by (subst distinct_card [symmetric]) (auto simp: overdue_def intro!: arg_cong [of _ _ card])
  moreover have "card (set (overdue now t) - set rows) = length (overdue now t) - length rows"
    using sub \<open>distinct rows\<close> d by (simp add: card_Diff_subset distinct_card)
  ultimately show ?thesis using \<open>length rows = _\<close> by simp
qed

end

end
