(* ===== verification/Notifications.thy ===== *)
theory Notifications
  imports Pipeline RetryQueue
begin

text \<open>
  The delivery side of alarm notifications, \<^verbatim>\<open>src/src/minemonitor/notifications/dispatch.py\<close>: what
  is sent over each channel, and the dispatcher that drains the outbox with retry and backoff.
  The transport (\<^verbatim>\<open>Sender\<close>) is a parameter: for a row and a message it returns the text of the
  error, or None when the message was accepted. \<open>render\<close> turns a summary into its text.
\<close>

section \<open>Messages\<close>

record notify_settings = settings +
  notify_whatsapp_template :: string
  notify_whatsapp_template_lang :: string

record whatsapp_template =
  t_name :: string
  t_language :: string
  t_params :: "string list"

datatype outgoing =
    Webhook string dict
  | Email string string "string \<times> dict"
  | WhatsApp string string "whatsapp_template option"

text \<open>\<^verbatim>\<open>value.split()\<close>: the words between runs of white space.\<close>

fun words_onto :: "string \<Rightarrow> string \<Rightarrow> string list" where
  "words_onto w [] = (if w = [] then [] else [rev w])"
| "words_onto w (c # cs) =
     (if is_space c then (if w = [] then words_onto [] cs else rev w # words_onto [] cs)
      else words_onto (c # w) cs)"

definition template_param :: "string \<Rightarrow> string" where
  "template_param msg =
     (let line = join_with (CHR '' '') (words_onto [] msg) in if line = [] then ''-'' else line)"

definition whatsapp_body :: "string \<Rightarrow> string \<Rightarrow> whatsapp_template option \<Rightarrow> dict" where
  "whatsapp_body to msg template =
     (case template of
        None \<Rightarrow> [(''messaging_product'', JStr ''whatsapp''), (''to'', JStr to), (''type'', JStr ''text''),
                 (''text'', JObj [(''body'', JStr msg)])]
      | Some t \<Rightarrow>
          [(''messaging_product'', JStr ''whatsapp''), (''to'', JStr to), (''type'', JStr ''template''),
           (''template'', JObj
              [(''name'', JStr (t_name t)),
               (''language'', JObj [(''code'', JStr (t_language t))]),
               (''components'', JArr [JObj
                  [(''type'', JStr ''body''),
                   (''parameters'', JArr (map (\<lambda>p. JObj [(''type'', JStr ''text''), (''text'', JStr (template_param p))])
                      (t_params t)))]])])])"

definition opt_str :: "string option \<Rightarrow> json" where
  "opt_str v = (case v of None \<Rightarrow> JNull | Some x \<Rightarrow> JStr x)"

definition event_payload :: "(text_pieces \<Rightarrow> string) \<Rightarrow> event \<Rightarrow> dict" where
  "event_payload render ev =
     [(''schema'', JStr ''event.v1''), (''event_id'', JStr (e_id ev)), (''site_id'', JStr (e_site ev)),
      (''ts'', JTime (e_ts ev)), (''type'', JStr (e_type ev)), (''severity'', JStr (e_severity ev)),
      (''asset_id'', opt_str (e_asset ev)), (''zone_id'', opt_str (e_zone ev)),
      (''source'', JStr (e_source ev)), (''summary'', JStr (render (e_summary ev))), (''advisory'', JBool True)]"

text \<open>
  \<^verbatim>\<open>_deliver\<close> up to the call of the transport: the message of a row, None for a channel it does not
  know. The JSON text of the email's body is kept as its value.
\<close>

definition message_for :: "(text_pieces \<Rightarrow> string) \<Rightarrow> notify_settings \<Rightarrow> notification \<Rightarrow> event \<Rightarrow> outgoing option" where
  "message_for render s n ev =
     (let payload = event_payload render ev; summary = render (e_summary ev)
      in if n_channel n = ''webhook'' then Some (Webhook (n_target n) payload)
         else if n_channel n = ''email'' then
           Some (Email (n_target n) (''['' @ e_severity ev @ ''] '' @ e_site ev @ '': '' @ summary)
             (''Advisory alert (this system warns; it does not control plant).'', payload))
         else if n_channel n = ''whatsapp'' then
           Some (WhatsApp (n_target n) (''['' @ e_severity ev @ ''] '' @ e_site ev @ '': '' @ summary @ '' (advisory)'')
             (if strip (notify_whatsapp_template s) \<noteq> [] then
                Some \<lparr>t_name = strip (notify_whatsapp_template s), t_language = strip (notify_whatsapp_template_lang s),
                   t_params = [e_severity ev, e_site ev, summary]\<rparr>
              else None))
         else None)"

section \<open>The dispatcher\<close>

record tally =
  t_sent :: nat
  t_retry :: nat
  t_failed :: nat

definition try_deliver ::
  "(text_pieces \<Rightarrow> string) \<Rightarrow> (notification \<Rightarrow> outgoing \<Rightarrow> string option) \<Rightarrow> notify_settings
    \<Rightarrow> event list \<Rightarrow> notification \<Rightarrow> string option" where
  "try_deliver render send s evs n =
     (case List.find (\<lambda>e. e_id e = n_event n) evs of
        None \<Rightarrow> Some ''event no longer exists''
      | Some ev \<Rightarrow>
          (case message_for render s n ev of
             None \<Rightarrow> Some (''unknown channel '' @ n_channel n)
           | Some msg \<Rightarrow> send n msg))"

definition after_attempt :: "notify_settings \<Rightarrow> time \<Rightarrow> string option \<Rightarrow> notification \<Rightarrow> notification" where
  "after_attempt s now res n =
     (case res of
        Some err \<Rightarrow>
          let n = n\<lparr>n_attempts := n_attempts n + 1, n_error := Some (take 500 err)\<rparr>
          in if n_attempts n \<ge> notify_max_attempts s then n\<lparr>n_state := ''failed''\<rparr>
             else n\<lparr>n_next := now + seconds (notify_retry_base_s s * 2 ^ nat (n_attempts n - 1))\<rparr>
      | None \<Rightarrow> n\<lparr>n_state := ''sent'', n_sent := Some now, n_attempts := n_attempts n + 1\<rparr>)"

definition dispatch_pending ::
  "notify_settings \<Rightarrow> (text_pieces \<Rightarrow> string) \<Rightarrow> (notification \<Rightarrow> outgoing \<Rightarrow> string option) \<Rightarrow> time \<Rightarrow> nat
    \<Rightarrow> 'b db_scheme \<Rightarrow> tally \<times> 'b db_scheme" where
  "dispatch_pending s render send now batch d =
     (let rows = due_rows n_state n_next now batch (notifications d);
          res = try_deliver render send s (events d);
          ended = (\<lambda>n. n_attempts n + 1 \<ge> notify_max_attempts s)
      in (\<lparr>t_sent = length (filter (\<lambda>n. res n = None) rows),
           t_retry = length (filter (\<lambda>n. res n \<noteq> None \<and> \<not> ended n) rows),
           t_failed = length (filter (\<lambda>n. res n \<noteq> None \<and> ended n) rows)\<rparr>,
          d\<lparr>notifications := settle (\<lambda>n. after_attempt s now (res n) n) rows (notifications d)\<rparr>))"

definition alert_key :: "notification \<Rightarrow> string \<times> string \<times> string" where
  "alert_key n = (n_event n, n_channel n, n_target n)"

interpretation alerts: retry_queue alert_key n_state n_attempts n_next "after_attempt s" "notify_max_attempts s"
    "notify_retry_base_s s"
  by unfold_locales (auto simp: alert_key_def after_attempt_def Let_def split: option.splits)

section \<open>Enqueueing\<close>

lemma queue_notification_adds:
  "notifications (queue_notification now ev d ct) =
     q_rows (queue_do alert_key n_state n_attempts n_next attempt \<lparr>q_rows = notifications d, q_log = l, q_cuts = c\<rparr>
       (Add \<lparr>n_id = ulid d (ids_drawn d), n_site = e_site ev, n_event = e_id ev, n_channel = fst ct, n_target = snd ct,
          n_state = ''pending'', n_attempts = 0, n_created = now, n_next = now, n_sent = None, n_error = None\<rparr>))"
  by (cases ct) (auto simp: queue_notification_def queued_for_def new_event_id_def alert_key_def list_ex_iff image_iff)

lemma queued_for_mono: "queued_for d i ct \<Longrightarrow> queued_for (queue_notification now ev d ct') i ct"
  by (auto simp: queued_for_def queue_notification_def new_event_id_def)

lemma queued_all_mono: "queued_for d i ct \<Longrightarrow> queued_for (foldl (queue_notification now ev) d cts) i ct"
  by (induction cts arbitrary: d) (auto intro: queued_for_mono)

lemma queued_all:
  "ct \<in> set cts \<Longrightarrow> queued_for (foldl (queue_notification now ev) d cts) (e_id ev) ct"
proof (induction cts arbitrary: d)
  case (Cons c cts)
  have "queued_for (queue_notification now ev d c) (e_id ev) c"
    by (auto simp: queued_for_def queue_notification_def new_event_id_def)
  then show ?case using Cons queued_all_mono [of "queue_notification now ev d c" "e_id ev" c now ev cts] by auto
qed simp

lemma queue_again: "\<forall>ct \<in> set cts. queued_for d (e_id ev) ct \<Longrightarrow> foldl (queue_notification now ev) d cts = d"
  by (induction cts) (auto simp: queue_notification_def)

text \<open>Raising an event queues one notification per configured target when the event's severity
  reaches the configured minimum, and none otherwise; queueing the same event again, at any time,
  changes nothing.\<close>

theorem event_queues_each_target_once:
  "(let d' = snd (enqueue_for_event s now ev d)
    in (if qualifies (e_severity ev) (notify_min_severity s)
        then \<forall>ct \<in> set (channel_targets s). queued_for d' (e_id ev) ct
        else d' = d) \<and>
       enqueue_for_event s later ev d' = (0, d'))"
  by (simp add: enqueue_for_event_def Let_def queued_all queue_again)

section \<open>Runs of the outbox\<close>

text \<open>
  Alarms are raised, passes run or are cut by a power failure before the pass commits, and the
  rest of the system changes the database without touching the outbox.
\<close>

datatype alert_act =
    Raise time event
  | Dispatch time nat "notification \<Rightarrow> outgoing \<Rightarrow> string option"
  | Cut_dispatch time nat "notification \<Rightarrow> outgoing \<Rightarrow> string option" nat
  | Elsewhere "db \<Rightarrow> db"

record alert_run =
  a_db :: db
  a_log :: "((string \<times> string \<times> string) \<times> bool) list"
  a_cuts :: nat

fun alert_do :: "notify_settings \<Rightarrow> (text_pieces \<Rightarrow> string) \<Rightarrow> alert_run \<Rightarrow> alert_act \<Rightarrow> alert_run" where
  "alert_do s render st (Raise now ev) = st\<lparr>a_db := persist_event (settings.truncate s) now (a_db st) ev\<rparr>"
| "alert_do s render st (Dispatch now batch send) =
     st\<lparr>a_db := snd (dispatch_pending s render send now batch (a_db st)),
        a_log := a_log st @ wire alert_key (try_deliver render send s (events (a_db st)))
          (due_rows n_state n_next now batch (notifications (a_db st)))\<rparr>"
| "alert_do s render st (Cut_dispatch now batch send tried) =
     st\<lparr>a_log := a_log st @ wire alert_key (try_deliver render send s (events (a_db st)))
          (take tried (due_rows n_state n_next now batch (notifications (a_db st)))), a_cuts := a_cuts st + 1\<rparr>"
| "alert_do s render st (Elsewhere f) =
     (if notifications (f (a_db st)) = notifications (a_db st) then st\<lparr>a_db := f (a_db st)\<rparr> else st)"

definition as_queue :: "alert_run \<Rightarrow> (string \<times> string \<times> string, notification) queue" where
  "as_queue st = \<lparr>q_rows = notifications (a_db st), q_log = a_log st, q_cuts = a_cuts st\<rparr>"

lemma settle_none [simp]: "settle f [] t = t"
  by (simp add: settle_def)

lemma queue_all_refines:
  "\<exists>acts. \<lparr>q_rows = notifications (foldl (queue_notification now ev) d cts), q_log = l, q_cuts = c\<rparr> =
     run_machine (queue_do alert_key n_state n_attempts n_next attempt) \<lparr>q_rows = notifications d, q_log = l, q_cuts = c\<rparr> acts"
proof (induction cts arbitrary: d)
  case Nil
  then show ?case by (intro exI [of _ "[]"]) simp
next
  case (Cons ct cts)
  let ?do = "queue_do alert_key n_state n_attempts n_next attempt"
  let ?a = "Add \<lparr>n_id = ulid d (ids_drawn d), n_site = e_site ev, n_event = e_id ev, n_channel = fst ct, n_target = snd ct,
          n_state = ''pending'', n_attempts = 0, n_created = now, n_next = now, n_sent = None, n_error = None\<rparr>"
  have "\<lparr>q_rows = notifications (queue_notification now ev d ct), q_log = l, q_cuts = c\<rparr> =
      ?do \<lparr>q_rows = notifications d, q_log = l, q_cuts = c\<rparr> ?a"
    using queue_notification_adds [of now ev d ct attempt l c] by simp
  moreover obtain acts where "\<lparr>q_rows = notifications (foldl (queue_notification now ev) (queue_notification now ev d ct) cts),
        q_log = l, q_cuts = c\<rparr> =
      run_machine ?do \<lparr>q_rows = notifications (queue_notification now ev d ct), q_log = l, q_cuts = c\<rparr> acts"
    using Cons by blast
  ultimately show ?case by (intro exI [of _ "?a # acts"]) (simp only: foldl_Cons run_machine.simps)
qed

lemma alert_do_refines:
  "\<exists>acts. as_queue (alert_do s render st a) =
     run_machine (queue_do alert_key n_state n_attempts n_next (after_attempt s)) (as_queue st) acts"
proof (cases a)
  case (Raise now ev)
  let ?d = "(a_db st)\<lparr>events := events (a_db st) @ [ev\<lparr>e_advisory := True\<rparr>]\<rparr>"
  show ?thesis
  proof (cases "qualifies (e_severity ev) (notify_min_severity (settings.truncate s))")
    case True
    with queue_all_refines [of now ev ?d "channel_targets (settings.truncate s)" "a_log st" "a_cuts st" "after_attempt s"]
    show ?thesis by (simp add: Raise as_queue_def persist_event_def enqueue_for_event_def Let_def)
  next
    case False
    then show ?thesis by (intro exI [of _ "[]"]) (simp add: Raise as_queue_def persist_event_def enqueue_for_event_def)
  qed
next
  case (Dispatch now batch send)
  then show ?thesis
    by (intro exI [of _ "[Pass now batch (try_deliver render send s (events (a_db st)))]"])
       (simp add: as_queue_def dispatch_pending_def Let_def)
next
  case (Cut_dispatch now batch send tried)
  then show ?thesis
    by (intro exI [of _ "[Cut_pass now batch (try_deliver render send s (events (a_db st))) 0 tried]"])
       (simp add: as_queue_def Let_def)
next
  case (Elsewhere f)
  then show ?thesis by (intro exI [of _ "[]"]) (simp add: as_queue_def)
qed

lemma alert_run_refines:
  "\<exists>acts'. as_queue (run_machine (alert_do s render) st acts) =
     run_machine (queue_do alert_key n_state n_attempts n_next (after_attempt s)) (as_queue st) acts'"
proof (induction acts arbitrary: st)
  case Nil
  then show ?case by (intro exI [of _ "[]"]) simp
next
  case (Cons a acts)
  obtain x where "as_queue (alert_do s render st a) =
      run_machine (queue_do alert_key n_state n_attempts n_next (after_attempt s)) (as_queue st) x"
    using alert_do_refines by blast
  moreover obtain y where "as_queue (run_machine (alert_do s render) (alert_do s render st a) acts) =
      run_machine (queue_do alert_key n_state n_attempts n_next (after_attempt s)) (as_queue (alert_do s render st a)) y"
    using Cons by blast
  ultimately show ?case by (intro exI [of _ "x @ y"]) simp
qed

definition no_alerts :: "db \<Rightarrow> alert_run" where
  "no_alerts d = \<lparr>a_db = d\<lparr>notifications := []\<rparr>, a_log = [], a_cuts = 0\<rparr>"

text \<open>C13: nobody is flooded with alerts: over any sequence of alarms, delivery passes and power cuts,
  an alarm reaches one recipient over one channel at most once, plus at most one repetition for each
  power cut inside a pass, and it is attempted at most the configured number of times, plus one for
  each such cut.\<close>

theorem alerts_are_bounded:
  assumes "st = run_machine (alert_do s render) (no_alerts d) acts"
  shows "accepted (a_log st) (event_id, channel, target) \<le> 1 + a_cuts st \<and>
    sends (a_log st) (event_id, channel, target) \<le> nat (max 1 (notify_max_attempts s)) + a_cuts st"
proof -
  obtain acts' where r: "as_queue st =
      run_machine (queue_do alert_key n_state n_attempts n_next (after_attempt s)) (as_queue (no_alerts d)) acts'"
    using alert_run_refines assms by blast
  have "alerts.queue_ok s (as_queue (no_alerts d))"
    by (simp add: alerts.queue_ok_def as_queue_def no_alerts_def sends_def)
  from alerts.sends_bounded [OF this r, of "(event_id, channel, target)"] show ?thesis by (simp add: as_queue_def)
qed

section \<open>Recovery\<close>

text \<open>The rows the dispatcher could send now, were the transport to accept them.\<close>

definition sendable :: "(text_pieces \<Rightarrow> string) \<Rightarrow> notify_settings \<Rightarrow> 'a db_scheme \<Rightarrow> bool" where
  "sendable render s d \<longleftrightarrow> distinct (map alert_key (notifications d)) \<and>
     (\<forall>n \<in> set (notifications d). n_state n = ''pending'' \<longrightarrow>
        n_channel n \<in> {''webhook'', ''email'', ''whatsapp''} \<and> (\<exists>e \<in> set (events d). e_id e = n_event n))"

lemma sendable_accepted:
  assumes "sendable render s d" "n \<in> set (notifications d)" "n_state n = ''pending''" "\<forall>n m. send n m = None"
  shows "try_deliver render send s (events d) n = None"
proof -
  have "List.find (\<lambda>e. e_id e = n_event n) (events d) \<noteq> None"
    using assms by (auto simp: sendable_def find_None_iff_all)
  then obtain ev where "List.find (\<lambda>e. e_id e = n_event n) (events d) = Some ev" by blast
  moreover obtain m where "message_for render s n ev = Some m"
    using assms by (auto simp: sendable_def message_for_def Let_def)
  ultimately show ?thesis using assms(4) by (simp add: try_deliver_def)
qed

lemma dispatch_accepted:
  assumes "sendable render s d" "\<forall>n m. send n m = None"
  shows "notifications (snd (dispatch_pending s render send now batch d)) =
    settle (after_attempt s now None) (due_rows n_state n_next now batch (notifications d)) (notifications d)"
  unfolding dispatch_pending_def settle_def
  using sendable_accepted [OF assms(1) _ _ assms(2)] alerts.due_rows_mem by (auto simp: Let_def)

lemma dispatch_sendable:
  assumes "sendable render s d" "\<forall>n m. send n m = None"
  shows "sendable render s (snd (dispatch_pending s render send now batch d))"
proof -
  have ev: "events (snd (dispatch_pending s render send now batch d)) = events d"
    by (simp add: dispatch_pending_def Let_def)
  have "map alert_key (notifications (snd (dispatch_pending s render send now batch d))) = map alert_key (notifications d)"
    using alerts.settle_keys by (simp add: dispatch_pending_def Let_def)
  moreover have "\<forall>n \<in> set (notifications (snd (dispatch_pending s render send now batch d))).
      n_state n = ''pending'' \<longrightarrow> n \<in> set (notifications d)"
    unfolding dispatch_accepted [OF assms] by (auto simp: settle_def after_attempt_def)
  ultimately show ?thesis using assms(1) unfolding sendable_def ev by metis
qed

text \<open>C31: alerts held up by an outage go out when it ends: once the transport accepts messages, as
  many passes as the backlog has batches send every notification that was due, each in one more attempt and
  recorded with the time it was sent, and leave every other row of the outbox as it was.\<close>

theorem backlog_drains:
  assumes "sendable render s d" "\<forall>n m. send n m = None"
    and "length (filter (\<lambda>n. n_state n = ''pending'' \<and> n_next n \<le> now) (notifications d)) \<le> k * batch"
  shows "notifications (((\<lambda>d. snd (dispatch_pending s render send now batch d)) ^^ k) d) =
    map (\<lambda>n. if n_state n = ''pending'' \<and> n_next n \<le> now
             then n\<lparr>n_state := ''sent'', n_sent := Some now, n_attempts := n_attempts n + 1\<rparr> else n) (notifications d)"
  using assms(1,3)
proof (induction k arbitrary: d)
  case 0
  then have "\<forall>n \<in> set (notifications d). \<not> (n_state n = ''pending'' \<and> n_next n \<le> now)" by (simp add: filter_empty_conv)
  then have "map (\<lambda>n. if n_state n = ''pending'' \<and> n_next n \<le> now
             then n\<lparr>n_state := ''sent'', n_sent := Some now, n_attempts := n_attempts n + 1\<rparr> else n) (notifications d) =
      notifications d" by (intro map_idI) auto
  then show ?case by simp
next
  case (Suc k)
  let ?d = "snd (dispatch_pending s render send now batch d)"
  let ?g = "\<lambda>n. if n_state n = ''pending'' \<and> n_next n \<le> now
             then n\<lparr>n_state := ''sent'', n_sent := Some now, n_attempts := n_attempts n + 1\<rparr> else n"
  note pass = dispatch_accepted [OF Suc.prems(1) assms(2), of now batch]
  have "distinct (notifications d)" using Suc.prems(1) by (simp add: sendable_def distinct_map)
  then have "length (alerts.overdue now (notifications ?d)) = length (alerts.overdue now (notifications d)) - batch"
    using alerts.pass_drains pass by simp
  then have "length (filter (\<lambda>n. n_state n = ''pending'' \<and> n_next n \<le> now) (notifications ?d)) \<le> k * batch"
    using Suc.prems(2) by (simp add: alerts.overdue_def)
  then have "notifications (((\<lambda>d. snd (dispatch_pending s render send now batch d)) ^^ Suc k) d) = map ?g (notifications ?d)"
    using Suc.IH [OF dispatch_sendable [OF Suc.prems(1) assms(2)]] by (simp only: funpow_Suc_right comp_apply)
  also have "\<dots> = map ?g (notifications d)"
  proof -
    have "?g (if n \<in> set (due_rows n_state n_next now batch (notifications d)) then after_attempt s now None n else n) = ?g n" for n
    proof (cases "n \<in> set (due_rows n_state n_next now batch (notifications d))")
      case True
      with alerts.due_rows_mem [OF True] show ?thesis by (simp add: after_attempt_def)
    qed simp
    then show ?thesis unfolding pass settle_def map_map comp_def by (rule map_cong [OF refl])
  qed
  finally show ?case .
qed

text \<open>
  What leaves the site: the text of a message depends on the fields of \<^verbatim>\<open>event.v1\<close> alone, so neither
  the name of who acknowledged the alarm nor its detail and evidence can reach it.
\<close>

lemma message_has_no_personal_data:
  "message_for render s n (ev\<lparr>e_ack_by := who, e_ack_at := w, e_detail := detail, e_evidence := evidence, e_state := st\<rparr>) =
   message_for render s n ev"
  by (simp add: message_for_def event_payload_def Let_def)

lemma words_onto_no_space:
  "\<forall>c \<in> set w. \<not> is_space c \<Longrightarrow> x \<in> set (words_onto w msg) \<Longrightarrow> x \<noteq> [] \<and> (\<forall>c \<in> set x. \<not> is_space c)"
proof (induction w msg rule: words_onto.induct)
  case (2 w c cs)
  show ?case
  proof (cases "is_space c")
    case True
    then have "x \<in> set (words_onto [] cs) \<or> w \<noteq> [] \<and> x = rev w" using "2.prems"(2) by (auto split: if_splits)
    moreover have "x \<noteq> [] \<and> (\<forall>c \<in> set x. \<not> is_space c)" if "x \<in> set (words_onto [] cs)"
      using "2.IH"(1) [OF True _ _ that] "2.IH"(2) [OF True _ _ that] by (metis empty_iff empty_set)
    ultimately show ?thesis using "2.prems"(1) by (elim disjE conjE) simp_all
  next
    case False
    then show ?thesis using "2.IH"(3) "2.prems" by simp
  qed
qed (simp split: if_splits)

lemma join_with_members: "c \<in> set (join_with sep ws) \<Longrightarrow> c = sep \<or> (\<exists>w \<in> set ws. c \<in> set w)"
  by (induction sep ws rule: join_with.induct) auto

text \<open>A template value is one line: it is not empty and has no white space but blanks.\<close>

lemma template_param_one_line:
  "template_param msg \<noteq> [] \<and> (\<forall>c \<in> set (template_param msg). is_space c \<longrightarrow> c = CHR '' '')"
  using words_onto_no_space [of "[]" _ msg] join_with_members [of _ "CHR '' ''" "words_onto [] msg"]
  by (auto simp: template_param_def Let_def is_space_def)

section \<open>Concrete instances\<close>

definition demo_notify :: notify_settings where
  "demo_notify = settings.extend (demo_settings\<lparr>notify_min_severity := ''warning'', notify_webhook_url := ''https://hook'',
      notify_max_attempts := 3, notify_retry_base_s := 30\<rparr>)
     \<lparr>notify_whatsapp_template = [], notify_whatsapp_template_lang = []\<rparr>"

definition demo_row :: notification where
  "demo_row = \<lparr>n_id = ''N1'', n_site = ''s1'', n_event = ''E1'', n_channel = ''webhook'', n_target = ''https://hook'',
     n_state = ''pending'', n_attempts = 1, n_created = 0, n_next = 5, n_sent = None, n_error = Some ''timed out''\<rparr>"

definition demo_alarm :: event where
  "demo_alarm = \<lparr>e_id = ''E1'', e_site = ''s1'', e_ts = 0, e_type = ''offline'', e_severity = ''warning'', e_asset = None,
     e_zone = None, e_source = ''rule'', e_summary = [Txt ''silent''], e_detail = None, e_evidence = None,
     e_advisory = True, e_state = ''open'', e_ack_by = None, e_ack_at = None\<rparr>"

theorem backlog_drains_witness:
  "notifications (((\<lambda>d. snd (dispatch_pending demo_notify (\<lambda>_. ''text'') (\<lambda>_ _. None) 9 1 d)) ^^ 1)
       (empty_db\<lparr>events := [demo_alarm], notifications := [demo_row, demo_row\<lparr>n_channel := ''email'', n_next := 20\<rparr>]\<rparr>)) =
   [demo_row\<lparr>n_state := ''sent'', n_sent := Some 9, n_attempts := 2\<rparr>, demo_row\<lparr>n_channel := ''email'', n_next := 20\<rparr>]"
proof -
  let ?d = "empty_db\<lparr>events := [demo_alarm], notifications := [demo_row, demo_row\<lparr>n_channel := ''email'', n_next := 20\<rparr>]\<rparr>"
  have "sendable (\<lambda>_. ''text'') demo_notify ?d" by (simp add: sendable_def demo_row_def demo_alarm_def alert_key_def)
  moreover have "\<forall>n m. (\<lambda>_ _. None) (n :: notification) (m :: outgoing) = (None :: string option)" by simp
  moreover have "length (filter (\<lambda>n. n_state n = ''pending'' \<and> n_next n \<le> 9) (notifications ?d)) \<le> 1 * 1"
    by (simp add: demo_row_def)
  ultimately have "notifications (((\<lambda>d. snd (dispatch_pending demo_notify (\<lambda>_. ''text'') (\<lambda>_ _. None) 9 1 d)) ^^ 1) ?d) =
    map (\<lambda>n. if n_state n = ''pending'' \<and> n_next n \<le> 9
             then n\<lparr>n_state := ''sent'', n_sent := Some 9, n_attempts := n_attempts n + 1\<rparr> else n) (notifications ?d)"
    by (rule backlog_drains)
  then show ?thesis by (simp add: demo_row_def)
qed

theorem alerts_are_bounded_witness:
  "accepted (a_log (run_machine (alert_do demo_notify (\<lambda>_. ''text'')) (no_alerts empty_db)
      [Raise 1 demo_alarm, Cut_dispatch 2 10 (\<lambda>_ _. None) 1, Dispatch 3 10 (\<lambda>_ _. None), Dispatch 4 10 (\<lambda>_ _. None)]))
    (''E1'', ''webhook'', ''https://hook'') \<le> 2"
proof -
  define st where "st = run_machine (alert_do demo_notify (\<lambda>_. ''text'')) (no_alerts empty_db)
      [Raise 1 demo_alarm, Cut_dispatch 2 10 (\<lambda>_ _. None) 1, Dispatch 3 10 (\<lambda>_ _. None), Dispatch 4 10 (\<lambda>_ _. None)]"
  have "a_cuts st = 1" by (simp add: st_def no_alerts_def)
  with alerts_are_bounded [OF st_def, of "''E1''" "''webhook''" "''https://hook''"] show ?thesis
    by (simp add: st_def)
qed

text \<open>
  The repetition is real: a power cut after the message left and before the pass commits makes the
  next pass send it again.
\<close>

lemma power_cut_repeats_alert:
  "accepted (a_log (run_machine (alert_do demo_notify (\<lambda>_. ''text''))
      \<lparr>a_db = empty_db\<lparr>events := [demo_alarm], notifications := [demo_row]\<rparr>, a_log = [], a_cuts = 0\<rparr>
      [Cut_dispatch 5 10 (\<lambda>_ _. None) 1, Dispatch 6 10 (\<lambda>_ _. None)]))
    (''E1'', ''webhook'', ''https://hook'') = 2"
  by (simp add: due_rows_def demo_row_def demo_alarm_def wire_def try_deliver_def message_for_def accepted_def alert_key_def)

text \<open>And a recipient whose transport is down for every attempt is given up.\<close>

lemma outage_gives_up:
  "map n_state (notifications (snd (dispatch_pending demo_notify (\<lambda>_. ''text'') (\<lambda>_ _. Some ''down'') 500000000 10
     (snd (dispatch_pending demo_notify (\<lambda>_. ''text'') (\<lambda>_ _. Some ''down'') 5 10
       (empty_db\<lparr>events := [demo_alarm], notifications := [demo_row]\<rparr>)))))) = [''failed'']"
  by (simp add: dispatch_pending_def due_rows_def settle_def demo_row_def demo_alarm_def try_deliver_def message_for_def
      after_attempt_def demo_notify_def settings.extend_def seconds_def)

end
