(* ===== verification/ShiftReports.thy ===== *)
theory ShiftReports
  imports Operations Notifications
begin

text \<open>
  Shift reports, \<^verbatim>\<open>src/src/minemonitor/operations/shift_reports.py\<close>: who gets them, what they say, the
  outbox they are queued in after each shift, and the dispatcher that sends them with the retry rule
  of \<open>RetryQueue\<close>, committing row by row. The time-zone database, SHA-256, the transport and the
  rendering of numbers are parameters.
\<close>

section \<open>Recipients\<close>

record report_settings = notify_settings +
  report_email_to :: string
  report_whatsapp_to :: string
  report_whatsapp_template :: string
  report_delay_s :: int
  report_catchup_h :: int
  public_url :: string

record report_delivery =
  rd_id :: string
  rd_site :: string
  rd_shift :: string
  rd_shift_end :: time
  rd_channel :: string
  rd_target :: string
  rd_subject :: string
  rd_body :: string
  rd_params :: "string list"
  rd_state :: string
  rd_attempts :: int
  rd_created :: time
  rd_next :: time
  rd_sent :: "time option"
  rd_error :: "string option"

record delivery_db = report_db +
  deliveries :: "report_delivery list"

definition recipients :: "string \<Rightarrow> string list" where
  "recipients raw = filter (\<lambda>r. r \<noteq> []) (map strip (split_on (CHR '','') raw))"

definition report_targets :: "report_settings \<Rightarrow> (string \<times> string) list" where
  "report_targets s =
     (if notify_smtp_host s \<noteq> [] then map (Pair ''email'') (recipients (report_email_to s)) else []) @
     (if notify_whatsapp_url s \<noteq> [] then map (Pair ''whatsapp'') (recipients (report_whatsapp_to s)) else [])"

definition late_assets :: "'a db_scheme \<Rightarrow> string \<Rightarrow> shift_window \<Rightarrow> string list" where
  "late_assets d site w = sort (map p_asset (filter (\<lambda>p. in_span (w_start w) (w_end w) (p_ts p)) (latest_positions d site)))"

section \<open>Wording\<close>

record digest =
  dg_subject :: text_pieces
  dg_text :: text_pieces
  dg_params :: "text_pieces list"

definition minutes_text :: "real option \<Rightarrow> text_pieces" where
  "minutes_text v =
     (case v of
        None \<Rightarrow> [Txt ''none'']
      | Some s \<Rightarrow>
          let minutes = round_half_even (s / 60)
          in if minutes < 60 then [FmtF 1 (s / 60), Txt '' min'']
             else [FmtInt (minutes div 60), Txt '' h '', FmtInt (minutes mod 60), Txt '' min''])"

definition pct_text :: "real option \<Rightarrow> text_pieces" where
  "pct_text v = (case v of None \<Rightarrow> [Txt ''none''] | Some x \<Rightarrow> [FmtF 1 x, Txt ''%''])"

definition late_listed :: nat where "late_listed = 5"

text \<open>\<^verbatim>\<open>", ".join(...)\<close>.\<close>

fun commas :: "text_pieces list \<Rightarrow> text_pieces" where
  "commas [] = []"
| "commas [x] = x"
| "commas (x # y # xs) = x @ Txt '', '' # commas (y # xs)"

definition data_note :: "string list \<Rightarrow> text_pieces" where
  "data_note late =
     (if late = [] then [Txt ''Every machine that worked the shift reported to its end.'']
      else
        let named = commas (map (\<lambda>a. [Txt a]) (take late_listed late));
            more = (if length late > late_listed then [Txt '' and '', FmtInt (int (length late - late_listed)), Txt '' more''] else []);
            machines = (if length late = 1 then [Txt ''1 machine''] else [FmtInt (int (length late)), Txt '' machines''])
        in machines @ [Txt '' had not reported up to the end of the shift (''] @ named @ more @
           [Txt ''): figures may still change.''])"

text \<open>\<^verbatim>\<open>quote(t, safe="")\<close>, and \<^verbatim>\<open>quote_plus\<close> as \<^verbatim>\<open>urlencode\<close> applies it.\<close>

definition unreserved :: "char \<Rightarrow> bool" where
  "unreserved c \<longleftrightarrow> is_digit c \<or> CHR ''A'' \<le> c \<and> c \<le> CHR ''Z'' \<or> CHR ''a'' \<le> c \<and> c \<le> CHR ''z'' \<or>
     c \<in> {CHR ''_'', CHR ''.'', CHR ''-'', CHR ''~''}"

definition nibble :: "nat \<Rightarrow> char" where
  "nibble n = (if n < 10 then char_of (48 + n) else char_of (55 + n))"

definition percent :: "char \<Rightarrow> string" where
  "percent c = [CHR ''%'', nibble (of_char c div 16), nibble (of_char c mod 16)]"

definition quote :: "string \<Rightarrow> string" where
  "quote t = concat (map (\<lambda>c. if unreserved c then [c] else percent c) t)"

definition quote_plus :: "string \<Rightarrow> string" where
  "quote_plus t = concat (map (\<lambda>c. if c = CHR '' '' then ''+'' else if unreserved c then [c] else percent c) t)"

definition report_link :: "string \<Rightarrow> shift_window \<Rightarrow> string option" where
  "report_link url w =
     (if strip url = [] then None
      else Some (rev (dropWhile (\<lambda>c. c = CHR ''/'') (rev (strip url))) @ ''/api/v1/sites/'' @ quote (w_site w) @
             ''/reports/shift.html?shift_id='' @ quote_plus (w_shift_id w)))"

text \<open>\<^verbatim>\<open>name.title()\<close> on ASCII: a letter after a letter is small, any other letter is a capital.\<close>

definition is_letter :: "char \<Rightarrow> bool" where
  "is_letter c \<longleftrightarrow> CHR ''A'' \<le> c \<and> c \<le> CHR ''Z'' \<or> CHR ''a'' \<le> c \<and> c \<le> CHR ''z''"

fun title_case :: "bool \<Rightarrow> string \<Rightarrow> string" where
  "title_case after_letter [] = []"
| "title_case after_letter (c # cs) =
     (if \<not> after_letter \<and> CHR ''a'' \<le> c \<and> c \<le> CHR ''z'' then char_of ((of_char c :: nat) - 32)
      else if after_letter \<and> CHR ''A'' \<le> c \<and> c \<le> CHR ''Z'' then char_of ((of_char c :: nat) + 32) else c)
     # title_case (is_letter c) cs"

definition clock_text :: "zone_info \<Rightarrow> time \<Rightarrow> string" where
  "clock_text tz t = (let m = to_local tz t div 60000000 mod 1440 in padded 2 (m div 60) @ '':'' @ padded 2 (m mod 60))"

definition zone_key :: "'a shift_db_scheme \<Rightarrow> string \<Rightarrow> string" where
  "zone_key d site =
     (case map_of (site_timezones d) site of
        None \<Rightarrow> ''Africa/Harare'' | Some name \<Rightarrow> if name = [] then ''Africa/Harare'' else name)"

definition int_text :: "nat \<Rightarrow> text_pieces" where
  "int_text n = [FmtInt (int n)]"

definition severity_count :: "scorecard \<Rightarrow> string \<Rightarrow> nat" where
  "severity_count sc sev = (case map_of (sc_by_severity sc) sev of None \<Rightarrow> 0 | Some n \<Rightarrow> n)"

definition in_brackets :: "text_pieces \<Rightarrow> text_pieces" where
  "in_brackets t = (if t = [] then [] else Txt '' ('' # t @ [Txt '')''])"

definition newline :: string where "newline = [CHR 0x0A]"

definition render_digest ::
  "scorecard \<Rightarrow> shift_window \<Rightarrow> string list \<Rightarrow> zone_info \<Rightarrow> string \<Rightarrow> string option \<Rightarrow> time \<Rightarrow> digest" where
  "render_digest sc w late tz key link as_of =
     (let shift = title_case False (w_name w) @ '' shift '' @ iso_date (w_date w) @ '', '' @
            clock_text tz (w_start w) @ '' to '' @ clock_text tz (w_end w);
          msg = data_note late; cs = sc_cycles sc;
          severities = commas (map (\<lambda>sev. Txt (sev @ '' '') # int_text (severity_count sc sev))
            (filter (\<lambda>sev. severity_count sc sev \<noteq> 0) [''critical'', ''warning'', ''info'']));
          categories = commas (map (\<lambda>(cat, secs). Txt (cat @ '' '') # minutes_text (Some secs))
            (sort_key (\<lambda>(_, secs). - secs) (sc_by_category sc)));
          lines =
            [[Txt ''Mine Monitor shift report (advisory: this system warns; it never controls plant)''],
             [Txt (''Site '' @ w_site w @ '': '' @ shift @ '' ('' @ key @ '')'')],
             [],
             Txt ''Haul cycles completed: '' # int_text (cs_count cs),
             Txt ''Mean cycle time: '' # minutes_text (cs_mean cs),
             Txt ''Queue at the face: '' # pct_text (cs_queue_pct cs) @ [Txt '' of cycle time (observed)''],
             Txt ''Utilisation: '' # pct_text (ut_pct (sc_utilisation sc)) @ [Txt '' (derived from moving and idle time)''],
             Txt ''Alarms: '' # int_text (sc_events sc) @ in_brackets severities,
             Txt ''Incidents opened: '' # int_text (sc_opened sc) @ [Txt ''; still open: ''] @ int_text (sc_open_now sc),
             Txt ''Classified downtime: '' # minutes_text (Some (sc_delay_s sc)) @ in_brackets categories,
             [],
             msg,
             [Txt (''Figures as of '' @ iso_date (local_day tz as_of) @ '' '' @ clock_text tz as_of @ '' '' @ key @ ''.'')]] @
            (case link of None \<Rightarrow> [] | Some l \<Rightarrow> if l = [] then [] else [[Txt (''Full report (dashboard login): '' @ l)]])
      in \<lparr>dg_subject = [Txt (''Shift report: '' @ w_site w @ '', '' @ shift)],
          dg_text = concat (map (\<lambda>l. l @ [Txt newline]) lines),
          dg_params = [[Txt (w_site w)], [Txt shift], int_text (cs_count cs), minutes_text (cs_mean cs),
            pct_text (cs_queue_pct cs), int_text (sc_events sc), int_text (severity_count sc ''critical''), msg]\<rparr>)"

text \<open>None where the source raises because the row does not hold the eight values.\<close>

definition whatsapp_text :: "string list \<Rightarrow> string option" where
  "whatsapp_text params =
     (case params of
        [site, shift, cycles, mean_t, queue_t, alarm_t, critical, msg] \<Rightarrow>
          Some (''Mine Monitor shift report for '' @ site @ '', '' @ shift @ '': '' @ cycles @ '' haul cycles, mean cycle time '' @
            mean_t @ '', queue at the face '' @ queue_t @ '' of cycle time, '' @ alarm_t @ '' alarms of which '' @ critical @
            '' critical. '' @ msg @ '' Advisory only; this system never controls plant.'')
      | _ \<Rightarrow> None)"

section \<open>The outbox\<close>

definition delivery_id :: "(string \<Rightarrow> string) \<Rightarrow> string \<Rightarrow> string \<Rightarrow> string \<Rightarrow> string \<Rightarrow> string" where
  "delivery_id sha256 site shift channel target =
     take 32 (sha256 (join_with (CHR 0x1F) [site, shift, channel, target]))"

definition delivery_key :: "report_delivery \<Rightarrow> string \<times> string \<times> string \<times> string" where
  "delivery_key r = (rd_site r, rd_shift r, rd_channel r, rd_target r)"

text \<open>\<^verbatim>\<open>insert ... on conflict do nothing\<close>: the table has its primary key and the unique key.\<close>

definition insert_delivery :: "report_delivery \<Rightarrow> report_delivery list \<Rightarrow> report_delivery list" where
  "insert_delivery r t =
     (if rd_id r \<in> rd_id ` set t \<or> delivery_key r \<in> delivery_key ` set t then t else t @ [r])"

definition report_row ::
  "(string \<Rightarrow> string) \<Rightarrow> (text_pieces \<Rightarrow> string) \<Rightarrow> string \<Rightarrow> time \<Rightarrow> shift_window \<Rightarrow> digest \<Rightarrow> string \<times> string \<Rightarrow> report_delivery" where
  "report_row sha256 render site now w dg ct =
     \<lparr>rd_id = delivery_id sha256 site (w_shift_id w) (fst ct) (snd ct), rd_site = site, rd_shift = w_shift_id w,
      rd_shift_end = w_end w, rd_channel = fst ct, rd_target = snd ct, rd_subject = render (dg_subject dg),
      rd_body = render (dg_text dg), rd_params = map render (dg_params dg), rd_state = ''pending'', rd_attempts = 0,
      rd_created = now, rd_next = now, rd_sent = None, rd_error = None\<rparr>"

definition shift_digest ::
  "(string \<Rightarrow> zone_info) \<Rightarrow> report_settings \<Rightarrow> 'a report_db_scheme \<Rightarrow> string \<Rightarrow> time \<Rightarrow> shift_window \<Rightarrow> digest" where
  "shift_digest zones s d site now w =
     render_digest (compute_scorecard d site w) w (late_assets d site w) (site_timezone zones d site) (zone_key d site)
       (report_link (public_url s) w) now"

definition due_windows :: "(string \<Rightarrow> zone_info) \<Rightarrow> report_settings \<Rightarrow> 'a shift_db_scheme \<Rightarrow> string \<Rightarrow> time \<Rightarrow> shift_window list" where
  "due_windows zones s d site now =
     (let until = now - seconds (report_delay_s s)
      in windows_ending_between zones d site (until - report_catchup_h s * hour_us) until)"

definition queue_due_reports ::
  "(string \<Rightarrow> zone_info) \<Rightarrow> (string \<Rightarrow> string) \<Rightarrow> (text_pieces \<Rightarrow> string) \<Rightarrow> report_settings \<Rightarrow> string \<Rightarrow> time \<Rightarrow> delivery_db
    \<Rightarrow> nat \<times> delivery_db" where
  "queue_due_reports zones sha256 render s site now d =
     (let targets = report_targets s; windows = due_windows zones s d site now; queued = delivery_key ` set (deliveries d);
          missing = (\<lambda>w. filter (\<lambda>(c, t). (site, w_shift_id w, c, t) \<notin> queued) targets);
          rows = concat (map (\<lambda>w. map (report_row sha256 render site now w (shift_digest zones s d site now w)) (missing w)) windows);
          t = fold insert_delivery rows (deliveries d)
      in if targets = [] \<or> windows = [] then (0, d)
         else (length t - length (deliveries d), d\<lparr>deliveries := t\<rparr>))"

section \<open>The dispatcher\<close>

datatype report_message =
    Report_email string string string
  | Report_whatsapp string string "whatsapp_template option"

definition send_report :: "(report_delivery \<Rightarrow> report_message \<Rightarrow> string option) \<Rightarrow> report_settings \<Rightarrow> report_delivery \<Rightarrow> string option" where
  "send_report send s r =
     (if rd_channel r = ''email'' then send r (Report_email (rd_target r) (rd_subject r) (rd_body r))
      else if rd_channel r = ''whatsapp'' then
        (case whatsapp_text (rd_params r) of
           None \<Rightarrow> Some ''ValueError''
         | Some msg \<Rightarrow> send r (Report_whatsapp (rd_target r) msg
             (if strip (report_whatsapp_template s) \<noteq> [] then
                Some \<lparr>t_name = strip (report_whatsapp_template s), t_language = strip (notify_whatsapp_template_lang s),
                  t_params = rd_params r\<rparr>
              else None)))
      else Some (''unknown channel '' @ rd_channel r))"

definition after_send :: "report_settings \<Rightarrow> time \<Rightarrow> string option \<Rightarrow> report_delivery \<Rightarrow> report_delivery" where
  "after_send s now res r =
     (let r = r\<lparr>rd_attempts := rd_attempts r + 1\<rparr>
      in case res of
           Some err \<Rightarrow>
             let r = r\<lparr>rd_error := Some (take 500 err)\<rparr>
             in if rd_attempts r \<ge> notify_max_attempts s then r\<lparr>rd_state := ''failed''\<rparr>
                else r\<lparr>rd_next := now + seconds (notify_retry_base_s s * 2 ^ nat (rd_attempts r - 1))\<rparr>
         | None \<Rightarrow> r\<lparr>rd_state := ''sent'', rd_sent := Some now\<rparr>)"

text \<open>The rows of a pass, one commit each.\<close>

fun send_loop ::
  "(report_delivery \<Rightarrow> report_message \<Rightarrow> string option) \<Rightarrow> report_settings \<Rightarrow> time \<Rightarrow> report_delivery list \<Rightarrow> tally \<Rightarrow> report_delivery list \<Rightarrow> tally \<times> report_delivery list" where
  "send_loop send s now [] n t = (n, t)"
| "send_loop send s now (r # rows) n t =
     (let res = send_report send s r; r' = after_send s now res r;
          n = (if res = None then n\<lparr>t_sent := t_sent n + 1\<rparr>
               else if rd_attempts r' \<ge> notify_max_attempts s then n\<lparr>t_failed := t_failed n + 1\<rparr>
               else n\<lparr>t_retry := t_retry n + 1\<rparr>)
      in send_loop send s now rows n (map (\<lambda>q. if q = r then r' else q) t))"

definition send_due_reports ::
  "(report_delivery \<Rightarrow> report_message \<Rightarrow> string option) \<Rightarrow> report_settings \<Rightarrow> time \<Rightarrow> nat \<Rightarrow> delivery_db \<Rightarrow> tally \<times> delivery_db" where
  "send_due_reports send s now batch d =
     (let (n, t) = send_loop send s now (due_rows rd_state rd_next now batch (deliveries d)) \<lparr>t_sent = 0, t_retry = 0, t_failed = 0\<rparr>
            (deliveries d)
      in (n, d\<lparr>deliveries := t\<rparr>))"

interpretation reports: retry_queue delivery_key rd_state rd_attempts rd_next "after_send s" "notify_max_attempts s"
    "notify_retry_base_s s"
  by unfold_locales (auto simp: delivery_key_def after_send_def Let_def split: option.splits)

lemma send_loop_settle:
  assumes "distinct (map delivery_key t)" "distinct rows" "set rows \<subseteq> set t"
  shows "snd (send_loop send s now rows n t) = settle (\<lambda>r. after_send s now (send_report send s r) r) rows t"
  using assms
proof (induction rows arbitrary: n t)
  case Nil
  then show ?case by simp
next
  case (Cons r rows)
  let ?f = "\<lambda>r. after_send s now (send_report send s r) r" and ?t = "map (\<lambda>q. if q = r then after_send s now (send_report send s r) r else q) t"
  have keys: "map delivery_key ?t = map delivery_key t" by (simp add: reports.attempt_key)
  have sub: "set rows \<subseteq> set ?t" using Cons.prems by (auto simp: image_iff)
  have out: "?f r \<notin> set rows"
  proof
    assume "?f r \<in> set rows"
    then have "?f r \<in> set t" "r \<in> set t" using Cons.prems(3) by auto
    moreover have "delivery_key (?f r) = delivery_key r" by (simp add: reports.attempt_key)
    ultimately have "?f r = r" using Cons.prems(1) by (metis (no_types) distinct_map inj_onD)
    then show False using \<open>?f r \<in> set rows\<close> Cons.prems(2) by simp
  qed
  have ih: "snd (send_loop send s now rows m ?t) = settle ?f rows ?t" for m
    using Cons.prems(1,2) by (intro Cons.IH) (simp_all only: keys sub distinct.simps)
  have "snd (send_loop send s now (r # rows) n t) = settle ?f rows ?t"
    by (simp only: send_loop.simps Let_def ih)
  also have "\<dots> = settle ?f (r # rows) t" using out by (auto simp: settle_def)
  finally show ?case .
qed

lemma due_reports_distinct:
  assumes "distinct (map delivery_key t)"
  shows "distinct (due_rows rd_state rd_next now batch t)" "set (due_rows rd_state rd_next now batch t) \<subseteq> set t"
  using reports.due_rows_distinct [OF assms, of now batch] reports.due_rows_mem by (auto simp: distinct_map)

lemma send_due_settle:
  assumes "distinct (map delivery_key (deliveries d))"
  shows "deliveries (snd (send_due_reports send s now batch d)) =
    settle (\<lambda>r. after_send s now (send_report send s r) r) (due_rows rd_state rd_next now batch (deliveries d)) (deliveries d)"
  using send_loop_settle [OF assms due_reports_distinct [OF assms]] by (simp add: send_due_reports_def split_beta)

section \<open>Every ended shift is reported\<close>

text \<open>The reports that are due at a moment: a shift and a recipient each.\<close>

definition due_reports ::
  "(string \<Rightarrow> zone_info) \<Rightarrow> report_settings \<Rightarrow> 'a shift_db_scheme \<Rightarrow> string \<Rightarrow> time \<Rightarrow> (string \<times> string \<times> string \<times> string) set" where
  "due_reports zones s d site now =
     {(site, w_shift_id w, ct) | w ct day. ct \<in> set (report_targets s) \<and>
        w \<in> set (day_windows site (site_timezone zones d site) (definitions d site) day) \<and>
        w_end w + seconds (report_delay_s s) \<le> now \<and>
        now < w_end w + seconds (report_delay_s s) + report_catchup_h s * hour_us}"

text \<open>No two reports share a delivery id: what SHA-256 is relied on for.\<close>

definition id_of :: "(string \<Rightarrow> string) \<Rightarrow> string \<times> string \<times> string \<times> string \<Rightarrow> string" where
  "id_of sha256 k = (case k of (site, shift, channel, target) \<Rightarrow> delivery_id sha256 site shift channel target)"

definition ids_apart :: "(string \<Rightarrow> string) \<Rightarrow> (string \<times> string \<times> string \<times> string) set \<Rightarrow> report_delivery list \<Rightarrow> bool" where
  "ids_apart sha256 ks t \<longleftrightarrow> inj_on (id_of sha256) ks \<and> (\<forall>r \<in> set t. \<forall>k \<in> ks. rd_id r = id_of sha256 k \<longrightarrow> delivery_key r = k)"

lemma insert_minus_insert: "a \<notin> C \<Longrightarrow> insert a (B - insert a C) = insert a B - C"
  by blast

lemma insert_deliveries:
  assumes "\<forall>r \<in> set rows. \<forall>q \<in> set t \<union> set rows. rd_id r = rd_id q \<longrightarrow> delivery_key r = delivery_key q"
  shows "\<exists>new. fold insert_delivery rows t = t @ new \<and> distinct (map delivery_key new) \<and> set new \<subseteq> set rows \<and>
    delivery_key ` set new = delivery_key ` set rows - delivery_key ` set t"
  using assms
proof (induction rows arbitrary: t)
  case Nil
  then show ?case by simp
next
  case (Cons r rows)
  show ?case
  proof (cases "delivery_key r \<in> delivery_key ` set t")
    case True
    then have "fold insert_delivery (r # rows) t = fold insert_delivery rows t" by (simp add: insert_delivery_def)
    moreover obtain new where "fold insert_delivery rows t = t @ new" "distinct (map delivery_key new)" "set new \<subseteq> set rows"
      "delivery_key ` set new = delivery_key ` set rows - delivery_key ` set t"
      using Cons.IH [of t] Cons.prems by auto
    ultimately show ?thesis using True by auto
  next
    case False
    moreover have "rd_id r \<notin> rd_id ` set t" using False Cons.prems by force
    ultimately have f: "fold insert_delivery (r # rows) t = fold insert_delivery rows (t @ [r])" by (simp add: insert_delivery_def)
    obtain new where new: "fold insert_delivery rows (t @ [r]) = (t @ [r]) @ new" "distinct (map delivery_key new)" "set new \<subseteq> set rows"
      "delivery_key ` set new = delivery_key ` set rows - delivery_key ` set (t @ [r])"
      using Cons.IH [of "t @ [r]"] Cons.prems by auto
    have out: "delivery_key r \<notin> delivery_key ` set new" using new(4) by simp
    have "delivery_key ` set (r # new) =
        insert (delivery_key r) (delivery_key ` set rows - insert (delivery_key r) (delivery_key ` set t))" using new(4) by simp
    also have "\<dots> = delivery_key ` set (r # rows) - delivery_key ` set t" unfolding list.set image_insert by (rule insert_minus_insert [OF False])
    finally have keys: "delivery_key ` set (r # new) = delivery_key ` set (r # rows) - delivery_key ` set t" .
    show ?thesis
    proof (intro exI [of _ "r # new"] conjI keys)
      show "fold insert_delivery (r # rows) t = t @ r # new" using f new(1) by simp
      show "distinct (map delivery_key (r # new))" using out new(2) by simp
      show "set (r # new) \<subseteq> set (r # rows)" using new(3) by auto
    qed
  qed
qed

lemma report_row_key [simp]:
  "delivery_key (report_row sha256 render site now w dg ct) = (site, w_shift_id w, ct)"
  "rd_id (report_row sha256 render site now w dg ct) = id_of sha256 (site, w_shift_id w, ct)"
  by (cases ct, simp add: delivery_key_def report_row_def id_of_def)+

lemma due_reports_windows:
  assumes "definitions_ok d" "fixed_offset (site_timezone zones d site) off"
  shows "due_reports zones s d site now = {(site, w_shift_id w, ct) | w ct. w \<in> set (due_windows zones s d site now) \<and> ct \<in> set (report_targets s)}"
proof -
  let ?until = "now - seconds (report_delay_s s)"
  have "set (due_windows zones s d site now) =
      {w. \<exists>day. w \<in> set (day_windows site (site_timezone zones d site) (definitions d site) day) \<and>
        ?until - report_catchup_h s * hour_us < w_end w \<and> w_end w \<le> ?until}"
    using windows_ending_complete [OF assms, of "?until - report_catchup_h s * hour_us" ?until]
    by (simp add: due_windows_def Let_def)
  then show ?thesis by (auto simp: due_reports_def) fastforce+
qed

text \<open>C22: no shift goes unreported and none is reported twice: a tick queues, for every shift of any
  day that ended at least the reporting delay ago and no longer before than the catch-up period,
  exactly one message to each recipient that has none yet, and leaves the queued ones as they are.\<close>

theorem ended_shift_is_reported:
  assumes "definitions_ok d" "fixed_offset (site_timezone zones d site) off"
    and "ids_apart sha256 (due_reports zones s d site now) (deliveries d)"
    and "queue_due_reports zones sha256 render s site now d = (n, d')"
  shows "\<exists>new. deliveries d' = deliveries d @ new \<and> n = length new \<and> distinct (map delivery_key new) \<and>
    delivery_key ` set new = due_reports zones s d site now - delivery_key ` set (deliveries d) \<and>
    (\<forall>r \<in> set new. rd_state r = ''pending'' \<and> rd_attempts r = 0 \<and> rd_next r = now)"
proof -
  let ?due = "due_reports zones s d site now" and ?queued = "delivery_key ` set (deliveries d)"
  define rows where "rows = concat (map (\<lambda>w. map (report_row sha256 render site now w (shift_digest zones s d site now w))
      (filter (\<lambda>(c, t). (site, w_shift_id w, c, t) \<notin> ?queued) (report_targets s))) (due_windows zones s d site now))"
  have due: "?due = {(site, w_shift_id w, ct) | w ct. w \<in> set (due_windows zones s d site now) \<and> ct \<in> set (report_targets s)}"
    using due_reports_windows [OF assms(1,2)] .
  have keys: "delivery_key ` set rows = ?due - ?queued"
    unfolding due rows_def by (fastforce simp: image_iff)
  have fresh: "rd_state r = ''pending'' \<and> rd_attempts r = 0 \<and> rd_next r = now \<and> rd_id r = id_of sha256 (delivery_key r)"
    if "r \<in> set rows" for r using that by (auto simp: rows_def) (auto simp: report_row_def)
  have "\<forall>r \<in> set rows. \<forall>q \<in> set (deliveries d) \<union> set rows. rd_id r = rd_id q \<longrightarrow> delivery_key r = delivery_key q"
  proof (intro ballI impI)
    fix r q
    assume r: "r \<in> set rows" and q: "q \<in> set (deliveries d) \<union> set rows" and eq: "rd_id r = rd_id q"
    have rk: "delivery_key r \<in> ?due" using r keys by blast
    have id: "rd_id q = id_of sha256 (delivery_key r)" using eq fresh [OF r] by simp
    show "delivery_key r = delivery_key q"
    proof (cases "q \<in> set rows")
      case True
      then have "delivery_key q \<in> ?due" "rd_id q = id_of sha256 (delivery_key q)" using keys fresh by blast+
      then show ?thesis using assms(3) rk id by (simp add: ids_apart_def inj_on_def)
    next
      case False
      then show ?thesis using assms(3) q rk id by (simp add: ids_apart_def)
    qed
  qed
  from insert_deliveries [OF this] obtain new where new: "fold insert_delivery rows (deliveries d) = deliveries d @ new"
    "distinct (map delivery_key new)" "set new \<subseteq> set rows" "delivery_key ` set new = delivery_key ` set rows - ?queued"
    by (elim exE conjE)
  have new_keys: "delivery_key ` set new = ?due - ?queued" unfolding new(4) keys by (rule Diff_idemp)
  have "(n, d') = (if report_targets s = [] \<or> due_windows zones s d site now = [] then (0, d)
      else (length new, d\<lparr>deliveries := deliveries d @ new\<rparr>))"
    using assms(4) [symmetric] unfolding queue_due_reports_def Let_def rows_def [symmetric] new(1) by simp
  moreover have "new = []" if "report_targets s = [] \<or> due_windows zones s d site now = []"
    using that new(3) by (auto simp: rows_def)
  ultimately have d': "deliveries d' = deliveries d @ new" "n = length new" by (auto split: if_splits)
  have "\<forall>r \<in> set new. rd_state r = ''pending'' \<and> rd_attempts r = 0 \<and> rd_next r = now" using new(3) fresh by blast
  then show ?thesis using d' new(2) new_keys by (intro exI [of _ new] conjI)
qed

section \<open>Row by row\<close>

lemma length_filter_disj:
  "(\<And>x. \<not> (P x \<and> Q x)) \<Longrightarrow> length (filter (\<lambda>x. P x \<or> Q x \<and> R x) xs) = length (filter P xs) + length (filter (\<lambda>x. Q x \<and> R x) xs)"
  by (induction xs) auto

context retry_queue
begin

text \<open>A pass that commits each row after it is sent loses the record of at most the one in flight.\<close>

definition one_by_one :: "'r queue_act \<Rightarrow> bool" where
  "one_by_one a = (case a of Cut_pass now batch send kept tried \<Rightarrow> tried \<le> kept + 1 | _ \<Rightarrow> True)"

definition sent_ok :: "('k, 'r) queue \<Rightarrow> bool" where
  "sent_ok q \<longleftrightarrow> distinct (map key (q_rows q)) \<and>
     length (filter snd (q_log q)) \<le> length (filter (\<lambda>r. state r = ''sent'') (q_rows q)) + q_cuts q"

lemma one_by_one_Add [simp]: "one_by_one (Add r)"
  by (simp add: one_by_one_def)

lemma accepted_in_wire: "length (filter snd (wire key send rs)) = length (filter (\<lambda>r. send r = None) rs)"
  by (induction rs) (simp_all add: wire_def)

lemma sent_after:
  assumes "distinct t" "distinct rs" "set rs \<subseteq> set t" "\<And>r. r \<in> set rs \<Longrightarrow> state r = ''pending''"
  shows "length (filter (\<lambda>r. state r = ''sent'') (settle (\<lambda>r. attempt now (send r) r) rs t)) =
    length (filter (\<lambda>r. state r = ''sent'') t) + length (filter (\<lambda>r. send r = None) rs)"
proof -
  have st: "state (if r \<in> set rs then attempt now (send r) r else r) = ''sent'' \<longleftrightarrow> state r = ''sent'' \<or> r \<in> set rs \<and> send r = None"
    for r
  proof (cases "r \<in> set rs")
    case True
    show ?thesis
    proof (cases "send r")
      case None
      then show ?thesis using True by (simp add: attempt_accepted)
    next
      case (Some err)
      then show ?thesis using True assms(4) [OF True] by (simp add: attempt_refused)
    qed
  qed simp
  have apart: "\<not> (state r = ''sent'' \<and> r \<in> set rs)" for r
    using assms(4) by fastforce
  have "length (filter (\<lambda>r. state r = ''sent'') (settle (\<lambda>r. attempt now (send r) r) rs t)) =
      length (filter (\<lambda>r. state r = ''sent'') t) + length (filter (\<lambda>r. r \<in> set rs \<and> send r = None) t)"
  proof -
    have "length (filter (\<lambda>r. state r = ''sent'') (map (\<lambda>r. if r \<in> set rs then attempt now (send r) r else r) t)) =
        length (filter (\<lambda>r. state r = ''sent'' \<or> r \<in> set rs \<and> send r = None) t)"
      unfolding filter_map length_map comp_def by (rule arg_cong [of _ _ "\<lambda>P. length (filter P t)"], rule ext, rule st)
    also have "\<dots> = length (filter (\<lambda>r. state r = ''sent'') t) + length (filter (\<lambda>r. r \<in> set rs \<and> send r = None) t)"
      by (rule length_filter_disj) (rule apart)
    finally show ?thesis by (simp only: settle_def)
  qed
  moreover have "length (filter (\<lambda>r. r \<in> set rs \<and> send r = None) t) = length (filter (\<lambda>r. send r = None) rs)"
  proof -
    have "set (filter (\<lambda>r. r \<in> set rs \<and> send r = None) t) = set (filter (\<lambda>r. send r = None) rs)" using assms(3) by auto
    then show ?thesis
      unfolding distinct_card [OF distinct_filter [OF assms(1)], symmetric] distinct_card [OF distinct_filter [OF assms(2)], symmetric]
      by (rule arg_cong)
  qed
  ultimately show ?thesis by simp
qed

lemma tried_sent:
  assumes "sent_ok q" "i \<le> j" "j \<le> i + c" and rows: "rows = due_rows state due now batch (q_rows q)"
  shows "sent_ok (q\<lparr>q_rows := settle (\<lambda>r. attempt now (send r) r) (take i rows) (q_rows q),
      q_log := q_log q @ wire key send (take j rows), q_cuts := q_cuts q + c\<rparr>)"
proof -
  have dis: "distinct (map key (q_rows q))" using assms(1) by (simp add: sent_ok_def)
  have d: "distinct rows" using due_rows_distinct [OF dis] by (simp add: rows distinct_map)
  have sub: "set (take i rows) \<subseteq> set (q_rows q)" "\<And>r. r \<in> set (take i rows) \<Longrightarrow> state r = ''pending''"
    using due_rows_mem by (auto simp: rows dest!: in_set_takeD)
  have "distinct (q_rows q)" using dis by (simp add: distinct_map)
  note sent = sent_after [OF this distinct_take [OF d] sub]
  have "take j rows = take i rows @ take (j - i) (drop i rows)" using assms(2) by (metis le_add_diff_inverse take_add)
  then have "length (filter (\<lambda>r. send r = None) (take j rows)) \<le> length (filter (\<lambda>r. send r = None) (take i rows)) + c"
  proof -
    have "length (filter (\<lambda>r. send r = None) (take (j - i) (drop i rows))) \<le> length (take (j - i) (drop i rows))"
      by (rule length_filter_le)
    also have "\<dots> \<le> c" using assms(3) by simp
    finally show ?thesis using \<open>take j rows = _\<close> by simp
  qed
  then show ?thesis using assms(1) by (simp add: sent_ok_def settle_keys sent accepted_in_wire)
qed

lemma step_sent: "sent_ok q \<Longrightarrow> one_by_one a \<Longrightarrow> sent_ok (queue_do key state attempts due attempt q a)"
proof (cases a)
  case (Add r)
  moreover assume "sent_ok q"
  ultimately show ?thesis by (auto simp: sent_ok_def)
next
  case (Pass now batch send)
  moreover assume "sent_ok q"
  ultimately show ?thesis
    using tried_sent [of q batch batch 0 "due_rows state due now batch (q_rows q)" now batch send]
    by (simp add: due_rows_def Let_def)
next
  case (Cut_pass now batch send kept tried)
  moreover assume "sent_ok q" "one_by_one a"
  ultimately show ?thesis
    using tried_sent [of q kept "max kept tried" 1 "due_rows state due now batch (q_rows q)" now batch send]
    by (simp add: Let_def one_by_one_def)
qed

lemma run_sent:
  "sent_ok q \<Longrightarrow> list_all one_by_one acts \<Longrightarrow> sent_ok (run_machine (queue_do key state attempts due attempt) q acts)"
  by (induction acts arbitrary: q) (auto intro: step_sent)

end

section \<open>Runs of the report outbox\<close>

datatype report_act =
    Queue_reports string time
  | Send_reports time nat "report_delivery \<Rightarrow> report_message \<Rightarrow> string option"
  | Cut_sending time nat "report_delivery \<Rightarrow> report_message \<Rightarrow> string option" nat bool
  | Beside_reports "delivery_db \<Rightarrow> delivery_db"

record report_run =
  r_db :: delivery_db
  r_log :: "((string \<times> string \<times> string \<times> string) \<times> bool) list"
  r_cuts :: nat

text \<open>
  A power cut during a pass: the rows before the one in flight are committed, and that one may have
  been sent already.
\<close>

fun report_do ::
  "(string \<Rightarrow> zone_info) \<Rightarrow> (string \<Rightarrow> string) \<Rightarrow> (text_pieces \<Rightarrow> string) \<Rightarrow> report_settings \<Rightarrow> report_run \<Rightarrow> report_act \<Rightarrow> report_run" where
  "report_do zones sha256 render s st (Queue_reports site now) =
     st\<lparr>r_db := snd (queue_due_reports zones sha256 render s site now (r_db st))\<rparr>"
| "report_do zones sha256 render s st (Send_reports now batch send) =
     st\<lparr>r_db := snd (send_due_reports send s now batch (r_db st)),
        r_log := r_log st @ wire delivery_key (send_report send s) (due_rows rd_state rd_next now batch (deliveries (r_db st)))\<rparr>"
| "report_do zones sha256 render s st (Cut_sending now batch send kept in_flight) =
     (let rows = due_rows rd_state rd_next now batch (deliveries (r_db st))
      in st\<lparr>r_db := (r_db st)\<lparr>deliveries := snd (send_loop send s now (take kept rows)
                 \<lparr>t_sent = 0, t_retry = 0, t_failed = 0\<rparr> (deliveries (r_db st)))\<rparr>,
             r_log := r_log st @ wire delivery_key (send_report send s) (take (if in_flight then kept + 1 else kept) rows),
             r_cuts := r_cuts st + 1\<rparr>)"
| "report_do zones sha256 render s st (Beside_reports f) =
     (if deliveries (f (r_db st)) = deliveries (r_db st) then st\<lparr>r_db := f (r_db st)\<rparr> else st)"

definition report_queue :: "report_run \<Rightarrow> (string \<times> string \<times> string \<times> string, report_delivery) queue" where
  "report_queue st = \<lparr>q_rows = deliveries (r_db st), q_log = r_log st, q_cuts = r_cuts st\<rparr>"

lemma fold_insert_refines:
  assumes "\<forall>r \<in> set rows. rd_state r = ''pending'' \<and> rd_attempts r = 0"
  shows "\<exists>acts. list_all reports.one_by_one acts \<and> \<lparr>q_rows = fold insert_delivery rows t, q_log = l, q_cuts = c\<rparr> =
    run_machine (queue_do delivery_key rd_state rd_attempts rd_next attempt) \<lparr>q_rows = t, q_log = l, q_cuts = c\<rparr> acts"
  using assms
proof (induction rows arbitrary: t)
  case Nil
  then show ?case by (intro exI [of _ "[]"]) simp
next
  case (Cons r rows)
  let ?do = "queue_do delivery_key rd_state rd_attempts rd_next attempt"
  let ?as = "if insert_delivery r t = t then [] else [Add r]"
  have one: "\<lparr>q_rows = insert_delivery r t, q_log = l, q_cuts = c\<rparr> = run_machine ?do \<lparr>q_rows = t, q_log = l, q_cuts = c\<rparr> ?as"
    using Cons.prems by (auto simp: insert_delivery_def)
  obtain acts where acts: "list_all reports.one_by_one acts" "\<lparr>q_rows = fold insert_delivery rows (insert_delivery r t), q_log = l, q_cuts = c\<rparr> =
      run_machine ?do \<lparr>q_rows = insert_delivery r t, q_log = l, q_cuts = c\<rparr> acts"
    using Cons.IH [of "insert_delivery r t"] Cons.prems by auto
  show ?case
    by (intro exI [of _ "?as @ acts"]) (simp add: acts one)
qed

lemma queue_due_refines:
  "\<exists>acts. list_all reports.one_by_one acts \<and>
     report_queue (st\<lparr>r_db := snd (queue_due_reports zones sha256 render s site now (r_db st))\<rparr>) =
     run_machine (queue_do delivery_key rd_state rd_attempts rd_next attempt) (report_queue st) acts"
proof -
  define rows where "rows = concat (map (\<lambda>w. map (report_row sha256 render site now w (shift_digest zones s (r_db st) site now w))
      (filter (\<lambda>(c, t). (site, w_shift_id w, c, t) \<notin> delivery_key ` set (deliveries (r_db st))) (report_targets s)))
      (due_windows zones s (r_db st) site now))"
  have "\<forall>r \<in> set rows. rd_state r = ''pending'' \<and> rd_attempts r = 0" by (auto simp: rows_def report_row_def)
  from fold_insert_refines [OF this] obtain acts where acts: "list_all reports.one_by_one acts"
    "\<lparr>q_rows = fold insert_delivery rows (deliveries (r_db st)), q_log = r_log st, q_cuts = r_cuts st\<rparr> =
     run_machine (queue_do delivery_key rd_state rd_attempts rd_next attempt)
       \<lparr>q_rows = deliveries (r_db st), q_log = r_log st, q_cuts = r_cuts st\<rparr> acts" by blast
  have q: "snd (queue_due_reports zones sha256 render s site now (r_db st)) =
      (if report_targets s = [] \<or> due_windows zones s (r_db st) site now = [] then r_db st
       else (r_db st)\<lparr>deliveries := fold insert_delivery rows (deliveries (r_db st))\<rparr>)"
    unfolding queue_due_reports_def Let_def rows_def [symmetric] by simp
  show ?thesis
  proof (cases "report_targets s = [] \<or> due_windows zones s (r_db st) site now = []")
    case True
    then show ?thesis unfolding q by (intro exI [of _ "[]"]) simp
  next
    case False
    then show ?thesis unfolding q using acts by (intro exI [of _ acts]) (simp add: report_queue_def)
  qed
qed

lemma report_do_refines:
  assumes "distinct (map delivery_key (deliveries (r_db st)))"
  shows "\<exists>acts. list_all reports.one_by_one acts \<and> report_queue (report_do zones sha256 render s st a) =
    run_machine (queue_do delivery_key rd_state rd_attempts rd_next (after_send s)) (report_queue st) acts"
proof (cases a)
  case (Queue_reports site now)
  then show ?thesis using queue_due_refines by simp
next
  case (Send_reports now batch send)
  then show ?thesis
    by (intro exI [of _ "[Pass now batch (send_report send s)]"])
       (simp add: report_queue_def send_due_settle [OF assms] reports.one_by_one_def Let_def)
next
  case (Cut_sending now batch send kept in_flight)
  let ?rows = "due_rows rd_state rd_next now batch (deliveries (r_db st))"
  have "set (take kept ?rows) \<subseteq> set (deliveries (r_db st))"
    using set_take_subset due_reports_distinct(2) [OF assms] by (rule subset_trans)
  note loop = send_loop_settle [OF assms distinct_take [OF due_reports_distinct(1) [OF assms]] this]
  show ?thesis
    by (intro exI [of _ "[Cut_pass now batch (send_report send s) kept (if in_flight then kept + 1 else kept)]"])
       (simp add: Cut_sending report_queue_def loop Let_def reports.one_by_one_def)
next
  case (Beside_reports f)
  then show ?thesis by (intro exI [of _ "[]"]) (simp add: report_queue_def)
qed

definition outbox_ok :: "report_settings \<Rightarrow> report_run \<Rightarrow> bool" where
  "outbox_ok s st \<longleftrightarrow> reports.queue_ok s (report_queue st) \<and> reports.sent_ok (report_queue st)"

interpretation outbox: machine "report_do zones sha256 render s" "outbox_ok s"
proof unfold_locales
  fix st a
  assume ok: "outbox_ok s st"
  then have "distinct (map delivery_key (deliveries (r_db st)))"
    by (simp add: outbox_ok_def reports.sent_ok_def report_queue_def)
  from report_do_refines [OF this] obtain acts where acts: "list_all reports.one_by_one acts"
    "report_queue (report_do zones sha256 render s st a) =
     run_machine (queue_do delivery_key rd_state rd_attempts rd_next (after_send s)) (report_queue st) acts" by blast
  show "outbox_ok s (report_do zones sha256 render s st a)"
    using ok reports.runs.run_inv reports.run_sent [OF _ acts(1)] unfolding outbox_ok_def acts(2) by blast
qed

definition no_reports :: "delivery_db \<Rightarrow> report_run" where
  "no_reports d = \<lparr>r_db = d\<lparr>deliveries := []\<rparr>, r_log = [], r_cuts = 0\<rparr>"

text \<open>C28: over any sequence of ticks, sending passes and power cuts, a shift's report reaches a
  recipient at most once, plus at most one repetition for each power cut inside a pass, it is tried
  at most the configured number of times, plus one for each cut; and a cut repeats one report in
  all: the messages accepted are at most the queued reports plus the cuts.\<close>

theorem reports_are_not_repeated:
  "let st = run_machine (report_do zones sha256 render s) (no_reports d) acts
   in accepted (r_log st) k \<le> 1 + r_cuts st \<and>
      sends (r_log st) k \<le> nat (max 1 (notify_max_attempts s)) + r_cuts st \<and>
      length (filter snd (r_log st)) \<le> length (deliveries (r_db st)) + r_cuts st"
proof -
  define st where "st = run_machine (report_do zones sha256 render s) (no_reports d) acts"
  have "outbox_ok s (no_reports d)"
    by (simp add: outbox_ok_def reports.queue_ok_def reports.sent_ok_def report_queue_def no_reports_def sends_def)
  then have ok: "outbox_ok s st" unfolding st_def by (rule outbox.run_inv)
  then have "reports.queue_ok s (report_queue st)" by (simp add: outbox_ok_def)
  from reports.sends_bounded [OF this, where acts = "[]", OF run_machine.simps(1) [symmetric], of k]
  have "accepted (r_log st) k \<le> 1 + r_cuts st \<and> sends (r_log st) k \<le> nat (max 1 (notify_max_attempts s)) + r_cuts st"
    by (simp add: report_queue_def)
  moreover have "length (filter snd (r_log st)) \<le> length (filter (\<lambda>r. rd_state r = ''sent'') (deliveries (r_db st))) + r_cuts st"
    using ok by (simp add: outbox_ok_def reports.sent_ok_def report_queue_def)
  ultimately show ?thesis using length_filter_le [of "\<lambda>r. rd_state r = ''sent''" "deliveries (r_db st)"]
    unfolding st_def Let_def by linarith
qed

section \<open>What leaves the mine\<close>

text \<open>
  What the source calls personal or free text: the people and the words of an incident, a delay or
  an alarm. Two versions of a row are alike when they agree on the rest.
\<close>

definition same_figures :: "'a report_db_scheme \<Rightarrow> 'a report_db_scheme \<Rightarrow> bool" where
  "same_figures d e \<longleftrightarrow>
     map (\<lambda>i. (i_site i, i_state i, i_created i)) (rp_incidents d) = map (\<lambda>i. (i_site i, i_state i, i_created i)) (rp_incidents e) \<and>
     map (\<lambda>r. (d_site r, d_category r, d_start r, d_end r)) (rp_delays d) = map (\<lambda>r. (d_site r, d_category r, d_start r, d_end r)) (rp_delays e) \<and>
     map (\<lambda>v. (e_site v, e_severity v, e_ts v)) (events d) = map (\<lambda>v. (e_site v, e_severity v, e_ts v)) (events e) \<and>
     rp_cycles d = rp_cycles e \<and> rp_buckets d = rp_buckets e \<and> positions d = positions e \<and>
     site_timezones d = site_timezones e \<and> shift_definitions d = shift_definitions e"

lemma map_filter_view:
  "(\<And>x. P x = Q (v x)) \<Longrightarrow> map v (filter P xs) = filter Q (map v xs)"
  by (induction xs) auto

lemma length_filter_view:
  "(\<And>x. P x = Q (v x)) \<Longrightarrow> length (filter P xs) = length (filter Q (map v xs))"
  by (induction xs) auto

lemma scorecard_same_figures:
  assumes "same_figures d e"
  shows "compute_scorecard d site w = compute_scorecard e site w"
proof -
  let ?a = "w_start w" and ?b = "w_end w"
  let ?iv = "\<lambda>i. (i_site i, i_state i, i_created i)" and ?dv = "\<lambda>r. (d_site r, d_category r, d_start r, d_end r)"
  let ?ev = "\<lambda>v. (e_site v, e_severity v, e_ts v)"
  let ?span = "\<lambda>(s, cat, x, y). s = site \<and> y > ?a \<and> x < ?b" and ?over = "\<lambda>(s, cat, x, y). total_seconds (min y ?b - max x ?a)"
  have evs: "map ?ev (site_events d site ?a ?b) = map ?ev (site_events e site ?a ?b)"
    unfolding site_events_def using assms
    by (subst (1 2) map_filter_view [where Q = "\<lambda>(s, _, t). s = site \<and> in_span ?a ?b t"]) (simp_all add: same_figures_def)
  have del: "map ?dv (overlapping d site ?a ?b) = map ?dv (overlapping e site ?a ?b)"
    unfolding overlapping_def filter_filter using assms
    by (subst (1 2) map_filter_view [where Q = "\<lambda>r. ?span r \<and> ?over r > 0"])
       (simp_all add: same_figures_def overlap_s_def conj_ac)
  have severity: "fold (\<lambda>v. dict_add (e_severity v) 1) xs t = fold (\<lambda>(_, sev, _). dict_add sev 1) (map ?ev xs) t" for xs and t :: "(string \<times> nat) list"
    by (induction xs arbitrary: t) simp_all
  have category: "fold (\<lambda>r. dict_add (d_category r) (overlap_s ?a ?b r)) xs t =
      fold (\<lambda>r. dict_add (fst (snd r)) (?over r)) (map ?dv xs) t" for xs t
    by (induction xs arbitrary: t) (simp_all add: overlap_s_def)
  have sums: "sum_list (map (overlap_s ?a ?b) xs) = sum_list (map ?over (map ?dv xs))" for xs
    by (induction xs) (simp_all add: overlap_s_def)
  have inc: "length (filter (\<lambda>i. i_site i = site \<and> i_state i \<in> set open_incident_states) xs) =
      length (filter (\<lambda>(s, st, _). s = site \<and> st \<in> set open_incident_states) (map ?iv xs))"
    "length (filter (\<lambda>i. i_site i = site \<and> in_span ?a ?b (i_created i)) xs) =
      length (filter (\<lambda>(s, _, t). s = site \<and> in_span ?a ?b t) (map ?iv xs))" for xs
    by (rule length_filter_view, simp)+
  have len: "length (site_events d site ?a ?b) = length (site_events e site ?a ?b)" using evs by (rule map_eq_imp_length_eq)
  show ?thesis
    unfolding compute_scorecard_def Let_def severity category sums inc evs del len
    using assms by (simp add: same_figures_def site_cycles_def)
qed

text \<open>Nothing personal leaves the mine in a report: whatever is written in incidents, delays, alarms
  and handovers, and whoever wrote it, the message queued for a shift is the same as long as the
  figures, the fixes and the shift times are.\<close>

theorem report_reveals_only_figures:
  assumes "same_figures d e"
  shows "report_row sha256 render site now w (shift_digest zones s d site now w) ct =
    report_row sha256 render site now w (shift_digest zones s e site now w) ct"
proof -
  have "latest_positions d site = latest_positions e site"
    using assms by (simp add: same_figures_def latest_positions_def fixes_of_def asset_ids_seen_def)
  then show ?thesis
    using scorecard_same_figures [OF assms, of site w] assms
    by (simp add: shift_digest_def late_assets_def same_figures_def site_timezone_def zone_key_def)
qed

section \<open>Concrete instances\<close>

definition demo_reporting :: report_settings where
  "demo_reporting = notify_settings.extend (demo_notify\<lparr>notify_smtp_host := ''mail''\<rparr>)
     \<lparr>report_email_to = ''boss@mine'', report_whatsapp_to = [], report_whatsapp_template = [], report_delay_s = 1800,
      report_catchup_h = 1, public_url = []\<rparr>"

definition demo_outbox :: delivery_db where
  "demo_outbox = report_db.extend demo_report \<lparr>deliveries = []\<rparr>"

lemma demo_reporting_targets: "report_targets demo_reporting = [(''email'', ''boss@mine'')]"
  by (simp add: report_targets_def demo_reporting_def notify_settings.extend_def demo_notify_def settings.extend_def
      recipients_def strip_def is_space_def demo_settings_def)

lemma demo_outbox_simps:
  "deliveries demo_outbox = []" "definitions demo_outbox ''s1'' = default_definitions"
  "site_timezone (\<lambda>_. harare) demo_outbox ''s1'' = harare" "definitions_ok demo_outbox"
  by (simp_all add: demo_outbox_def report_db.extend_def demo_report_def shift_db.extend_def demo_shifts_def
      feed_db.extend_def db.extend_def site_timezone_def definitions_def definitions_ok_def)

lemma demo_due:
  "due_reports (\<lambda>_. harare) demo_reporting demo_outbox ''s1'' (16 * hour_us + seconds 1800) =
     {(''s1'', w_shift_id (window ''s1'' ''day'' 6 12 0 harare), ''email'', ''boss@mine'')}"
proof -
  have tz: "fixed_offset harare (2 * hour_us)" by (simp add: fixed_offset_def harare_def)
  have s: "report_delay_s demo_reporting = 1800" "report_catchup_h demo_reporting = 1"
    by (simp_all add: demo_reporting_def notify_settings.extend_def)
  have "w_end w + seconds 1800 \<le> 16 * hour_us + seconds 1800 \<and> 16 * hour_us + seconds 1800 < w_end w + seconds 1800 + 1 * hour_us
      \<longleftrightarrow> w = window ''s1'' ''day'' 6 12 0 harare"
    if "w \<in> set (day_windows ''s1'' harare default_definitions day)" for w day
  proof -
    from that consider "w = window ''s1'' ''day'' 6 12 day harare" | "w = window ''s1'' ''night'' 18 12 day harare"
      by (auto simp: day_windows_def default_definitions_def)
    then show ?thesis
    proof cases
      case 1
      have e: "w_end w = day * 86400000000 + 57600000000"
        unfolding 1 window_bounds(2) [OF tz] by (simp add: day_us_def hour_us_def)
      have d: "w_date w = day" "w_date (window ''s1'' ''day'' 6 12 0 harare) = 0" by (simp_all add: 1 window_def Let_def)
      show ?thesis
      proof
        assume "w_end w + seconds 1800 \<le> 16 * hour_us + seconds 1800 \<and> 16 * hour_us + seconds 1800 < w_end w + seconds 1800 + 1 * hour_us"
        then have "day * 86400000000 \<le> 0" "0 < 3600000000 + day * 86400000000" unfolding e by (simp_all add: hour_us_def)
        then have "day \<le> 0" "0 \<le> day" by linarith+
        then have "day = 0" by simp
        then show "w = window ''s1'' ''day'' 6 12 0 harare" using 1 by simp
      next
        assume "w = window ''s1'' ''day'' 6 12 0 harare"
        then have "day = 0" using d by simp
        then show "w_end w + seconds 1800 \<le> 16 * hour_us + seconds 1800 \<and> 16 * hour_us + seconds 1800 < w_end w + seconds 1800 + 1 * hour_us"
          unfolding e by (simp add: hour_us_def)
      qed
    next
      case 2
      have e: "w_end w = day * 86400000000 + 100800000000"
        unfolding 2 window_bounds(2) [OF tz] by (simp add: day_us_def hour_us_def)
      have "w_name w \<noteq> w_name (window ''s1'' ''day'' 6 12 0 harare)" by (simp add: 2 window_def Let_def)
      then have "w \<noteq> window ''s1'' ''day'' 6 12 0 harare" by auto
      moreover have "day \<le> -1 \<or> 0 \<le> day" by linarith
      ultimately show ?thesis unfolding e by (auto simp: hour_us_def)
    qed
  qed
  moreover have "window ''s1'' ''day'' 6 12 0 harare \<in> set (day_windows ''s1'' harare default_definitions 0)"
    by (simp add: day_windows_def default_definitions_def)
  ultimately show ?thesis
    unfolding due_reports_def demo_outbox_simps demo_reporting_targets s by auto
qed

theorem ended_shift_is_reported_witness:
  "(''s1'', w_shift_id (window ''s1'' ''day'' 6 12 0 harare), ''email'', ''boss@mine'') \<in>
     delivery_key ` set (deliveries (snd (queue_due_reports (\<lambda>_. harare) (\<lambda>x. x) (\<lambda>_. ''text'') demo_reporting ''s1''
       (16 * hour_us + seconds 1800) demo_outbox)))"
proof -
  have tz: "fixed_offset (site_timezone (\<lambda>_. harare) demo_outbox ''s1'') (2 * hour_us)"
    unfolding demo_outbox_simps by (simp add: fixed_offset_def harare_def)
  have "ids_apart (\<lambda>x. x) (due_reports (\<lambda>_. harare) demo_reporting demo_outbox ''s1'' (16 * hour_us + seconds 1800)) (deliveries demo_outbox)"
    by (simp add: ids_apart_def demo_due demo_outbox_simps)
  from ended_shift_is_reported [OF demo_outbox_simps(4) tz this prod.collapse [symmetric]] show ?thesis
    by (auto simp: demo_due demo_outbox_simps)
qed

theorem report_reveals_only_figures_witness:
  "report_row (\<lambda>x. x) (\<lambda>_. ''text'') ''s1'' 0 (shift_of 6) (shift_digest (\<lambda>_. harare) demo_reporting demo_report ''s1'' 0 (shift_of 6)) (''email'', ''b'') =
   report_row (\<lambda>x. x) (\<lambda>_. ''text'') ''s1'' 0 (shift_of 6) (shift_digest (\<lambda>_. harare) demo_reporting
     (demo_report\<lparr>rp_delays := map (\<lambda>r. r\<lparr>d_note := Some ''J. Moyo late''\<rparr>) (rp_delays demo_report)\<rparr>) ''s1'' 0 (shift_of 6)) (''email'', ''b'')"
  by (rule report_reveals_only_figures) (simp add: same_figures_def comp_def)

end
