(* ===== verification/Retention.thy ===== *)
theory Retention
  imports Maintenance ShiftReports Incidents
begin

text \<open>
  Retention, \<^verbatim>\<open>src/src/minemonitor/retention.py\<close>: the daily job that deletes what is older than its
  class's window. The tables are those of the other components; of a table no other theory models,
  a row is its id, its time and the columns the job reads.
\<close>

section \<open>The tables\<close>

record aged =
  ag_id :: string
  ag_ts :: time

record lab_correction =
  lc_id :: string
  lc_result :: string

record job =
  jb_id :: string
  jb_status :: string
  jb_created :: time

record job_assignment =
  ja_id :: string
  ja_job :: string

record retention_db = upkeep_db +
  rt_cycles :: "(string \<times> cycle) list"
  rt_buckets :: "bucket list"
  rt_incidents :: "incident list"
  rt_notes :: "incident_note list"
  rt_handovers :: "handover list"
  rt_delays :: "delay list"
  rt_deliveries :: "report_delivery list"
  rt_observations :: "aged list"
  rt_node_health :: "aged list"
  rt_camera_health :: "aged list"
  rt_vision_events :: "aged list"
  rt_rollups :: "aged list"
  rt_vendor_events :: "aged list"
  rt_tickets :: "aged list"
  rt_fuel :: "aged list"
  rt_dips :: "aged list"
  rt_material :: "aged list"
  rt_results :: "aged list"
  rt_corrections :: "lab_correction list"
  rt_jobs :: "job list"
  rt_assignments :: "job_assignment list"

text \<open>The days of each class; 0 keeps it for ever.\<close>

record policy =
  positions_days :: int
  metrics_days :: int
  events_days :: int
  annotations_days :: int
  access_days :: int
  audit_days :: int
  observations_days :: int
  health_days :: int
  records_days :: int
  readings_days :: int

section \<open>The purges\<close>

definition cutoff :: "time \<Rightarrow> int \<Rightarrow> time" where
  "cutoff now days = now - seconds (86400 * days)"

text \<open>What a class forgets: everything from before its cutoff, unless it is kept for ever.\<close>

definition past :: "time \<Rightarrow> int \<Rightarrow> time \<Rightarrow> bool" where
  "past now days t \<longleftrightarrow> days > 0 \<and> t < cutoff now days"

definition purge :: "time \<Rightarrow> int \<Rightarrow> ('r \<Rightarrow> time) \<Rightarrow> 'r list \<Rightarrow> 'r list" where
  "purge now days ts rows = filter (\<lambda>r. \<not> past now days (ts r)) rows"

definition closed_past :: "time \<Rightarrow> int \<Rightarrow> time option \<Rightarrow> bool" where
  "closed_past now days ended = (case ended of None \<Rightarrow> False | Some t \<Rightarrow> past now days t)"

definition purge_closed_incidents :: "time \<Rightarrow> int \<Rightarrow> retention_db \<Rightarrow> retention_db" where
  "purge_closed_incidents now days d =
     (let ids = map i_id (filter (\<lambda>i. closed_past now days (i_closed i)) (rt_incidents d))
      in d\<lparr>rt_notes := filter (\<lambda>n. in_incident n \<notin> set ids) (rt_notes d),
           rt_incidents := filter (\<lambda>i. i_id i \<notin> set ids) (rt_incidents d)\<rparr>)"

definition event_due :: "time \<Rightarrow> int \<Rightarrow> incident list \<Rightarrow> event \<Rightarrow> bool" where
  "event_due now days inc e \<longleftrightarrow> past now days (e_ts e) \<and> \<not> (\<exists>i \<in> set inc. i_event i = Some (e_id e))"

definition purge_events :: "time \<Rightarrow> int \<Rightarrow> retention_db \<Rightarrow> retention_db" where
  "purge_events now days d =
     (let due = event_due now days (rt_incidents d); gone = map e_id (filter due (events d))
      in d\<lparr>notifications := filter (\<lambda>n. n_event n \<notin> set gone) (notifications d),
           events := filter (\<lambda>e. \<not> due e) (events d)\<rparr>)"

definition purge_lab_results :: "time \<Rightarrow> int \<Rightarrow> retention_db \<Rightarrow> retention_db" where
  "purge_lab_results now days d =
     (let gone = map ag_id (filter (\<lambda>r. past now days (ag_ts r)) (rt_results d))
      in d\<lparr>rt_corrections := filter (\<lambda>c. lc_result c \<notin> set gone) (rt_corrections d),
           rt_results := purge now days ag_ts (rt_results d)\<rparr>)"

definition terminal_job_statuses :: "string list" where
  "terminal_job_statuses = [''complete'', ''cancelled'']"

definition job_due :: "time \<Rightarrow> int \<Rightarrow> job \<Rightarrow> bool" where
  "job_due now days j \<longleftrightarrow> jb_status j \<in> set terminal_job_statuses \<and> past now days (jb_created j)"

definition purge_dispatch :: "time \<Rightarrow> int \<Rightarrow> retention_db \<Rightarrow> retention_db" where
  "purge_dispatch now days d =
     (let gone = map jb_id (filter (job_due now days) (rt_jobs d))
      in d\<lparr>rt_assignments := filter (\<lambda>a. ja_job a \<notin> set gone) (rt_assignments d),
           rt_jobs := filter (\<lambda>j. \<not> job_due now days j) (rt_jobs d)\<rparr>)"

definition same_component :: "work_order \<Rightarrow> work_order \<Rightarrow> bool" where
  "same_component v w \<longleftrightarrow> wo_site v = wo_site w \<and> wo_asset v = wo_asset w \<and> wo_component v = wo_component w"

definition done_service :: "work_order \<Rightarrow> bool" where
  "done_service w \<longleftrightarrow> wo_type w = ''service'' \<and> wo_status w = ''done''"

text \<open>\<^verbatim>\<open>newer.closed_at > closed_at\<close>: not true when either is null.\<close>

definition closed_after :: "work_order \<Rightarrow> work_order \<Rightarrow> bool" where
  "closed_after v w \<longleftrightarrow> (case (wo_closed v, wo_closed w) of (Some s, Some t) \<Rightarrow> s > t | _ \<Rightarrow> False)"

definition is_latest_service :: "work_order list \<Rightarrow> work_order \<Rightarrow> bool" where
  "is_latest_service t w \<longleftrightarrow> done_service w \<and> \<not> (\<exists>v \<in> set t. same_component v w \<and> done_service v \<and> closed_after v w)"

definition purge_work_orders :: "time \<Rightarrow> int \<Rightarrow> retention_db \<Rightarrow> retention_db" where
  "purge_work_orders now days d =
     d\<lparr>work_orders := filter (\<lambda>w. \<not> (closed_past now days (wo_closed w) \<and> \<not> is_latest_service (work_orders d) w)) (work_orders d)\<rparr>"

definition superseded :: "reading list \<Rightarrow> reading \<Rightarrow> bool" where
  "superseded t r \<longleftrightarrow> (\<exists>q \<in> set t. gr_site q = gr_site r \<and> gr_asset q = gr_asset r \<and> gr_ts q > gr_ts r)"

definition purge_generator_readings :: "time \<Rightarrow> int \<Rightarrow> retention_db \<Rightarrow> retention_db" where
  "purge_generator_readings now days d =
     d\<lparr>readings := filter (\<lambda>r. \<not> (past now days (gr_ts r) \<and> superseded (readings d) r)) (readings d)\<rparr>"

definition purge_closed_breaches :: "time \<Rightarrow> int \<Rightarrow> retention_db \<Rightarrow> retention_db" where
  "purge_closed_breaches now days d =
     (let ids = map b_id (filter (\<lambda>b. closed_past now days (b_closed b)) (breaches d))
      in d\<lparr>breach_operators := filter (\<lambda>(b, _). b \<notin> set ids) (breach_operators d),
           breaches := filter (\<lambda>b. b_id b \<notin> set ids) (breaches d)\<rparr>)"

section \<open>The job\<close>

text \<open>The tables that are purged by their time alone.\<close>

definition purge_classes :: "policy \<Rightarrow> time \<Rightarrow> retention_db \<Rightarrow> retention_db" where
  "purge_classes p now d =
     d\<lparr>positions := purge now (positions_days p) p_ts (positions d),
       rt_buckets := purge now (metrics_days p) bucket_start (rt_buckets d),
       rt_cycles := purge now (metrics_days p) (\<lambda>(_, c). end_ts c) (rt_cycles d),
       access_quarantine := purge now (events_days p) aq_first_seen (access_quarantine d),
       rt_deliveries := purge now (events_days p) rd_shift_end (rt_deliveries d),
       access_events := purge now (access_days p) ae_ts (access_events d),
       rt_delays := purge now (annotations_days p) d_end (rt_delays d),
       rt_handovers := purge now (annotations_days p) h_created (rt_handovers d),
       rt_observations := purge now (observations_days p) ag_ts (rt_observations d),
       rt_node_health := purge now (health_days p) ag_ts (rt_node_health d),
       rt_camera_health := purge now (health_days p) ag_ts (rt_camera_health d),
       rt_vision_events := purge now (events_days p) ag_ts (rt_vision_events d),
       rt_rollups := purge now (metrics_days p) ag_ts (rt_rollups d),
       rt_vendor_events := purge now (events_days p) ag_ts (rt_vendor_events d),
       rt_tickets := purge now (records_days p) ag_ts (rt_tickets d),
       rt_fuel := purge now (records_days p) ag_ts (rt_fuel d),
       rt_dips := purge now (records_days p) ag_ts (rt_dips d),
       rt_material := purge now (records_days p) ag_ts (rt_material d)\<rparr>"

text \<open>
  The order matters where tables refer to one another: incidents go before the alarms they point
  at. The classes above touch none of the tables of the other purges, so they stand first.
\<close>

definition purge_all :: "policy \<Rightarrow> time \<Rightarrow> retention_db \<Rightarrow> retention_db" where
  "purge_all p now d =
     (let d = purge_classes p now d;
          d = purge_closed_incidents now (annotations_days p) d;
          d = purge_events now (events_days p) d;
          d = purge_lab_results now (records_days p) d;
          d = purge_dispatch now (records_days p) d;
          d = purge_work_orders now (records_days p) d;
          d = purge_generator_readings now (readings_days p) d;
          d = purge_closed_breaches now (audit_days p) d
      in d\<lparr>breach_audit := purge now (audit_days p) au_ts (breach_audit d)\<rparr>)"

definition table_sizes :: "retention_db \<Rightarrow> (string \<times> nat) list" where
  "table_sizes d =
     [(''positions'', length (positions d)), (''asset_metrics'', length (rt_buckets d)), (''haul_cycles'', length (rt_cycles d)),
      (''incidents'', length (rt_incidents d)), (''incident_notes'', length (rt_notes d)), (''events'', length (events d)),
      (''notifications'', length (notifications d)), (''access_quarantine'', length (access_quarantine d)),
      (''shift_report_deliveries'', length (rt_deliveries d)), (''access_events'', length (access_events d)),
      (''delay_classifications'', length (rt_delays d)), (''shift_handovers'', length (rt_handovers d)),
      (''vision_observations'', length (rt_observations d)), (''vision_node_health'', length (rt_node_health d)),
      (''vision_camera_health'', length (rt_camera_health d)), (''vision_operational_events'', length (rt_vision_events d)),
      (''vision_zone_rollups'', length (rt_rollups d)), (''vision_vendor_events'', length (rt_vendor_events d)),
      (''weigh_tickets'', length (rt_tickets d)), (''fuel_transactions'', length (rt_fuel d)), (''fuel_tank_readings'', length (rt_dips d)),
      (''laboratory_results'', length (rt_results d)), (''laboratory_corrections'', length (rt_corrections d)),
      (''material_measurements'', length (rt_material d)), (''dispatch_jobs'', length (rt_jobs d)),
      (''dispatch_assignments'', length (rt_assignments d)), (''work_orders'', length (work_orders d)),
      (''generator_readings'', length (readings d)), (''breach_records'', length (breaches d)), (''audit_log'', length (breach_audit d))]"

definition policy_dict :: "policy \<Rightarrow> dict" where
  "policy_dict p =
     [(''positions'', JInt (positions_days p)), (''metrics'', JInt (metrics_days p)), (''events'', JInt (events_days p)),
      (''annotations'', JInt (annotations_days p)), (''access'', JInt (access_days p)), (''audit'', JInt (audit_days p)),
      (''vision_observations'', JInt (observations_days p)), (''vision_health'', JInt (health_days p)),
      (''records'', JInt (records_days p)), (''readings'', JInt (readings_days p))]"

text \<open>The entry about the run is written last, at the time of the clock.\<close>

definition run_retention ::
  "policy \<Rightarrow> time \<Rightarrow> time \<Rightarrow> string \<Rightarrow> retention_db \<Rightarrow> (string \<times> nat) list \<times> retention_db" where
  "run_retention p now clock actor d =
     (let d' = purge_all p now d;
          deleted = map (\<lambda>((name, n), (_, n')). (name, n - n')) (zip (table_sizes d) (table_sizes d'));
          entry = \<lparr>au_ts = clock, au_actor = actor, au_action = ''retention.run'', au_entity_type = ''site'', au_entity_id = None,
            au_site = None, au_detail = [(''deleted'', JObj (map (\<lambda>(name, n). (name, JInt (int n))) deleted)),
              (''policy_days'', JObj (policy_dict p))]\<rparr>
      in (deleted, d'\<lparr>breach_audit := breach_audit d' @ [entry]\<rparr>))"

text \<open>The configured windows.\<close>

record retention_settings = access_settings +
  retain_positions_days :: int
  retain_metrics_days :: int
  retain_events_days :: int
  retain_annotations_days :: int
  retain_audit_days :: int
  retain_vision_observations_days :: int
  retain_vision_health_days :: int
  retain_records_days :: int
  retain_readings_days :: int

definition policy_of :: "'a retention_settings_scheme \<Rightarrow> policy" where
  "policy_of s =
     \<lparr>positions_days = retain_positions_days s, metrics_days = retain_metrics_days s, events_days = retain_events_days s,
      annotations_days = retain_annotations_days s, access_days = retain_access_days s, audit_days = retain_audit_days s,
      observations_days = retain_vision_observations_days s, health_days = retain_vision_health_days s,
      records_days = retain_records_days s, readings_days = retain_readings_days s\<rparr>"

definition run_from_config ::
  "'a retention_settings_scheme \<Rightarrow> time \<Rightarrow> time \<Rightarrow> retention_db \<Rightarrow> (string \<times> nat) list \<times> retention_db" where
  "run_from_config s now clock d = run_retention (policy_of s) now clock ''system'' d"

section \<open>What a run leaves of each table\<close>

named_theorems kept

lemma kept_tables [kept]:
  "positions (purge_all p now d) = purge now (positions_days p) p_ts (positions d)"
  "rt_buckets (purge_all p now d) = purge now (metrics_days p) bucket_start (rt_buckets d)"
  "rt_cycles (purge_all p now d) = purge now (metrics_days p) (\<lambda>(_, c). end_ts c) (rt_cycles d)"
  "access_quarantine (purge_all p now d) = purge now (events_days p) aq_first_seen (access_quarantine d)"
  "rt_deliveries (purge_all p now d) = purge now (events_days p) rd_shift_end (rt_deliveries d)"
  "access_events (purge_all p now d) = purge now (access_days p) ae_ts (access_events d)"
  "rt_results (purge_all p now d) = purge now (records_days p) ag_ts (rt_results d)"
  "rt_delays (purge_all p now d) = purge now (annotations_days p) d_end (rt_delays d)"
  "rt_handovers (purge_all p now d) = purge now (annotations_days p) h_created (rt_handovers d)"
  "rt_observations (purge_all p now d) = purge now (observations_days p) ag_ts (rt_observations d)"
  "rt_node_health (purge_all p now d) = purge now (health_days p) ag_ts (rt_node_health d)"
  "rt_camera_health (purge_all p now d) = purge now (health_days p) ag_ts (rt_camera_health d)"
  "rt_vision_events (purge_all p now d) = purge now (events_days p) ag_ts (rt_vision_events d)"
  "rt_rollups (purge_all p now d) = purge now (metrics_days p) ag_ts (rt_rollups d)"
  "rt_vendor_events (purge_all p now d) = purge now (events_days p) ag_ts (rt_vendor_events d)"
  "rt_tickets (purge_all p now d) = purge now (records_days p) ag_ts (rt_tickets d)"
  "rt_fuel (purge_all p now d) = purge now (records_days p) ag_ts (rt_fuel d)"
  "rt_dips (purge_all p now d) = purge now (records_days p) ag_ts (rt_dips d)"
  "rt_material (purge_all p now d) = purge now (records_days p) ag_ts (rt_material d)"
  "breach_audit (purge_all p now d) = purge now (audit_days p) au_ts (breach_audit d)"
  by (simp_all add: purge_all_def purge_classes_def purge_closed_incidents_def purge_events_def purge_lab_results_def
      purge_dispatch_def purge_work_orders_def purge_generator_readings_def purge_closed_breaches_def Let_def)

lemma untouched_tables [kept]:
  "ulid (purge_all p now d) = ulid d" "ids_drawn (purge_all p now d) = ids_drawn d"
  "site_rows (purge_all p now d) = site_rows d" "asset_rows (purge_all p now d) = asset_rows d"
  "zone_rows (purge_all p now d) = zone_rows d" "zone_states (purge_all p now d) = zone_states d"
  "cursors (purge_all p now d) = cursors d" "site_timezones (purge_all p now d) = site_timezones d"
  "shift_definitions (purge_all p now d) = shift_definitions d" "source_statuses (purge_all p now d) = source_statuses d"
  "operators (purge_all p now d) = operators d" "plans (purge_all p now d) = plans d"
  "retention_db.more (purge_all p now d) = retention_db.more d"
  by (simp_all add: purge_all_def purge_classes_def purge_closed_incidents_def purge_events_def purge_lab_results_def
      purge_dispatch_def purge_work_orders_def purge_generator_readings_def purge_closed_breaches_def Let_def)

lemma kept_records [kept]:
  "rt_incidents (purge_all p now d) =
     filter (\<lambda>i. i_id i \<notin> i_id ` {i \<in> set (rt_incidents d). closed_past now (annotations_days p) (i_closed i)}) (rt_incidents d)"
  "rt_notes (purge_all p now d) =
     filter (\<lambda>n. in_incident n \<notin> i_id ` {i \<in> set (rt_incidents d). closed_past now (annotations_days p) (i_closed i)}) (rt_notes d)"
  "events (purge_all p now d) =
     filter (\<lambda>e. \<not> event_due now (events_days p) (rt_incidents (purge_all p now d)) e) (events d)"
  "notifications (purge_all p now d) =
     filter (\<lambda>n. n_event n \<notin> e_id ` {e \<in> set (events d). event_due now (events_days p) (rt_incidents (purge_all p now d)) e})
       (notifications d)"
  "rt_corrections (purge_all p now d) =
     filter (\<lambda>c. lc_result c \<notin> ag_id ` {r \<in> set (rt_results d). past now (records_days p) (ag_ts r)}) (rt_corrections d)"
  "rt_jobs (purge_all p now d) = filter (\<lambda>j. \<not> job_due now (records_days p) j) (rt_jobs d)"
  "rt_assignments (purge_all p now d) =
     filter (\<lambda>a. ja_job a \<notin> jb_id ` {j \<in> set (rt_jobs d). job_due now (records_days p) j}) (rt_assignments d)"
  "work_orders (purge_all p now d) =
     filter (\<lambda>w. \<not> (closed_past now (records_days p) (wo_closed w) \<and> \<not> is_latest_service (work_orders d) w)) (work_orders d)"
  "readings (purge_all p now d) =
     filter (\<lambda>r. \<not> (past now (readings_days p) (gr_ts r) \<and> superseded (readings d) r)) (readings d)"
  "breaches (purge_all p now d) =
     filter (\<lambda>b. b_id b \<notin> b_id ` {b \<in> set (breaches d). closed_past now (audit_days p) (b_closed b)}) (breaches d)"
  "breach_operators (purge_all p now d) =
     filter (\<lambda>(b, _). b \<notin> b_id ` {b \<in> set (breaches d). closed_past now (audit_days p) (b_closed b)}) (breach_operators d)"
  by (simp_all add: purge_all_def purge_classes_def purge_closed_incidents_def purge_events_def purge_lab_results_def
      purge_dispatch_def purge_work_orders_def purge_generator_readings_def purge_closed_breaches_def Let_def)

lemma run_tables [simp]:
  "rt_incidents (snd (run_retention p now clock actor d)) = rt_incidents (purge_all p now d)"
  "rt_notes (snd (run_retention p now clock actor d)) = rt_notes (purge_all p now d)"
  "events (snd (run_retention p now clock actor d)) = events (purge_all p now d)"
  "notifications (snd (run_retention p now clock actor d)) = notifications (purge_all p now d)"
  "rt_results (snd (run_retention p now clock actor d)) = rt_results (purge_all p now d)"
  "rt_corrections (snd (run_retention p now clock actor d)) = rt_corrections (purge_all p now d)"
  "rt_jobs (snd (run_retention p now clock actor d)) = rt_jobs (purge_all p now d)"
  "rt_assignments (snd (run_retention p now clock actor d)) = rt_assignments (purge_all p now d)"
  "work_orders (snd (run_retention p now clock actor d)) = work_orders (purge_all p now d)"
  "readings (snd (run_retention p now clock actor d)) = readings (purge_all p now d)"
  "plans (snd (run_retention p now clock actor d)) = plans (purge_all p now d)"
  "breaches (snd (run_retention p now clock actor d)) = breaches (purge_all p now d)"
  "breach_operators (snd (run_retention p now clock actor d)) = breach_operators (purge_all p now d)"
  by (simp_all add: run_retention_def Let_def)

lemma filter_keeps: "(\<And>x. x \<in> set xs \<Longrightarrow> P x \<Longrightarrow> Q x) \<Longrightarrow> filter P (filter Q xs) = filter P xs"
  by (induction xs) auto

lemma same_id: "distinct (map f xs) \<Longrightarrow> x \<in> set xs \<Longrightarrow> y \<in> set xs \<Longrightarrow> f x = f y \<Longrightarrow> x = y"
  by (auto simp: distinct_map dest: inj_onD)

section \<open>Live work is never deleted\<close>

definition unique_ids :: "retention_db \<Rightarrow> bool" where
  "unique_ids d \<longleftrightarrow> distinct (map i_id (rt_incidents d)) \<and> distinct (map b_id (breaches d)) \<and> distinct (map jb_id (rt_jobs d))"

definition open_incidents :: "retention_db \<Rightarrow> incident list" where
  "open_incidents d = filter (\<lambda>i. i_closed i = None) (rt_incidents d)"

definition live_breaches :: "retention_db \<Rightarrow> breach list" where
  "live_breaches d = filter (\<lambda>b. b_closed b = None) (breaches d)"

definition open_jobs :: "retention_db \<Rightarrow> job list" where
  "open_jobs d = filter (\<lambda>j. jb_status j \<notin> set terminal_job_statuses) (rt_jobs d)"

text \<open>The live rows: what is not closed, and what hangs on it.\<close>

definition live_work ::
  "retention_db \<Rightarrow> incident list \<times> incident_note list \<times> event list \<times> breach list \<times> (string \<times> string) list \<times> job list \<times>
     job_assignment list \<times> work_order list" where
  "live_work d =
     (open_incidents d,
      filter (\<lambda>n. in_incident n \<in> i_id ` set (open_incidents d)) (rt_notes d),
      filter (\<lambda>e. Some (e_id e) \<in> i_event ` set (open_incidents d)) (events d),
      live_breaches d,
      filter (\<lambda>(b, _). b \<in> b_id ` set (live_breaches d)) (breach_operators d),
      open_jobs d,
      filter (\<lambda>a. ja_job a \<in> jb_id ` set (open_jobs d)) (rt_assignments d),
      filter (\<lambda>w. wo_closed w = None) (work_orders d))"

lemma closed_past_None [simp]: "\<not> closed_past now n None"
  by (simp add: closed_past_def)

lemma open_incidents_kept: "unique_ids d \<Longrightarrow> open_incidents (purge_all p now d) = open_incidents d"
  unfolding open_incidents_def kept
  by (rule filter_keeps) (auto simp: unique_ids_def dest: same_id)

lemma live_breaches_kept: "unique_ids d \<Longrightarrow> live_breaches (purge_all p now d) = live_breaches d"
  unfolding live_breaches_def kept
  by (rule filter_keeps) (auto simp: unique_ids_def dest: same_id)

lemma open_jobs_kept: "open_jobs (purge_all p now d) = open_jobs d"
  unfolding open_jobs_def kept by (rule filter_keeps) (simp add: job_due_def)

lemma open_alarm_kept:
  assumes "unique_ids d"
  shows "filter (\<lambda>e. Some (e_id e) \<in> i_event ` set (open_incidents d)) (events (purge_all p now d)) =
    filter (\<lambda>e. Some (e_id e) \<in> i_event ` set (open_incidents d)) (events d)"
  unfolding kept_records(3)
proof (rule filter_keeps)
  fix e :: event
  assume "Some (e_id e) \<in> i_event ` set (open_incidents d)"
  then obtain i where i: "i \<in> set (open_incidents (purge_all p now d))" "i_event i = Some (e_id e)"
    using open_incidents_kept [OF assms] by (metis imageE)
  then show "\<not> event_due now (events_days p) (rt_incidents (purge_all p now d)) e"
    by (auto simp: event_due_def open_incidents_def)
qed

lemma open_notes_kept:
  assumes "unique_ids d"
  shows "filter (\<lambda>n. in_incident n \<in> i_id ` set (open_incidents d)) (rt_notes (purge_all p now d)) =
    filter (\<lambda>n. in_incident n \<in> i_id ` set (open_incidents d)) (rt_notes d)"
  unfolding kept using assms by (intro filter_keeps) (auto simp: unique_ids_def open_incidents_def dest: same_id)

lemma open_links_kept:
  assumes "unique_ids d"
  shows "filter (\<lambda>(b, _). b \<in> b_id ` set (live_breaches d)) (breach_operators (purge_all p now d)) =
    filter (\<lambda>(b, _). b \<in> b_id ` set (live_breaches d)) (breach_operators d)"
  unfolding kept using assms by (intro filter_keeps) (auto simp: unique_ids_def live_breaches_def dest: same_id)

lemma open_assignments_kept:
  assumes "unique_ids d"
  shows "filter (\<lambda>a. ja_job a \<in> jb_id ` set (open_jobs d)) (rt_assignments (purge_all p now d)) =
    filter (\<lambda>a. ja_job a \<in> jb_id ` set (open_jobs d)) (rt_assignments d)"
  unfolding kept using assms by (intro filter_keeps) (auto simp: unique_ids_def open_jobs_def job_due_def dest: same_id)

lemma open_orders_kept:
  "filter (\<lambda>w. wo_closed w = None) (work_orders (purge_all p now d)) = filter (\<lambda>w. wo_closed w = None) (work_orders d)"
  unfolding kept by (rule filter_keeps) simp

lemma live_run: "live_work (snd (run_retention p now clock actor d)) = live_work (purge_all p now d)"
  by (simp add: live_work_def open_incidents_def live_breaches_def open_jobs_def)

text \<open>C8: no policy, however short its windows, deletes live work: open incidents with their notes and
  the alarms they were raised from, open breaches with the persons linked to them, jobs that have
  not ended with their assignments, and open work orders.\<close>

theorem retention_keeps_live_work:
  assumes "unique_ids d"
  shows "live_work (snd (run_retention p now clock actor d)) = live_work d"
  unfolding live_run unfolding live_work_def open_incidents_kept [OF assms] live_breaches_kept [OF assms] open_jobs_kept
    open_alarm_kept [OF assms] open_notes_kept [OF assms] open_links_kept [OF assms] open_assignments_kept [OF assms] open_orders_kept ..

section \<open>No row is left pointing at nothing\<close>

definition refs_ok :: "retention_db \<Rightarrow> bool" where
  "refs_ok d \<longleftrightarrow>
     (\<forall>n \<in> set (rt_notes d). in_incident n \<in> i_id ` set (rt_incidents d)) \<and>
     (\<forall>i \<in> set (rt_incidents d). case i_event i of None \<Rightarrow> True | Some e \<Rightarrow> e \<in> e_id ` set (events d)) \<and>
     (\<forall>n \<in> set (notifications d). n_event n \<in> e_id ` set (events d)) \<and>
     (\<forall>c \<in> set (rt_corrections d). lc_result c \<in> ag_id ` set (rt_results d)) \<and>
     (\<forall>a \<in> set (rt_assignments d). ja_job a \<in> jb_id ` set (rt_jobs d)) \<and>
     (\<forall>(b, _) \<in> set (breach_operators d). b \<in> b_id ` set (breaches d))"

text \<open>One reference: the rows whose target goes are deleted with it.\<close>

lemma refs_purged:
  assumes "\<forall>x \<in> set xs. f x \<in> g ` set ys"
  shows "\<forall>x \<in> set (filter (\<lambda>x. f x \<notin> g ` {y \<in> set ys. gone y}) xs). f x \<in> g ` set (filter (\<lambda>y. \<not> gone y) ys)"
  using assms by force

text \<open>C32: a run never breaks a foreign key: whatever the windows, every note, notification, correction,
  assignment and breach link it leaves still has its row, and so has every incident its alarm.\<close>

theorem retention_keeps_references:
  assumes "refs_ok d"
  shows "refs_ok (snd (run_retention p now clock actor d))"
proof -
  let ?d = "purge_all p now d"
  have "\<forall>n \<in> set (rt_notes ?d). in_incident n \<in> i_id ` set (rt_incidents ?d)"
    unfolding kept using assms by (fastforce simp: refs_ok_def)
  moreover have "case i_event i of None \<Rightarrow> True | Some e \<Rightarrow> e \<in> e_id ` set (events ?d)" if i: "i \<in> set (rt_incidents ?d)" for i
  proof (cases "i_event i")
    case (Some e)
    have "i \<in> set (rt_incidents d)" using i by (simp add: kept)
    then obtain v where "v \<in> set (events d)" "e = e_id v" using assms Some by (fastforce simp: refs_ok_def)
    moreover from this have "\<not> event_due now (events_days p) (rt_incidents ?d) v" using i Some by (auto simp: event_due_def)
    ultimately show ?thesis using Some unfolding kept_records(3) by simp
  qed simp
  moreover have "\<forall>n \<in> set (notifications ?d). n_event n \<in> e_id ` set (events ?d)"
    unfolding kept_records(3,4) using assms by (intro refs_purged) (simp add: refs_ok_def)
  moreover have "\<forall>c \<in> set (rt_corrections ?d). lc_result c \<in> ag_id ` set (rt_results ?d)"
    unfolding kept purge_def using assms by (intro refs_purged) (simp add: refs_ok_def)
  moreover have "\<forall>a \<in> set (rt_assignments ?d). ja_job a \<in> jb_id ` set (rt_jobs ?d)"
    unfolding kept using assms by (intro refs_purged) (simp add: refs_ok_def)
  moreover have "\<forall>(b, _) \<in> set (breach_operators ?d). b \<in> b_id ` set (breaches ?d)"
    unfolding kept using assms by (fastforce simp: refs_ok_def)
  ultimately show ?thesis unfolding refs_ok_def run_tables by blast
qed

section \<open>Running it again\<close>

lemma purge_twice [simp]: "purge now n ts (purge now n ts xs) = purge now n ts xs"
  by (simp add: purge_def)

lemma filter_twice: "(\<And>x. x \<in> set xs \<Longrightarrow> P x \<Longrightarrow> Q x) \<Longrightarrow> filter Q (filter P xs) = filter P xs"
  by (induction xs) auto

lemma latest_service_subset:
  "is_latest_service t w \<Longrightarrow> set t' \<subseteq> set t \<Longrightarrow> is_latest_service t' w"
  by (auto simp: is_latest_service_def)

lemma superseded_subset: "superseded t' r \<Longrightarrow> set t' \<subseteq> set t \<Longrightarrow> superseded t r"
  by (auto simp: superseded_def)

lemma orders_again: "work_orders (purge_all p now (purge_all p now d)) = work_orders (purge_all p now d)"
  unfolding kept_records(8) [of p now "purge_all p now d"]
  by (rule filter_True) (auto simp: kept intro: latest_service_subset)

lemma incidents_again: "rt_incidents (purge_all p now (purge_all p now d)) = rt_incidents (purge_all p now d)"
  unfolding kept_records(1) [of p now "purge_all p now d"]
  by (rule filter_True) (auto simp: kept_records(1))

lemma notes_again: "rt_notes (purge_all p now (purge_all p now d)) = rt_notes (purge_all p now d)"
  unfolding kept_records(2) [of p now "purge_all p now d"]
  by (rule filter_True) (auto simp: kept_records(1,2))

lemma events_again: "events (purge_all p now (purge_all p now d)) = events (purge_all p now d)"
  unfolding kept_records(3) [of p now "purge_all p now d"] incidents_again
  by (rule filter_True) (auto simp: kept_records(3,4))

lemma notifications_again: "notifications (purge_all p now (purge_all p now d)) = notifications (purge_all p now d)"
  unfolding kept_records(4) [of p now "purge_all p now d"] incidents_again
  by (rule filter_True) (auto simp: kept_records(3,4))

lemma corrections_again: "rt_corrections (purge_all p now (purge_all p now d)) = rt_corrections (purge_all p now d)"
  unfolding kept_records(5) [of p now "purge_all p now d"]
  by (rule filter_True) (auto simp: kept purge_def)

lemma jobs_again: "rt_jobs (purge_all p now (purge_all p now d)) = rt_jobs (purge_all p now d)"
  unfolding kept_records(6) [of p now "purge_all p now d"]
  by (rule filter_True) (auto simp: kept_records(6))

lemma assignments_again: "rt_assignments (purge_all p now (purge_all p now d)) = rt_assignments (purge_all p now d)"
  unfolding kept_records(7) [of p now "purge_all p now d"]
  by (rule filter_True) (auto simp: kept_records(6,7))

lemma readings_again: "readings (purge_all p now (purge_all p now d)) = readings (purge_all p now d)"
  unfolding kept_records(9) [of p now "purge_all p now d"]
  by (rule filter_True) (auto simp: kept_records(9) dest!: superseded_subset [where t = "readings d"])

lemma breaches_again: "breaches (purge_all p now (purge_all p now d)) = breaches (purge_all p now d)"
  unfolding kept_records(10) [of p now "purge_all p now d"]
  by (rule filter_True) (auto simp: kept_records(10))

lemma links_again: "breach_operators (purge_all p now (purge_all p now d)) = breach_operators (purge_all p now d)"
  unfolding kept_records(11) [of p now "purge_all p now d"]
  by (rule filter_True) (auto simp: kept_records(10,11))

lemmas again = incidents_again notes_again events_again notifications_again corrections_again jobs_again assignments_again
  orders_again readings_again breaches_again links_again

lemma purge_again: "purge_all p now (purge_all p now d) = purge_all p now d"
  by (rule retention_db.equality, unfold again) (simp_all add: kept_tables untouched_tables)

lemma purge_with_audit:
  "purge_all p now (d\<lparr>breach_audit := xs\<rparr>) = (purge_all p now d)\<lparr>breach_audit := purge now (audit_days p) au_ts xs\<rparr>"
  by (simp add: purge_all_def purge_classes_def purge_closed_incidents_def purge_events_def purge_lab_results_def
      purge_dispatch_def purge_work_orders_def purge_generator_readings_def purge_closed_breaches_def Let_def)

lemma not_past_yet: "now \<le> t \<Longrightarrow> \<not> past now n t"
  by (auto simp: past_def cutoff_def seconds_def)

lemma run_again:
  assumes "now \<le> clock"
  shows "purge_all p now (snd (run_retention p now clock actor d)) = snd (run_retention p now clock actor d)"
  using not_past_yet [OF assms] unfolding run_retention_def Let_def snd_conv purge_with_audit purge_again
  by (simp add: kept_tables purge_def)

lemma nothing_deleted:
  assumes "purge_all p now d = d"
  shows "list_all (\<lambda>(_, n). n = 0) (fst (run_retention p now clock actor d))"
  using assms by (simp add: run_retention_def table_sizes_def Let_def)

text \<open>The job can be run again at any time: a second run for the same moment finds nothing to delete,
  the record of the first run included, and changes no table.\<close>

theorem retention_is_idempotent:
  assumes "now \<le> clock"
  shows "list_all (\<lambda>(_, n). n = 0) (fst (run_retention p now later actor' (snd (run_retention p now clock actor d)))) \<and>
    purge_all p now (snd (run_retention p now clock actor d)) = snd (run_retention p now clock actor d)"
  using nothing_deleted [OF run_again [OF assms]] run_again [OF assms] by blast

section \<open>What the health indicator reads\<close>

lemma max_by_filter_kept: "max_by f xs = Some m \<Longrightarrow> P m \<Longrightarrow> max_by f (filter P xs) = Some m"
proof (induction xs arbitrary: m)
  case (Cons x xs)
  show ?case
  proof (cases "max_by f xs")
    case None
    then show ?thesis using Cons.prems by simp
  next
    case (Some y)
    show ?thesis
    proof (cases "f y > f x")
      case True
      then have "max_by f (filter P xs) = Some y" using Cons Some by simp
      then show ?thesis using Cons.prems Some True by simp
    next
      case False
      have "f z \<le> f x" if "max_by f (filter P xs) = Some z" for z
        using max_by_Some [OF Some] max_by_Some [OF that] False by fastforce
      then show ?thesis using Cons.prems Some False by (fastforce split: option.splits)
    qed
  qed
qed simp

lemma filter_swap: "filter P (filter Q xs) = filter Q (filter P xs)"
  by (simp add: conj_commute)

lemma max_by_kept:
  "max_by f (filter Q xs) = Some m \<Longrightarrow> P m \<Longrightarrow> max_by f (filter Q (filter P xs)) = max_by f (filter Q xs)"
  unfolding filter_swap [of Q P] by (simp only: max_by_filter_kept)

lemma service_kept:
  assumes "latest_completed_service d site asset component = Some w"
  shows "is_latest_service (work_orders d) w \<or> wo_closed w = None"
proof -
  have w: "service_done site asset component w"
    using max_by_Some [OF assms [unfolded latest_completed_service_def]] by simp
  have "closing v \<le> closing w" if "v \<in> set (work_orders d)" "service_done site asset component v" for v
    using max_by_Some [OF assms [unfolded latest_completed_service_def]] that by simp
  then show ?thesis using w
    by (fastforce simp: is_latest_service_def done_service_def same_component_def closed_after_def service_done_def closing_def
        split: option.splits)
qed

lemma retention_keeps_service:
  "latest_completed_service (snd (run_retention p now clock actor d)) site asset component =
   latest_completed_service d site asset component"
proof (cases "latest_completed_service d site asset component")
  case None
  then show ?thesis by (auto simp: latest_completed_service_def kept filter_empty_conv)
next
  case (Some w)
  show ?thesis unfolding latest_completed_service_def run_tables kept_records(8)
    by (rule max_by_kept [OF Some [unfolded latest_completed_service_def]]) (use service_kept [OF Some] in auto)
qed

lemma retention_keeps_last_reading:
  "latest_reading (snd (run_retention p now clock actor d)) site asset = latest_reading d site asset"
proof (cases "latest_reading d site asset")
  case None
  then show ?thesis by (auto simp: latest_reading_def asset_readings_def kept filter_empty_conv)
next
  case (Some r)
  have "\<not> superseded (readings d) r"
    using max_by_Some [OF Some [unfolded latest_reading_def]]
    by (fastforce simp: superseded_def asset_readings_def)
  then show ?thesis unfolding latest_reading_def asset_readings_def run_tables kept_records(9)
    by (intro max_by_kept [OF Some [unfolded latest_reading_def asset_readings_def]]) simp
qed

text \<open>C26: deleting old records never changes what the maintenance indicator says: for the same clock and
  the same engine hours the health of every component is what it was, and so is the latest reading
  of every generator.\<close>

theorem retention_keeps_health:
  "assess_health (snd (run_retention p now clock actor d)) site asset component later current =
     assess_health d site asset component later current \<and>
   latest_reading (snd (run_retention p now clock actor d)) site asset = latest_reading d site asset"
  unfolding assess_health_def get_plan_def retention_keeps_service retention_keeps_last_reading run_tables untouched_tables
  by (rule conjI refl)+

section \<open>Concrete instances\<close>

definition demo_case :: "string \<Rightarrow> string option \<Rightarrow> time option \<Rightarrow> incident" where
  "demo_case i alarm ended =
     \<lparr>i_id = i, i_version = 1, i_site = ''s1'', i_event = alarm, i_type = ''operational'', i_severity = ''info'', i_asset = None,
      i_zone = None, i_summary = [], i_state = ''open'', i_assignee = None, i_resolution = None, i_category = None,
      i_created_by = ''a'', i_created = 0, i_updated = 0, i_resolved = None, i_closed = ended\<rparr>"

definition demo_note_on :: "string \<Rightarrow> incident_note" where
  "demo_note_on i =
     \<lparr>in_id = ''n'' @ i, in_incident = i, in_site = ''s1'', in_ts = 0, in_actor = ''a'', in_kind = ''note'', in_from = None,
      in_to = None, in_text = None\<rparr>"

definition demo_archive :: retention_db where
  "demo_archive = upkeep_db.extend demo_upkeep
     \<lparr>rt_cycles = [], rt_buckets = [], rt_incidents = [demo_case ''I1'' None None, demo_case ''I2'' None (Some 0)],
      rt_notes = [demo_note_on ''I1'', demo_note_on ''I2''], rt_handovers = [], rt_delays = [], rt_deliveries = [],
      rt_observations = [], rt_node_health = [], rt_camera_health = [], rt_vision_events = [], rt_rollups = [],
      rt_vendor_events = [], rt_tickets = [], rt_fuel = [], rt_dips = [], rt_material = [],
      rt_results = [\<lparr>ag_id = ''R1'', ag_ts = 0\<rparr>], rt_corrections = [\<lparr>lc_id = ''C1'', lc_result = ''R1''\<rparr>],
      rt_jobs = [\<lparr>jb_id = ''J1'', jb_status = ''open'', jb_created = 0\<rparr>], rt_assignments = [\<lparr>ja_id = ''A1'', ja_job = ''J1''\<rparr>]\<rparr>"

definition demo_policy :: policy where
  "demo_policy = \<lparr>positions_days = 1, metrics_days = 1, events_days = 1, annotations_days = 1, access_days = 1, audit_days = 1,
     observations_days = 1, health_days = 1, records_days = 1, readings_days = 1\<rparr>"

lemma demo_archive_ids: "unique_ids (demo_archive\<lparr>breaches := []\<rparr>)"
  by (simp add: unique_ids_def demo_archive_def upkeep_db.extend_def demo_case_def)

theorem retention_keeps_live_work_witness:
  "live_work (snd (run_retention demo_policy (seconds 999999) (seconds 999999) ''system'' (demo_archive\<lparr>breaches := []\<rparr>))) =
   live_work (demo_archive\<lparr>breaches := []\<rparr>)"
  by (rule retention_keeps_live_work [OF demo_archive_ids])

theorem retention_keeps_references_witness:
  "refs_ok (snd (run_retention demo_policy (seconds 999999) (seconds 999999) ''system''
     (demo_archive\<lparr>notifications := [], breach_operators := []\<rparr>)))"
  by (rule retention_keeps_references)
     (simp add: refs_ok_def demo_archive_def upkeep_db.extend_def demo_case_def demo_note_on_def)

theorem retention_is_idempotent_witness:
  "list_all (\<lambda>(_, n). n = 0) (fst (run_retention demo_policy 7 9 ''b'' (snd (run_retention demo_policy 7 8 ''a'' demo_archive)))) \<and>
   purge_all demo_policy 7 (snd (run_retention demo_policy 7 8 ''a'' demo_archive)) = snd (run_retention demo_policy 7 8 ''a'' demo_archive)"
  by (rule retention_is_idempotent) simp

section \<open>Where a run loses a figure\<close>

text \<open>The reading kept for a generator is its latest; the engine hours are those of the latest reading that has any, which may be an older one.\<close>

definition demo_reading :: "string \<Rightarrow> time \<Rightarrow> real option \<Rightarrow> reading" where
  "demo_reading i t h = \<lparr>gr_id = i, gr_site = ''s1'', gr_asset = ''GEN-01'', gr_source = ''x'', gr_ts = t, gr_hours = h,
     gr_running = True, gr_fuel = None, gr_expected = None, gr_fault = False, gr_code = None, gr_created = t\<rparr>"

lemma retention_loses_engine_hours:
  assumes "readings d = [demo_reading ''1'' 0 (Some 500), demo_reading ''2'' (seconds 60) None]"
  shows "latest_engine_hours d ''s1'' ''GEN-01'' = Some 500 \<and>
    latest_engine_hours (snd (run_retention demo_policy (seconds 999999) (seconds 999999) ''system'' d)) ''s1'' ''GEN-01'' = None"
  by (simp add: latest_engine_hours_def asset_readings_def kept_records assms demo_reading_def demo_policy_def past_def cutoff_def
      superseded_def seconds_def)

end
