(* ===== verification/Outages.thy ===== *)
theory Outages
  imports PeriodicRules Retention
begin

text \<open>
  The offline alarm over the life of a site: the check of \<^verbatim>\<open>rules/offline.py\<close> beside everything else that
  changes what it reads. The same tick (\<^verbatim>\<open>ingest/tick.py\<close>) runs retention, which deletes old fixes and old
  alarms; meanwhile fixes are stored, other alarms raised and alarms acknowledged. The alarm of an outage
  is latched by the stored event, so it is raised once as long as no event is deleted before the fix it follows.
\<close>

section \<open>What happens to a site\<close>

datatype outage_input =
    Offline_check time
  | Fix_arrives position
  | Other_alarm time event
  | Acknowledged time string string
  | Retention_run policy time

definition offline_raises ::
  "settings \<Rightarrow> string \<Rightarrow> real \<Rightarrow> string \<Rightarrow> retention_db \<Rightarrow> outage_input \<Rightarrow> bool" where
  "offline_raises s site thr asset d i =
     (case i of
        Offline_check now \<Rightarrow> (case detect_offline s d site now thr of
            Inl _ \<Rightarrow> False | Inr (evs, _) \<Rightarrow> Some asset \<in> e_asset ` set evs)
      | _ \<Rightarrow> False)"

definition offline_next ::
  "settings \<Rightarrow> string \<Rightarrow> real \<Rightarrow> retention_db \<Rightarrow> outage_input \<Rightarrow> retention_db" where
  "offline_next s site thr d i =
     (case i of
        Offline_check now \<Rightarrow> (case detect_offline s d site now thr of Inl _ \<Rightarrow> d | Inr (_, d') \<Rightarrow> d')
      | Fix_arrives q \<Rightarrow> snd (insert_position d q)
      | Other_alarm now ev \<Rightarrow> persist_event s now d ev
      | Acknowledged now event_id by_whom \<Rightarrow> snd (acknowledge_event now d site event_id by_whom)
      | Retention_run p now \<Rightarrow> snd (run_retention p now now ''system'' d))"

text \<open>The outage has been alarmed, or nothing is left to alarm on.\<close>

definition outage_alarmed :: "string \<Rightarrow> string \<Rightarrow> 'a db_scheme \<Rightarrow> bool" where
  "outage_alarmed site asset d =
     (case newest_fix d site asset of None \<Rightarrow> True
      | Some p \<Rightarrow> alarmed_since d site ''asset_offline'' (p_ts p) (Some asset) None)"

text \<open>The asset is heard again, or the tick's clock is behind the asset's newest fix.\<close>

definition outage_over :: "string \<Rightarrow> string \<Rightarrow> 'a db_scheme \<Rightarrow> outage_input \<Rightarrow> bool" where
  "outage_over site asset d i =
     (case i of
        Fix_arrives q \<Rightarrow> p_site q = site \<and> p_asset q = asset \<and>
          (case newest_fix d site asset of None \<Rightarrow> True | Some p \<Rightarrow> p_ts p < p_ts q)
      | Offline_check now \<Rightarrow> (case newest_fix d site asset of None \<Rightarrow> False | Some p \<Rightarrow> now < p_ts p)
      | _ \<Rightarrow> False)"

text \<open>Alarms are kept at least as long as the fixes they follow.\<close>

definition alarms_outlive_fixes :: "policy \<Rightarrow> bool" where
  "alarms_outlive_fixes p \<longleftrightarrow> events_days p \<le> 0 \<or> 0 < positions_days p \<and> positions_days p \<le> events_days p"

section \<open>The latch\<close>

lemma newest_fix_Some:
  "newest_fix d site asset = Some p \<Longrightarrow> p \<in> set (positions d) \<and> p_site p = site \<and> p_asset p = asset \<and>
     (\<forall>q \<in> set (positions d). p_site q = site \<and> p_asset q = asset \<longrightarrow> p_ts q \<le> p_ts p)"
  by (auto simp: newest_fix_def fixes_of_set dest!: max_by_Some)

lemma fixes_of_run: "fixes_of (snd (run_retention p now clock actor d)) site asset =
    filter (\<lambda>q. \<not> past now (positions_days p) (p_ts q)) (fixes_of d site asset)"
  by (simp add: run_retention_def Let_def fixes_of_def kept purge_def conj_commute)

lemma newest_fix_run:
  assumes "newest_fix d site asset = Some q"
  shows "newest_fix (snd (run_retention p now clock actor d)) site asset =
    (if past now (positions_days p) (p_ts q) then None else Some q)"
proof (cases "past now (positions_days p) (p_ts q)")
  case True
  have "past now (positions_days p) (p_ts r)" if "r \<in> set (fixes_of d site asset)" for r
    using that True newest_fix_Some [OF assms] by (auto simp: past_def fixes_of_set intro: le_less_trans)
  then have "filter (\<lambda>q. \<not> past now (positions_days p) (p_ts q)) (fixes_of d site asset) = []"
    by (simp add: filter_empty_conv)
  then show ?thesis using True by (simp add: newest_fix_def fixes_of_run)
next
  case False
  then show ?thesis
    using assms max_by_filter_kept [of p_ts "fixes_of d site asset" q "\<lambda>q. \<not> past now (positions_days p) (p_ts q)"]
    by (simp add: newest_fix_def fixes_of_run)
qed

lemma newest_none_run: "newest_fix d site asset = None \<Longrightarrow> newest_fix (snd (run_retention p now clock actor d)) site asset = None"
proof -
  assume "newest_fix d site asset = None"
  then have "fixes_of d site asset = []" by (simp add: newest_fix_def)
  then show ?thesis by (simp add: newest_fix_def fixes_of_run)
qed

lemma alarm_kept:
  assumes "alarmed_since d site typ since a src" and "alarms_outlive_fixes p" and "\<not> past now (positions_days p) since"
  shows "alarmed_since (snd (run_retention p now clock actor d)) site typ since a src"
proof -
  from assms(1) obtain e where e: "e \<in> set (events d)" "e_site e = site \<and> e_type e = typ \<and> e_ts e \<ge> since \<and>
      (case a of None \<Rightarrow> True | Some x \<Rightarrow> e_asset e = Some x) \<and> (case src of None \<Rightarrow> True | Some x \<Rightarrow> e_source e = x)"
    by (auto simp: alarmed_since_def list_ex_iff)
  have "\<not> past now (events_days p) (e_ts e)"
    using assms(2,3) e(2) by (auto simp: alarms_outlive_fixes_def past_def cutoff_def seconds_def)
  then have "e \<in> set (events (purge_all p now d))" using e(1) by (simp add: kept_records event_due_def)
  then show ?thesis using e(2) by (auto simp: alarmed_since_def list_ex_iff)
qed

lemma acknowledge_alarms [simp]:
  "alarmed_since (snd (acknowledge_event now d at_site i who)) site typ since a src = alarmed_since d site typ since a src"
  "positions (snd (acknowledge_event now d at_site i who)) = positions d"
proof -
  have ex: "list_ex P (map f es) = list_ex P es" if "\<And>e. P (f e) = P e" for P f and es :: "event list"
    using that by (induction es) auto
  show "alarmed_since (snd (acknowledge_event now d at_site i who)) site typ since a src = alarmed_since d site typ since a src"
    by (auto simp: acknowledge_event_def alarmed_since_def ex split: option.split)
  show "positions (snd (acknowledge_event now d at_site i who)) = positions d"
    by (simp add: acknowledge_event_def Let_def split: option.split)
qed

lemma persist_alarms:
  "positions (persist_event s now d ev) = positions d"
  "alarmed_since d site typ since a src \<Longrightarrow> alarmed_since (persist_event s now d ev) site typ since a src"
  using persist_event_frame [of d s now ev] by (auto simp: outbox_only_def alarmed_since_def)

lemma check_latches:
  assumes det: "detect_offline s d site now thr = Inr (evs, d')" and "Some asset \<in> e_asset ` set evs"
  shows "\<exists>p. newest_fix d site asset = Some p \<and> \<not> alarmed_since d site ''asset_offline'' (p_ts p) (Some asset) None \<and>
    newest_fix d' site asset = Some p \<and>
    (p_ts p \<le> now \<longrightarrow> alarmed_since d' site ''asset_offline'' (p_ts p) (Some asset) None)"
proof -
  note props = detect_offline_Inr [OF det]
  have "Some asset \<in> set (map e_asset evs)" using assms(2) by simp
  with props obtain p where p: "p \<in> set (latest_positions d site)" "p_asset p = asset" "offline_due d site thr now p" by auto
  note newest = newest_fix_in_latest [OF p(1), unfolded p(2)]
  obtain ev where "ev \<in> set evs" "e_asset ev = Some asset" "offline_alarm site now ev" using assms(2) props by auto
  then have "p_ts p \<le> now \<longrightarrow> alarmed_since d' site ''asset_offline'' (p_ts p) (Some asset) None"
    using props by (force simp: alarmed_since_def list_ex_iff offline_alarm_def)
  then show ?thesis using newest newest_fix_cong [of d' d] props p(2,3) by (auto simp: offline_due_def)
qed

text \<open>What re-arms the alarm: the end of the outage, or a run that may delete alarms before their fixes.\<close>

definition rearms :: "string \<Rightarrow> string \<Rightarrow> 'a db_scheme \<Rightarrow> outage_input \<Rightarrow> bool" where
  "rearms site asset d i \<longleftrightarrow> outage_over site asset d i \<or>
     (case i of Retention_run p _ \<Rightarrow> \<not> alarms_outlive_fixes p | _ \<Rightarrow> False)"

lemma next_keeps_alarmed:
  assumes "outage_alarmed site asset d" and "\<not> rearms site asset d i"
  shows "outage_alarmed site asset (offline_next s site thr d i)"
proof (cases i)
  case (Offline_check now)
  show ?thesis
  proof (cases "detect_offline s d site now thr")
    case (Inr r)
    then obtain evs d' where det: "detect_offline s d site now thr = Inr (evs, d')" by (cases r) auto
    note props = detect_offline_Inr [OF det]
    then have "newest_fix d' site asset = newest_fix d site asset" by (intro newest_fix_cong) blast
    moreover have "alarmed_since d site t since a src \<Longrightarrow> alarmed_since d' site t since a src" for t since a src
      using props by (auto simp: alarmed_since_def)
    ultimately show ?thesis using assms(1)
      by (simp add: offline_next_def Offline_check det outage_alarmed_def split: option.splits)
  qed (use assms(1) Offline_check in \<open>simp add: offline_next_def\<close>)
next
  case (Fix_arrives q)
  show ?thesis
  proof (cases "newest_fix d site asset")
    case None
    then have "\<not> (p_site q = site \<and> p_asset q = asset)" using assms(2) Fix_arrives by (simp add: rearms_def outage_over_def)
    then have "newest_fix (snd (insert_position d q)) site asset = None"
      using None by (auto simp: newest_fix_def insert_position_fixes)
    then show ?thesis by (simp add: outage_alarmed_def offline_next_def Fix_arrives)
  next
    case (Some p)
    with assms(2) have "newest_fix (snd (insert_position d q)) site asset = Some p"
      by (auto simp: newest_fix_def insert_position_fixes max_by_snoc rearms_def outage_over_def Fix_arrives)
    then show ?thesis using assms(1) Some by (simp add: outage_alarmed_def offline_next_def Fix_arrives alarmed_since_def)
  qed
next
  case (Other_alarm now ev)
  have "newest_fix (persist_event s now d ev) site asset = newest_fix d site asset"
    by (rule newest_fix_cong) (rule persist_alarms)
  then show ?thesis using assms(1)
    by (simp add: offline_next_def Other_alarm outage_alarmed_def persist_alarms(2) split: option.splits)
next
  case (Acknowledged now event_id who)
  have "newest_fix (snd (acknowledge_event now d site event_id who)) site asset = newest_fix d site asset"
    by (rule newest_fix_cong) simp
  then show ?thesis using assms(1) by (simp add: offline_next_def Acknowledged outage_alarmed_def split: option.splits)
next
  case (Retention_run p now)
  then have ok: "alarms_outlive_fixes p" using assms(2) by (simp add: rearms_def)
  show ?thesis
  proof (cases "newest_fix d site asset")
    case None
    then show ?thesis by (simp add: offline_next_def Retention_run outage_alarmed_def newest_none_run)
  next
    case (Some q)
    then show ?thesis using assms(1) alarm_kept [OF _ ok, of d site "''asset_offline''" "p_ts q" "Some asset" None now]
      by (simp add: offline_next_def Retention_run outage_alarmed_def newest_fix_run [OF Some])
  qed
qed

interpretation offline: latch "offline_raises s site thr asset" "offline_next s site thr" "outage_alarmed site asset"
    "rearms site asset" for s site thr asset
proof
  fix d :: retention_db and i
  assume "offline_raises s site thr asset d i"
  then obtain now evs d' where i: "i = Offline_check now"
    and det: "detect_offline s d site now thr = Inr (evs, d')" and a: "Some asset \<in> e_asset ` set evs"
    by (auto simp: offline_raises_def split: outage_input.splits sum.splits)
  from check_latches [OF det a] obtain q where q: "newest_fix d site asset = Some q"
    "\<not> alarmed_since d site ''asset_offline'' (p_ts q) (Some asset) None" "newest_fix d' site asset = Some q"
    "p_ts q \<le> now \<longrightarrow> alarmed_since d' site ''asset_offline'' (p_ts q) (Some asset) None" by blast
  show "\<not> outage_alarmed site asset d" using q by (simp add: outage_alarmed_def)
  assume "\<not> rearms site asset d i"
  then show "outage_alarmed site asset (offline_next s site thr d i)"
    using q by (simp add: rearms_def outage_over_def outage_alarmed_def offline_next_def i det)
qed (rule next_keeps_alarmed)

lemma never_rearms:
  assumes "never (outage_over site asset) (offline_next s site thr) d is"
    and "\<forall>p now. Retention_run p now \<in> set is \<longrightarrow> alarms_outlive_fixes p"
  shows "never (rearms site asset) (offline_next s site thr) d is"
  using assms by (induction "is" arbitrary: d) (auto simp: rearms_def split: outage_input.split)

section \<open>One alarm per outage\<close>

text \<open>C39: one alarm per outage. From any state until the asset is heard again, however many checks run, and
  however often retention deletes old fixes and old alarms between them, other alarms are raised, alarms are
  acknowledged and fixes of other assets or older fixes of this one come in, at most one offline alarm is
  raised for the asset, provided alarms are kept at least as long as positions (or for ever) and no check
  is dated before the asset's newest fix.\<close>

theorem one_offline_alarm_per_outage:
  assumes "never (outage_over site asset) (offline_next s site thr) d is"
    and "\<forall>p now. Retention_run p now \<in> set is \<longrightarrow> alarms_outlive_fixes p"
  shows "fires (offline_raises s site thr asset) (offline_next s site thr) d is \<le> 1"
  using offline.at_most_once [OF never_rearms [OF assms]] .

text \<open>A fix at 0; it is reported silent at 700 s, acknowledged, and not reported again at 800 s, nor after retention.\<close>

definition silent_site :: retention_db where
  "silent_site = snd (insert_position (demo_archive\<lparr>positions := [], events := []\<rparr>) (demo_fix 0 0 0 None))"

lemma next_positions:
  "set (positions (offline_next s site thr d i)) \<subseteq> set (positions d) \<union> (case i of Fix_arrives q \<Rightarrow> {q} | _ \<Rightarrow> {})"
proof (cases i)
  case (Offline_check now)
  then show ?thesis by (auto simp: offline_next_def dest: detect_offline_Inr split: sum.splits)
qed (auto simp: offline_next_def insert_position_def persist_alarms run_retention_def kept purge_def Let_def)

lemma quiet_never_over:
  assumes "\<forall>q. Fix_arrives q \<notin> set is" and "\<forall>now. Offline_check now \<in> set is \<longrightarrow> (\<forall>q \<in> set (positions d). p_ts q \<le> now)"
  shows "never (outage_over site asset) (offline_next s site thr) d is"
  using assms
proof (induction "is" arbitrary: d)
  case (Cons i "is")
  have "set (positions (offline_next s site thr d i)) \<subseteq> set (positions d)"
    using next_positions [of s site thr d i] Cons.prems(1) by (cases i) auto
  then have "never (outage_over site asset) (offline_next s site thr) (offline_next s site thr d i) is"
    using Cons.prems by (intro Cons.IH) auto
  moreover have "\<not> outage_over site asset d i"
  proof (cases i)
    case (Offline_check now)
    then have "\<forall>q \<in> set (positions d). p_ts q \<le> now" using Cons.prems(2) by simp
    then show ?thesis using newest_fix_Some [of d site asset]
      by (auto simp: outage_over_def Offline_check not_less split: option.split)
  qed (use Cons.prems(1) in \<open>auto simp: outage_over_def\<close>)
  ultimately show ?case by simp
qed simp

theorem one_offline_alarm_per_outage_witness:
  "fires (offline_raises demo_settings ''s1'' 600 ''HT-01'') (offline_next demo_settings ''s1'' 600) silent_site
     [Offline_check (seconds 700), Acknowledged (seconds 750) ''ID0'' ''boss'', Offline_check (seconds 800),
      Retention_run demo_policy (seconds 86500), Offline_check (seconds 86600)] = 1"
proof -
  let ?is = "[Offline_check (seconds 700), Acknowledged (seconds 750) ''ID0'' ''boss'', Offline_check (seconds 800),
      Retention_run demo_policy (seconds 86500), Offline_check (seconds 86600)]"
  have d: "positions silent_site = [demo_fix 0 0 0 None]" "events silent_site = []"
    by (simp_all add: silent_site_def insert_position_def)
  have "fires (offline_raises demo_settings ''s1'' 600 ''HT-01'') (offline_next demo_settings ''s1'' 600) silent_site ?is \<le> 1"
    by (rule one_offline_alarm_per_outage [OF quiet_never_over])
      (auto simp: d demo_fix_def seconds_def alarms_outlive_fixes_def demo_policy_def)
  moreover have "offline_raises demo_settings ''s1'' 600 ''HT-01'' silent_site (Offline_check (seconds 700))"
  proof -
    have l: "latest_positions silent_site ''s1'' = [demo_fix 0 0 0 None]"
      using d by (simp add: latest_positions_def asset_ids_seen_def fixes_of_def demo_fix_def map_filter_simps)
    have due: "offline_due silent_site ''s1'' 600 (seconds 700) (demo_fix 0 0 0 None)"
      using d(2) by (simp add: offline_due_def demo_fix_def total_seconds_def seconds_def alarmed_since_def)
    have "ulid silent_site = ulid empty_db"
      by (simp add: silent_site_def insert_position_def mark_recompute_dirty_def demo_archive_def upkeep_db.extend_def
          demo_upkeep_def access_db.extend_def demo_gate_def breach_db.extend_def demo_register_def shift_db.extend_def
          demo_shifts_def feed_db.extend_def demo_feed_def db.extend_def Let_def)
    then have "\<forall>n. ulid silent_site n \<noteq> []" by (simp add: empty_db_def)
    then obtain evs d' where r: "detect_offline demo_settings silent_site ''s1'' (seconds 700) 600 = Inr (evs, d')"
      using detect_offline_total by blast
    with detect_offline_Inr [OF r] due have "map e_asset evs = [Some ''HT-01'']" unfolding l by (simp add: demo_fix_def)
    then have "Some ''HT-01'' \<in> set (map e_asset evs)" by simp
    then show ?thesis by (simp add: offline_raises_def r)
  qed
  ultimately show ?thesis by simp
qed

text \<open>
  When alarms are kept for less time than positions, the outage outlives its alarm: retention deletes it while
  the fix it followed stays, and the next check raises the alarm of the same outage again.
\<close>

lemma long_outage_alarms_again:
  assumes "newest_fix d site asset = Some q" and "total_seconds (later - p_ts q) > thr" "p_ignition q \<noteq> Some False"
    and "\<not> past now (positions_days p) (p_ts q)"
    and "\<forall>e \<in> set (events d). e_site e = site \<and> e_type e = ''asset_offline'' \<and> e_asset e = Some asset \<longrightarrow>
      past now (events_days p) (e_ts e) \<and> \<not> (\<exists>i \<in> set (rt_incidents d). i_event i = Some (e_id e))"
    and "detect_offline s (snd (run_retention p now now ''system'' d)) site later thr = Inr (evs, d')"
  shows "Some asset \<in> e_asset ` set evs"
proof -
  let ?d = "snd (run_retention p now now ''system'' d)"
  have newest: "newest_fix ?d site asset = Some q" using newest_fix_run [OF assms(1)] assms(4) by simp
  have "\<not> alarmed_since ?d site ''asset_offline'' (p_ts q) (Some asset) None"
    using assms(5) by (auto simp: alarmed_since_def list_ex_iff kept_records event_due_def)
  then have due: "offline_due ?d site thr later q" using newest_fix_Some [OF newest] assms(2,3) by (auto simp: offline_due_def)
  have "q \<in> set (latest_positions ?d site)"
    using newest newest_fix_Some [OF newest]
    by (force simp: latest_positions_def set_map_filter_Some asset_ids_seen_def newest_fix_def)
  then have "Some asset \<in> set (map e_asset evs)"
    using detect_offline_Inr [OF assms(6)] due newest_fix_Some [OF newest] by force
  then show ?thesis by simp
qed

end
