(* ===== verification/Spool.thy ===== *)
theory Spool
  imports Prelude
begin

text \<open>
  Store and forward: \<^verbatim>\<open>src/src/minemonitor/ingest/spool.py\<close> and the publisher of
  \<^verbatim>\<open>src/src/minemonitor/ingest/mqtt.py\<close> that drains it. The SQLite file is its two tables; each
  operation is one committed statement, so a power cut falls between operations (and between
  the two statements of a quarantine). What the broker does with a publish is an input: it
  acknowledges, it stays silent having received the message or not, or the client raises.
\<close>

section \<open>The spool\<close>

record spool =
  sp_next :: nat
  sp_rows :: "(nat \<times> string) list"
  sp_quarantine :: "(nat \<times> string \<times> string) list"

definition empty_spool :: spool where
  "empty_spool = \<lparr>sp_next = 1, sp_rows = [], sp_quarantine = []\<rparr>"

text \<open>The primary key is \<^verbatim>\<open>AUTOINCREMENT\<close>: an id is never used again.\<close>

definition append_entry :: "spool \<Rightarrow> string \<Rightarrow> nat \<times> spool" where
  "append_entry s payload =
     (sp_next s, s\<lparr>sp_next := sp_next s + 1, sp_rows := sp_rows s @ [(sp_next s, payload)]\<rparr>)"

definition peek :: "spool \<Rightarrow> nat \<Rightarrow> (nat \<times> string) list" where
  "peek s limit = take limit (sort_key fst (sp_rows s))"

definition delete_entries :: "spool \<Rightarrow> nat list \<Rightarrow> spool" where
  "delete_entries s ids = s\<lparr>sp_rows := filter (\<lambda>(i, _). i \<notin> set ids) (sp_rows s)\<rparr>"

definition quarantine_copy :: "spool \<Rightarrow> nat \<Rightarrow> string \<Rightarrow> spool" where
  "quarantine_copy s i reason =
     (case map_of (sp_rows s) i of
        None \<Rightarrow> s
      | Some payload \<Rightarrow> s\<lparr>sp_quarantine := dict_put i (payload, reason) (sp_quarantine s)\<rparr>)"

definition quarantine :: "spool \<Rightarrow> nat \<Rightarrow> string \<Rightarrow> spool" where
  "quarantine s i reason = delete_entries (quarantine_copy s i reason) [i]"

definition quarantined :: "spool \<Rightarrow> (nat \<times> string \<times> string) list" where
  "quarantined s = sort_key fst (sp_quarantine s)"

definition spool_len :: "spool \<Rightarrow> nat" where
  "spool_len s = length (sp_rows s)"

section \<open>The publisher\<close>

type_synonym message = "string \<times> string"

datatype delivery = Acked | Unacked bool | Raised bool

definition position_topic :: "string \<Rightarrow> string \<Rightarrow> string \<Rightarrow> string" where
  "position_topic prefix site asset = prefix @ ''/'' @ site @ ''/'' @ asset @ ''/position''"

text \<open>
  One pass over the entries read. \<open>check\<close> is the validation of a payload: the reason it is
  refused, or the site and asset it names. The result says whether the pass ended normally,
  which entries were acknowledged, and what the spool and the broker hold.
\<close>

fun drain_loop ::
  "(string \<Rightarrow> string + (string \<times> string)) \<Rightarrow> string \<Rightarrow> delivery list \<Rightarrow> (nat \<times> string) list \<Rightarrow> nat list
    \<Rightarrow> spool \<Rightarrow> message list \<Rightarrow> bool \<times> nat list \<times> spool \<times> message list" where
  "drain_loop check prefix outs [] done s box = (True, done, s, box)"
| "drain_loop check prefix outs ((i, raw) # es) done s box =
     (case check raw of
        Inl reason \<Rightarrow> drain_loop check prefix outs es done (quarantine s i reason) box
      | Inr (site, asset) \<Rightarrow>
          let msg = (position_topic prefix site asset, raw)
          in case outs of
               Acked # os \<Rightarrow> drain_loop check prefix os es (done @ [i]) s (box @ [msg])
             | Unacked arrived # os \<Rightarrow> (True, done, s, if arrived then box @ [msg] else box)
             | Raised arrived # os \<Rightarrow> (False, done, s, if arrived then box @ [msg] else box)
             | [] \<Rightarrow> (True, done, s, box))"

definition drain_once ::
  "(string \<Rightarrow> string + (string \<times> string)) \<Rightarrow> string \<Rightarrow> delivery list \<Rightarrow> nat \<Rightarrow> spool \<Rightarrow> message list
    \<Rightarrow> nat option \<times> spool \<times> message list" where
  "drain_once check prefix outs batch s box =
     (case drain_loop check prefix outs (peek s batch) [] s box of
        (True, done, s', box') \<Rightarrow> (Some (length done), delete_entries s' done, box')
      | (False, _, s', box') \<Rightarrow> (None, s', box'))"

section \<open>Runs of the publisher\<close>

text \<open>
  The state of a publisher: its spool, what the broker has received, and every entry ever
  handed to \<^verbatim>\<open>publish_position\<close>. A drain may be cut short anywhere by a power cut.
\<close>

record pub_state =
  pub_spool :: spool
  broker :: "message list"
  handed :: "(nat \<times> string) list"

inductive pub_step ::
  "(string \<Rightarrow> string + (string \<times> string)) \<Rightarrow> string \<Rightarrow> pub_state \<Rightarrow> pub_state \<Rightarrow> bool"
  for check prefix where
  publish_position: "append_entry (pub_spool p) raw = (i, s) \<Longrightarrow>
     pub_step check prefix p (p\<lparr>pub_spool := s, handed := handed p @ [(i, raw)]\<rparr>)"
| drained: "drain_once check prefix outs batch (pub_spool p) (broker p) = (n, s, box) \<Longrightarrow>
     pub_step check prefix p (p\<lparr>pub_spool := s, broker := box\<rparr>)"
| cut_in_drain: "drain_loop check prefix outs (take k (peek (pub_spool p) batch)) [] (pub_spool p) (broker p) =
       (ok, done, s, box) \<Longrightarrow>
     pub_step check prefix p (p\<lparr>pub_spool := s, broker := box\<rparr>)"
| cut_in_quarantine: "(i, raw) \<in> set (sp_rows (pub_spool p)) \<Longrightarrow> check raw = Inl reason \<Longrightarrow>
     pub_step check prefix p (p\<lparr>pub_spool := quarantine_copy (pub_spool p) i reason\<rparr>)"

inductive_cases pub_stepE: "pub_step check prefix p q"

definition pub_start :: pub_state where
  "pub_start = \<lparr>pub_spool = empty_spool, broker = [], handed = []\<rparr>"

text \<open>Where an entry may be: still in the spool, with the broker, or set aside as invalid.\<close>

definition delivered :: "(string \<Rightarrow> string + (string \<times> string)) \<Rightarrow> string \<Rightarrow> message list \<Rightarrow> string \<Rightarrow> bool" where
  "delivered check prefix box raw \<longleftrightarrow>
     (\<exists>site asset. check raw = Inr (site, asset) \<and> (position_topic prefix site asset, raw) \<in> set box)"

definition set_aside :: "(string \<Rightarrow> string + (string \<times> string)) \<Rightarrow> spool \<Rightarrow> nat \<times> string \<Rightarrow> bool" where
  "set_aside check s e \<longleftrightarrow>
     (\<exists>reason. check (snd e) = Inl reason \<and> map_of (sp_quarantine s) (fst e) = Some (snd e, reason))"

definition accounted :: "(string \<Rightarrow> string + (string \<times> string)) \<Rightarrow> string \<Rightarrow> pub_state \<Rightarrow> nat \<times> string \<Rightarrow> bool" where
  "accounted check prefix p e \<longleftrightarrow>
     e \<in> set (sp_rows (pub_spool p)) \<or> delivered check prefix (broker p) (snd e) \<or> set_aside check (pub_spool p) e"

lemma delivered_mono: "set box \<subseteq> set box' \<Longrightarrow> delivered check prefix box raw \<Longrightarrow> delivered check prefix box' raw"
  by (auto simp: delivered_def)

lemma delete_simps [simp]:
  "sp_next (delete_entries s ids) = sp_next s" "sp_quarantine (delete_entries s ids) = sp_quarantine s"
  "set (sp_rows (delete_entries s ids)) = {e \<in> set (sp_rows s). fst e \<notin> set ids}"
  by (auto simp: delete_entries_def)

lemma copy_simps [simp]:
  "sp_next (quarantine_copy s i reason) = sp_next s" "sp_rows (quarantine_copy s i reason) = sp_rows s"
  by (simp_all add: quarantine_copy_def split: option.split)

lemma quarantine_simps [simp]:
  "sp_next (quarantine s i reason) = sp_next s"
  "set (sp_rows (quarantine s i reason)) = {e \<in> set (sp_rows s). fst e \<noteq> i}"
  "set_aside check (quarantine s i reason) e = set_aside check (quarantine_copy s i reason) e"
  by (auto simp: quarantine_def set_aside_def)

text \<open>\<open>H\<close> is every entry ever handed over; an id names one of them.\<close>

lemma row_lookup:
  assumes "inj_on fst H" and "set (sp_rows s) \<subseteq> H" and "(i, raw) \<in> set (sp_rows s)"
  shows "map_of (sp_rows s) i = Some raw"
proof -
  obtain raw' where r: "map_of (sp_rows s) i = Some raw'"
    using assms(3) weak_map_of_SomeI by fastforce
  then have "(i, raw') \<in> set (sp_rows s)" by (rule map_of_SomeD)
  then have "(i, raw') = (i, raw)" using assms by (intro inj_onD [OF assms(1)]) auto
  with r show ?thesis by simp
qed

lemma copy_set_aside:
  assumes "inj_on fst H" and "set (sp_rows s) \<subseteq> H" and "(i, raw) \<in> set (sp_rows s)" and "check raw = Inl reason"
  shows "set_aside check (quarantine_copy s i reason) (i, raw)"
    and "e \<in> H \<Longrightarrow> set_aside check s e \<Longrightarrow> set_aside check (quarantine_copy s i reason) e"
proof -
  have q: "map_of (sp_quarantine (quarantine_copy s i reason)) = (map_of (sp_quarantine s))(i \<mapsto> (raw, reason))"
    using row_lookup [OF assms(1-3)] by (simp add: quarantine_copy_def)
  then show "set_aside check (quarantine_copy s i reason) (i, raw)"
    using assms(4) by (simp add: set_aside_def)
  assume e: "e \<in> H" "set_aside check s e"
  show "set_aside check (quarantine_copy s i reason) e"
  proof (cases "fst e = i")
    case True
    then have "e = (i, raw)" using inj_onD [OF assms(1), of e "(i, raw)"] e assms(2,3) by auto
    then show ?thesis using q assms(4) by (simp add: set_aside_def)
  qed (use e q in \<open>simp add: set_aside_def\<close>)
qed

lemma drain_loop_accounts:
  assumes "inj_on fst H" and "set (sp_rows s) \<subseteq> H" and "set es \<subseteq> set (sp_rows s)" and "distinct (map fst es)"
    and "\<forall>e \<in> set (sp_rows s). fst e \<in> set acked \<longrightarrow> delivered check prefix box (snd e)"
    and "drain_loop check prefix outs es acked s box = (ok, acked', s', box')"
  shows "set box \<subseteq> set box' \<and> set (sp_rows s') \<subseteq> set (sp_rows s) \<and> sp_next s' = sp_next s \<and>
    (\<forall>e \<in> set (sp_rows s). e \<in> set (sp_rows s') \<or> set_aside check s' e) \<and>
    (\<forall>e \<in> H. set_aside check s e \<longrightarrow> set_aside check s' e) \<and>
    (\<forall>e \<in> set (sp_rows s'). fst e \<in> set acked' \<longrightarrow> delivered check prefix box' (snd e))"
  using assms(2-)
proof (induction es arbitrary: outs acked s box)
  case Nil
  then show ?case by auto
next
  case (Cons e es)
  obtain i raw where e: "e = (i, raw)" by fastforce
  have mem: "(i, raw) \<in> set (sp_rows s)" using Cons.prems(2) e by simp
  show ?case
  proof (cases "check raw")
    case (Inl reason)
    let ?s = "quarantine s i reason"
    note aside = copy_set_aside [where check = check, OF assms(1) Cons.prems(1) mem Inl]
    have rest: "set es \<subseteq> set (sp_rows ?s)" using Cons.prems(2,3) e by (auto simp: rev_image_eqI)
    have run: "drain_loop check prefix outs es acked ?s box = (ok, acked', s', box')"
      using Cons.prems(5) Inl e by simp
    have "set (sp_rows ?s) \<subseteq> H" using Cons.prems(1) by auto
    moreover have "\<forall>e \<in> set (sp_rows ?s). fst e \<in> set acked \<longrightarrow> delivered check prefix box (snd e)"
      using Cons.prems(4) by auto
    moreover have "distinct (map fst es)" using Cons.prems(3) by simp
    ultimately have ih: "set box \<subseteq> set box' \<and> set (sp_rows s') \<subseteq> set (sp_rows ?s) \<and> sp_next s' = sp_next ?s \<and>
      (\<forall>e \<in> set (sp_rows ?s). e \<in> set (sp_rows s') \<or> set_aside check s' e) \<and>
      (\<forall>e \<in> H. set_aside check ?s e \<longrightarrow> set_aside check s' e) \<and>
      (\<forall>e \<in> set (sp_rows s'). fst e \<in> set acked' \<longrightarrow> delivered check prefix box' (snd e))"
      using Cons.IH [OF _ rest _ _ run] by blast
    have "e' \<in> set (sp_rows s') \<or> set_aside check s' e'" if m: "e' \<in> set (sp_rows s)" for e'
    proof (cases "fst e' = i")
      case True
      then have "e' = (i, raw)"
        using inj_onD [OF assms(1), of e' "(i, raw)"] m mem Cons.prems(1) by auto
      then show ?thesis using ih aside(1) mem Cons.prems(1) by auto
    qed (use ih m in \<open>cases e', auto\<close>)
    moreover have "set_aside check s e' \<longrightarrow> set_aside check s' e'" if "e' \<in> H" for e'
      using ih aside(2) that by auto
    ultimately show ?thesis using ih by auto
  next
    case (Inr sa)
    obtain site asset where sa: "sa = (site, asset)" by fastforce
    let ?msg = "(position_topic prefix site asset, raw)"
    note prems = Cons.prems and IH = Cons.IH
    show ?thesis
    proof (cases outs)
      case Nil
      then show ?thesis using prems(4,5) Inr sa e by auto
    next
      case (Cons out os)
      have dl: "delivered check prefix (box @ [?msg]) raw" using Inr sa by (auto simp: delivered_def)
      have mono: "delivered check prefix (box @ [?msg]) r" if "delivered check prefix box r" for r
        using that by (auto simp: delivered_def)
      show ?thesis
      proof (cases out)
        case Acked
        have run: "drain_loop check prefix os es (acked @ [i]) s (box @ [?msg]) = (ok, acked', s', box')"
          using prems(5) Inr sa e Cons Acked by simp
        have "\<forall>e \<in> set (sp_rows s). fst e \<in> set (acked @ [i]) \<longrightarrow> delivered check prefix (box @ [?msg]) (snd e)"
        proof (intro ballI impI)
          fix e' assume e': "e' \<in> set (sp_rows s)" "fst e' \<in> set (acked @ [i])"
          show "delivered check prefix (box @ [?msg]) (snd e')"
          proof (cases "fst e' = i")
            case True
            then have "e' = (i, raw)"
              using inj_onD [OF assms(1), of e' "(i, raw)"] e'(1) mem prems(1) by auto
            then show ?thesis using dl by simp
          qed (use e' prems(4) mono in auto)
        qed
        from IH [OF prems(1) _ _ this run] show ?thesis using prems(2,3) by auto
      next
        case (Unacked b)
        then show ?thesis using prems(4,5) Inr sa e Cons mono by (cases b) auto
      next
        case (Raised b)
        then show ?thesis using prems(4,5) Inr sa e Cons mono by (cases b) auto
      qed
    qed
  qed
qed

lemma drain_loop_rows:
  "drain_loop check prefix outs es acked s box = (ok, acked', s', box') \<Longrightarrow> \<exists>P. sp_rows s' = filter P (sp_rows s)"
proof (induction check prefix outs es acked s box rule: drain_loop.induct)
  case (1 check prefix outs acked s box)
  then have "sp_rows s' = filter (\<lambda>_. True) (sp_rows s)" by simp
  then show ?case by blast
next
  case (2 check prefix outs i raw es acked s box)
  have id: "\<exists>P. xs = filter P xs" for xs :: "(nat \<times> string) list"
    by (rule exI [of _ "\<lambda>_. True"]) simp
  have q: "\<exists>P. sp_rows (quarantine s i r) = filter P (sp_rows s)" for r
    by (auto simp: quarantine_def delete_entries_def)
  show ?case
  proof (cases "check raw")
    case (Inl reason)
    with 2 obtain P where "sp_rows s' = filter P (sp_rows (quarantine s i reason))" by auto
    with q [of reason] show ?thesis by (metis filter_filter)
  next
    case (Inr sa)
    note prems = 2
    show ?thesis
    proof (cases outs)
      case (Cons out os)
      show ?thesis
      proof (cases out)
        case Acked
        with prems Inr Cons show ?thesis by (auto simp: Let_def split: prod.splits)
      qed (use prems Inr Cons in \<open>auto simp: Let_def intro: id split: prod.splits\<close>)
    qed (use prems Inr in \<open>auto simp: Let_def intro: id split: prod.splits\<close>)
  qed
qed

text \<open>The messages the entries of a batch may put on the broker.\<close>

definition messages_of ::
  "(string \<Rightarrow> string + (string \<times> string)) \<Rightarrow> string \<Rightarrow> (nat \<times> string) set \<Rightarrow> message set" where
  "messages_of check prefix es =
     {(position_topic prefix site asset, raw) | i raw site asset. (i, raw) \<in> es \<and> check raw = Inr (site, asset)}"

lemma messages_of_mono: "es \<subseteq> es' \<Longrightarrow> messages_of check prefix es \<subseteq> messages_of check prefix es'"
  unfolding messages_of_def by blast

lemma messages_of_mem: "(i, raw) \<in> es \<Longrightarrow> check raw = Inr (site, asset) \<Longrightarrow>
    (position_topic prefix site asset, raw) \<in> messages_of check prefix es"
  by (auto simp: messages_of_def)

lemma drain_loop_box:
  "drain_loop check prefix outs es acked s box = (ok, acked', s', box') \<Longrightarrow>
     set box' \<subseteq> set box \<union> messages_of check prefix (set es)"
proof (induction es arbitrary: outs acked s box)
  case (Cons e es)
  obtain i raw where e: "e = (i, raw)" by fastforce
  have mono: "messages_of check prefix (set es) \<subseteq> messages_of check prefix (set (e # es))"
    by (rule messages_of_mono) auto
  show ?case
  proof (cases "check raw")
    case (Inl reason)
    then show ?thesis using Cons.IH Cons.prems e mono by fastforce
  next
    case (Inr sa)
    obtain site asset where sa: "sa = (site, asset)" by fastforce
    have msg: "(position_topic prefix site asset, raw) \<in> messages_of check prefix (set (e # es))"
      using Inr sa e by (intro messages_of_mem [of i]) auto
    note prems = Cons.prems and IH = Cons.IH
    show ?thesis
    proof (cases outs)
      case (Cons out os)
      show ?thesis
      proof (cases out)
        case Acked
        then have "set box' \<subseteq> set (box @ [(position_topic prefix site asset, raw)]) \<union> messages_of check prefix (set es)"
          using prems Inr sa e Cons by (intro IH) (simp add: Let_def)
        then show ?thesis using msg mono by auto
      qed (use prems Inr sa e Cons msg in \<open>auto split: if_splits\<close>)
    qed (use prems Inr sa e in auto)
  qed
qed simp

section \<open>Nothing handed over is lost\<close>

definition pub_inv :: "(string \<Rightarrow> string + (string \<times> string)) \<Rightarrow> string \<Rightarrow> pub_state \<Rightarrow> bool" where
  "pub_inv check prefix p \<longleftrightarrow>
     inj_on fst (set (handed p)) \<and> (\<forall>e \<in> set (handed p). fst e < sp_next (pub_spool p)) \<and>
     set (sp_rows (pub_spool p)) \<subseteq> set (handed p) \<and> sorted_wrt (<) (map fst (sp_rows (pub_spool p))) \<and>
     (\<forall>e \<in> set (handed p). accounted check prefix p e) \<and>
     set (broker p) \<subseteq> messages_of check prefix (set (handed p))"

lemma pub_inv_start: "pub_inv check prefix pub_start"
  by (simp add: pub_inv_def pub_start_def empty_spool_def)

lemma peek_in_order: "sorted_wrt (<) (map fst (sp_rows s)) \<Longrightarrow> peek s n = take n (sp_rows s)"
  by (simp add: peek_def sort_key_id_if_sorted sorted_wrt_mono_rel [of _ "(<)" "(\<le>)"])

text \<open>What every way of running a drain has in common.\<close>

lemma pub_inv_after_loop:
  assumes inv: "pub_inv check prefix p"
    and run: "drain_loop check prefix outs (take k (peek (pub_spool p) batch)) [] (pub_spool p) (broker p) = (ok, acked, s, box)"
    and ids: "set ids \<subseteq> set acked"
  shows "pub_inv check prefix (p\<lparr>pub_spool := delete_entries s ids, broker := box\<rparr>)"
proof -
  let ?s = "pub_spool p" and ?H = "set (handed p)"
  have i: "inj_on fst ?H" "set (sp_rows ?s) \<subseteq> ?H" "sorted_wrt (<) (map fst (sp_rows ?s))"
    "\<forall>e \<in> ?H. fst e < sp_next ?s" "\<forall>e \<in> ?H. accounted check prefix p e"
    using inv by (auto simp: pub_inv_def)
  have es: "take k (peek ?s batch) = take k (take batch (sp_rows ?s))" by (simp add: peek_in_order [OF i(3)])
  then have sub: "set (take k (peek ?s batch)) \<subseteq> set (sp_rows ?s)" by (auto dest: in_set_takeD)
  have "distinct (map fst (sp_rows ?s))" using i(3) strict_sorted_iff by blast
  then have "distinct (map fst (take k (peek ?s batch)))" unfolding es by (simp flip: take_map)
  from drain_loop_accounts [OF i(1,2) sub this _ run]
  have acc: "set (broker p) \<subseteq> set box" "set (sp_rows s) \<subseteq> set (sp_rows ?s)" "sp_next s = sp_next ?s"
    "\<forall>e \<in> set (sp_rows ?s). e \<in> set (sp_rows s) \<or> set_aside check s e"
    "\<forall>e \<in> ?H. set_aside check ?s e \<longrightarrow> set_aside check s e"
    "\<forall>e \<in> set (sp_rows s). fst e \<in> set acked \<longrightarrow> delivered check prefix box (snd e)" by auto
  obtain P where "sp_rows s = filter P (sp_rows ?s)" using drain_loop_rows [OF run] by blast
  then obtain Q where rows: "sp_rows (delete_entries s ids) = filter Q (sp_rows ?s)" by (auto simp: delete_entries_def)
  have "sorted_wrt (<) (map fst (filter Q (sp_rows ?s)))"
    using i(3) by (simp add: sorted_wrt_map sorted_wrt_filter)
  moreover have "accounted check prefix (p\<lparr>pub_spool := delete_entries s ids, broker := box\<rparr>) e" if e: "e \<in> ?H" for e
  proof -
    consider "e \<in> set (sp_rows ?s)" | "delivered check prefix (broker p) (snd e)" | "set_aside check ?s e"
      using i(5) e by (auto simp: accounted_def)
    then show ?thesis
    proof cases
      case 1
      then show ?thesis
        using acc(4,6) ids by (fastforce simp: accounted_def set_aside_def)
    next
      case 2
      then show ?thesis using delivered_mono [OF acc(1)] by (simp add: accounted_def)
    next
      case 3
      then show ?thesis using acc(5) e by (simp add: accounted_def set_aside_def)
    qed
  qed
  moreover have "set box \<subseteq> messages_of check prefix ?H"
    using drain_loop_box [OF run] messages_of_mono [OF order_trans [OF sub i(2)], of check prefix] inv
    unfolding pub_inv_def by blast
  ultimately show ?thesis
    using i acc(2,3) rows by (auto simp: pub_inv_def)
qed

lemma delete_none [simp]: "delete_entries s [] = s"
  by (simp add: delete_entries_def)

lemma pub_inv_step:
  assumes "pub_inv check prefix p" and "pub_step check prefix p q"
  shows "pub_inv check prefix q"
  using assms(2,1)
proof (cases rule: pub_step.cases)
  case (publish_position raw i s)
  let ?e = "(sp_next (pub_spool p), raw)"
  have q: "handed q = handed p @ [?e]" "broker q = broker p" "sp_next (pub_spool q) = Suc (sp_next (pub_spool p))"
    "sp_rows (pub_spool q) = sp_rows (pub_spool p) @ [?e]" "sp_quarantine (pub_spool q) = sp_quarantine (pub_spool p)"
    using publish_position by (auto simp: append_entry_def)
  note inv = assms(1) [unfolded pub_inv_def]
  have fresh: "\<forall>e \<in> set (handed p). fst e \<noteq> sp_next (pub_spool p)" using inv by auto
  have "\<forall>e \<in> set (sp_rows (pub_spool p)). fst e < sp_next (pub_spool p)" using inv by blast
  then have "sorted_wrt (<) (map fst (sp_rows (pub_spool q)))" using inv by (simp add: q sorted_wrt_append)
  moreover have "inj_on fst (set (handed q))" using inv fresh by (auto simp: q)
  moreover have "accounted check prefix q e" if "e \<in> set (handed q)" for e
    using inv that by (auto simp: q accounted_def set_aside_def)
  moreover have "set (broker q) \<subseteq> messages_of check prefix (set (handed q))"
  proof -
    have "set (handed p) \<subseteq> set (handed q)" by (auto simp: q)
    from messages_of_mono [OF this, of check prefix] inv show ?thesis unfolding q(2) by blast
  qed
  ultimately show ?thesis using inv unfolding pub_inv_def q by auto
next
  case (drained outs batch n s box)
  obtain ok acked s0 box0 where run: "drain_loop check prefix outs (peek (pub_spool p) batch) [] (pub_spool p) (broker p) =
      (ok, acked, s0, box0)" by (metis prod_cases4)
  have after: "pub_inv check prefix (p\<lparr>pub_spool := delete_entries s0 ids, broker := box0\<rparr>)" if "set ids \<subseteq> set acked" for ids
    using pub_inv_after_loop [OF assms(1), of outs "length (peek (pub_spool p) batch)" batch ok acked s0 box0] run that by simp
  show ?thesis
    using drained run after [of acked] after [of "[]"] by (cases ok) (auto simp: drain_once_def)
next
  case (cut_in_drain outs k batch ok acked s box)
  from pub_inv_after_loop [OF assms(1) cut_in_drain(2), of "[]"] show ?thesis using cut_in_drain(1) by simp
next
  case (cut_in_quarantine i raw reason)
  have H: "inj_on fst (set (handed p))" "set (sp_rows (pub_spool p)) \<subseteq> set (handed p)"
    using assms(1) by (auto simp: pub_inv_def)
  from copy_set_aside(2) [where check = check, OF H cut_in_quarantine(2,3)] assms(1) show ?thesis
    by (auto simp: cut_in_quarantine(1) pub_inv_def accounted_def)
qed

interpretation publisher: custody "pub_step check prefix" "pub_inv check prefix" "\<lambda>p. set (handed p)"
  "accounted check prefix"
proof
  show "pub_step check prefix s t \<Longrightarrow> set (handed s) \<subseteq> set (handed t)" for s t
    by (cases rule: pub_step.cases) auto
  show "pub_inv check prefix s \<Longrightarrow> e \<in> set (handed s) \<Longrightarrow> accounted check prefix s e" for s e
    by (simp add: pub_inv_def)
qed (rule pub_inv_step)

text \<open>A position handed to the publisher is never lost. Whatever the broker does and
  wherever the power is cut, it is in the spool, it has reached the broker under its own topic,
  or it was refused by validation and stands in quarantine with the reason; and the broker
  holds nothing that was not handed over.\<close>

theorem published_positions_never_lost:
  assumes "(pub_step check prefix)\<^sup>*\<^sup>* pub_start p"
  shows "(\<forall>e \<in> set (handed p). \<forall>q. (pub_step check prefix)\<^sup>*\<^sup>* p q \<longrightarrow> accounted check prefix q e) \<and>
    set (broker p) \<subseteq> messages_of check prefix (set (handed p))"
proof -
  have inv: "pub_inv check prefix p" using publisher.reach [OF assms pub_inv_start] by blast
  then show ?thesis using publisher.never_lost [OF inv] by (auto simp: pub_inv_def)
qed

definition demo_check :: "string \<Rightarrow> string + (string \<times> string)" where
  "demo_check raw = (if raw = ''bad'' then Inl ''lat'' else Inr (''s1'', raw))"

theorem published_positions_never_lost_witness:
  "\<exists>p. (pub_step demo_check ''mm'')\<^sup>*\<^sup>* pub_start p \<and> handed p = [(1, ''a1'')] \<and>
     accounted demo_check ''mm'' p (1, ''a1'')"
proof -
  let ?p = "pub_start\<lparr>pub_spool := snd (append_entry empty_spool ''a1''), handed := [(1, ''a1'')]\<rparr>"
  have "pub_step demo_check ''mm'' pub_start ?p"
    using pub_step.publish_position [of pub_start "''a1''" 1 "snd (append_entry empty_spool ''a1'')" demo_check "''mm''"]
    by (simp add: pub_start_def append_entry_def empty_spool_def)
  then have r: "(pub_step demo_check ''mm'')\<^sup>*\<^sup>* pub_start ?p" by blast
  with published_positions_never_lost [OF r] show ?thesis by auto
qed

section \<open>A connected publisher empties its spool in order\<close>

definition as_message :: "(string \<Rightarrow> string + (string \<times> string)) \<Rightarrow> string \<Rightarrow> nat \<times> string \<Rightarrow> message option" where
  "as_message check prefix e =
     (case check (snd e) of Inl _ \<Rightarrow> None | Inr (site, asset) \<Rightarrow> Some (position_topic prefix site asset, snd e))"

lemma drain_loop_all_acked:
  "length es \<le> n \<Longrightarrow>
   \<exists>s'. drain_loop check prefix (replicate n Acked) es acked s box =
     (True, acked @ map fst (filter (\<lambda>e. as_message check prefix e \<noteq> None) es), s',
      box @ List.map_filter (as_message check prefix) es) \<and>
     sp_rows s' = filter (\<lambda>r. fst r \<notin> fst ` {e \<in> set es. as_message check prefix e = None}) (sp_rows s)"
proof (induction es arbitrary: n acked s box)
  case (Cons e es)
  obtain i raw m where e: "e = (i, raw)" "n = Suc m" "length es \<le> m"
    using Cons.prems by (cases e; cases n) auto
  show ?case
  proof (cases "check raw")
    case (Inl reason)
    then have msg: "as_message check prefix e = None" by (simp add: as_message_def e)
    have "sp_rows (quarantine s i reason) = filter (\<lambda>r. fst r \<noteq> i) (sp_rows s)"
      by (simp add: quarantine_def delete_entries_def case_prod_unfold)
    moreover have "fst ` {e' \<in> set (e # es). as_message check prefix e' = None} =
        insert i (fst ` {e' \<in> set es. as_message check prefix e' = None})"
      using msg e by force
    ultimately show ?thesis
      using Cons.IH [of n acked "quarantine s i reason" box] Cons.prems Inl msg e
      by (auto simp: map_filter_simps)
  next
    case (Inr sa)
    then have msg: "as_message check prefix e = Some (position_topic prefix (fst sa) (snd sa), raw)"
      by (simp add: as_message_def e split: prod.split)
    have "{e' \<in> set (e # es). as_message check prefix e' = None} = {e' \<in> set es. as_message check prefix e' = None}"
      using msg by auto
    with Cons.IH [OF e(3), of "acked @ [i]" s "box @ [(position_topic prefix (fst sa) (snd sa), raw)]"] Inr msg e
    show ?thesis by (auto simp: map_filter_simps split: prod.splits)
  qed
qed (simp add: map_filter_simps)

text \<open>While the broker acknowledges, each drain forwards the oldest batch of the spool,
  valid entries in the order they were handed over and invalid ones to quarantine, and takes
  exactly these out, so a spool of any length is empty after finitely many drains.\<close>

theorem acknowledged_drain_forwards_in_order:
  assumes "sorted_wrt (<) (map fst (sp_rows s))" and "batch \<le> n"
  shows "\<exists>k s'. drain_once check prefix (replicate n Acked) batch s box =
      (Some k, s', box @ List.map_filter (as_message check prefix) (take batch (sp_rows s))) \<and>
    sp_rows s' = drop batch (sp_rows s)"
proof -
  let ?es = "take batch (sp_rows s)"
  have pk: "peek s batch = ?es" by (rule peek_in_order [OF assms(1)])
  have "length ?es \<le> n" using assms(2) by simp
  from drain_loop_all_acked [OF this, of check prefix "[]" s box] obtain s' where
    run: "drain_loop check prefix (replicate n Acked) ?es [] s box =
      (True, map fst (filter (\<lambda>e. as_message check prefix e \<noteq> None) ?es), s',
       box @ List.map_filter (as_message check prefix) ?es)"
    and rows: "sp_rows s' = filter (\<lambda>r. fst r \<notin> fst ` {e \<in> set ?es. as_message check prefix e = None}) (sp_rows s)"
    by auto
  let ?ids = "map fst (filter (\<lambda>e. as_message check prefix e \<noteq> None) ?es)"
  have split: "fst ` set ?es = fst ` {e \<in> set ?es. as_message check prefix e = None} \<union> set ?ids"
    by (auto simp: image_iff)
  have "sp_rows (delete_entries s' ?ids) = filter (\<lambda>r. fst r \<notin> fst ` set ?es) (sp_rows s)"
    unfolding split by (simp add: delete_entries_def rows case_prod_unfold del: set_map set_filter)
  also have "\<dots> = drop batch (sp_rows s)"
  proof -
    have d: "distinct (map fst (take batch (sp_rows s) @ drop batch (sp_rows s)))"
      using assms(1) strict_sorted_iff [of "map fst (sp_rows s)"] by simp
    have "filter (\<lambda>r. fst r \<notin> fst ` set ?es) (drop batch (sp_rows s)) = drop batch (sp_rows s)"
      using d unfolding map_append distinct_append by (intro filter_True) auto
    moreover have "filter (\<lambda>r. fst r \<notin> fst ` set ?es) ?es = []" by (simp add: filter_empty_conv)
    ultimately show ?thesis by (metis append_Nil append_take_drop_id filter_append)
  qed
  finally show ?thesis using run by (auto simp: drain_once_def pk)
qed

theorem acknowledged_drain_forwards_in_order_witness:
  "\<exists>k s'. drain_once demo_check ''mm'' [Acked, Acked] 2
      \<lparr>sp_next = 4, sp_rows = [(1, ''a1''), (2, ''bad''), (3, ''a2'')], sp_quarantine = []\<rparr> [] =
      (Some k, s', [(''mm/s1/a1/position'', ''a1'')]) \<and> sp_rows s' = [(3, ''a2'')]"
  using acknowledged_drain_forwards_in_order [of "\<lparr>sp_next = 4, sp_rows = [(1, ''a1''), (2, ''bad''), (3, ''a2'')],
      sp_quarantine = []\<rparr>" 2 2 demo_check "''mm''" "[]"]
  by (simp add: map_filter_simps as_message_def demo_check_def position_topic_def numeral_2_eq_2)

end
