(* ===== verification/Devices.thy ===== *)
theory Devices
  imports Auth Spool
begin

text \<open>
  Device provisioning: \<^verbatim>\<open>src/src/minemonitor/devices/service.py\<close>, the broker's access list and
  password file (\<^verbatim>\<open>acl.py\<close>, \<^verbatim>\<open>broker_config.py\<close>). The devices table is a list of rows; what the broker
  makes of the files is its own affair, so the topic each device is confined to is kept as a
  function of its row. (The dash of the generated comment is written in ASCII.) \<open>pw_hash\<close> is \<^verbatim>\<open>mosquitto_password_hash\<close> of a fresh secret.
\<close>

record device =
  d_id :: string
  d_site :: string
  d_asset :: string
  d_enabled :: bool
  d_source :: "string option"
  d_interval :: "int option"
  d_created :: time
  d_note :: "string option"
  d_pw_hash :: "string option"

type_synonym devices = "device list"

definition vision_edge_source :: string where
  "vision_edge_source = ''vision-edge''"

definition get_device :: "devices \<Rightarrow> string \<Rightarrow> device option" where
  "get_device ds i = List.find (\<lambda>d. d_id d = i) ds"

definition put_device :: "device \<Rightarrow> devices \<Rightarrow> devices" where
  "put_device dev ds =
     (if get_device ds (d_id dev) = None then ds @ [dev]
      else map (\<lambda>d. if d_id d = d_id dev then dev else d) ds)"

definition register_device ::
  "devices \<Rightarrow> time \<Rightarrow> string \<Rightarrow> string \<Rightarrow> string \<Rightarrow> string option \<Rightarrow> int option \<Rightarrow> string option
    \<Rightarrow> py_error + (device \<times> devices)" where
  "register_device ds now i site asset source interval note =
     (case List.find (\<lambda>d. d_site d = site \<and> d_asset d = asset) ds of
        Some bound \<Rightarrow>
          if d_id bound \<noteq> i then Inl ValueError
          else let dev = bound\<lparr>d_site := site, d_asset := asset, d_source := source, d_interval := interval,
                     d_note := note, d_enabled := True\<rparr>
               in Inr (dev, put_device dev ds)
      | None \<Rightarrow>
          let base = (case get_device ds i of
                Some d \<Rightarrow> d
              | None \<Rightarrow> \<lparr>d_id = i, d_site = site, d_asset = asset, d_enabled = True, d_source = None,
                   d_interval = None, d_created = now, d_note = None, d_pw_hash = None\<rparr>);
              dev = base\<lparr>d_site := site, d_asset := asset, d_source := source, d_interval := interval,
                      d_note := note, d_enabled := True\<rparr>
          in Inr (dev, put_device dev ds))"

definition resolve_imei :: "devices \<Rightarrow> string \<Rightarrow> device option" where
  "resolve_imei ds imei = (case get_device ds imei of Some d \<Rightarrow> if d_enabled d then Some d else None | None \<Rightarrow> None)"

definition list_devices :: "devices \<Rightarrow> string \<Rightarrow> devices" where
  "list_devices ds site = sort_key d_id (filter (\<lambda>d. d_site d = site) ds)"

definition set_enabled :: "devices \<Rightarrow> string \<Rightarrow> bool \<Rightarrow> device option \<times> devices" where
  "set_enabled ds i enabled =
     (case get_device ds i of
        None \<Rightarrow> (None, ds)
      | Some d \<Rightarrow> let d' = d\<lparr>d_enabled := enabled\<rparr> in (Some d', put_device d' ds))"

definition rotate_secret :: "(string \<Rightarrow> string) \<Rightarrow> devices \<Rightarrow> string \<Rightarrow> string \<Rightarrow> py_error + (string \<times> devices)" where
  "rotate_secret pw_hash ds i secret =
     (case get_device ds i of
        None \<Rightarrow> Inl ValueError
      | Some d \<Rightarrow> Inr (secret, put_device (d\<lparr>d_pw_hash := Some (pw_hash secret)\<rparr>) ds))"

definition authorized_asset :: "devices \<Rightarrow> string \<Rightarrow> string \<Rightarrow> bool" where
  "authorized_asset ds site asset =
     list_ex (\<lambda>d. d_site d = site \<and> d_asset d = asset \<and> d_enabled d \<and> d_source d \<noteq> Some vision_edge_source) ds"

section \<open>What HTTP ingest refuses\<close>

definition position_refusal :: "devices \<Rightarrow> user \<Rightarrow> string \<Rightarrow> string \<Rightarrow> bool \<Rightarrow> string option" where
  "position_refusal ds who site asset strict =
     (if u_role who \<noteq> ''device'' then None
      else case get_device ds (u_name who) of
             Some dev \<Rightarrow>
               if \<not> d_enabled dev then Some ''device is disabled''
               else if d_source dev = Some vision_edge_source
               then Some ''a vision edge node cannot publish positions''
               else if (d_site dev, d_asset dev) \<noteq> (site, asset) then Some ''device is bound to another asset''
               else None
           | None \<Rightarrow>
               if strict \<and> \<not> authorized_asset ds site asset
               then Some ''no enabled tracker is provisioned for this asset'' else None)"

definition vision_refusal :: "devices \<Rightarrow> user \<Rightarrow> string \<Rightarrow> string option" where
  "vision_refusal ds who site =
     (if u_role who \<noteq> ''device'' then None
      else case get_device ds (u_name who) of
             None \<Rightarrow> None
           | Some dev \<Rightarrow>
               if \<not> d_enabled dev then Some ''device is disabled''
               else if d_source dev \<noteq> Some vision_edge_source
               then Some ''a tracker cannot publish vision records''
               else if d_site dev \<noteq> site then Some ''device is provisioned at another site''
               else None)"

section \<open>The broker's files\<close>

definition acl_topic :: "string \<Rightarrow> device \<Rightarrow> string" where
  "acl_topic prefix d =
     (if d_source d = Some vision_edge_source then prefix @ ''/'' @ d_site d @ ''/vision/#''
      else position_topic prefix (d_site d) (d_asset d))"

definition render_mosquitto_acl :: "devices \<Rightarrow> string \<Rightarrow> string \<Rightarrow> string" where
  "render_mosquitto_acl ds prefix ingest_user =
     join_with (CHR 0x0A)
       ([''# Generated from the devices table - do not edit by hand.'',
         ''# The service account (ingestor, simulator, Teltonika adapter) reads and writes all'',
         ''# telemetry; each device writes only its own topic.'', '''',
         ''user '' @ ingest_user, ''topic readwrite '' @ prefix @ ''/#'', ''''] @
        concat (map (\<lambda>d. [''user '' @ d_id d, ''topic write '' @ acl_topic prefix d, ''''])
          (sort_key d_id (filter d_enabled ds))))"

definition render_password_file :: "devices \<Rightarrow> string \<Rightarrow> string \<Rightarrow> string" where
  "render_password_file ds service_user service_hash =
     join_with (CHR 0x0A)
       ([''# Generated from the devices table - do not edit by hand.'', service_user @ '':'' @ service_hash] @
        List.map_filter (\<lambda>d. map_option (\<lambda>h. d_id d @ '':'' @ h) (d_pw_hash d))
          (sort_key d_id (filter (\<lambda>d. d_enabled d \<and> d_pw_hash d \<noteq> None) ds))) @ [CHR 0x0A]"

section \<open>One device per asset\<close>

definition devices_ok :: "devices \<Rightarrow> bool" where
  "devices_ok ds \<longleftrightarrow> distinct (map d_id ds) \<and> distinct (map (\<lambda>d. (d_site d, d_asset d)) ds)"

datatype device_act =
    Register time string string string "string option" "int option" "string option"
  | SetEnabled string bool
  | Rotate string string

fun device_do :: "(string \<Rightarrow> string) \<Rightarrow> devices \<Rightarrow> device_act \<Rightarrow> devices" where
  "device_do pw_hash ds (Register now i site asset source interval note) =
     (case register_device ds now i site asset source interval note of Inl _ \<Rightarrow> ds | Inr (_, ds') \<Rightarrow> ds')"
| "device_do pw_hash ds (SetEnabled i b) = snd (set_enabled ds i b)"
| "device_do pw_hash ds (Rotate i secret) =
     (case rotate_secret pw_hash ds i secret of Inl _ \<Rightarrow> ds | Inr (_, ds') \<Rightarrow> ds')"

lemma get_device_Some: "get_device ds i = Some d \<Longrightarrow> d \<in> set ds \<and> d_id d = i"
  by (auto simp: get_device_def dest: find_Some_mem)

lemma get_device_None: "get_device ds i = None \<longleftrightarrow> i \<notin> d_id ` set ds"
  by (auto simp: get_device_def find_None_iff_all)

lemma put_device_ids: "distinct (map d_id ds) \<Longrightarrow> distinct (map d_id (put_device dev ds))"
proof -
  assume "distinct (map d_id ds)"
  moreover have "map d_id (map (\<lambda>d. if d_id d = d_id dev then dev else d) ds) = map d_id ds"
    by (induction ds) auto
  ultimately show ?thesis
    by (cases "get_device ds (d_id dev) = None") (simp_all add: put_device_def get_device_None del: map_map)
qed

text \<open>Writing a row keeps assets apart when no other device holds the asset it names.\<close>

lemma put_device_ok:
  assumes ok: "devices_ok ds"
    and free: "\<forall>d \<in> set ds. (d_site d, d_asset d) = (d_site dev, d_asset dev) \<longrightarrow> d_id d = d_id dev"
  shows "devices_ok (put_device dev ds)"
proof -
  let ?k = "\<lambda>d. (d_site d, d_asset d)" and ?f = "\<lambda>d. if d_id d = d_id dev then dev else d"
  have ids: "distinct (map d_id ds)" "distinct (map ?k ds)" using ok by (simp_all add: devices_ok_def)
  have "distinct (map ?k (map ?f ds))"
    using ids free
  proof (induction ds)
    case (Cons d ds)
    then have ih: "distinct (map ?k (map ?f ds))" by simp
    have "?k (?f d) \<notin> set (map ?k (map ?f ds))"
    proof
      assume "?k (?f d) \<in> set (map ?k (map ?f ds))"
      then obtain d' where d': "d' \<in> set ds" "?k (?f d') = ?k (?f d)" by auto
      have "d_id d' \<in> d_id ` set ds" "?k d' \<in> ?k ` set ds" using d'(1) by blast+
      then have "d_id d' \<noteq> d_id d" "?k d' \<noteq> ?k d" using Cons.prems(1,2) by auto
      then show False using d' Cons.prems(3) by (auto split: if_splits)
    qed
    with ih show ?case by simp
  qed simp
  moreover have "distinct (map ?k (ds @ [dev]))" if "get_device ds (d_id dev) = None"
  proof -
    have "?k dev \<notin> ?k ` set ds"
    proof
      assume "?k dev \<in> ?k ` set ds"
      then obtain d where "d \<in> set ds" "?k d = ?k dev" by force
      with free have "d_id dev \<in> d_id ` set ds" by (metis imageI)
      with that show False by (simp add: get_device_None)
    qed
    with ids(2) show ?thesis by simp
  qed
  ultimately show ?thesis
    using put_device_ids [OF ids(1), of dev] by (auto simp: devices_ok_def put_device_def)
qed

lemma get_device_update_ok:
  assumes "devices_ok ds" and "get_device ds i = Some d" and "d_id d' = d_id d"
    and "d_site d' = d_site d" "d_asset d' = d_asset d"
  shows "devices_ok (put_device d' ds)"
proof (rule put_device_ok [OF assms(1)])
  have "d \<in> set ds" using get_device_Some [OF assms(2)] by simp
  then show "\<forall>e \<in> set ds. (d_site e, d_asset e) = (d_site d', d_asset d') \<longrightarrow> d_id e = d_id d'"
    using assms(1,3-) by (fastforce simp: devices_ok_def distinct_map inj_on_def)
qed

lemma register_device_ok:
  assumes "devices_ok ds" and "register_device ds now i site asset source interval note = Inr (dev, ds')"
  shows "devices_ok ds'"
proof -
  let ?bound = "List.find (\<lambda>d. d_site d = site \<and> d_asset d = asset) ds"
  have ds': "ds' = put_device dev ds" and k: "d_site dev = site" "d_asset dev = asset" "d_id dev = i"
    using assms(2) by (auto simp: register_device_def Let_def dest: get_device_Some split: option.splits if_splits)
  have "\<forall>d \<in> set ds. d_site d = site \<and> d_asset d = asset \<longrightarrow> d_id d = i"
  proof (cases ?bound)
    case None
    then show ?thesis unfolding find_None_iff_all by blast
  next
    case (Some b)
    then have "d_id b = i" using assms(2) by (simp add: register_device_def split: if_splits)
    moreover have "d = b" if "d \<in> set ds" "d_site d = site" "d_asset d = asset" for d
      using find_Some_mem [OF Some] that assms(1) by (auto simp: devices_ok_def distinct_map inj_on_def)
    ultimately show ?thesis by blast
  qed
  then show ?thesis unfolding ds' using k by (intro put_device_ok [OF assms(1)]) auto
qed

interpretation provisioning: machine "device_do pw_hash" devices_ok
proof
  fix ds a assume ok: "devices_ok ds"
  show "devices_ok (device_do pw_hash ds a)"
  proof (cases a)
    case (Register now i site asset source interval memo)
    then show ?thesis using ok register_device_ok by (auto split: sum.split)
  next
    case (SetEnabled i b)
    then show ?thesis using ok by (auto simp: set_enabled_def Let_def intro: get_device_update_ok split: option.split)
  next
    case (Rotate i secret)
    then show ?thesis using ok by (auto simp: rotate_secret_def intro: get_device_update_ok split: option.split)
  qed
qed

section \<open>HTTP ingest and the broker agree\<close>

lemma position_topic_inject:
  assumes "CHR ''/'' \<notin> set s1" "CHR ''/'' \<notin> set a1" "CHR ''/'' \<notin> set s2" "CHR ''/'' \<notin> set a2"
  shows "position_topic prefix s1 a1 = position_topic prefix s2 a2 \<longleftrightarrow> s1 = s2 \<and> a1 = a2"
proof
  assume "position_topic prefix s1 a1 = position_topic prefix s2 a2"
  then have "s1 @ CHR ''/'' # a1 = s2 @ CHR ''/'' # a2" by (simp add: position_topic_def)
  then have "split_on (CHR ''/'') (s1 @ CHR ''/'' # a1) = split_on (CHR ''/'') (s2 @ CHR ''/'' # a2)" by simp
  then show "s1 = s2 \<and> a1 = a2" using assms by (simp add: split_on_append_sep split_on_no_sep)
qed simp

lemma vision_topic_differs: "prefix @ ''/'' @ site @ ''/vision/#'' \<noteq> position_topic prefix s a"
proof
  assume "prefix @ ''/'' @ site @ ''/vision/#'' = position_topic prefix s a"
  then have "last (prefix @ ''/'' @ site @ ''/vision/#'') = last (position_topic prefix s a)" by simp
  then show False by (simp add: position_topic_def)
qed

text \<open>A device is held to the same asset on both transports. In every devices table the
  provisioning operations can produce no asset has two devices, and a device account that names
  a provisioned device may post a position over HTTP exactly when that device is enabled and the
  topic the broker's access list lets it write is the topic of that position.\<close>

theorem http_and_broker_agree:
  assumes "ds = run_machine (device_do pw_hash) [] acts"
    and "u_role who = ''device''" and "get_device ds (u_name who) = Some dev"
    and "CHR ''/'' \<notin> set (d_site dev @ d_asset dev @ site @ asset)"
  shows "devices_ok ds \<and>
    (position_refusal ds who site asset strict = None \<longleftrightarrow>
       dev \<in> set (filter d_enabled ds) \<and> acl_topic prefix dev = position_topic prefix site asset)"
proof
  have "devices_ok []" by (simp add: devices_ok_def)
  then show "devices_ok ds" unfolding assms(1) by (rule provisioning.run_inv)
  have "position_topic prefix (d_site dev) (d_asset dev) = position_topic prefix site asset \<longleftrightarrow>
      d_site dev = site \<and> d_asset dev = asset"
    using assms(4) by (intro position_topic_inject) auto
  with vision_topic_differs get_device_Some [OF assms(3)] assms(2,3)
  show "position_refusal ds who site asset strict = None \<longleftrightarrow>
       dev \<in> set (filter d_enabled ds) \<and> acl_topic prefix dev = position_topic prefix site asset"
    by (auto simp: position_refusal_def acl_topic_def)
qed

definition demo_device_user :: user where
  "demo_device_user = \<lparr>u_name = ''t1'', u_hash = [], u_role = ''device'', u_site = Some ''s1'', u_created = 0\<rparr>"

theorem http_and_broker_agree_witness:
  "\<exists>ds dev. ds = run_machine (device_do id) [] [Register 0 ''t1'' ''s1'' ''a1'' None None None] \<and>
     get_device ds ''t1'' = Some dev \<and> position_refusal ds demo_device_user ''s1'' ''a1'' True = None \<and>
     position_refusal ds demo_device_user ''s1'' ''a2'' True \<noteq> None"
proof -
  let ?acts = "[Register 0 ''t1'' ''s1'' ''a1'' None None None]"
  define ds where "ds = run_machine (device_do id) [] ?acts"
  define dev where "dev = \<lparr>d_id = ''t1'', d_site = ''s1'', d_asset = ''a1'', d_enabled = True, d_source = None,
    d_interval = None, d_created = 0, d_note = None, d_pw_hash = None\<rparr>"
  have ds: "ds = [dev]" by (simp add: ds_def dev_def register_device_def put_device_def get_device_def Let_def)
  have g: "get_device ds (u_name demo_device_user) = Some dev" by (simp add: ds dev_def demo_device_user_def get_device_def)
  have r: "u_role demo_device_user = ''device''" by (simp add: demo_device_user_def)
  have "position_refusal ds demo_device_user ''s1'' ''a1'' True = None"
    using http_and_broker_agree [OF ds_def r g, of "''s1''" "''a1''" True "''mm''"]
    by (simp add: ds dev_def acl_topic_def)
  moreover have "position_refusal ds demo_device_user ''s1'' ''a2'' True \<noteq> None"
    using http_and_broker_agree [OF ds_def r g, of "''s1''" "''a2''" True "''mm''"]
    by (simp add: ds dev_def acl_topic_def position_topic_def)
  ultimately show ?thesis using ds_def g by (auto simp: demo_device_user_def)
qed

end
