(* ===== verification/Ingest.thy ===== *)
theory Ingest
  imports Pipeline Devices
begin

text \<open>
  The ingest path: the device payload and its validation (\<^verbatim>\<open>src/src/minemonitor/ingest/service.py\<close>,
  \<^verbatim>\<open>contracts/ids.py\<close>, \<^verbatim>\<open>contracts/position.py\<close>), the topic checks (\<^verbatim>\<open>ingest/authz.py\<close>), the message
  handler of the MQTT ingestor with its two retry loops (\<^verbatim>\<open>ingest/mqtt.py\<close>) and the HTTP endpoint
  (\<^verbatim>\<open>api/routers/ingest.py\<close>). Reading JSON into typed fields is pydantic's: the parameter \<open>parse\<close>.
  What the database does on each attempt is an input, as is the moment the ingestor is stopped.
  The handling of vision records is a parameter here.
\<close>

section \<open>The device payload\<close>

record payload =
  pl_schema :: string
  pl_site :: string
  pl_asset :: string
  pl_ts :: time
  pl_lat :: real
  pl_lon :: real
  pl_alt :: "real option"
  pl_speed :: "real option"
  pl_heading :: "real option"
  pl_hdop :: "real option"
  pl_sats :: "int option"
  pl_ignition :: "bool option"
  pl_source :: "string option"

definition id_start :: "char \<Rightarrow> bool" where
  "id_start ch =
     (let c = (of_char ch :: nat) in (65 \<le> c \<and> c \<le> 90) \<or> (97 \<le> c \<and> c \<le> 122) \<or> (48 \<le> c \<and> c \<le> 57))"

definition id_char :: "char \<Rightarrow> bool" where
  "id_char ch \<longleftrightarrow> id_start ch \<or> ch \<in> set ''._:-''"

text \<open>\<^verbatim>\<open>^[A-Za-z0-9][A-Za-z0-9._:-]{0,63}$\<close>\<close>

definition valid_id :: "string \<Rightarrow> bool" where
  "valid_id s = (case s of [] \<Rightarrow> False | c # cs \<Rightarrow> id_start c \<and> length cs \<le> 63 \<and> list_all id_char cs)"

definition opt_within :: "real \<Rightarrow> real option \<Rightarrow> real option \<Rightarrow> bool" where
  "opt_within lo hi v = (case v of None \<Rightarrow> True | Some x \<Rightarrow> lo \<le> x \<and> (case hi of None \<Rightarrow> True | Some h \<Rightarrow> x \<le> h))"

definition payload_ok :: "payload \<Rightarrow> bool" where
  "payload_ok p \<longleftrightarrow> valid_id (pl_site p) \<and> valid_id (pl_asset p) \<and>
     - 90 \<le> pl_lat p \<and> pl_lat p \<le> 90 \<and> - 180 \<le> pl_lon p \<and> pl_lon p \<le> 180 \<and>
     opt_within 0 None (pl_speed p) \<and> opt_within 0 (Some 360) (pl_heading p) \<and> opt_within 0 None (pl_hdop p) \<and>
     (case pl_sats p of None \<Rightarrow> True | Some n \<Rightarrow> 0 \<le> n)"

definition model_validate :: "(string \<Rightarrow> payload option) \<Rightarrow> string \<Rightarrow> payload option" where
  "model_validate parse raw =
     (case parse raw of None \<Rightarrow> None | Some p \<Rightarrow> if payload_ok p then Some p else None)"

text \<open>A fix the device dates too far ahead of the server: \<^verbatim>\<open>FutureTimestampError\<close>.\<close>

definition is_future :: "settings \<Rightarrow> time \<Rightarrow> payload \<Rightarrow> bool" where
  "is_future s now p \<longleftrightarrow> total_seconds (pl_ts p - now) > of_int (max_future_skew_s s)"

text \<open>
  \<^verbatim>\<open>to_canonical\<close>: the stored contract has the same constraints and fixes the schema name, so
  only a payload with another name is refused here.
\<close>

definition to_canonical :: "time \<Rightarrow> payload \<Rightarrow> py_error + position" where
  "to_canonical now p =
     (if pl_schema p \<noteq> ''asset.position.v1'' \<or> \<not> payload_ok p then Inl ValidationError
      else Inr \<lparr>p_site = pl_site p, p_asset = pl_asset p, p_ts = pl_ts p, p_received = now,
        p_lat = pl_lat p, p_lon = pl_lon p, p_alt = pl_alt p, p_speed = pl_speed p,
        p_heading = pl_heading p, p_hdop = pl_hdop p, p_sats = pl_sats p,
        p_ignition = pl_ignition p, p_source = pl_source p\<rparr>)"

definition store_position :: "time \<Rightarrow> 'a db_scheme \<Rightarrow> payload \<Rightarrow> py_error + (bool \<times> 'a db_scheme)" where
  "store_position now d p = and_then (to_canonical now p) (\<lambda>c. Inr (insert_position d c))"

text \<open>One transaction: an exception anywhere leaves the session as it was.\<close>

definition store_and_process ::
  "settings \<Rightarrow> time \<Rightarrow> 'a db_scheme \<Rightarrow> payload \<Rightarrow> py_error + (bool \<times> event list \<times> 'a db_scheme)" where
  "store_and_process s now d p =
     and_then (to_canonical now p) (\<lambda>c.
     let (created, d1) = insert_position d c
     in and_then (process_position s now d1 c created) (\<lambda>(evs, d2). Inr (created, evs, d2)))"

section \<open>Topics\<close>

definition parse_position_topic :: "string \<Rightarrow> string \<Rightarrow> (string \<times> string) option" where
  "parse_position_topic prefix topic =
     (case split_on (CHR ''/'') topic of
        [a, site, asset, b] \<Rightarrow>
          if a = prefix \<and> b = ''position'' \<and> site \<noteq> [] \<and> asset \<noteq> [] then Some (site, asset) else None
      | _ \<Rightarrow> None)"

definition topic_matches_payload :: "string \<Rightarrow> string \<Rightarrow> string \<Rightarrow> string \<Rightarrow> bool" where
  "topic_matches_payload prefix topic site asset \<longleftrightarrow> parse_position_topic prefix topic = Some (site, asset)"

definition parse_vision_topic :: "string \<Rightarrow> string \<Rightarrow> (string \<times> string \<times> string) option" where
  "parse_vision_topic prefix topic =
     (case split_on (CHR ''/'') topic of
        [a, site, v, source, kind] \<Rightarrow>
          if a = prefix \<and> v = ''vision'' \<and> a \<noteq> [] \<and> site \<noteq> [] \<and> source \<noteq> [] \<and> kind \<noteq> []
          then Some (site, source, kind) else None
      | _ \<Rightarrow> None)"

text \<open>A record names its site and a camera, or its site and a node.\<close>

definition vision_topic_matches_payload ::
  "string \<Rightarrow> string \<Rightarrow> string option \<Rightarrow> string option \<Rightarrow> string option \<Rightarrow> bool" where
  "vision_topic_matches_payload prefix topic site camera node =
     (case parse_vision_topic prefix topic of
        None \<Rightarrow> False
      | Some (t_site, source_id, _) \<Rightarrow>
          if site \<noteq> Some t_site then False
          else case camera of Some c \<Rightarrow> c = source_id | None \<Rightarrow> node = Some source_id)"

section \<open>The ingestor\<close>

text \<open>
  What happens on each turn of a retry loop: the stop flag is found set, the database is
  unreachable (a transient error), it refuses the statement for good, or it works.
\<close>

datatype turn = Stop | Transient | Broken | Works

datatype outcome = Stored | Dropped | Stopped

record counters =
  stored_count :: nat
  rejected_count :: nat
  processing_failed_count :: nat

definition one_stored :: "counters \<Rightarrow> counters" where
  "one_stored k = k\<lparr>stored_count := stored_count k + 1\<rparr>"

definition one_rejected :: "counters \<Rightarrow> counters" where
  "one_rejected k = k\<lparr>rejected_count := rejected_count k + 1\<rparr>"

fun store_raw_with_retry ::
  "time \<Rightarrow> turn list \<Rightarrow> 'a db_scheme \<Rightarrow> counters \<Rightarrow> payload \<Rightarrow> outcome \<times> counters \<times> 'a db_scheme" where
  "store_raw_with_retry now [] d k p = (Stopped, k, d)"
| "store_raw_with_retry now (t # ts) d k p =
     (case t of
        Stop \<Rightarrow> (Stopped, k, d)
      | Transient \<Rightarrow> store_raw_with_retry now ts d k p
      | Broken \<Rightarrow> (Dropped, one_rejected k, d)
      | Works \<Rightarrow>
          (case store_position now d p of
             Inl _ \<Rightarrow> (Dropped, one_rejected k, d)
           | Inr (_, d') \<Rightarrow> (Stored, k, d')))"

definition one_failed :: "counters \<Rightarrow> counters" where
  "one_failed k = k\<lparr>processing_failed_count := processing_failed_count k + 1\<rparr>"

fun store_with_retry ::
  "settings \<Rightarrow> time \<Rightarrow> turn list \<Rightarrow> 'a db_scheme \<Rightarrow> counters \<Rightarrow> payload \<Rightarrow> outcome \<times> counters \<times> 'a db_scheme" where
  "store_with_retry s now [] d k p = (Stopped, k, d)"
| "store_with_retry s now (t # ts) d k p =
     (case t of
        Stop \<Rightarrow> (Stopped, k, d)
      | Transient \<Rightarrow> store_with_retry s now ts d k p
      | Broken \<Rightarrow> store_raw_with_retry now ts d (one_failed k) p
      | Works \<Rightarrow>
          (case store_and_process s now d p of
             Inl _ \<Rightarrow> store_raw_with_retry now ts d (one_failed k) p
           | Inr (_, _, d') \<Rightarrow> (Stored, k, d')))"

record ingestor_config =
  ic_prefix :: string
  ic_require_registered :: bool
  ic_settings :: settings

text \<open>
  \<^verbatim>\<open>_handle\<close>: whether the message is to be acknowledged, and the counters and the database after it.
  \<open>ds\<close> is what the query of the devices answers, \<open>None\<close> when it raises: the exception leaves the callback,
  outside the loops that retry, and the message is not acknowledged.
\<close>

definition handle_position ::
  "ingestor_config \<Rightarrow> (string \<Rightarrow> payload option) \<Rightarrow> devices option \<Rightarrow> time \<Rightarrow> turn list \<Rightarrow> 'a db_scheme
    \<Rightarrow> counters \<Rightarrow> message \<Rightarrow> bool \<times> counters \<times> 'a db_scheme" where
  "handle_position ic parse ds now turns d k msg =
     (case msg of (topic, raw) \<Rightarrow>
        case model_validate parse raw of
          None \<Rightarrow> (True, one_rejected k, d)
        | Some p \<Rightarrow>
            if \<not> topic_matches_payload (ic_prefix ic) topic (pl_site p) (pl_asset p) then (True, one_rejected k, d)
            else if is_future (ic_settings ic) now p then (True, one_rejected k, d)
            else if ic_require_registered ic \<and> ds = None then (False, k, d)
            else if ic_require_registered ic \<and> \<not> authorized_asset (the ds) (pl_site p) (pl_asset p)
            then (True, one_rejected k, d)
            else
              case store_with_retry (ic_settings ic) now turns d k p of
                (out, k', d') \<Rightarrow> (out \<noteq> Stopped, if out = Stored then one_stored k' else k', d'))"

definition handle ::
  "(turn list \<Rightarrow> 'a db_scheme \<Rightarrow> counters \<Rightarrow> message \<Rightarrow> bool \<times> counters \<times> 'a db_scheme)
    \<Rightarrow> ingestor_config \<Rightarrow> (string \<Rightarrow> payload option) \<Rightarrow> devices option \<Rightarrow> time \<Rightarrow> turn list \<Rightarrow> 'a db_scheme \<Rightarrow> counters
    \<Rightarrow> message \<Rightarrow> bool \<times> counters \<times> 'a db_scheme" where
  "handle on_vision ic parse ds now turns d k msg =
     (if parse_vision_topic (ic_prefix ic) (fst msg) \<noteq> None then on_vision turns d k msg
      else handle_position ic parse ds now turns d k msg)"

text \<open>
  \<^verbatim>\<open>_on_vision_message\<close> over the parser and the ingest of the vision component: a record is
  refused, cannot be stored, or leaves the database changed.
\<close>

datatype 'd vision_result = Refused | Unstorable | Ingested 'd

fun vision_retry ::
  "('d \<Rightarrow> 'r \<Rightarrow> 'd vision_result) \<Rightarrow> turn list \<Rightarrow> 'd \<Rightarrow> counters \<Rightarrow> 'r \<Rightarrow> bool \<times> counters \<times> 'd" where
  "vision_retry ingest [] d k r = (False, k, d)"
| "vision_retry ingest (t # ts) d k r =
     (case t of
        Stop \<Rightarrow> (False, k, d)
      | Transient \<Rightarrow> vision_retry ingest ts d k r
      | Broken \<Rightarrow> (True, one_rejected k, d)
      | Works \<Rightarrow>
          (case ingest d r of
             Refused \<Rightarrow> (True, one_rejected k, d)
           | Unstorable \<Rightarrow> (True, one_rejected k, d)
           | Ingested d' \<Rightarrow> (True, one_stored k, d')))"

definition on_vision_message ::
  "(string \<Rightarrow> 'r option) \<Rightarrow> ('r \<Rightarrow> string option \<times> string option \<times> string option) \<Rightarrow> ('d \<Rightarrow> 'r \<Rightarrow> 'd vision_result)
    \<Rightarrow> string \<Rightarrow> turn list \<Rightarrow> 'd \<Rightarrow> counters \<Rightarrow> message \<Rightarrow> bool \<times> counters \<times> 'd" where
  "on_vision_message vparse ids ingest prefix turns d k msg =
     (case msg of (topic, raw) \<Rightarrow>
        case vparse raw of
          None \<Rightarrow> (True, one_rejected k, d)
        | Some r \<Rightarrow>
            (case ids r of (site, camera, node) \<Rightarrow>
               if \<not> vision_topic_matches_payload prefix topic site camera node then (True, one_rejected k, d)
               else vision_retry ingest turns d k r))"

section \<open>The HTTP endpoint\<close>

datatype ingest_reply = Accepted bool nat | Rejected http_error | ServerError py_error

definition ingest_position ::
  "settings \<Rightarrow> bool \<Rightarrow> devices \<Rightarrow> time \<Rightarrow> 'a db_scheme \<Rightarrow> user \<Rightarrow> payload \<Rightarrow> ingest_reply \<times> 'a db_scheme" where
  "ingest_position s strict ds now d device p =
     (if u_site device \<noteq> None \<and> Some (pl_site p) \<noteq> u_site device then (Rejected Forbidden403, d)
      else if position_refusal ds device (pl_site p) (pl_asset p) strict \<noteq> None then (Rejected Forbidden403, d)
      else if is_future s now p then (Rejected Unprocessable422, d)
      else case store_and_process s now d p of
             Inl e \<Rightarrow> (ServerError e, d)
           | Inr (created, evs, d') \<Rightarrow> (Accepted created (length evs), d'))"

section \<open>Topics read back\<close>

lemma id_char_no_slash: "id_char ch \<Longrightarrow> ch \<noteq> CHR ''/''"
  by (auto simp: id_char_def id_start_def)

lemma valid_id_no_slash: "valid_id s \<Longrightarrow> s \<noteq> [] \<and> CHR ''/'' \<notin> set s"
  by (cases s) (auto simp: valid_id_def list_all_iff id_char_def id_start_def dest: id_char_no_slash)

lemma parse_position_topic_topic:
  assumes "CHR ''/'' \<notin> set prefix" "valid_id site" "valid_id asset"
  shows "parse_position_topic prefix (position_topic prefix site asset) = Some (site, asset)"
proof -
  have "split_on (CHR ''/'') (position_topic prefix site asset) = [prefix, site, asset, ''position'']"
    using assms valid_id_no_slash by (simp add: position_topic_def split_on_append_sep)
  then show ?thesis using assms valid_id_no_slash by (simp add: parse_position_topic_def)
qed

lemma position_topic_not_vision:
  assumes "CHR ''/'' \<notin> set prefix" "valid_id site" "valid_id asset"
  shows "parse_vision_topic prefix (position_topic prefix site asset) = None"
  using assms valid_id_no_slash by (simp add: parse_vision_topic_def position_topic_def split_on_append_sep)

section \<open>What storing leaves\<close>

definition payload_key :: "payload \<Rightarrow> string \<times> string \<times> time" where
  "payload_key p = (pl_site p, pl_asset p, pl_ts p)"

lemma canonical_key: "to_canonical now p = Inr c \<Longrightarrow> fix_key c = payload_key p"
  by (auto simp: to_canonical_def fix_key_def payload_key_def split: if_splits)

text \<open>A store that succeeded: one row for the payload's key, added only if there was none.\<close>

definition stored_as :: "payload \<Rightarrow> 'a db_scheme \<Rightarrow> 'a db_scheme \<Rightarrow> bool" where
  "stored_as p d d' \<longleftrightarrow> payload_key p \<in> fix_key ` set (positions d') \<and>
     (\<exists>c. fix_key c = payload_key p \<and>
        positions d' = (if payload_key p \<in> fix_key ` set (positions d) then positions d else positions d @ [c]))"

lemma insert_position_stored:
  "fix_key c = payload_key p \<Longrightarrow> insert_position d c = (created, d') \<Longrightarrow> stored_as p d d'"
  by (auto simp: stored_as_def insert_position_def list_ex_same_fix split: if_splits)

lemma store_position_stored: "store_position now d p = Inr (created, d') \<Longrightarrow> stored_as p d d'"
  by (auto simp: store_position_def and_then_Inr_iff intro: insert_position_stored canonical_key)

lemma store_and_process_stored:
  assumes "store_and_process s now d p = Inr (created, evs, d')"
  shows "stored_as p d d'"
proof -
  from assms obtain c0 where c0: "to_canonical now p = Inr c0"
    by (auto simp: store_and_process_def and_then_Inr_iff)
  obtain cr d1 where i: "insert_position d c0 = (cr, d1)" by fastforce
  have c: "to_canonical now p = Inr c0" "insert_position d c0 = (created, d1)"
    "process_position s now d1 c0 created = Inr (evs, d')"
    using assms c0 i by (auto simp: store_and_process_def and_then_Inr_iff)
  have "positions d' = positions d1" using process_position_frame [OF c(3)] by simp
  with insert_position_stored [OF canonical_key [OF c(1)] c(2)] show ?thesis by (simp add: stored_as_def)
qed

lemma store_raw_outcome:
  assumes "store_raw_with_retry now ts d k p = (out, k', d')"
  shows "(case out of Stored \<Rightarrow> k' = k \<and> stored_as p d d' | Dropped \<Rightarrow> k' = one_rejected k \<and> d' = d
    | Stopped \<Rightarrow> k' = k \<and> d' = d)"
  using assms
  by (induction ts) (auto split: turn.splits sum.splits dest: store_position_stored)

text \<open>The two counters an acknowledgement answers for.\<close>

definition final_counts :: "counters \<Rightarrow> nat \<times> nat" where
  "final_counts k = (stored_count k, rejected_count k)"

lemma counts_simps [simp]:
  "final_counts (one_stored k) = (stored_count k + 1, rejected_count k)"
  "final_counts (one_rejected k) = (stored_count k, rejected_count k + 1)"
  "stored_count (one_failed k) = stored_count k" "rejected_count (one_failed k) = rejected_count k"
  "final_counts (one_failed k) = final_counts k"
  by (simp_all add: final_counts_def one_stored_def one_rejected_def one_failed_def)

lemma store_outcome:
  assumes "store_with_retry s now ts d k p = (out, k', d')"
  shows "(case out of Stored \<Rightarrow> final_counts k' = final_counts k \<and> stored_as p d d'
    | Dropped \<Rightarrow> final_counts k' = (stored_count k, rejected_count k + 1) \<and> d' = d
    | Stopped \<Rightarrow> final_counts k' = final_counts k \<and> d' = d)"
  using assms
proof (induction ts)
  case (Cons t ts)
  have raw: ?case if "store_raw_with_retry now ts d (one_failed k) p = (out, k', d')"
    using store_raw_outcome [OF that] by (auto split: outcome.splits)
  show ?case
  proof (cases t)
    case Works
    then show ?thesis using Cons.prems raw
      by (auto split: sum.splits dest: store_and_process_stored)
  qed (use Cons raw in auto)
qed simp

text \<open>The checks before the store, in the order the handler makes them.\<close>

definition passes_checks :: "ingestor_config \<Rightarrow> devices option \<Rightarrow> time \<Rightarrow> string \<Rightarrow> payload \<Rightarrow> bool" where
  "passes_checks ic ds now topic p \<longleftrightarrow>
     topic_matches_payload (ic_prefix ic) topic (pl_site p) (pl_asset p) \<and> \<not> is_future (ic_settings ic) now p \<and>
     (ic_require_registered ic \<longrightarrow> (\<exists>t. ds = Some t \<and> authorized_asset t (pl_site p) (pl_asset p)))"

text \<open>The checks that fail for good, as opposed to a lookup that raises.\<close>

definition fails_check :: "ingestor_config \<Rightarrow> devices option \<Rightarrow> time \<Rightarrow> string \<Rightarrow> payload \<Rightarrow> bool" where
  "fails_check ic ds now topic p \<longleftrightarrow>
     \<not> topic_matches_payload (ic_prefix ic) topic (pl_site p) (pl_asset p) \<or> is_future (ic_settings ic) now p \<or>
     ic_require_registered ic \<and> (\<exists>t. ds = Some t \<and> \<not> authorized_asset t (pl_site p) (pl_asset p))"

lemma handle_refused:
  assumes "\<And>p. model_validate parse raw = Some p \<Longrightarrow> fails_check ic ds now topic p"
  shows "handle_position ic parse ds now ts d k (topic, raw) = (True, one_rejected k, d)"
  using assms by (auto simp: handle_position_def fails_check_def split: option.split)

lemma handle_lookup_raises:
  assumes "model_validate parse raw = Some p" and "\<not> fails_check ic ds now topic p" and "\<not> passes_checks ic ds now topic p"
  shows "handle_position ic parse ds now ts d k (topic, raw) = (False, k, d)"
  using assms by (cases ds) (auto simp: handle_position_def fails_check_def passes_checks_def)

lemma handle_passing:
  assumes "model_validate parse raw = Some p" and "passes_checks ic ds now topic p"
  shows "handle_position ic parse ds now ts d k (topic, raw) =
    (case store_with_retry (ic_settings ic) now ts d k p of
       (out, k', d') \<Rightarrow> (out \<noteq> Stopped, if out = Stored then one_stored k' else k', d'))"
  using assms by (auto simp: handle_position_def passes_checks_def)

lemma handle_outcome:
  assumes "handle_position ic parse ds now ts d k (topic, raw) = (ack, k', d')"
  shows "if \<not> ack then d' = d \<and> final_counts k' = final_counts k
    else (d' = d \<and> final_counts k' = (stored_count k, rejected_count k + 1)) \<or>
         (\<exists>p. model_validate parse raw = Some p \<and> passes_checks ic ds now topic p \<and> stored_as p d d' \<and>
            final_counts k' = (stored_count k + 1, rejected_count k))"
proof (cases "\<exists>p. model_validate parse raw = Some p \<and> passes_checks ic ds now topic p")
  case True
  then obtain p where p: "model_validate parse raw = Some p" "passes_checks ic ds now topic p" by blast
  obtain out k1 d1 where r: "store_with_retry (ic_settings ic) now ts d k p = (out, k1, d1)" by (metis prod_cases3)
  then show ?thesis
    using assms store_outcome [OF r] p unfolding handle_passing [OF p]
    by (cases out) (auto simp: final_counts_def one_stored_def)
next
  case False
  show ?thesis
  proof (cases "\<forall>p. model_validate parse raw = Some p \<longrightarrow> fails_check ic ds now topic p")
    case True
    then have "handle_position ic parse ds now ts d k (topic, raw) = (True, one_rejected k, d)"
      by (intro handle_refused) blast
    with assms show ?thesis by auto
  next
    case fine: False
    then obtain p where "model_validate parse raw = Some p" "\<not> fails_check ic ds now topic p" by blast
    with False handle_lookup_raises [of parse raw p ic ds now topic ts d k] assms show ?thesis by auto
  qed
qed

text \<open>C5: a message is acknowledged exactly when its outcome is final. If it is not acknowledged
  nothing has changed; if it is, either it was counted as rejected and nothing was stored, or it
  was counted as stored, it passed every check (a valid payload on its own topic, not ahead of
  the server clock, from a registered device where that is required), and the database holds its
  fix under its key, exactly once.\<close>

theorem acknowledged_means_final:
  assumes "handle_position ic parse ds now ts d k (topic, raw) = (ack, k', d')" and "fixes_distinct d"
  shows "fixes_distinct d' \<and>
    (if \<not> ack then d' = d \<and> final_counts k' = final_counts k
     else (d' = d \<and> final_counts k' = (stored_count k, rejected_count k + 1)) \<or>
          (\<exists>p. model_validate parse raw = Some p \<and> passes_checks ic ds now topic p \<and> stored_as p d d' \<and>
             final_counts k' = (stored_count k + 1, rejected_count k)))"
proof -
  have "fixes_distinct d'" if "stored_as p d d'" for p
    using assms(2) that by (auto simp: stored_as_def fixes_distinct_def)
  with handle_outcome [OF assms(1)] assms(2) show ?thesis by (auto split: if_splits)
qed

definition demo_payload :: "time \<Rightarrow> payload" where
  "demo_payload t = \<lparr>pl_schema = ''asset.position.v1'', pl_site = ''s1'', pl_asset = ''HT-01'', pl_ts = t, pl_lat = 0,
     pl_lon = 0, pl_alt = None, pl_speed = None, pl_heading = None, pl_hdop = None, pl_sats = None,
     pl_ignition = None, pl_source = None\<rparr>"

definition demo_parse :: "string \<Rightarrow> payload option" where
  "demo_parse raw = (if raw = ''fix'' then Some (demo_payload 5) else None)"

definition demo_ic :: ingestor_config where
  "demo_ic = \<lparr>ic_prefix = ''mm'', ic_require_registered = False, ic_settings = demo_settings\<rparr>"

definition no_counters :: counters where
  "no_counters = \<lparr>stored_count = 0, rejected_count = 0, processing_failed_count = 0\<rparr>"

lemma demo_passes:
  "model_validate demo_parse ''fix'' = Some (demo_payload 5)"
  "passes_checks demo_ic (Some []) 9 ''mm/s1/HT-01/position'' (demo_payload 5)"
  by (simp_all add: model_validate_def demo_parse_def payload_ok_def demo_payload_def valid_id_def id_start_def
      id_char_def opt_within_def passes_checks_def demo_ic_def is_future_def demo_settings_def topic_matches_payload_def
      parse_position_topic_def total_seconds_def)

theorem acknowledged_means_final_witness:
  "\<exists>k' d'. handle_position demo_ic demo_parse (Some []) 9 [Transient, Works] empty_db no_counters
       (''mm/s1/HT-01/position'', ''fix'') = (True, k', d') \<and> fixes_distinct d' \<and>
     final_counts k' \<noteq> final_counts no_counters"
proof -
  obtain ack k' d' where h: "handle_position demo_ic demo_parse (Some []) 9 [Transient, Works] empty_db no_counters
       (''mm/s1/HT-01/position'', ''fix'') = (ack, k', d')" by (metis prod_cases3)
  have "\<exists>c. to_canonical 9 (demo_payload 5) = Inr c"
    using demo_passes(1) by (auto simp: to_canonical_def model_validate_def demo_payload_def split: option.splits if_splits)
  then have "ack"
    using h unfolding handle_passing [OF demo_passes]
    by (auto simp: store_and_process_def process_position_def list_zones_def insert_position_def empty_db_def
        split: prod.splits sum.splits if_splits)
  moreover have "fixes_distinct empty_db" by (simp add: fixes_distinct_def empty_db_def)
  ultimately show ?thesis
    using acknowledged_means_final [OF h] h by (auto simp: final_counts_def)
qed

section \<open>A database that comes back\<close>

text \<open>The lookup of the device is not retried: while it raises, a good message is left unacknowledged at once,
  whatever the database would do on the turns after it.\<close>

lemma registration_outage_is_not_retried:
  assumes "ic_require_registered ic" and "model_validate parse raw = Some p" and "passes_checks ic (Some t) now topic p"
  shows "handle_position ic parse None now ts d k (topic, raw) = (False, k, d)"
  using assms by (auto simp: handle_position_def passes_checks_def)

lemma retry_skips_transient:
  "store_with_retry s now (replicate n Transient @ ts) d k p = store_with_retry s now ts d k p"
  "store_raw_with_retry now (replicate n Transient @ ts) d k p = store_raw_with_retry now ts d k p"
  by (induction n) simp_all

text \<open>A good fix is stored once the database is back. However long the outage, a valid
  payload that passes the checks is acknowledged and stored at the first working attempt, or at
  the second when zone and rule processing raises on it.\<close>

theorem stored_when_the_database_returns:
  assumes "model_validate parse raw = Some p" and "passes_checks ic ds now topic p"
    and "pl_schema p = ''asset.position.v1''"
  shows "\<exists>k' d'. handle_position ic parse ds now (replicate m Transient @ Works # replicate n Transient @ Works # ts) d k
      (topic, raw) = (True, k', d') \<and> stored_as p d d' \<and> stored_count k' = stored_count k + 1"
proof -
  have "payload_ok p" using assms(1) by (auto simp: model_validate_def split: option.splits if_splits)
  then obtain c where "to_canonical now p = Inr c" using assms(3) by (auto simp: to_canonical_def)
  then obtain cr d1 where raw: "store_position now d p = Inr (cr, d1)"
    by (cases "insert_position d c") (auto simp: store_position_def)
  note st = store_position_stored [OF raw]
  show ?thesis
  proof (cases "store_and_process (ic_settings ic) now d p")
    case (Inl e)
    then show ?thesis
      using st raw by (auto simp: handle_passing [OF assms(1,2)] retry_skips_transient one_stored_def)
  next
    case (Inr r)
    obtain created evs d2 where "r = (created, evs, d2)" by (metis prod_cases3)
    with Inr store_and_process_stored show ?thesis
      by (fastforce simp: handle_passing [OF assms(1,2)] retry_skips_transient one_stored_def)
  qed
qed

theorem stored_when_the_database_returns_witness:
  "\<exists>k' d'. handle_position demo_ic demo_parse (Some []) 9 [Transient, Transient, Works, Works] empty_db no_counters
      (''mm/s1/HT-01/position'', ''fix'') = (True, k', d') \<and> stored_as (demo_payload 5) empty_db d'"
  using stored_when_the_database_returns [OF demo_passes, of 2 0 "[]" empty_db no_counters]
  by (auto simp: demo_payload_def numeral_2_eq_2)

section \<open>The two transports store alike\<close>

lemma unrefused_is_authorized:
  assumes "position_refusal ds dev site asset True = None" and "u_role dev = ''device''"
  shows "authorized_asset ds site asset"
proof (cases "get_device ds (u_name dev)")
  case (Some row)
  with assms get_device_Some [OF Some] show ?thesis
    by (auto simp: position_refusal_def authorized_asset_def list_ex_iff split: if_splits)
qed (use assms in \<open>auto simp: position_refusal_def split: if_splits\<close>)

text \<open>HTTP and MQTT cannot drift apart. A payload a device account gets accepted over HTTP
  leaves the database exactly as the same payload does when it arrives on its own topic, where
  it passes every check of the ingestor; the checks the transports make of a device agree.\<close>

theorem transports_agree:
  assumes "model_validate parse raw = Some p" and "u_role dev = ''device''"
    and "ingest_position (ic_settings ic) (ic_require_registered ic) ds now d dev p = (Accepted created n, d')"
    and "CHR ''/'' \<notin> set (ic_prefix ic)"
  shows "handle_position ic parse (Some ds) now (Works # ts) d k
      (position_topic (ic_prefix ic) (pl_site p) (pl_asset p), raw) = (True, one_stored k, d')"
proof -
  let ?topic = "position_topic (ic_prefix ic) (pl_site p) (pl_asset p)"
  have ids: "valid_id (pl_site p)" "valid_id (pl_asset p)"
    using assms(1) by (auto simp: model_validate_def payload_ok_def split: option.splits if_splits)
  from assms(3) have refusal: "position_refusal ds dev (pl_site p) (pl_asset p) (ic_require_registered ic) = None"
    and future: "\<not> is_future (ic_settings ic) now p"
    and st: "\<exists>evs. store_and_process (ic_settings ic) now d p = Inr (created, evs, d')"
    by (auto simp: ingest_position_def split: if_splits sum.splits)
  have "passes_checks ic (Some ds) now ?topic p"
    using future parse_position_topic_topic [OF assms(4) ids] unrefused_is_authorized [OF _ assms(2)] refusal
    by (auto simp: passes_checks_def topic_matches_payload_def)
  with st show ?thesis by (auto simp: handle_passing [OF assms(1)])
qed

theorem transports_agree_witness:
  "\<exists>created n d'. ingest_position demo_settings False [] 9 empty_db demo_device_user (demo_payload 5) = (Accepted created n, d') \<and>
     handle_position demo_ic demo_parse (Some []) 9 [Works] empty_db no_counters (''mm/s1/HT-01/position'', ''fix'') =
       (True, one_stored no_counters, d')"
proof -
  have "\<exists>c. to_canonical 9 (demo_payload 5) = Inr c"
    using demo_passes(1) by (auto simp: to_canonical_def model_validate_def demo_payload_def split: option.splits if_splits)
  moreover have "\<not> is_future demo_settings 9 (demo_payload 5)"
    using demo_passes(2) by (simp add: passes_checks_def demo_ic_def)
  ultimately obtain created n d' where
    r: "ingest_position (ic_settings demo_ic) (ic_require_registered demo_ic) [] 9 empty_db demo_device_user (demo_payload 5) =
      (Accepted created n, d')"
    by (auto simp: ingest_position_def store_and_process_def process_position_def list_zones_def insert_position_def
        empty_db_def demo_ic_def position_refusal_def get_device_def demo_device_user_def demo_payload_def
        split: prod.splits sum.splits if_splits)
  have "u_role demo_device_user = ''device''" by (simp add: demo_device_user_def)
  from transports_agree [OF demo_passes(1) this r, of "[]" no_counters] r show ?thesis
    by (auto simp: demo_ic_def position_topic_def demo_payload_def)
qed

end
