(* ===== verification/Delivery.thy ===== *)
theory Delivery
  imports Ingest
begin

text \<open>
  Publisher, broker and ingestor together, as \<^verbatim>\<open>src/src/minemonitor/ingest/mqtt.py\<close> composes them. The
  broker is third-party: what is used of it is that it keeps a message it has received until the
  consumer acknowledges it, and that it may deliver a message again. A delivery runs the
  ingestor's handler with whatever the clock, the devices table and the database do then.
\<close>

text \<open>The publisher validates an entry with the payload model the ingestor reads it with.\<close>

definition publisher_check ::
  "(string \<Rightarrow> payload option) \<Rightarrow> (string \<Rightarrow> string) \<Rightarrow> string \<Rightarrow> string + (string \<times> string)" where
  "publisher_check parse why raw =
     (case model_validate parse raw of None \<Rightarrow> Inl (why raw) | Some p \<Rightarrow> Inr (pl_site p, pl_asset p))"

text \<open>
  Why an ingestor may settle a message without storing it: it does not validate, it fails a check, its schema
  is another, or the database refuses for good, past any transient faults, first the transaction with the
  zones and rules, or these raise, and then the fix alone.
\<close>

definition database_refuses :: "settings \<Rightarrow> time \<Rightarrow> turn list \<Rightarrow> 'a db_scheme \<Rightarrow> payload \<Rightarrow> bool" where
  "database_refuses s now turns d p \<longleftrightarrow>
     (case filter (\<lambda>t. t \<noteq> Transient) turns of
        t # Broken # _ \<Rightarrow> t = Broken \<or> t = Works \<and> (\<exists>e. store_and_process s now d p = Inl e)
      | _ \<Rightarrow> False)"

definition refusable ::
  "ingestor_config \<Rightarrow> (string \<Rightarrow> payload option) \<Rightarrow> devices option \<Rightarrow> time \<Rightarrow> turn list \<Rightarrow> 'a db_scheme
    \<Rightarrow> message \<Rightarrow> bool" where
  "refusable ic parse ds now turns d msg \<longleftrightarrow>
     (case model_validate parse (snd msg) of
        None \<Rightarrow> True
      | Some p \<Rightarrow> fails_check ic ds now (fst msg) p \<or> pl_schema p \<noteq> ''asset.position.v1'' \<or>
          database_refuses (ic_settings ic) now turns d p)"

record 'a link =
  lk_pub :: pub_state
  lk_db :: "'a db_scheme"
  lk_counts :: counters
  settled :: "message list"
  refused :: "message list"

inductive link_step ::
  "ingestor_config \<Rightarrow> (string \<Rightarrow> payload option) \<Rightarrow> (string \<Rightarrow> string) \<Rightarrow> 'a link \<Rightarrow> 'a link \<Rightarrow> bool"
  for ic parse why where
  published: "pub_step (publisher_check parse why) (ic_prefix ic) (lk_pub l) p \<Longrightarrow>
     link_step ic parse why l (l\<lparr>lk_pub := p\<rparr>)"
| deliver: "msg \<in> set (broker (lk_pub l)) \<Longrightarrow>
     handle_position ic parse ds now turns (lk_db l) (lk_counts l) msg = (ack, k, d) \<Longrightarrow>
     link_step ic parse why l
       (l\<lparr>lk_db := d, lk_counts := k,
          settled := (if ack then settled l @ [msg] else settled l),
          refused := (if ack \<and> refusable ic parse ds now turns (lk_db l) msg then refused l @ [msg] else refused l)\<rparr>)"

inductive_cases link_stepE: "link_step ic parse why l m"

definition in_store :: "(string \<Rightarrow> payload option) \<Rightarrow> 'a db_scheme \<Rightarrow> string \<Rightarrow> bool" where
  "in_store parse d raw \<longleftrightarrow>
     (\<exists>p. model_validate parse raw = Some p \<and> payload_key p \<in> fix_key ` set (positions d))"

text \<open>Where an entry handed to the publisher is.\<close>

definition traced ::
  "ingestor_config \<Rightarrow> (string \<Rightarrow> payload option) \<Rightarrow> (string \<Rightarrow> string) \<Rightarrow> 'a link \<Rightarrow> nat \<times> string \<Rightarrow> bool" where
  "traced ic parse why l e \<longleftrightarrow>
     e \<in> set (sp_rows (pub_spool (lk_pub l))) \<or>
     set_aside (publisher_check parse why) (pub_spool (lk_pub l)) e \<or>
     (\<exists>topic. (topic, snd e) \<in> set (broker (lk_pub l)) \<and> (topic, snd e) \<notin> set (settled l)) \<or>
     (\<exists>topic. (topic, snd e) \<in> set (refused l)) \<or>
     in_store parse (lk_db l) (snd e)"

definition link_inv ::
  "ingestor_config \<Rightarrow> (string \<Rightarrow> payload option) \<Rightarrow> (string \<Rightarrow> string) \<Rightarrow> 'a link \<Rightarrow> bool" where
  "link_inv ic parse why l \<longleftrightarrow>
     pub_inv (publisher_check parse why) (ic_prefix ic) (lk_pub l) \<and>
     fixes_distinct (lk_db l) \<and>
     (\<forall>msg \<in> set (settled l). msg \<in> set (refused l) \<or> in_store parse (lk_db l) (snd msg)) \<and>
     (\<forall>q \<in> set (positions (lk_db l)). \<exists>e \<in> set (handed (lk_pub l)). \<exists>p.
        model_validate parse (snd e) = Some p \<and> payload_key p = fix_key q)"

lemma stored_as_grows: "stored_as p d d' \<Longrightarrow> fix_key ` set (positions d') = insert (payload_key p) (fix_key ` set (positions d))"
  unfolding stored_as_def by (cases "payload_key p \<in> fix_key ` set (positions d)") (auto simp: insert_absorb)

lemma raw_dropped:
  assumes "store_raw_with_retry now ts d k p = (Dropped, k', d')"
  shows "pl_schema p \<noteq> ''asset.position.v1'' \<or> \<not> payload_ok p \<or> (\<exists>us. filter (\<lambda>t. t \<noteq> Transient) ts = Broken # us)"
  using assms
proof (induction ts)
  case (Cons t ts)
  then show ?case
    by (cases t) (auto simp: store_position_def to_canonical_def split: sum.splits if_splits)
qed simp

lemma dropped_for_cause:
  assumes "store_with_retry s now ts d k p = (Dropped, k', d')" and "payload_ok p"
  shows "pl_schema p \<noteq> ''asset.position.v1'' \<or> database_refuses s now ts d p"
  using assms(1)
proof (induction ts)
  case (Cons t ts)
  show ?case
  proof (cases t)
    case Broken
    then show ?thesis using Cons.prems raw_dropped [of now ts d "one_failed k" p k' d'] assms(2)
      by (auto simp: database_refuses_def)
  next
    case Works
    then obtain e where "store_and_process s now d p = Inl e" using Cons.prems by (auto split: sum.splits)
    with Works show ?thesis using Cons.prems raw_dropped [of now ts d "one_failed k" p k' d'] assms(2)
      by (auto simp: database_refuses_def)
  qed (use Cons in \<open>auto simp: database_refuses_def\<close>)
qed simp

lemma acknowledged_for_cause:
  assumes "handle_position ic parse ds now ts d k (topic, raw) = (True, k', d')"
    and "\<not> refusable ic parse ds now ts d (topic, raw)"
  shows "in_store parse d' raw"
proof -
  obtain p where p: "model_validate parse raw = Some p" "\<not> fails_check ic ds now topic p" "pl_schema p = ''asset.position.v1''"
    "\<not> database_refuses (ic_settings ic) now ts d p"
    using assms(2) by (auto simp: refusable_def split: option.splits)
  then have pass: "passes_checks ic ds now topic p" using handle_lookup_raises [OF p(1,2), of ts d k] assms(1) by auto
  have ok: "payload_ok p" using p(1) by (auto simp: model_validate_def split: option.splits if_splits)
  obtain out k1 d1 where r: "store_with_retry (ic_settings ic) now ts d k p = (out, k1, d1)" by (metis prod_cases3)
  with assms(1) have d': "out \<noteq> Stopped" "d' = d1" by (auto simp: handle_passing [OF p(1) pass])
  with r dropped_for_cause [of "ic_settings ic" now ts d k p k1 d1, OF _ ok] p(3,4) have "out = Stored" by (cases out) auto
  with store_outcome [OF r] show ?thesis using p(1) d' by (auto simp: in_store_def stored_as_def)
qed

text \<open>What one delivery does to the store.\<close>

lemma handle_store:
  assumes "handle_position ic parse ds now turns d k (topic, raw) = (ack, k', d')"
  shows "(fix_key ` set (positions d') = fix_key ` set (positions d) \<or>
      (\<exists>p. model_validate parse raw = Some p \<and>
         fix_key ` set (positions d') = insert (payload_key p) (fix_key ` set (positions d)))) \<and>
    (fixes_distinct d \<longrightarrow> fixes_distinct d') \<and>
    (ack \<longrightarrow> refusable ic parse ds now turns d (topic, raw) \<or> in_store parse d' raw)"
proof -
  have dist: "fixes_distinct d'" if "stored_as p d d'" "fixes_distinct d" for p
    using that by (auto simp: stored_as_def fixes_distinct_def)
  consider "d' = d" | p where "model_validate parse raw = Some p" "stored_as p d d'"
    using handle_outcome [OF assms] by (auto split: if_splits)
  then have "(fix_key ` set (positions d') = fix_key ` set (positions d) \<or>
      (\<exists>p. model_validate parse raw = Some p \<and>
         fix_key ` set (positions d') = insert (payload_key p) (fix_key ` set (positions d)))) \<and>
    (fixes_distinct d \<longrightarrow> fixes_distinct d')"
  proof cases
    case 2
    with dist [OF 2(2)] stored_as_grows [OF 2(2)] show ?thesis by blast
  qed simp
  moreover have "ack \<longrightarrow> refusable ic parse ds now turns d (topic, raw) \<or> in_store parse d' raw"
    using acknowledged_for_cause [of ic parse ds now turns d k topic raw k' d'] assms by (cases ack) auto
  ultimately show ?thesis by blast
qed

lemma link_inv_step:
  assumes inv: "link_inv ic parse why l" and "link_step ic parse why l m"
  shows "link_inv ic parse why m"
  using assms(2)
proof (cases rule: link_step.cases)
  case (published p)
  have "pub_inv (publisher_check parse why) (ic_prefix ic) p"
    using inv published(2) by (auto simp: link_inv_def intro: publisher.change_inv)
  moreover have "set (handed (lk_pub l)) \<subseteq> set (handed p)" using publisher.change_given [OF published(2)] .
  ultimately show ?thesis using inv unfolding published(1) link_inv_def by fastforce
next
  case (deliver msg ds now turns ack k d)
  obtain topic raw where msg: "msg = (topic, raw)" by fastforce
  note st = handle_store [OF deliver(3) [unfolded msg]]
  obtain i where i: "(i, raw) \<in> set (handed (lk_pub l))"
    using inv deliver(2) msg by (auto simp: link_inv_def pub_inv_def messages_of_def)
  have mono: "in_store parse d r" if "in_store parse (lk_db l) r" for r
    using that st by (auto simp: in_store_def)
  have origin: "\<exists>e \<in> set (handed (lk_pub l)). \<exists>p. model_validate parse (snd e) = Some p \<and> payload_key p = fix_key q"
    if "q \<in> set (positions d)" for q
  proof (cases "fix_key q \<in> fix_key ` set (positions (lk_db l))")
    case True
    then obtain q' where "q' \<in> set (positions (lk_db l))" "fix_key q' = fix_key q" by auto
    with inv show ?thesis unfolding link_inv_def by metis
  next
    case False
    moreover have "fix_key q \<in> fix_key ` set (positions d)" using that by (rule imageI)
    ultimately obtain p where p: "model_validate parse raw = Some p"
      "fix_key q \<in> insert (payload_key p) (fix_key ` set (positions (lk_db l)))"
      using conjunct1 [OF st] by metis
    with False have "payload_key p = fix_key q" by simp
    with i p(1) show ?thesis by force
  qed
  have "x \<in> set (refused m) \<or> in_store parse d (snd x)" if "x \<in> set (settled m)" for x
  proof (cases "x \<in> set (settled l)")
    case True
    with inv mono have "x \<in> set (refused l) \<or> in_store parse d (snd x)" unfolding link_inv_def by blast
    then show ?thesis unfolding deliver(1) by auto
  next
    case False
    with that have "x = msg" "ack" unfolding deliver(1) by (auto split: if_splits)
    with st show ?thesis unfolding deliver(1) by (auto simp: msg)
  qed
  moreover have "fixes_distinct d" using inv st by (simp add: link_inv_def)
  ultimately show ?thesis
    using inv origin unfolding link_inv_def by (simp add: deliver(1))
qed

interpretation chain: custody "link_step ic parse why" "link_inv ic parse why" "\<lambda>l. set (handed (lk_pub l))"
  "traced ic parse why"
proof
  fix l m assume "link_step ic parse why l m"
  then show "set (handed (lk_pub l)) \<subseteq> set (handed (lk_pub m))"
  proof (cases rule: link_step.cases)
    case (published p)
    then show ?thesis using publisher.change_given [OF published(2)] by simp
  qed simp
next
  fix l e assume inv: "link_inv ic parse why l" and e: "e \<in> set (handed (lk_pub l))"
  then have "accounted (publisher_check parse why) (ic_prefix ic) (lk_pub l) e"
    by (auto simp: link_inv_def intro: publisher.inv_held)
  with inv show "traced ic parse why l e"
    by (auto simp: accounted_def delivered_def traced_def link_inv_def)
qed (rule link_inv_step)

text \<open>A site whose publisher has handed over nothing yet, over any store without positions.\<close>

definition link_start :: "'a db_scheme \<Rightarrow> 'a link" where
  "link_start d = \<lparr>lk_pub = pub_start, lk_db = d,
     lk_counts = \<lparr>stored_count = 0, rejected_count = 0, processing_failed_count = 0\<rparr>, settled = [], refused = []\<rparr>"

lemma link_inv_start: "positions d = [] \<Longrightarrow> link_inv ic parse why (link_start d)"
  by (simp add: link_inv_def link_start_def pub_inv_start fixes_distinct_def)

text \<open>C2: no position is lost and none is duplicated between the publisher and the database. In
  every state that publishing, draining, power cuts, lost acknowledgements, redeliveries and
  database outages can lead to, each entry handed over is in the spool, in quarantine, with the
  broker and not yet settled, settled with a reason to refuse it (it does not validate, it fails a check of the
  ingestor, it names another schema, or the database refused it for good), or stored; a message acknowledged
  without such a reason is in the database. No fix is stored twice, and every stored fix is that of an entry
  handed over.\<close>

theorem delivery_loses_and_duplicates_nothing:
  assumes "(link_step ic parse why)\<^sup>*\<^sup>* (link_start d) l" and "positions d = []"
  shows "(\<forall>e \<in> set (handed (lk_pub l)). traced ic parse why l e) \<and> fixes_distinct (lk_db l) \<and>
    (\<forall>q \<in> set (positions (lk_db l)). \<exists>e \<in> set (handed (lk_pub l)). \<exists>p.
       model_validate parse (snd e) = Some p \<and> payload_key p = fix_key q)"
proof -
  have inv: "link_inv ic parse why l" using chain.reach [OF assms(1) link_inv_start [OF assms(2)]] by blast
  then show ?thesis using chain.inv_held [OF inv] by (auto simp: link_inv_def)
qed

text \<open>One fix is published, drained to the broker and delivered.\<close>

theorem delivery_loses_and_duplicates_nothing_witness:
  "\<exists>l. (link_step demo_ic demo_parse id)\<^sup>*\<^sup>* (link_start empty_db) l \<and> handed (lk_pub l) = [(1, ''fix'')] \<and>
     sp_rows (pub_spool (lk_pub l)) = [] \<and> refused l = [] \<and>
     settled l = [(''mm/s1/HT-01/position'', ''fix'')] \<and> traced demo_ic demo_parse id l (1, ''fix'') \<and>
     in_store demo_parse (lk_db l) ''fix''"
proof -
  let ?check = "publisher_check demo_parse id" and ?msg = "(''mm/s1/HT-01/position'', ''fix'')"
  let ?s1 = "snd (append_entry empty_spool ''fix'')"
  let ?p1 = "pub_start\<lparr>pub_spool := ?s1, handed := [(1, ''fix'')]\<rparr>"
  let ?p2 = "?p1\<lparr>pub_spool := delete_entries ?s1 [1], broker := [?msg]\<rparr>"
  let ?l1 = "(link_start empty_db)\<lparr>lk_pub := ?p1\<rparr>" and ?l2 = "(link_start empty_db)\<lparr>lk_pub := ?p2\<rparr>"
  have "pub_step ?check (ic_prefix demo_ic) (lk_pub (link_start empty_db)) ?p1"
    using pub_step.publish_position [of pub_start "''fix''" 1 ?s1 ?check "ic_prefix demo_ic"]
    by (simp add: pub_start_def append_entry_def empty_spool_def link_start_def)
  then have 1: "link_step demo_ic demo_parse id (link_start empty_db) ?l1" by (rule link_step.published)
  have "drain_once ?check (ic_prefix demo_ic) [Acked] 1 (pub_spool ?p1) (broker ?p1) = (Some 1, delete_entries ?s1 [1], [?msg])"
    by (simp add: drain_once_def peek_def append_entry_def empty_spool_def pub_start_def publisher_check_def demo_passes
        demo_payload_def position_topic_def demo_ic_def)
  then have "pub_step ?check (ic_prefix demo_ic) (lk_pub ?l1) ?p2" using pub_step.drained by fastforce
  then have "link_step demo_ic demo_parse id ?l1 (?l1\<lparr>lk_pub := ?p2\<rparr>)" by (rule link_step.published)
  then have 2: "link_step demo_ic demo_parse id ?l1 ?l2" by simp
  obtain ack k d where h: "handle_position demo_ic demo_parse (Some []) 9 [Works] (lk_db ?l2) (lk_counts ?l2) ?msg = (ack, k, d)"
    by (metis prod_cases3)
  have "\<exists>c. to_canonical 9 (demo_payload 5) = Inr c"
    using demo_passes(1) by (auto simp: to_canonical_def model_validate_def demo_payload_def split: option.splits if_splits)
  then have "ack"
    using h unfolding handle_passing [OF demo_passes]
    by (auto simp: link_start_def store_and_process_def process_position_def list_zones_def insert_position_def empty_db_def
        split: prod.splits sum.splits if_splits)
  moreover have calm: "\<not> refusable demo_ic demo_parse (Some []) 9 [Works] (lk_db ?l2) ?msg"
    using demo_passes by (auto simp: refusable_def fails_check_def passes_checks_def database_refuses_def demo_payload_def)
  ultimately have "in_store demo_parse d ''fix''"
    using h acknowledged_for_cause [of demo_ic demo_parse "Some []" 9 "[Works]" "lk_db ?l2" "lk_counts ?l2"
      "''mm/s1/HT-01/position''" "''fix''" k d] by simp
  let ?l3 = "?l2\<lparr>lk_db := d, lk_counts := k, settled := [?msg]\<rparr>"
  have "link_step demo_ic demo_parse id ?l2 ?l3"
    using link_step.deliver [OF _ h, of id] \<open>ack\<close> calm by (simp add: link_start_def)
  with 1 2 have r: "(link_step demo_ic demo_parse id)\<^sup>*\<^sup>* (link_start empty_db) ?l3" by (meson converse_rtranclp_into_rtranclp r_into_rtranclp)
  have "positions empty_db = []" by (simp add: empty_db_def)
  from delivery_loses_and_duplicates_nothing [OF r this] have "traced demo_ic demo_parse id ?l3 (1, ''fix'')" by simp
  with r show ?thesis using \<open>in_store demo_parse d ''fix''\<close>
    by (intro exI [of _ ?l3]) (simp add: delete_entries_def append_entry_def empty_spool_def link_start_def)
qed

end
