(* ===== verification/Teltonika.thy ===== *)
theory Teltonika
  imports Ingest Spool
begin

text \<open>
  The tracker protocol of \<^verbatim>\<open>src/src/minemonitor/ingest/adapters/teltonika.py\<close>: the checksum, the
  handshake, the decoder of Codec 8 and 8 Extended packets, the mapping of records to position
  payloads, the replay adapter, and the connection handler of the TCP server with its
  acknowledgements. The stream of a connection is the bytes the tracker sends before it falls
  silent or disconnects. A tracker's clock is read as exact milliseconds; the float the source
  divides by 1000 agrees to the microsecond for dates before the year 2242.
\<close>

unbundle bit_operations_syntax

section \<open>Integers in byte strings\<close>

text \<open>\<^verbatim>\<open>int.from_bytes(b, "big")\<close>, with and without a sign, and \<^verbatim>\<open>int.to_bytes\<close>.\<close>

definition from_bytes :: "bytes \<Rightarrow> nat" where
  "from_bytes bs = foldl (\<lambda>n b. 256 * n + unat b) 0 bs"

definition from_bytes_signed :: "bytes \<Rightarrow> int" where
  "from_bytes_signed bs =
     (case bs of
        [] \<Rightarrow> 0
      | b # _ \<Rightarrow> if 128 \<le> unat b then int (from_bytes bs) - 256 ^ length bs else int (from_bytes bs))"

fun to_bytes :: "nat \<Rightarrow> nat \<Rightarrow> bytes" where
  "to_bytes 0 n = []"
| "to_bytes (Suc k) n = to_bytes k (n div 256) @ [word_of_nat n]"

definition py_slice :: "bytes \<Rightarrow> nat \<Rightarrow> nat \<Rightarrow> bytes" where
  "py_slice data off n = take n (drop off data)"

definition u_int :: "bytes \<Rightarrow> nat \<Rightarrow> nat \<Rightarrow> nat \<times> nat" where
  "u_int data off n = (from_bytes (py_slice data off n), off + n)"

definition s_int :: "bytes \<Rightarrow> nat \<Rightarrow> nat \<Rightarrow> int \<times> nat" where
  "s_int data off n = (from_bytes_signed (py_slice data off n), off + n)"

lemma byte_less: "unat (b :: byte) < 256"
  using unsigned_less [of b, where ?'a = nat] by simp

lemma from_bytes_Nil [simp]: "from_bytes [] = 0"
  by (simp add: from_bytes_def)

lemma from_bytes_snoc [simp]: "from_bytes (bs @ [b]) = 256 * from_bytes bs + unat b"
  by (simp add: from_bytes_def)

lemma from_bytes_less: "from_bytes bs < 256 ^ length bs"
proof (induction bs rule: rev_induct)
  case (snoc b bs)
  then show ?case using byte_less [of b] by simp
qed simp

lemma length_to_bytes [simp]: "length (to_bytes k n) = k"
  by (induction k arbitrary: n) simp_all

lemma from_to_bytes [simp]: "n < 256 ^ k \<Longrightarrow> from_bytes (to_bytes k n) = n"
proof (induction k arbitrary: n)
  case (Suc k)
  then have "n div 256 < 256 ^ k" by (simp add: less_mult_imp_div_less mult.commute)
  with Suc.IH have "from_bytes (to_bytes k (n div 256)) = n div 256" .
  then show ?case by (simp add: unat_of_nat)
qed simp

section \<open>The checksum\<close>

definition crc_shift :: "nat \<Rightarrow> nat" where
  "crc_shift crc = (if crc AND 1 \<noteq> 0 then drop_bit 1 crc XOR 0xA001 else drop_bit 1 crc)"

definition crc_byte :: "nat \<Rightarrow> byte \<Rightarrow> nat" where
  "crc_byte crc b = (crc_shift ^^ 8) (crc XOR unat b)"

definition crc16_ibm :: "bytes \<Rightarrow> nat" where
  "crc16_ibm data = foldl crc_byte 0 data AND 0xFFFF"

lemma crc_shift_odd: "crc_shift c = (if odd c then drop_bit 1 c XOR 0xA001 else drop_bit 1 c)"
  by (simp add: crc_shift_def and_one_eq odd_iff_mod_2_eq_one)

lemma xor_less:
  assumes "a < 2 ^ n" "b < 2 ^ n"
  shows "a XOR b < (2 ^ n :: nat)"
proof -
  have "take_bit n (a XOR b) = a XOR b" using assms by (simp add: take_bit_xor take_bit_nat_eq_self)
  then show ?thesis by (simp only: take_bit_nat_eq_self_iff)
qed

lemma xor_cancel: "(a XOR b) XOR b = (a :: nat)"
  by (simp add: xor.assoc)

lemma xor_cancel2: "a XOR a XOR b = (b :: nat)"
  by (simp add: xor.assoc [symmetric])

lemma xor_cancel_left: "a XOR b = a XOR c \<longleftrightarrow> b = (c :: nat)"
  by (metis xor_cancel2)

lemma crc_shift_less: "c < 2 ^ 16 \<Longrightarrow> crc_shift c < 2 ^ 16"
proof -
  assume "c < 2 ^ 16"
  then have "drop_bit 1 c < 2 ^ 16" by (simp add: drop_bit_Suc)
  then show ?thesis using xor_less [of "drop_bit 1 c" 16 "0xA001"] by (simp add: crc_shift_odd)
qed

lemma crc_shift_xor: "crc_shift (a XOR b) = crc_shift a XOR crc_shift b"
  by (auto simp: crc_shift_odd even_xor_iff ac_simps)

text \<open>A register whose top bit is clear after a shift was only shifted.\<close>

lemma crc_shift_low:
  assumes "c < 2 ^ 16" "crc_shift c < 2 ^ 15"
  shows "c = 2 * crc_shift c"
proof (cases "odd c")
  case True
  have "drop_bit 1 c < 2 ^ 15" using assms(1) by (simp add: drop_bit_Suc)
  moreover have "drop_bit 1 c XOR 0xA001 < 2 ^ 15" using True assms(2) by (simp add: crc_shift_odd)
  ultimately have "drop_bit 1 c XOR (drop_bit 1 c XOR 0xA001) < 2 ^ 15" by (rule xor_less)
  then have "(0xA001 :: nat) < 2 ^ 15" by (simp only: xor.assoc [symmetric] xor_self_eq xor.left_neutral)
  then show ?thesis by simp
next
  case False
  then show ?thesis by (simp add: crc_shift_odd drop_bit_Suc)
qed

lemma crc_shifts_less: "c < 2 ^ 16 \<Longrightarrow> (crc_shift ^^ n) c < 2 ^ 16"
  by (induction n) (simp_all add: crc_shift_less [simplified])

lemma crc_shifts_xor: "(crc_shift ^^ n) (a XOR b) = (crc_shift ^^ n) a XOR (crc_shift ^^ n) b"
  by (induction n) (simp_all add: crc_shift_xor)

lemma crc_shifts_low:
  assumes "c < 2 ^ 16"
  shows "n \<le> 16 \<Longrightarrow> (crc_shift ^^ n) c < 2 ^ (16 - n) \<Longrightarrow> c = 2 ^ n * (crc_shift ^^ n) c"
proof (induction n)
  case (Suc n)
  let ?c = "(crc_shift ^^ n) c"
  have e: "16 - n = Suc (16 - Suc n)" using Suc.prems(1) by simp
  have "(2 :: nat) ^ (16 - Suc n) \<le> 2 ^ 15" by (rule power_increasing) auto
  then have "crc_shift ?c < 2 ^ 15" using Suc.prems(2) by simp
  then have d: "?c = 2 * crc_shift ?c" using crc_shift_low crc_shifts_less [OF assms] by blast
  then have "?c < 2 ^ (16 - n)" using Suc.prems(2) e by simp
  then have "c = 2 ^ n * ?c" using Suc.IH Suc.prems(1) by simp
  also have "\<dots> = 2 ^ n * (2 * crc_shift ?c)" using d by simp
  finally show ?case by simp
qed simp

lemma crc_shifts_inj:
  assumes "a < 2 ^ 16" "b < 2 ^ 16" "(crc_shift ^^ 8) a = (crc_shift ^^ 8) b"
  shows "a = b"
proof -
  have z: "(crc_shift ^^ 8) (a XOR b) = 0" using assms(3) by (simp only: crc_shifts_xor xor_self_eq)
  have "a XOR b = 2 ^ 8 * (crc_shift ^^ 8) (a XOR b)"
    by (rule crc_shifts_low) (use z xor_less [OF assms(1,2)] in simp_all)
  then have "a XOR b = a XOR a" using z by simp
  then show ?thesis by (simp only: xor_cancel_left)
qed

text \<open>A difference in one byte shows in the upper half of the register.\<close>

lemma crc_byte_low:
  assumes "d < 256" "(crc_shift ^^ 8) d < 256"
  shows "d = 0"
proof -
  have "d = 2 ^ 8 * (crc_shift ^^ 8) d" by (rule crc_shifts_low) (use assms in simp_all)
  then have "d = 256 * (crc_shift ^^ 8) d" by simp
  with assms(1) show ?thesis by presburger
qed

lemma byte_xor_less: "unat (a :: byte) XOR unat (b :: byte) < 256"
  using xor_less [of "unat a" 8 "unat b"] byte_less [of a] byte_less [of b] by simp

lemma crc_state_less: "c < 2 ^ 16 \<Longrightarrow> c XOR unat (b :: byte) < 2 ^ 16"
  using byte_less [of b] by (intro xor_less) simp_all

lemma crc_run_less: "c < 2 ^ 16 \<Longrightarrow> foldl crc_byte c bs < 2 ^ 16"
proof (induction bs rule: rev_induct)
  case (snoc b bs)
  then show ?case using crc_shifts_less [OF crc_state_less] by (simp add: crc_byte_def)
qed simp

lemma crc16_ibm_run: "crc16_ibm bs = foldl crc_byte 0 bs"
proof -
  have "take_bit 16 (foldl crc_byte 0 bs) = foldl crc_byte 0 bs"
    using crc_run_less [of 0 bs] by (intro take_bit_nat_eq_self) simp
  then show ?thesis by (simp add: crc16_ibm_def take_bit_eq_mask mask_eq_exp_minus_1)
qed

lemma crc16_ibm_less: "crc16_ibm bs < 2 ^ 16"
  using crc_run_less [of 0 bs] by (simp add: crc16_ibm_run)

lemma crc_run_inj:
  "a < 2 ^ 16 \<Longrightarrow> b < 2 ^ 16 \<Longrightarrow> foldl crc_byte a bs = foldl crc_byte b bs \<Longrightarrow> a = b"
proof (induction bs arbitrary: a b)
  case (Cons x bs)
  have less: "crc_byte c x < 2 ^ 16" if "c < 2 ^ 16" for c
    using crc_shifts_less [OF crc_state_less [OF that]] by (simp add: crc_byte_def)
  have "crc_byte a x = crc_byte b x" using Cons.IH [OF less less] Cons.prems by simp
  then have "a XOR unat x = b XOR unat x"
    using crc_shifts_inj [OF crc_state_less crc_state_less] Cons.prems by (simp add: crc_byte_def)
  then show ?case by (metis xor_cancel)
qed simp

lemma crc_two_bytes_inj:
  assumes "c < 2 ^ 16" "crc_byte (crc_byte c x1) x2 = crc_byte (crc_byte c y1) y2"
  shows "x1 = y1 \<and> x2 = y2"
proof -
  let ?X = "crc_byte c x1" and ?Y = "crc_byte c y1"
  have less: "?X < 2 ^ 16" "?Y < 2 ^ 16" using crc_run_less [OF assms(1), of "[x1]"] crc_run_less [OF assms(1), of "[y1]"] by simp_all
  have e: "?X XOR unat x2 = ?Y XOR unat y2"
    using crc_shifts_inj [OF crc_state_less [OF less(1)] crc_state_less [OF less(2)]] assms(2) by (simp add: crc_byte_def)
  have "(crc_shift ^^ 8) (unat x1 XOR unat y1) = ?X XOR ?Y"
    by (simp only: crc_byte_def crc_shifts_xor [symmetric]) (simp add: ac_simps xor_cancel2)
  also have "\<dots> = unat x2 XOR unat y2"
    using e by (metis xor.assoc xor.commute xor_cancel2)
  finally have "(crc_shift ^^ 8) (unat x1 XOR unat y1) = unat x2 XOR unat y2" .
  then have "unat x1 XOR unat y1 = 0" using crc_byte_low byte_xor_less by metis
  then have x: "unat x1 = unat y1" by (metis xor_cancel xor.left_neutral)
  then have "?X = ?Y" by (simp add: crc_byte_def)
  with e have "unat x2 = unat y2" by (simp add: xor_cancel_left)
  with x show ?thesis by (simp add: word_unat_eq_iff)
qed

text \<open>Two fields that differ in one byte, or in two neighbouring bytes, have different checksums.\<close>

lemma crc_detects_burst:
  assumes "crc16_ibm (p @ [x1, x2] @ s) = crc16_ibm (p @ [y1, y2] @ s)"
  shows "x1 = y1 \<and> x2 = y2"
proof -
  let ?c = "foldl crc_byte 0 p"
  have c: "?c < 2 ^ 16" using crc_run_less [of 0 p] by simp
  have "crc_byte (crc_byte ?c x1) x2 = crc_byte (crc_byte ?c y1) y2"
    by (rule crc_run_inj [where bs = s])
       (use assms crc_run_less [OF c, of "[x1, x2]"] crc_run_less [OF c, of "[y1, y2]"] in \<open>simp_all add: crc16_ibm_run\<close>)
  then show ?thesis by (rule crc_two_bytes_inj [OF c])
qed

section \<open>The decoder\<close>

definition codec_8 :: nat where "codec_8 = 0x08"
definition codec_8e :: nat where "codec_8e = 0x8E"
definition ignition_io_id :: nat where "ignition_io_id = 239"

record avl_record =
  avl_ts :: time
  avl_priority :: nat
  avl_lon :: real
  avl_lat :: real
  avl_altitude :: int
  avl_angle :: nat
  avl_satellites :: nat
  avl_speed :: nat
  avl_event :: nat
  avl_io :: "(nat \<times> nat) list"

definition ignition :: "avl_record \<Rightarrow> bool option" where
  "ignition r = map_option (\<lambda>v. v \<noteq> 0) (map_of (avl_io r) ignition_io_id)"

record decoded_packet =
  codec_id :: nat
  records :: "avl_record list"

definition parse_imei :: "bytes \<Rightarrow> string option" where
  "parse_imei data =
     (if length data < 2 then None
      else let len = from_bytes (py_slice data 0 2); imei = py_slice data 2 len
           in if length imei \<noteq> len then None
              else let txt = map (\<lambda>b. char_of (unat b)) (filter (\<lambda>b. unat b < 128) imei)
                   in if txt \<noteq> [] \<and> list_all is_digit txt then Some txt else None)"

text \<open>The loops of \<^verbatim>\<open>_parse_io\<close>: one section of values of a size, the four sections, the variable part.\<close>

fun io_values :: "bytes \<Rightarrow> nat \<Rightarrow> nat \<Rightarrow> nat \<Rightarrow> nat \<Rightarrow> (nat \<times> nat) list \<Rightarrow> (nat \<times> nat) list \<times> nat" where
  "io_values data w value_size 0 off io = (io, off)"
| "io_values data w value_size (Suc k) off io =
     (let (io_id, off) = u_int data off w; (v, off) = u_int data off value_size
      in io_values data w value_size k off (dict_put io_id v io))"

fun io_sections :: "bytes \<Rightarrow> nat \<Rightarrow> nat list \<Rightarrow> nat \<Rightarrow> (nat \<times> nat) list \<Rightarrow> (nat \<times> nat) list \<times> nat" where
  "io_sections data w [] off io = (io, off)"
| "io_sections data w (value_size # sizes) off io =
     (let (count, off) = u_int data off w; (io, off) = io_values data w value_size count off io
      in io_sections data w sizes off io)"

fun skip_variable :: "bytes \<Rightarrow> nat \<Rightarrow> nat \<Rightarrow> nat" where
  "skip_variable data 0 off = off"
| "skip_variable data (Suc k) off =
     (let (_, off) = u_int data off 2; (len, off) = u_int data off 2
      in skip_variable data k (off + len))"

definition parse_io :: "bytes \<Rightarrow> nat \<Rightarrow> bool \<Rightarrow> nat \<times> (nat \<times> nat) list \<times> nat" where
  "parse_io data off extended =
     (let w = (if extended then 2 else 1);
          (event_io_id, off) = u_int data off w;
          (_, off) = u_int data off w;
          (io, off) = io_sections data w [1, 2, 4, 8] off [];
          off = (if extended then let (nx, off) = u_int data off 2 in skip_variable data nx off else off)
      in (event_io_id, io, off))"

text \<open>\<^verbatim>\<open>datetime.fromtimestamp(ts_ms / 1000, tz=UTC)\<close>: the last representable year is 9999.\<close>

definition from_timestamp_ms :: "nat \<Rightarrow> py_error + time" where
  "from_timestamp_ms ms = (if ms < 253402300800000 then Inr (1000 * int ms) else Inl ValueError)"

definition parse_record :: "bytes \<Rightarrow> nat \<Rightarrow> bool \<Rightarrow> py_error + (avl_record \<times> nat)" where
  "parse_record data off extended =
     (let (ts_ms, off) = u_int data off 8;
          (priority, off) = u_int data off 1;
          (lon_raw, off) = s_int data off 4;
          (lat_raw, off) = s_int data off 4;
          (altitude, off) = s_int data off 2;
          (angle, off) = u_int data off 2;
          (satellites, off) = u_int data off 1;
          (speed, off) = u_int data off 2;
          (event_io_id, io, off) = parse_io data off extended
      in and_then (from_timestamp_ms ts_ms) (\<lambda>ts.
           Inr (\<lparr>avl_ts = ts, avl_priority = priority, avl_lon = of_int lon_raw / 10 ^ 7,
             avl_lat = of_int lat_raw / 10 ^ 7, avl_altitude = altitude, avl_angle = angle,
             avl_satellites = satellites, avl_speed = speed, avl_event = event_io_id, avl_io = io\<rparr>, off)))"

fun parse_records :: "bytes \<Rightarrow> bool \<Rightarrow> nat \<Rightarrow> nat \<Rightarrow> avl_record list \<Rightarrow> py_error + (avl_record list \<times> nat)" where
  "parse_records data extended 0 off rs = Inr (rs, off)"
| "parse_records data extended (Suc k) off rs =
     and_then (parse_record data off extended) (\<lambda>(r, off). parse_records data extended k off (rs @ [r]))"

definition index :: "bytes \<Rightarrow> nat \<Rightarrow> py_error + byte" where
  "index data i = (if i < length data then Inr (data ! i) else Inl IndexError)"

definition decode_data :: "bytes \<Rightarrow> py_error + decoded_packet" where
  "decode_data data =
     and_then (index data 0) (\<lambda>codec.
     if unat codec \<noteq> codec_8 \<and> unat codec \<noteq> codec_8e then Inl ValueError
     else and_then (index data 1) (\<lambda>count.
          and_then (parse_records data (unat codec = codec_8e) (unat count) 2 []) (\<lambda>(rs, off).
          and_then (index data off) (\<lambda>trailing_count.
          if trailing_count \<noteq> count then Inl ValueError
          else Inr \<lparr>codec_id = unat codec, records = rs\<rparr>))))"

definition decode_packet :: "bytes \<Rightarrow> py_error + decoded_packet" where
  "decode_packet frame =
     (if length frame < 12 then Inl ValueError
      else if py_slice frame 0 4 \<noteq> [0, 0, 0, 0] then Inl ValueError
      else let data_len = from_bytes (py_slice frame 4 4); data = py_slice frame 8 data_len;
               crc_field = py_slice frame (8 + data_len) 4
           in if length data \<noteq> data_len then Inl ValueError
              else if length crc_field \<noteq> 4 then Inl ValueError
              else if crc16_ibm data \<noteq> from_bytes crc_field then Inl ValueError
              else decode_data data)"

definition ack_bytes :: "nat \<Rightarrow> bytes" where
  "ack_bytes n = to_bytes 4 n"

definition position_of_record :: "string \<Rightarrow> string \<Rightarrow> string \<Rightarrow> avl_record \<Rightarrow> payload" where
  "position_of_record site asset source r =
     \<lparr>pl_schema = ''asset.position.v1'', pl_site = site, pl_asset = asset, pl_ts = avl_ts r,
      pl_lat = avl_lat r, pl_lon = avl_lon r, pl_alt = Some (of_int (avl_altitude r)),
      pl_speed = Some (of_nat (avl_speed r)), pl_heading = Some (of_nat (avl_angle r)), pl_hdop = None,
      pl_sats = Some (int (avl_satellites r)), pl_ignition = ignition r, pl_source = Some source\<rparr>"

text \<open>The first record the payload's validation refuses aborts the whole list.\<close>

fun records_to_positions :: "string \<Rightarrow> string \<Rightarrow> string \<Rightarrow> avl_record list \<Rightarrow> py_error + payload list" where
  "records_to_positions site asset source [] = Inr []"
| "records_to_positions site asset source (r # rs) =
     (let p = position_of_record site asset source r
      in if payload_ok p then and_then (records_to_positions site asset source rs) (\<lambda>ps. Inr (p # ps))
         else Inl ValidationError)"

text \<open>
  The replay adapter is a generator: what it yields before a frame it cannot decode or validate,
  and the error it stops with.
\<close>

fun replay_positions :: "string \<Rightarrow> string \<Rightarrow> bytes list \<Rightarrow> payload list \<times> py_error option" where
  "replay_positions site asset [] = ([], None)"
| "replay_positions site asset (frame # frames) =
     (case and_then (decode_packet frame)
             (\<lambda>packet. records_to_positions site asset ''teltonika:replay'' (records packet)) of
        Inl e \<Rightarrow> ([], Some e)
      | Inr ps \<Rightarrow> let (qs, e) = replay_positions site asset frames in (ps @ qs, e))"

section \<open>The server\<close>

definition default_asset_for :: "string \<Rightarrow> string" where
  "default_asset_for imei = ''teltonika-'' @ imei"

definition device_resolver :: "devices \<Rightarrow> string \<Rightarrow> bool \<Rightarrow> string \<Rightarrow> (string \<times> string) option" where
  "device_resolver ds default_site strict imei =
     (case resolve_imei ds imei of
        Some dev \<Rightarrow> Some (d_site dev, d_asset dev)
      | None \<Rightarrow> if strict then None else Some (default_site, default_asset_for imei))"

text \<open>How a connection ends: the tracker left, it was refused, a frame was refused, or an exception escaped.\<close>

datatype ending = Disconnected | Handshake_rejected | Frame_rejected | Uncaught py_error

text \<open>
  \<open>publish\<close> is \<^verbatim>\<open>publisher.publish_position\<close>: the new state of the publisher, or None where writing
  to the spool raises. The loop publishes until the first failure.
\<close>

fun publish_all :: "(payload \<Rightarrow> 's \<Rightarrow> 's option) \<Rightarrow> payload list \<Rightarrow> 's \<Rightarrow> bool \<times> 's" where
  "publish_all publish [] s = (True, s)"
| "publish_all publish (p # ps) s =
     (case publish p s of None \<Rightarrow> (False, s) | Some s' \<Rightarrow> publish_all publish ps s')"

text \<open>\<^verbatim>\<open>readexactly\<close> on what is left of the stream.\<close>

definition read_exactly :: "nat \<Rightarrow> bytes \<Rightarrow> (bytes \<times> bytes) option" where
  "read_exactly n stream = (if length stream < n then None else Some (take n stream, drop n stream))"

function serve_frames ::
  "(payload \<Rightarrow> 's \<Rightarrow> 's option) \<Rightarrow> string \<Rightarrow> string \<Rightarrow> string \<Rightarrow> bytes \<Rightarrow> 's \<Rightarrow> bytes list \<times> 's \<times> ending" where
  "serve_frames publish site asset source stream s =
     (case read_exactly 8 stream of
        None \<Rightarrow> ([], s, Disconnected)
      | Some (head, rest) \<Rightarrow>
          (case read_exactly (from_bytes (py_slice head 4 4) + 4) rest of
             None \<Rightarrow> ([], s, Disconnected)
           | Some (body, rest') \<Rightarrow>
               (case decode_packet (head @ body) of
                  Inl ValueError \<Rightarrow> ([], s, Frame_rejected)
                | Inl e \<Rightarrow> ([], s, Uncaught e)
                | Inr packet \<Rightarrow>
                    (case records_to_positions site asset source (records packet) of
                       Inl e \<Rightarrow> ([], s, Uncaught e)
                     | Inr ps \<Rightarrow>
                         (case publish_all publish ps s of
                            (False, s') \<Rightarrow> ([], s', Uncaught RuntimeError)
                          | (True, s') \<Rightarrow>
                              let (replies, s'', e) = serve_frames publish site asset source rest' s'
                              in (ack_bytes (length (records packet)) # replies, s'', e))))))"
  by pat_completeness auto
termination
  by (relation "measure (\<lambda>(_, _, _, _, stream, _). length stream)")
     (auto simp: read_exactly_def split: if_splits)

declare serve_frames.simps [simp del]

definition handle_connection ::
  "(payload \<Rightarrow> 's \<Rightarrow> 's option) \<Rightarrow> (string \<Rightarrow> (string \<times> string) option) \<Rightarrow> string \<Rightarrow> bytes \<Rightarrow> 's
    \<Rightarrow> bytes list \<times> 's \<times> ending" where
  "handle_connection publish resolve source stream s =
     (case read_exactly 2 stream of
        None \<Rightarrow> ([], s, Disconnected)
      | Some (len, rest) \<Rightarrow>
          (case read_exactly (from_bytes len) rest of
             None \<Rightarrow> ([], s, Disconnected)
           | Some (digits, rest') \<Rightarrow>
               (case parse_imei (len @ digits) of
                  None \<Rightarrow> ([[0]], s, Handshake_rejected)
                | Some imei \<Rightarrow>
                    (case resolve imei of
                       None \<Rightarrow> ([[0]], s, Handshake_rejected)
                     | Some (site, asset) \<Rightarrow>
                         let (replies, s', e) = serve_frames publish site asset (source @ '':'' @ imei) rest' s
                         in ([1] # replies, s', e)))))"

section \<open>The wire format\<close>

text \<open>
  The format the module's documentation lays down, as an encoder: a record with the raw integers
  of the wire, the packet of a list of records, and the frame around it.
\<close>

record wire_record =
  w_ts :: nat
  w_priority :: nat
  w_lon :: int
  w_lat :: int
  w_altitude :: int
  w_angle :: nat
  w_satellites :: nat
  w_speed :: nat
  w_event :: nat
  w_io :: "(nat \<times> nat) list list"
  w_variable :: "(nat \<times> bytes) list"

definition to_bytes_signed :: "nat \<Rightarrow> int \<Rightarrow> bytes" where
  "to_bytes_signed k i = to_bytes k (nat (i mod 256 ^ k))"

definition encode_section :: "nat \<Rightarrow> nat \<Rightarrow> (nat \<times> nat) list \<Rightarrow> bytes" where
  "encode_section w value_size ios =
     to_bytes w (length ios) @ concat (map (\<lambda>e. to_bytes w (fst e) @ to_bytes value_size (snd e)) ios)"

definition encode_variable :: "(nat \<times> bytes) list \<Rightarrow> bytes" where
  "encode_variable vs =
     to_bytes 2 (length vs) @ concat (map (\<lambda>e. to_bytes 2 (fst e) @ to_bytes 2 (length (snd e)) @ snd e) vs)"

definition encode_record :: "bool \<Rightarrow> wire_record \<Rightarrow> bytes" where
  "encode_record extended r =
     (let w = (if extended then 2 else 1)
      in to_bytes 8 (w_ts r) @ to_bytes 1 (w_priority r) @ to_bytes_signed 4 (w_lon r) @
         to_bytes_signed 4 (w_lat r) @ to_bytes_signed 2 (w_altitude r) @ to_bytes 2 (w_angle r) @
         to_bytes 1 (w_satellites r) @ to_bytes 2 (w_speed r) @ to_bytes w (w_event r) @
         to_bytes w (length (concat (w_io r))) @
         concat (map2 (encode_section w) [1, 2, 4, 8] (w_io r)) @
         (if extended then encode_variable (w_variable r) else []))"

definition encode_data :: "bool \<Rightarrow> wire_record list \<Rightarrow> bytes" where
  "encode_data extended rs =
     [if extended then 0x8E else 0x08, word_of_nat (length rs)] @ concat (map (encode_record extended) rs) @
     [word_of_nat (length rs)]"

definition frame_of :: "bytes \<Rightarrow> bytes \<Rightarrow> bytes" where
  "frame_of data crc = [0, 0, 0, 0] @ to_bytes 4 (length data) @ data @ crc"

definition encode_packet :: "bool \<Rightarrow> wire_record list \<Rightarrow> bytes" where
  "encode_packet extended rs =
     frame_of (encode_data extended rs) (to_bytes 4 (crc16_ibm (encode_data extended rs)))"

text \<open>What each record of the wire means, and the ranges of its fields.\<close>

definition record_of :: "wire_record \<Rightarrow> avl_record" where
  "record_of r =
     \<lparr>avl_ts = 1000 * int (w_ts r), avl_priority = w_priority r, avl_lon = of_int (w_lon r) / 10 ^ 7,
      avl_lat = of_int (w_lat r) / 10 ^ 7, avl_altitude = w_altitude r, avl_angle = w_angle r,
      avl_satellites = w_satellites r, avl_speed = w_speed r, avl_event = w_event r,
      avl_io = foldl (\<lambda>io e. dict_put (fst e) (snd e) io) [] (concat (w_io r))\<rparr>"

definition section_ok :: "nat \<Rightarrow> nat \<Rightarrow> (nat \<times> nat) list \<Rightarrow> bool" where
  "section_ok w value_size ios \<longleftrightarrow>
     length ios < 256 ^ w \<and> (\<forall>e \<in> set ios. fst e < 256 ^ w \<and> snd e < 256 ^ value_size)"

definition variable_ok :: "(nat \<times> bytes) list \<Rightarrow> bool" where
  "variable_ok vs \<longleftrightarrow> length vs < 256 ^ 2 \<and> (\<forall>e \<in> set vs. fst e < 256 ^ 2 \<and> length (snd e) < 256 ^ 2)"

definition signed_ok :: "nat \<Rightarrow> int \<Rightarrow> bool" where
  "signed_ok k i \<longleftrightarrow> - (128 * 256 ^ (k - 1)) \<le> i \<and> i < 128 * 256 ^ (k - 1)"

definition wire_ok :: "bool \<Rightarrow> wire_record \<Rightarrow> bool" where
  "wire_ok extended r \<longleftrightarrow>
     (let w = (if extended then 2 else 1)
      in w_ts r < 253402300800000 \<and> w_priority r < 256 \<and> signed_ok 4 (w_lon r) \<and> signed_ok 4 (w_lat r) \<and>
         signed_ok 2 (w_altitude r) \<and> w_angle r < 256 ^ 2 \<and> w_satellites r < 256 \<and> w_speed r < 256 ^ 2 \<and>
         w_event r < 256 ^ w \<and> list_all2 (section_ok w) [1, 2, 4, 8] (w_io r) \<and>
         variable_ok (w_variable r))"

text \<open>Reading an integer where it was written.\<close>

lemma u_int_at:
  assumes "drop off data = to_bytes n v @ rest"
  shows u_int_value: "v < 256 ^ n \<Longrightarrow> u_int data off n = (v, off + n)"
    and u_int_shift: "drop (off + n) data = rest"
    and u_int_next: "snd (u_int data off n) = off + n"
proof -
  have "drop (off + n) data = drop n (to_bytes n v @ rest)" by (metis assms drop_drop add.commute)
  then show "drop (off + n) data = rest" by simp
qed (use assms in \<open>simp_all add: u_int_def py_slice_def\<close>)

lemma from_bytes_Cons: "from_bytes (b # bs) = unat b * 256 ^ length bs + from_bytes bs"
proof (induction bs rule: rev_induct)
  case (snoc x bs)
  have "from_bytes (b # bs @ [x]) = 256 * from_bytes (b # bs) + unat x"
    using from_bytes_snoc [of "b # bs" x] by simp
  with snoc show ?case by (simp add: algebra_simps)
qed (simp add: from_bytes_def)

lemma top_half:
  assumes "n = b * m + low" "low < (m :: nat)"
  shows "128 \<le> b \<longleftrightarrow> 128 * m \<le> n"
proof
  assume "128 \<le> b"
  then have "128 * m \<le> b * m" by simp
  then show "128 * m \<le> n" using assms(1) by linarith
next
  assume a: "128 * m \<le> n"
  show "128 \<le> b"
  proof (rule ccontr)
    assume "\<not> 128 \<le> b"
    then have "(b + 1) * m \<le> 128 * m" by (intro mult_right_mono) auto
    then show False using a assms by (simp only: distrib_right mult_1)
  qed
qed

lemma from_bytes_signed_to_bytes:
  assumes "signed_ok (Suc k) i"
  shows "from_bytes_signed (to_bytes_signed (Suc k) i) = i"
proof -
  let ?M = "256 ^ Suc k :: int" and ?n = "nat (i mod 256 ^ Suc k)"
  obtain b bs where bs: "to_bytes (Suc k) ?n = b # bs" by (cases "to_bytes (Suc k) ?n") auto
  then have len: "length bs = k" by (metis length_to_bytes length_Cons Suc_inject)
  have less: "?n < 256 ^ Suc k"
    using pos_mod_bound [of ?M i] by (simp add: nat_less_iff)
  have val: "from_bytes (b # bs) = ?n" using from_to_bytes [OF less] unfolding bs .
  have split: "?n = unat b * 256 ^ k + from_bytes bs" using val len by (simp add: from_bytes_Cons)
  have low: "from_bytes bs < 256 ^ k" using from_bytes_less [of bs] len by simp
  have top: "128 \<le> unat b \<longleftrightarrow> 128 * 256 ^ k \<le> ?n" by (rule top_half [OF split low])
  have m: "int ?n = i mod ?M" by simp
  have "128 * 256 ^ k \<le> ?n \<longleftrightarrow> int (128 * 256 ^ k) \<le> int ?n" by (simp only: of_nat_le_iff)
  moreover have "int (128 * 256 ^ k) = 128 * 256 ^ k" by simp
  ultimately have t: "128 \<le> unat b \<longleftrightarrow> 128 * 256 ^ k \<le> i mod ?M" using top m by (simp only:)
  show ?thesis
  proof (cases "0 \<le> i")
    case True
    then have "i mod ?M = i" using assms by (intro mod_pos_pos_trivial) (auto simp: signed_ok_def)
    then show ?thesis using assms t val m bs len
      by (simp add: from_bytes_signed_def to_bytes_signed_def signed_ok_def)
  next
    case False
    have "(i + ?M) mod ?M = i + ?M"
      using False assms by (intro mod_pos_pos_trivial) (auto simp: signed_ok_def)
    then have "i mod ?M = i + ?M" by simp
    then show ?thesis using assms t val m bs len
      by (simp add: from_bytes_signed_def to_bytes_signed_def signed_ok_def)
  qed
qed

lemma s_int_at:
  assumes "drop off data = to_bytes_signed n i @ rest" "signed_ok n i" "0 < n"
  shows "s_int data off n = (i, off + n)" "drop (off + n) data = rest"
proof -
  have t: "take n (drop off data) = to_bytes_signed n i" using assms(1) by (simp add: to_bytes_signed_def)
  show "s_int data off n = (i, off + n)"
    using from_bytes_signed_to_bytes [of "n - 1" i] assms(2,3) t by (simp add: s_int_def py_slice_def)
  show "drop (off + n) data = rest"
    by (rule u_int_shift) (use assms(1) in \<open>simp add: to_bytes_signed_def\<close>)
qed

definition put_all :: "(nat \<times> nat) list \<Rightarrow> (nat \<times> nat) list \<Rightarrow> (nat \<times> nat) list" where
  "put_all io es = foldl (\<lambda>io e. dict_put (fst e) (snd e) io) io es"

lemma io_values_at:
  assumes "drop off data = concat (map (\<lambda>e. to_bytes w (fst e) @ to_bytes n (snd e)) ios) @ rest"
    "\<forall>e \<in> set ios. fst e < 256 ^ w \<and> snd e < 256 ^ n"
  shows "\<exists>off'. io_values data w n (length ios) off io = (put_all io ios, off') \<and> drop off' data = rest"
  using assms
proof (induction ios arbitrary: off io)
  case (Cons e ios)
  let ?rest = "concat (map (\<lambda>e. to_bytes w (fst e) @ to_bytes n (snd e)) ios) @ rest"
  have a: "drop off data = to_bytes w (fst e) @ to_bytes n (snd e) @ ?rest" using Cons.prems(1) by simp
  note b = u_int_shift [OF a]
  have "u_int data off w = (fst e, off + w)" "u_int data (off + w) n = (snd e, off + w + n)"
    using u_int_value [OF a] u_int_value [OF b] Cons.prems(2) by simp_all
  then show ?case
    using Cons.IH [OF u_int_shift [OF b]] Cons.prems(2) by (simp add: put_all_def)
qed (simp add: put_all_def)

lemma io_sections_at:
  assumes "list_all2 (section_ok w) sizes ios"
    "drop off data = concat (map2 (encode_section w) sizes ios) @ rest"
  shows "\<exists>off'. io_sections data w sizes off io = (put_all io (concat ios), off') \<and> drop off' data = rest"
  using assms
proof (induction arbitrary: off io rule: list_all2_induct)
  case (Cons n sizes es ios)
  let ?rest = "concat (map2 (encode_section w) sizes ios) @ rest"
  have a: "drop off data = to_bytes w (length es) @
      (concat (map (\<lambda>e. to_bytes w (fst e) @ to_bytes n (snd e)) es) @ ?rest)"
    using Cons.prems by (simp add: encode_section_def)
  have u: "u_int data off w = (length es, off + w)"
    using u_int_value [OF a] Cons.hyps(1) by (simp add: section_ok_def)
  obtain off' where v: "io_values data w n (length es) (off + w) io = (put_all io es, off')" "drop off' data = ?rest"
    using io_values_at [OF u_int_shift [OF a]] Cons.hyps(1) by (auto simp: section_ok_def)
  obtain off'' where "io_sections data w sizes off' (put_all io es) = (put_all (put_all io es) (concat ios), off'')"
      "drop off'' data = rest"
    using Cons.IH [OF v(2)] by blast
  then show ?case using u v(1) by (simp add: put_all_def)
qed (simp add: put_all_def)

lemma skip_variable_at:
  assumes "drop off data =
      concat (map (\<lambda>e. to_bytes 2 (fst e) @ to_bytes 2 (length (snd e)) @ snd e) vs) @ rest"
    "\<forall>e \<in> set vs. fst e < 256 ^ 2 \<and> length (snd e) < 256 ^ 2"
  shows "drop (skip_variable data (length vs) off) data = rest"
  using assms
proof (induction vs arbitrary: off)
  case (Cons e vs)
  let ?rest = "concat (map (\<lambda>e. to_bytes 2 (fst e) @ to_bytes 2 (length (snd e)) @ snd e) vs) @ rest"
  have a: "drop off data = to_bytes 2 (fst e) @ to_bytes 2 (length (snd e)) @ snd e @ ?rest"
    using Cons.prems(1) by simp
  note b = u_int_shift [OF a]
  have u: "u_int data off 2 = (fst e, off + 2)" "u_int data (off + 2) 2 = (length (snd e), off + 2 + 2)"
    using u_int_value [OF a] u_int_value [OF b] Cons.prems(2) by simp_all
  have "drop (off + 2 + 2 + length (snd e)) data = drop (length (snd e)) (drop (off + 2 + 2) data)"
    by (simp add: add.commute)
  also have "\<dots> = ?rest" using u_int_shift [OF b] by simp
  finally have "drop (off + 2 + 2 + length (snd e)) data = ?rest" .
  from Cons.IH [OF this] show ?case using u Cons.prems(2) by simp
qed simp

lemma parse_io_at:
  assumes "drop off data = to_bytes w (w_event r) @ to_bytes w (length (concat (w_io r))) @
      concat (map2 (encode_section w) [1, 2, 4, 8] (w_io r)) @
      (if extended then encode_variable (w_variable r) else []) @ rest"
    "w = (if extended then 2 else 1)" "wire_ok extended r"
  shows "\<exists>off'. parse_io data off extended = (w_event r, put_all [] (concat (w_io r)), off') \<and>
    drop off' data = rest"
proof -
  note a = assms(1)
  note b = u_int_shift [OF a]
  let ?vars = "(if extended then encode_variable (w_variable r) else []) @ rest"
  have u: "u_int data off w = (w_event r, off + w)" "snd (u_int data (off + w) w) = off + w + w"
    using u_int_value [OF a] u_int_next [OF b] assms(2,3) by (simp_all add: wire_ok_def Let_def)
  obtain c where c: "u_int data (off + w) w = (c, off + w + w)" using u(2) by (metis prod.collapse)
  obtain off1 where s: "io_sections data w [1, 2, 4, 8] (off + w + w) [] = (put_all [] (concat (w_io r)), off1)"
      "drop off1 data = ?vars"
    using io_sections_at [of w "[1, 2, 4, 8]" "w_io r", OF _ u_int_shift [OF b], where io = "[]"] assms(2,3)
    by (auto simp: wire_ok_def Let_def)
  show ?thesis
  proof (cases extended)
    case True
    have d: "drop off1 data = to_bytes 2 (length (w_variable r)) @
        (concat (map (\<lambda>e. to_bytes 2 (fst e) @ to_bytes 2 (length (snd e)) @ snd e) (w_variable r)) @ rest)"
      using s(2) True by (simp add: encode_variable_def)
    have v: "variable_ok (w_variable r)" using assms(3) by (simp add: wire_ok_def Let_def)
    have "u_int data off1 2 = (length (w_variable r), off1 + 2)"
      using u_int_value [OF d] v by (simp add: variable_ok_def)
    moreover have "drop (skip_variable data (length (w_variable r)) (off1 + 2)) data = rest"
      using skip_variable_at [OF u_int_shift [OF d]] v by (simp add: variable_ok_def)
    ultimately show ?thesis using True assms(2) u(1) c s(1) by (simp add: parse_io_def)
  next
    case False
    then show ?thesis using assms(2) u(1) c s by (simp add: parse_io_def)
  qed
qed

lemma parse_record_at:
  assumes "drop off data = encode_record extended r @ rest" "wire_ok extended r"
  shows "\<exists>off'. parse_record data off extended = Inr (record_of r, off') \<and> drop off' data = rest"
proof -
  define w :: nat where "w = (if extended then 2 else 1)"
  let ?io = "to_bytes w (w_event r) @ to_bytes w (length (concat (w_io r))) @
      concat (map2 (encode_section w) [1, 2, 4, 8] (w_io r)) @
      (if extended then encode_variable (w_variable r) else []) @ rest"
  have 0: "drop off data = to_bytes 8 (w_ts r) @ to_bytes 1 (w_priority r) @ to_bytes_signed 4 (w_lon r) @
      to_bytes_signed 4 (w_lat r) @ to_bytes_signed 2 (w_altitude r) @ to_bytes 2 (w_angle r) @
      to_bytes 1 (w_satellites r) @ to_bytes 2 (w_speed r) @ ?io"
    using assms(1) by (simp add: encode_record_def w_def Let_def)
  have ok: "w_ts r < 256 ^ 8" "w_priority r < 256 ^ 1" "signed_ok 4 (w_lon r)" "signed_ok 4 (w_lat r)"
      "signed_ok 2 (w_altitude r)" "w_angle r < 256 ^ 2" "w_satellites r < 256 ^ 1" "w_speed r < 256 ^ 2"
      "w_ts r < 253402300800000"
    using assms(2) by (simp_all add: wire_ok_def Let_def)
  have pos: "0 < (4 :: nat)" "0 < (2 :: nat)" by simp_all
  note 1 = u_int_shift [OF 0] note 2 = u_int_shift [OF 1]
  note 3 = s_int_at(2) [OF 2 ok(3) pos(1)]
  note 4 = s_int_at(2) [OF 3 ok(4) pos(1)]
  note 5 = s_int_at(2) [OF 4 ok(5) pos(2)]
  note 6 = u_int_shift [OF 5] note 7 = u_int_shift [OF 6] note 8 = u_int_shift [OF 7]
  obtain off' where io: "parse_io data (off + 8 + 1 + 4 + 4 + 2 + 2 + 1 + 2) extended =
      (w_event r, put_all [] (concat (w_io r)), off')" "drop off' data = rest"
    using parse_io_at [OF 8 w_def assms(2)] by auto
  have "parse_record data off extended = Inr (record_of r, off')"
    using u_int_value [OF 0 ok(1)] u_int_value [OF 1 ok(2)] s_int_at(1) [OF 2 ok(3) pos(1)]
      s_int_at(1) [OF 3 ok(4) pos(1)] s_int_at(1) [OF 4 ok(5) pos(2)]
      u_int_value [OF 5 ok(6)] u_int_value [OF 6 ok(7)] u_int_value [OF 7 ok(8)] io(1) ok(9)
    by (simp add: parse_record_def record_of_def from_timestamp_ms_def put_all_def)
  with io(2) show ?thesis by blast
qed

lemma parse_records_at:
  assumes "drop off data = concat (map (encode_record extended) rs) @ rest" "\<forall>r \<in> set rs. wire_ok extended r"
  shows "\<exists>off'. parse_records data extended (length rs) off acc = Inr (acc @ map record_of rs, off') \<and>
    drop off' data = rest"
  using assms
proof (induction rs arbitrary: off acc)
  case (Cons r rs)
  have "drop off data = encode_record extended r @ (concat (map (encode_record extended) rs) @ rest)"
    using Cons.prems(1) by simp
  then obtain off1 where 1: "parse_record data off extended = Inr (record_of r, off1)"
      "drop off1 data = concat (map (encode_record extended) rs) @ rest"
    using parse_record_at Cons.prems(2) by (metis list.set_intros(1))
  show ?case using Cons.IH [OF 1(2), of "acc @ [record_of r]"] Cons.prems(2) 1(1) by simp
qed simp

lemma index_at: "drop off data = b # rest \<Longrightarrow> index data off = Inr b"
proof -
  assume a: "drop off data = b # rest"
  then have "off < length data" by (metis drop_all linorder_not_less list.distinct(1))
  then show ?thesis using a by (simp add: index_def Cons_nth_drop_Suc [symmetric])
qed

lemma decode_data_encode:
  assumes "\<forall>r \<in> set rs. wire_ok extended r" "length rs < 256"
  shows "decode_data (encode_data extended rs) =
    Inr \<lparr>codec_id = (if extended then codec_8e else codec_8), records = map record_of rs\<rparr>"
proof -
  let ?data = "encode_data extended rs" and ?n = "word_of_nat (length rs) :: byte"
  have n: "unat ?n = length rs" using assms(2) by (simp add: unat_of_nat)
  have 0: "drop 2 ?data = concat (map (encode_record extended) rs) @ [?n]" by (simp add: encode_data_def)
  obtain off where p: "parse_records ?data extended (length rs) 2 [] = Inr (map record_of rs, off)"
      "drop off ?data = [?n]"
    using parse_records_at [OF 0 assms(1), of "[]"] by auto
  have i: "index ?data 0 = Inr (if extended then 0x8E else 0x08)" "index ?data 1 = Inr ?n"
    by (simp_all add: encode_data_def index_def)
  have c: "unat (if extended then 0x8E else 0x08 :: byte) = (if extended then codec_8e else codec_8)"
    by (simp add: codec_8_def codec_8e_def)
  have x: "(unat (if extended then 0x8E else 0x08 :: byte) = codec_8e) = extended"
    by (simp add: codec_8e_def)
  show ?thesis
    using i p n x index_at [OF p(2)] unfolding decode_data_def by (simp add: c)
qed

lemma decode_frame:
  assumes "length data < 256 ^ 4" "length crc = 4"
  shows "decode_packet (frame_of data crc) =
    (if crc16_ibm data \<noteq> from_bytes crc then Inl ValueError else decode_data data)"
proof -
  have "from_bytes (py_slice (frame_of data crc) 4 4) = length data"
    using assms(1) by (simp add: frame_of_def py_slice_def)
  moreover have "drop (8 + length data) (frame_of data crc) = drop (length data) (drop 8 (frame_of data crc))"
    by (simp add: add.commute)
  moreover have "drop 8 (frame_of data crc) = data @ crc" "py_slice (frame_of data crc) 0 4 = [0, 0, 0, 0]"
    by (simp_all add: frame_of_def py_slice_def)
  moreover have "\<not> length (frame_of data crc) < 12" using assms(2) by (simp add: frame_of_def)
  ultimately show ?thesis using assms(2) by (simp add: decode_packet_def Let_def py_slice_def)
qed

lemma crc_fits: "from_bytes (to_bytes 4 (crc16_ibm data)) = crc16_ibm data"
  using crc16_ibm_less [of data] by (intro from_to_bytes) simp

lemma decode_encode:
  assumes "\<forall>r \<in> set rs. wire_ok extended r" "length rs < 256" "length (encode_data extended rs) < 256 ^ 4"
  shows "decode_packet (encode_packet extended rs) =
    Inr \<lparr>codec_id = (if extended then codec_8e else codec_8), records = map record_of rs\<rparr>"
  using decode_frame [OF assms(3)] decode_data_encode [OF assms(1,2)] by (simp add: encode_packet_def crc_fits)

section \<open>What the server keeps and acknowledges\<close>

text \<open>
  A publisher as the server sees it: \<open>given\<close> are the texts handed to it so far, and a call that
  returns has added the text of its payload.
\<close>

locale position_sink =
  fixes publish :: "payload \<Rightarrow> 's \<Rightarrow> 's option"
    and given :: "'s \<Rightarrow> string list"
    and dump :: "payload \<Rightarrow> string"
  assumes publish_given: "publish p s = Some s' \<Longrightarrow> given s' = given s @ [dump p]"
begin

lemma publish_all_given:
  "publish_all publish ps s = (ok, s') \<Longrightarrow>
    \<exists>k. given s' = given s @ map dump (take k ps) \<and> (ok \<longrightarrow> take k ps = ps)"
proof (induction ps arbitrary: s)
  case (Cons p ps)
  show ?case
  proof (cases "publish p s")
    case None
    then show ?thesis using Cons.prems by (intro exI [of _ 0]) auto
  next
    case (Some t)
    then obtain k where "given s' = given t @ map dump (take k ps)" "ok \<longrightarrow> take k ps = ps"
      using Cons by auto
    then show ?thesis using publish_given [OF Some] by (intro exI [of _ "Suc k"]) auto
  qed
qed simp

end

lemma records_to_positions_ok:
  "records_to_positions site asset source rs = Inr ps \<Longrightarrow>
    ps = map (position_of_record site asset source) rs \<and> list_all payload_ok ps"
  by (induction rs arbitrary: ps) (auto simp: Let_def and_then_Inr_iff split: if_splits)

lemma records_to_positions_all:
  "list_all payload_ok (map (position_of_record site asset source) rs) \<Longrightarrow>
    records_to_positions site asset source rs = Inr (map (position_of_record site asset source) rs)"
  by (induction rs) (auto simp: Let_def)

lemma parse_records_length:
  "parse_records data ext k off acc = Inr (rs, off') \<Longrightarrow> length rs = k + length acc"
  by (induction k arbitrary: off acc) (auto simp: and_then_Inr_iff)

lemma decoded_count_less: "decode_packet frame = Inr packet \<Longrightarrow> length (records packet) < 256"
  by (auto simp: decode_packet_def decode_data_def Let_def byte_less and_then_Inr_iff split: if_splits
      dest!: parse_records_length)

text \<open>One turn of the server's loop, as an equation without the nested cases.\<close>

lemma serve_frames_cases:
  obtains (ended) e where "serve_frames publish site asset source stream s = ([], s, e)"
  | (failed) ps s' where "serve_frames publish site asset source stream s = ([], s', Uncaught RuntimeError)"
      "publish_all publish ps s = (False, s')" "list_all payload_ok ps"
      "\<forall>p \<in> set ps. pl_site p = site \<and> pl_asset p = asset"
  | (served) n ps s' rest where "n \<le> length stream" "rest = drop n stream" "12 \<le> n"
      "publish_all publish ps s = (True, s')" "list_all payload_ok ps" "length ps < 256"
      "\<forall>p \<in> set ps. pl_site p = site \<and> pl_asset p = asset"
      "serve_frames publish site asset source stream s =
        (ack_bytes (length ps) # fst (serve_frames publish site asset source rest s'),
         snd (serve_frames publish site asset source rest s'))"
proof -
  note eq = serve_frames.simps [of publish site asset source stream s]
  show thesis
  proof (cases "\<exists>head rest body rest' packet ps. read_exactly 8 stream = Some (head, rest) \<and>
      read_exactly (from_bytes (py_slice head 4 4) + 4) rest = Some (body, rest') \<and>
      decode_packet (head @ body) = Inr packet \<and> records_to_positions site asset source (records packet) = Inr ps")
    case False
    then have "\<exists>e. serve_frames publish site asset source stream s = ([], s, e)"
      unfolding eq by (auto split: option.splits sum.splits py_error.splits)
    then show thesis using ended by blast
  next
    case True
    then obtain head rest body rest' packet ps where
      r: "read_exactly 8 stream = Some (head, rest)"
        "read_exactly (from_bytes (py_slice head 4 4) + 4) rest = Some (body, rest')"
      and d: "decode_packet (head @ body) = Inr packet"
      and c: "records_to_positions site asset source (records packet) = Inr ps"
      by blast
    have ps: "list_all payload_ok ps" "length ps = length (records packet)"
      and own: "\<forall>p \<in> set ps. pl_site p = site \<and> pl_asset p = asset"
      using records_to_positions_ok [OF c] by (auto simp: position_of_record_def)
    obtain ok s' where p: "publish_all publish ps s = (ok, s')" by (cases "publish_all publish ps s")
    show thesis
    proof (cases ok)
      case False
      then show thesis using failed [of s' ps] r d c p ps own by (simp add: eq)
    next
      case True
      have "rest' = drop (8 + (from_bytes (py_slice head 4 4) + 4)) stream"
        "8 + (from_bytes (py_slice head 4 4) + 4) \<le> length stream"
        using r by (auto simp: read_exactly_def add.commute split: if_splits)
      moreover have "length ps < 256" using ps decoded_count_less [OF d] by simp
      ultimately show thesis
        using served [of _ rest' ps s'] True r d c p ps own by (simp add: eq split_beta)
    qed
  qed
qed

text \<open>The publisher of \<^verbatim>\<open>ingest/mqtt.py\<close>. \<open>disk\<close> says when writing to the spool succeeds.\<close>

definition publish_position ::
  "(payload \<Rightarrow> string) \<Rightarrow> (payload \<Rightarrow> pub_state \<Rightarrow> bool) \<Rightarrow> payload \<Rightarrow> pub_state \<Rightarrow> pub_state option" where
  "publish_position dump disk p st =
     (if disk p st
      then let (i, sp) = append_entry (pub_spool st) (dump p)
           in Some (st\<lparr>pub_spool := sp, handed := handed st @ [(i, dump p)]\<rparr>)
      else None)"

interpretation spooled: position_sink "publish_position dump disk" "\<lambda>st. map snd (handed st)" dump
  by unfold_locales (auto simp: publish_position_def split: if_splits prod.splits)

lemma publish_all_steps: "publish_all (publish_position dump disk) ps st = (ok, st') \<Longrightarrow> (pub_step check prefix)\<^sup>*\<^sup>* st st'"
proof (induction ps arbitrary: st)
  case (Cons p ps)
  show ?case
  proof (cases "publish_position dump disk p st")
    case None
    then show ?thesis using Cons.prems by simp
  next
    case (Some t)
    then have "pub_step check prefix st t"
      by (auto simp: publish_position_def split: if_splits prod.splits intro: pub_step.publish_position)
    moreover have "(pub_step check prefix)\<^sup>*\<^sup>* t st'" using Cons Some by simp
    ultimately show ?thesis by (rule converse_rtranclp_into_rtranclp)
  qed
qed simp

lemma ack_roundtrip: "n < 256 \<Longrightarrow> from_bytes (ack_bytes n) = n"
  unfolding ack_bytes_def by (rule from_to_bytes) simp

lemma serve_frames_steps:
  assumes "serve_frames (publish_position dump disk) site asset source stream st = (replies, st', e)"
  shows "(pub_step check prefix)\<^sup>*\<^sup>* st st'"
  using assms
proof (induction "length stream" arbitrary: stream st replies rule: less_induct)
  case less
  show ?case
  proof (cases rule: serve_frames_cases [of "publish_position dump disk" site asset source stream st])
    case (ended e)
    then show ?thesis using less.prems by simp
  next
    case (failed ps s')
    then show ?thesis using less.prems publish_all_steps by simp
  next
    case (served n ps s' rest)
    then have "length rest < length stream" by simp
    moreover have "serve_frames (publish_position dump disk) site asset source rest s' =
        (fst (serve_frames (publish_position dump disk) site asset source rest s'), st', e)"
      using served(8) less.prems by (metis prod.collapse snd_conv)
    ultimately have "(pub_step check prefix)\<^sup>*\<^sup>* s' st'" by (rule less.hyps)
    then show ?thesis using publish_all_steps [OF served(4)] by (rule rtranclp_trans [rotated])
  qed
qed

lemma serve_frames_acks:
  assumes "serve_frames (publish_position dump disk) site asset source stream st = (replies, st', e)"
  shows "\<exists>accepted more. map from_bytes replies = map length accepted \<and>
    map snd (handed st') = map snd (handed st) @ map dump (concat accepted @ more) \<and>
    (\<forall>p \<in> set (concat accepted @ more). payload_ok p \<and> pl_site p = site \<and> pl_asset p = asset)"
  using assms
proof (induction "length stream" arbitrary: stream st replies rule: less_induct)
  case less
  show ?case
  proof (cases rule: serve_frames_cases [of "publish_position dump disk" site asset source stream st])
    case (ended e)
    then show ?thesis using less.prems by (intro exI [of _ "[]"]) simp
  next
    case (failed ps s')
    obtain k where "map snd (handed s') = map snd (handed st) @ map dump (take k ps)"
      using spooled.publish_all_given [OF failed(2)] by auto
    then show ?thesis using less.prems failed
      by (intro exI [of _ "[]"] exI [of _ "take k ps"]) (auto simp: list_all_iff dest: in_set_takeD)
  next
    case (served n ps s' rest)
    have len: "length rest < length stream" using served(1-3) by simp
    obtain replies' where more: "replies = ack_bytes (length ps) # replies'"
      "serve_frames (publish_position dump disk) site asset source rest s' = (replies', st', e)"
      using served(8) less.prems by (metis prod.collapse fst_conv snd_conv)
    obtain accepted left where ih: "map from_bytes replies' = map length accepted"
      "map snd (handed st') = map snd (handed s') @ map dump (concat accepted @ left)"
      "\<forall>p \<in> set (concat accepted @ left). payload_ok p \<and> pl_site p = site \<and> pl_asset p = asset"
      using less.hyps [OF len more(2)] by blast
    have "map snd (handed s') = map snd (handed st) @ map dump ps"
      using spooled.publish_all_given [OF served(4)] by auto
    then show ?thesis using ih more(1) served(5-7)
      by (intro exI [of _ "ps # accepted"] exI [of _ left]) (auto simp: list_all_iff ack_roundtrip)
  qed
qed

lemma handle_connection_cases:
  assumes "handle_connection publish resolve source stream s = (replies, s', e)"
  obtains (refused) "tl replies = []" "s' = s"
  | (accepted) imei site asset rest where "resolve imei = Some (site, asset)" "replies = [1] # tl replies"
      "serve_frames publish site asset (source @ '':'' @ imei) rest s = (tl replies, s', e)"
  using assms by (auto simp: handle_connection_def split: option.splits prod.splits)

text \<open>C17: every record the server acknowledges to a tracker is in custody: the acknowledged counts
  are exactly the sizes of batches handed to the publisher, in order and before anything else;
  every payload of them is valid and bound to the site and asset the tracker's IMEI resolves to;
  and whatever outages and power cuts follow, each text handed over is in the spool, with the
  broker or set aside as invalid.\<close>

theorem acknowledged_records_are_kept:
  assumes "(pub_step check prefix)\<^sup>*\<^sup>* pub_start p"
    and "handle_connection (publish_position dump disk) resolve source stream p = (replies, p', e)"
    and "(pub_step check prefix)\<^sup>*\<^sup>* p' q"
  shows "(\<exists>batches more. map from_bytes (tl replies) = map length batches \<and>
      map snd (handed p') = map snd (handed p) @ map dump (concat batches @ more) \<and>
      (\<forall>x \<in> set (concat batches @ more).
         payload_ok x \<and> (\<exists>imei. resolve imei = Some (pl_site x, pl_asset x)))) \<and>
    (\<forall>h \<in> set (handed p'). accounted check prefix q h)"
  using assms(2)
proof (cases rule: handle_connection_cases)
  case refused
  have "pub_inv check prefix p" using publisher.reach [OF assms(1) pub_inv_start] by blast
  then show ?thesis using publisher.never_lost [of check prefix p _ q] refused assms(3)
    by (auto intro: exI [of _ "[]"])
next
  case (accepted imei site asset rest)
  have "(pub_step check prefix)\<^sup>*\<^sup>* pub_start p'"
    using assms(1) serve_frames_steps [OF accepted(3)] by (rule rtranclp_trans)
  then have "pub_inv check prefix p'" using publisher.reach pub_inv_start by blast
  then have "\<forall>h \<in> set (handed p'). accounted check prefix q h"
    using publisher.never_lost [of check prefix p' _ q] assms(3) by blast
  moreover obtain batches more where "map from_bytes (tl replies) = map length batches"
    "map snd (handed p') = map snd (handed p) @ map dump (concat batches @ more)"
    "\<forall>x \<in> set (concat batches @ more). payload_ok x \<and> pl_site x = site \<and> pl_asset x = asset"
    using serve_frames_acks [OF accepted(3)] by blast
  ultimately show ?thesis using accepted(1)
    by (intro conjI exI [of _ batches] exI [of _ more]) (auto intro: exI [of _ imei])
qed

section \<open>What a tracker sends is what arrives\<close>

text \<open>A refused frame ends the connection with nothing published and no reply.\<close>

lemma serve_frame_of:
  assumes "length data < 256 ^ 4" "length crc = 4"
  shows "serve_frames publish site asset source (frame_of data crc @ rest) s =
    (case decode_packet (frame_of data crc) of
       Inl ValueError \<Rightarrow> ([], s, Frame_rejected)
     | Inl err \<Rightarrow> ([], s, Uncaught err)
     | Inr packet \<Rightarrow>
         (case records_to_positions site asset source (records packet) of
            Inl err \<Rightarrow> ([], s, Uncaught err)
          | Inr ps \<Rightarrow>
              (case publish_all publish ps s of
                 (False, s') \<Rightarrow> ([], s', Uncaught RuntimeError)
               | (True, s') \<Rightarrow>
                   let (replies, s'', err) = serve_frames publish site asset source rest s'
                   in (ack_bytes (length (records packet)) # replies, s'', err))))"
proof -
  let ?head = "[0, 0, 0, 0] @ to_bytes 4 (length data)"
  have "read_exactly 8 (frame_of data crc @ rest) = Some (?head, (data @ crc) @ rest)"
    by (simp add: read_exactly_def frame_of_def)
  moreover have "from_bytes (py_slice ?head 4 4) = length data"
    using assms(1) by (simp add: py_slice_def)
  moreover have "read_exactly (length data + 4) ((data @ crc) @ rest) = Some (data @ crc, rest)"
    using assms(2) by (simp add: read_exactly_def)
  moreover have "?head @ data @ crc = frame_of data crc" by (simp add: frame_of_def)
  ultimately show ?thesis
    by (subst serve_frames.simps) simp
qed

text \<open>C21: damage on the link is caught: when one byte of a packet, or two neighbouring ones, arrive
  altered, the frame is refused, the connection is dropped, and nothing of it is published or
  acknowledged, so that the tracker sends it again.\<close>

theorem damaged_frame_is_refused:
  assumes "length (before @ [x1, x2] @ after) < 256 ^ 4" "[x1, x2] \<noteq> [y1, y2]"
  shows "decode_packet (frame_of (before @ [y1, y2] @ after) (to_bytes 4 (crc16_ibm (before @ [x1, x2] @ after)))) =
      Inl ValueError \<and>
    serve_frames publish site asset source
      (frame_of (before @ [y1, y2] @ after) (to_bytes 4 (crc16_ibm (before @ [x1, x2] @ after))) @ rest) s =
      ([], s, Frame_rejected)"
proof -
  have ne: "crc16_ibm (before @ [y1, y2] @ after) \<noteq> crc16_ibm (before @ [x1, x2] @ after)"
    using crc_detects_burst [of before y1 y2 after x1 x2] assms(2) by auto
  have len: "length (before @ [y1, y2] @ after) < 256 ^ 4" using assms(1) by simp
  have "decode_packet (frame_of (before @ [y1, y2] @ after) (to_bytes 4 (crc16_ibm (before @ [x1, x2] @ after)))) =
      Inl ValueError"
    using decode_frame [OF len length_to_bytes] ne by (simp only: crc_fits simp_thms if_True not_False_eq_True)
  then show ?thesis by (simp only: serve_frame_of [OF len length_to_bytes] sum.case py_error.case simp_thms)
qed

theorem damaged_frame_is_refused_witness:
  "decode_packet (frame_of ([0x08] @ [1, 7] @ [1]) (to_bytes 4 (crc16_ibm ([0x08] @ [1, 5] @ [1])))) = Inl ValueError \<and>
   serve_frames (publish_position pl_asset (\<lambda>_ _. True)) ''mine'' ''truck-1'' ''teltonika''
     (frame_of ([0x08] @ [1, 7] @ [1]) (to_bytes 4 (crc16_ibm ([0x08] @ [1, 5] @ [1]))) @ []) pub_start =
     ([], pub_start, Frame_rejected)"
  by (rule damaged_frame_is_refused) simp_all

definition handshake :: "string \<Rightarrow> bytes" where
  "handshake imei = to_bytes 2 (length imei) @ map (\<lambda>c. word_of_nat (of_char c)) imei"

definition valid_imei :: "string \<Rightarrow> bool" where
  "valid_imei imei \<longleftrightarrow> imei \<noteq> [] \<and> list_all is_digit imei \<and> length imei < 256 ^ 2"

lemma digit_byte:
  assumes "is_digit c"
  shows "unat (word_of_nat (of_char c) :: byte) = of_char c" "(of_char c :: nat) < 128"
proof -
  show "(of_char c :: nat) < 128" using assms by (auto simp: is_digit_def)
  then show "unat (word_of_nat (of_char c) :: byte) = of_char c" by (simp add: unat_of_nat)
qed

lemma parse_handshake: "valid_imei imei \<Longrightarrow> parse_imei (handshake imei) = Some imei"
proof -
  assume v: "valid_imei imei"
  then have d: "list_all is_digit imei" by (simp add: valid_imei_def)
  let ?b = "map (\<lambda>c. word_of_nat (of_char c) :: byte) imei"
  have "filter (\<lambda>b. unat b < 128) ?b = ?b" "map (\<lambda>b. char_of (unat b)) ?b = imei"
    using d by (induction imei) (auto simp: digit_byte)
  then show ?thesis using v by (simp add: parse_imei_def handshake_def py_slice_def Let_def valid_imei_def)
qed

definition batch_ok :: "bool \<Rightarrow> string \<Rightarrow> string \<Rightarrow> string \<Rightarrow> wire_record list \<Rightarrow> bool" where
  "batch_ok extended site asset source rs \<longleftrightarrow>
     length rs < 256 \<and> length (encode_data extended rs) < 256 ^ 4 \<and> list_all (wire_ok extended) rs \<and>
     list_all (\<lambda>r. payload_ok (position_of_record site asset source (record_of r))) rs"

lemma serve_upload:
  assumes "list_all (batch_ok extended site asset source) batches"
    "\<forall>p s. publish p s \<noteq> None"
  shows "serve_frames publish site asset source (concat (map (encode_packet extended) batches)) s =
    (map (\<lambda>rs. ack_bytes (length rs)) batches,
     snd (publish_all publish (map (\<lambda>r. position_of_record site asset source (record_of r)) (concat batches)) s),
     Disconnected)"
  using assms(1)
proof (induction batches arbitrary: s)
  case Nil
  then show ?case by (simp add: serve_frames.simps read_exactly_def)
next
  case (Cons rs batches)
  let ?pos = "\<lambda>r. position_of_record site asset source (record_of r)"
  have ok: "length rs < 256" "length (encode_data extended rs) < 256 ^ 4" "\<forall>r \<in> set rs. wire_ok extended r"
    "list_all payload_ok (map (position_of_record site asset source) (map record_of rs))"
    using Cons.prems by (simp_all add: batch_ok_def list_all_iff)
  have all: "publish_all publish (ps @ qs) s = publish_all publish qs (snd (publish_all publish ps s)) \<and>
      fst (publish_all publish ps s)" for ps qs s
    using assms(2) by (induction ps arbitrary: s) (auto split: option.split)
  have d: "decode_packet (frame_of (encode_data extended rs) (to_bytes 4 (crc16_ibm (encode_data extended rs)))) =
      Inr \<lparr>codec_id = (if extended then codec_8e else codec_8), records = map record_of rs\<rparr>"
    using decode_encode [OF ok(3,1,2)] by (simp only: encode_packet_def)
  obtain s' where s': "publish_all publish (map ?pos rs) s = (True, s')"
    using all [of "map ?pos rs" "[]" s] by (metis prod.collapse)
  have "serve_frames publish site asset source (encode_packet extended rs @ concat (map (encode_packet extended) batches)) s =
      (let (replies, s'', err) = serve_frames publish site asset source (concat (map (encode_packet extended) batches)) s'
       in (ack_bytes (length rs) # replies, s'', err))"
    using serve_frame_of [OF ok(2) length_to_bytes, of publish site asset source] records_to_positions_all [OF ok(4)] d s'
    by (simp add: encode_packet_def comp_def)
  then show ?case using Cons.IH [of s'] Cons.prems all [of "map ?pos rs" _ s] s' by simp
qed

lemma publish_all_handed:
  "map snd (handed (snd (publish_all (publish_position dump (\<lambda>_ _. True)) ps st))) = map snd (handed st) @ map dump ps"
  by (induction ps arbitrary: st) (simp_all add: publish_position_def append_entry_def)

text \<open>C24: an upload arrives whole: when a tracker whose IMEI is admitted sends its packets of records
  in the format of Codec 8 or 8 Extended, the server accepts the handshake, acknowledges each packet
  with its number of records, and hands to the publisher, in order, the position of every record with
  the coordinates, speed, heading, satellites, ignition and instant the tracker encoded.\<close>

theorem upload_arrives_whole:
  assumes "valid_imei imei" "resolve imei = Some (site, asset)"
    and "list_all (batch_ok extended site asset (source @ '':'' @ imei)) batches"
    and "handle_connection (publish_position dump (\<lambda>_ _. True)) resolve source
      (handshake imei @ concat (map (encode_packet extended) batches)) p = (replies, p', e)"
  shows "replies = [1] # map (\<lambda>rs. ack_bytes (length rs)) batches \<and> e = Disconnected \<and>
    map snd (handed p') = map snd (handed p) @
      map (\<lambda>r. dump (position_of_record site asset (source @ '':'' @ imei) (record_of r))) (concat batches)"
proof -
  let ?rest = "concat (map (encode_packet extended) batches)"
    and ?imei = "map (\<lambda>c. word_of_nat (of_char c) :: byte) imei"
  have "read_exactly 2 (handshake imei @ ?rest) = Some (to_bytes 2 (length imei), ?imei @ ?rest)"
    by (simp add: read_exactly_def handshake_def)
  moreover have "from_bytes (to_bytes 2 (length imei)) = length imei"
    using assms(1) by (intro from_to_bytes) (simp add: valid_imei_def)
  moreover have "read_exactly (length imei) (?imei @ ?rest) = Some (?imei, ?rest)"
    by (simp add: read_exactly_def)
  moreover have "parse_imei (to_bytes 2 (length imei) @ ?imei) = Some imei"
    using parse_handshake [OF assms(1)] by (simp add: handshake_def)
  moreover note serve_upload [OF assms(3), of "publish_position dump (\<lambda>_ _. True)" p]
  ultimately have "handle_connection (publish_position dump (\<lambda>_ _. True)) resolve source (handshake imei @ ?rest) p =
      ([1] # map (\<lambda>rs. ack_bytes (length rs)) batches,
       snd (publish_all (publish_position dump (\<lambda>_ _. True))
         (map (\<lambda>r. position_of_record site asset (source @ '':'' @ imei) (record_of r)) (concat batches)) p), Disconnected)"
    using assms(2) by (simp add: handle_connection_def publish_position_def split_beta)
  then show ?thesis using assms(4) publish_all_handed by (auto simp: comp_def)
qed

definition demo_wire :: wire_record where
  "demo_wire = \<lparr>w_ts = 1719800000000, w_priority = 1, w_lon = 280000000, w_lat = - 260000000, w_altitude = 1483,
     w_angle = 118, w_satellites = 11, w_speed = 47, w_event = 0, w_io = [[(239, 1)], [], [], []], w_variable = []\<rparr>"

definition demo_upload :: bytes where
  "demo_upload = handshake ''356'' @ concat (map (encode_packet True) [[demo_wire], [demo_wire, demo_wire]])"

theorem acknowledged_records_are_kept_witness:
  "list_all (accounted demo_check ''mm'' (fst (snd (handle_connection (publish_position pl_asset (\<lambda>_ _. True))
      (device_resolver [] ''mine'' False) ''teltonika'' demo_upload pub_start))))
     (handed (fst (snd (handle_connection (publish_position pl_asset (\<lambda>_ _. True))
      (device_resolver [] ''mine'' False) ''teltonika'' demo_upload pub_start))))"
proof -
  obtain replies p' e where h: "handle_connection (publish_position pl_asset (\<lambda>_ _. True))
      (device_resolver [] ''mine'' False) ''teltonika'' demo_upload pub_start = (replies, p', e)"
    by (metis prod.collapse)
  show ?thesis
    using acknowledged_records_are_kept [of demo_check "''mm''", OF rtranclp.rtrancl_refl h rtranclp.rtrancl_refl] h
    by (simp add: list_all_iff)
qed

theorem upload_arrives_whole_witness:
  "fst (handle_connection (publish_position pl_asset (\<lambda>_ _. True)) (device_resolver [] ''mine'' False) ''teltonika''
      demo_upload pub_start) =
    [1] # map (\<lambda>rs. ack_bytes (length rs)) [[demo_wire], [demo_wire, demo_wire]]"
proof -
  obtain replies p' e where h: "handle_connection (publish_position pl_asset (\<lambda>_ _. True))
      (device_resolver [] ''mine'' False) ''teltonika''
      demo_upload pub_start = (replies, p', e)"
    by (metis prod.collapse)
  have v: "valid_imei ''356''" by (simp add: valid_imei_def is_digit_def)
  have d: "device_resolver [] ''mine'' False ''356'' = Some (''mine'', ''teltonika-356'')"
    by (simp add: device_resolver_def resolve_imei_def get_device_def default_asset_for_def)
  have w: "wire_ok True demo_wire"
    by (simp add: wire_ok_def demo_wire_def signed_ok_def section_ok_def variable_ok_def)
  have id: "valid_id ''mine''" "valid_id ''teltonika-356''"
    by (simp_all add: valid_id_def id_start_def id_char_def)
  have p: "payload_ok (position_of_record ''mine'' ''teltonika-356'' (''teltonika'' @ '':'' @ ''356'') (record_of demo_wire))"
    by (simp add: payload_ok_def id position_of_record_def record_of_def demo_wire_def opt_within_def)
  have l: "length (encode_record True demo_wire) = 41"
    by (simp add: encode_record_def demo_wire_def encode_section_def encode_variable_def to_bytes_signed_def)
  have "list_all (batch_ok True ''mine'' ''teltonika-356'' (''teltonika'' @ '':'' @ ''356'')) [[demo_wire], [demo_wire, demo_wire]]"
    using w p l by (simp add: batch_ok_def encode_data_def)
  from upload_arrives_whole [OF v d this h [unfolded demo_upload_def]] h show ?thesis by simp
qed

section \<open>Errors\<close>

lemma parse_records_errors: "parse_records data ext k off acc = Inl err \<Longrightarrow> err = ValueError"
  by (induction k arbitrary: off acc)
     (auto simp: and_then_Inl_iff parse_record_def from_timestamp_ms_def Let_def split: prod.splits if_splits)

text \<open>The decoder is total: on any bytes it returns a packet of at most 255 records or raises
  ValueError or IndexError; and whenever it returns, the data field carries its own checksum and
  ends with the count it began with.\<close>

theorem decode_packet_outcomes:
  "case decode_packet frame of
     Inl err \<Rightarrow> err = ValueError \<or> err = IndexError
   | Inr packet \<Rightarrow> length (records packet) < 256 \<and> codec_id packet \<in> {codec_8, codec_8e} \<and>
       crc16_ibm (py_slice frame 8 (from_bytes (py_slice frame 4 4))) =
         from_bytes (py_slice frame (8 + from_bytes (py_slice frame 4 4)) 4) \<and>
       length (records packet) = unat (frame ! 9)"
proof (cases "decode_packet frame")
  case (Inl err)
  then show ?thesis
    by (auto simp: decode_packet_def decode_data_def index_def and_then_Inl_iff Let_def split: if_splits
        dest: parse_records_errors)
next
  case (Inr packet)
  let ?data = "py_slice frame 8 (from_bytes (py_slice frame 4 4))"
  have d: "decode_data ?data = Inr packet"
    and c: "crc16_ibm ?data = from_bytes (py_slice frame (8 + from_bytes (py_slice frame 4 4)) 4)"
    using Inr by (auto simp: decode_packet_def Let_def split: if_splits)
  then have "length (records packet) = unat (?data ! 1)" "1 < length ?data" "codec_id packet \<in> {codec_8, codec_8e}"
    by (auto simp: decode_data_def index_def and_then_Inr_iff split: if_splits dest!: parse_records_length)
  moreover from this(2) have "?data ! 1 = frame ! 9" by (auto simp: py_slice_def)
  ultimately show ?thesis using c Inr decoded_count_less [OF Inr] by simp
qed

text \<open>An empty packet with a correct checksum is not refused by ValueError but escapes as IndexError.\<close>

lemma empty_packet_escapes: "decode_packet (replicate 12 0) = Inl IndexError"
  by (simp add: decode_packet_def decode_data_def index_def py_slice_def crc16_ibm_def from_bytes_def
      numeral_eq_Suc Let_def)

text \<open>
  One record outside the range of the payload contract makes the whole packet unacknowledgeable:
  the connection ends with an uncaught exception each time the tracker sends it.
\<close>

lemma out_of_range_record_blocks:
  assumes "length (encode_data extended rs) < 256 ^ 4" "length rs < 256" "\<forall>r \<in> set rs. wire_ok extended r"
    "r \<in> set rs" "\<not> payload_ok (position_of_record site asset source (record_of r))"
  shows "serve_frames publish site asset source (encode_packet extended rs @ rest) s = ([], s, Uncaught ValidationError)"
proof -
  have "records_to_positions site asset source xs = Inl ValidationError"
    if "x \<in> set xs" "\<not> payload_ok (position_of_record site asset source x)" for x xs
    using that by (induction xs) (auto simp: Let_def)
  then have "records_to_positions site asset source (map record_of rs) = Inl ValidationError" using assms(4,5) by (metis list.set_map image_eqI)
  moreover have "decode_packet (frame_of (encode_data extended rs) (to_bytes 4 (crc16_ibm (encode_data extended rs)))) =
      Inr \<lparr>codec_id = (if extended then codec_8e else codec_8), records = map record_of rs\<rparr>"
    using decode_encode [OF assms(3,2,1)] by (simp only: encode_packet_def)
  ultimately show ?thesis by (simp add: encode_packet_def serve_frame_of [OF assms(1) length_to_bytes])
qed

end
