(* ===== verification/Tick.thy ===== *)
theory Tick
  imports Prelude
begin

text \<open>
  The ingestor's maintenance tick, \<^verbatim>\<open>src/src/minemonitor/ingest/tick.py\<close>, the heartbeats of
  \<^verbatim>\<open>heartbeat.py\<close> and the health check of \<^verbatim>\<open>healthcheck.py\<close>. What a step does to the database is
  a parameter: whether it ended normally, and what it left committed. A step that fails is rolled
  back to what it had committed.
\<close>

section \<open>Heartbeats\<close>

type_synonym heartbeats = "(string \<times> time) list"

definition beat :: "heartbeats \<Rightarrow> string \<Rightarrow> time \<Rightarrow> heartbeats" where
  "beat hb service now = dict_put service now hb"

definition age_s :: "heartbeats \<Rightarrow> string \<Rightarrow> time \<Rightarrow> real option" where
  "age_s hb service now = map_option (\<lambda>ts. total_seconds (now - ts)) (map_of hb service)"

definition is_fresh :: "heartbeats \<Rightarrow> string \<Rightarrow> int \<Rightarrow> time \<Rightarrow> bool" where
  "is_fresh hb service stale_s now = (case age_s hb service now of None \<Rightarrow> False | Some age \<Rightarrow> age \<le> of_int stale_s)"

text \<open>The exit status of the container's health check; \<open>db\<close> is None when the database raises.\<close>

definition health_exit :: "heartbeats option \<Rightarrow> int \<Rightarrow> time \<Rightarrow> int" where
  "health_exit db stale_s now =
     (case db of None \<Rightarrow> 1 | Some hb \<Rightarrow> if is_fresh hb ''ingestor'' stale_s now then 0 else 1)"

section \<open>The plan of a tick\<close>

record step =
  st_name :: string
  st_site :: "string option"

definition per_site :: "string list" where
  "per_site = [''offline'', ''occupancy'', ''camera_offline'', ''missed_search'', ''breach_deadlines'']"

definition step_for :: "string \<Rightarrow> string option \<Rightarrow> step" where
  "step_for name site = \<lparr>st_name = name, st_site = site\<rparr>"

text \<open>\<open>sites\<close> is \<^verbatim>\<open>served_site_ids\<close>.\<close>

definition plan :: "string list \<Rightarrow> string \<Rightarrow> bool \<Rightarrow> bool \<Rightarrow> step list" where
  "plan sites default_site gate_source retention_due =
     concat (map (\<lambda>name. map (\<lambda>site. step_for name (Some site)) sites) per_site) @
     (if gate_source then [step_for ''gate_poll'' (Some default_site)] else []) @
     map (\<lambda>site. step_for ''cycles'' (Some site)) sites @
     map (\<lambda>site. step_for ''shift_reports'' (Some site)) sites @
     [step_for ''notifications'' None, step_for ''report_delivery'' None] @
     (if retention_due then [step_for ''retention'' None] else [])"

definition global :: string where "global = ''*''"

definition site_key :: "string option \<Rightarrow> string" where
  "site_key site = (case site of None \<Rightarrow> global | Some s \<Rightarrow> if s = [] then global else s)"

definition step_key :: "string \<Rightarrow> string \<Rightarrow> string option \<Rightarrow> string" where
  "step_key status name site = ''tick:'' @ status @ '':'' @ name @ '':'' @ site_key site"

section \<open>Running a tick\<close>

record outcome =
  out_name :: string
  out_site :: "string option"
  out_ok :: bool

text \<open>
  The database is its heartbeats and the rest. \<open>exec\<close> runs a step on the rest; \<open>booked\<close> says
  whether recording the outcome succeeds.
\<close>

fun run :: "(step \<Rightarrow> 'd \<Rightarrow> bool \<times> 'd) \<Rightarrow> (step \<Rightarrow> bool) \<Rightarrow> time \<Rightarrow> step list \<Rightarrow> heartbeats \<times> 'd
    \<Rightarrow> outcome list \<times> heartbeats \<times> 'd" where
  "run exec booked now [] (hb, d) = ([], hb, d)"
| "run exec booked now (st # steps) (hb, d) =
     (let (ok, d) = exec st d;
          hb = (if booked st then beat hb (step_key (if ok then ''ok'' else ''failed'') (st_name st) (st_site st)) now else hb);
          (outs, hb, d) = run exec booked now steps (hb, d)
      in (\<lparr>out_name = st_name st, out_site = st_site st, out_ok = ok\<rparr> # outs, hb, d))"

text \<open>\<^verbatim>\<open>service.split(":", 3)\<close>.\<close>

fun split_n :: "char \<Rightarrow> nat \<Rightarrow> string \<Rightarrow> string list" where
  "split_n c 0 s = [s]"
| "split_n c (Suc n) [] = [[]]"
| "split_n c (Suc n) (x # s) =
     (if x = c then [] # split_n c n s
      else case split_n c (Suc n) s of [] \<Rightarrow> [[x]] | p # ps \<Rightarrow> (x # p) # ps)"

type_synonym seen = "((string \<times> string) \<times> (string \<times> time) list) list"

definition see :: "seen \<Rightarrow> string \<Rightarrow> string \<Rightarrow> string \<Rightarrow> time \<Rightarrow> seen" where
  "see last_seen status name site ts =
     dict_put (name, site)
       (dict_put status ts (case map_of last_seen (name, site) of None \<Rightarrow> [] | Some s \<Rightarrow> s)) last_seen"

text \<open>None: a key that does not split into four parts (the unpacking raises).\<close>

fun see_rows :: "string \<Rightarrow> heartbeats \<Rightarrow> seen \<Rightarrow> seen option" where
  "see_rows site_id [] last_seen = Some last_seen"
| "see_rows site_id ((service, ts) # rows) last_seen =
     (if take 5 service \<noteq> ''tick:'' then see_rows site_id rows last_seen
      else case split_n (CHR '':'') 3 service of
             [_, status, name, site] \<Rightarrow>
               see_rows site_id rows (if site = site_id \<or> site = global then see last_seen status name site ts else last_seen)
           | _ \<Rightarrow> None)"

definition is_failing :: "(string \<times> time) list \<Rightarrow> bool" where
  "is_failing seen =
     (case map_of seen ''failed'' of
        None \<Rightarrow> False
      | Some f \<Rightarrow> (case map_of seen ''ok'' of None \<Rightarrow> True | Some k \<Rightarrow> f \<ge> k))"

definition failing_steps :: "heartbeats \<Rightarrow> string \<Rightarrow> string list option" where
  "failing_steps hb site_id =
     map_option (\<lambda>last_seen. sort (remdups (map (\<lambda>e. fst (fst e)) (filter (\<lambda>e. is_failing (snd e)) last_seen))))
       (see_rows site_id hb [])"

section \<open>A failing step stops no other\<close>

lemma run_append:
  "run exec booked now (xs @ ys) (hb, d) =
    (let (o1, hb1, d1) = run exec booked now xs (hb, d); (o2, hb2, d2) = run exec booked now ys (hb1, d1)
     in (o1 @ o2, hb2, d2))"
  by (induction xs arbitrary: hb d) (auto simp: Let_def split_beta)

lemma run_ignores_heartbeats:
  "fst (run exec booked now steps (hb, d)) = fst (run exec booked now steps (hb', d)) \<and>
   snd (snd (run exec booked now steps (hb, d))) = snd (snd (run exec booked now steps (hb', d)))"
  by (induction steps arbitrary: hb hb' d) (simp_all add: Let_def split_beta)

text \<open>The tick isolates its steps: when a step fails and is rolled back, the steps before and after
  it end as they would without it and leave the same data, and the failure is reported in its place;
  every step of the plan gets its outcome, in order.\<close>

theorem failing_step_is_isolated:
  assumes "snd (snd (run exec booked now before (hb, d))) = d1" "exec bad d1 = (False, d1)"
  shows "(let (outs, _, d') = run exec booked now (before @ after) (hb, d)
    in fst (run exec booked now (before @ bad # after) (hb, d)) =
         take (length before) outs @ \<lparr>out_name = st_name bad, out_site = st_site bad, out_ok = False\<rparr> #
         drop (length before) outs \<and>
       snd (snd (run exec booked now (before @ bad # after) (hb, d))) = d' \<and>
       map (\<lambda>o'. (out_name o', out_site o')) outs = map (\<lambda>st. (st_name st, st_site st)) (before @ after))"
proof -
  have len: "length (fst (run exec booked now steps (hb, d))) = length steps" for steps hb d
    by (induction steps arbitrary: hb d) (simp_all add: Let_def split_beta)
  have names: "map (\<lambda>o'. (out_name o', out_site o')) (fst (run exec booked now steps (hb, d))) =
      map (\<lambda>st. (st_name st, st_site st)) steps" for steps hb d
    by (induction steps arbitrary: hb d) (simp_all add: Let_def split_beta)
  obtain o1 hb1 d2 where "run exec booked now before (hb, d) = (o1, hb1, d2)" by (rule prod_cases3)
  then have 1: "run exec booked now before (hb, d) = (o1, hb1, d1)" using assms(1) by simp
  then have o1: "length o1 = length before" using len [of before hb d] by simp
  define hb2 where "hb2 = (if booked bad then beat hb1 (step_key ''failed'' (st_name bad) (st_site bad)) now else hb1)"
  have bad: "run exec booked now (bad # after) (hb1, d1) =
      (\<lparr>out_name = st_name bad, out_site = st_site bad, out_ok = False\<rparr> # fst (run exec booked now after (hb2, d1)),
       snd (run exec booked now after (hb2, d1)))"
    by (simp add: assms(2) hb2_def Let_def split_beta)
  note same = run_ignores_heartbeats [of exec booked now after hb2 d1 hb1]
  show ?thesis
    using same names [of "before @ after" hb d] o1 by (simp add: run_append 1 bad Let_def split_beta del: run.simps)
qed

theorem failing_step_is_isolated_witness:
  "(let (outs, _, d') = run (\<lambda>st d. (st_name st \<noteq> ''cycles'', if st_name st = ''cycles'' then d else d + 1)) (\<lambda>_. True) 7
        ([step_for ''offline'' None] @ [step_for ''occupancy'' None]) ([], 0 :: nat)
    in fst (run (\<lambda>st d. (st_name st \<noteq> ''cycles'', if st_name st = ''cycles'' then d else d + 1)) (\<lambda>_. True) 7
         ([step_for ''offline'' None] @ step_for ''cycles'' None # [step_for ''occupancy'' None]) ([], 0 :: nat)) =
         take (length [step_for ''offline'' None]) outs @
         \<lparr>out_name = st_name (step_for ''cycles'' None), out_site = st_site (step_for ''cycles'' None), out_ok = False\<rparr> #
         drop (length [step_for ''offline'' None]) outs \<and>
       snd (snd (run (\<lambda>st d. (st_name st \<noteq> ''cycles'', if st_name st = ''cycles'' then d else d + 1)) (\<lambda>_. True) 7
         ([step_for ''offline'' None] @ step_for ''cycles'' None # [step_for ''occupancy'' None]) ([], 0 :: nat))) = d' \<and>
       map (\<lambda>o'. (out_name o', out_site o')) outs =
         map (\<lambda>st. (st_name st, st_site st)) ([step_for ''offline'' None] @ [step_for ''occupancy'' None]))"
  by (rule failing_step_is_isolated [where ?d1.0 = 1]) (simp_all add: step_for_def Let_def)

text \<open>Every site gets every step of the plan, once, alarms before analytics.\<close>

lemma plan_covers_sites:
  assumes "distinct sites" "site \<in> set sites" "name \<in> set (per_site @ [''cycles'', ''shift_reports''])"
  shows "length (filter (\<lambda>st. st = step_for name (Some site)) (plan sites default_site gate_source retention_due)) = 1"
proof -
  have one: "length (filter (\<lambda>st. st = step_for name (Some site)) (map (\<lambda>x. step_for n (Some x)) sites)) =
      (if n = name then 1 else 0)" for n
  proof -
    have "filter (\<lambda>x. step_for n (Some x) = step_for name (Some site)) sites = (if n = name then [site] else [])"
      using assms(1,2) by (induction sites) (auto simp: step_for_def filter_empty_conv)
    then show ?thesis by (simp add: filter_map comp_def)
  qed
  have other: "step_for n x = step_for name y \<longleftrightarrow> n = name \<and> x = y" for n x y by (simp add: step_for_def)
  define count where "count l = length (filter (\<lambda>st. st = step_for name (Some site)) l)" for l
  have count: "count [] = 0" "count (a @ b) = count a + count b" 
    "count (step_for n y # b) = (if n = name \<and> y = Some site then 1 else 0) + count b" for a b n y
    by (simp_all add: count_def other)
  have each: "count (map (\<lambda>x. step_for n (Some x)) sites) = (if n = name then 1 else 0)" for n
    unfolding count_def by (rule one)
  have "count (plan sites default_site gate_source retention_due) = 1"
    using assms(3) unfolding per_site_def
    by (simp only: append.simps list.set insert_iff empty_iff simp_thms, elim disjE)
       (simp_all add: plan_def per_site_def count each)
  then show ?thesis by (simp add: count_def)
qed

section \<open>The steps that keep failing\<close>

text \<open>A key splits back into what it was built from, whatever the site is called.\<close>

lemma split_n_key:
  assumes "CHR '':'' \<notin> set x"
  shows "split_n (CHR '':'') (Suc n) (x @ CHR '':'' # s) = x # split_n (CHR '':'') n s"
  using assms by (induction x) auto

lemma key_parts:
  assumes "CHR '':'' \<notin> set status" "CHR '':'' \<notin> set name"
  shows "split_n (CHR '':'') 3 (step_key status name site) = [''tick'', status, name, site_key site]"
  using assms split_n_key [of "''tick''" 2 "status @ '':'' @ name @ '':'' @ site_key site"]
    split_n_key [of status 1 "name @ '':'' @ site_key site"] split_n_key [of name 0 "site_key site"]
  by (simp add: step_key_def eval_nat_numeral)

end
