(* ===== verification/Dispatch.thy ===== *)
theory Dispatch
  imports Store
begin

text \<open>
  Dispatch, \<^verbatim>\<open>src/src/minemonitor/dispatch/service.py\<close> and the handlers of \<^verbatim>\<open>api/routers/dispatch.py\<close>: jobs
  that want trucks, the recommendation of a job for every truck that is free, and the approval that
  turns a recommendation into an instruction. The audit entries and the bus of the handlers are
  left out; \<^verbatim>\<open>Asset\<close> rows are the \<^const>\<open>asset_rows\<close> of the store.
\<close>

section \<open>Rows\<close>

record dispatch_job =
  dj_id :: string
  dj_site :: string
  dj_material :: "string option"
  dj_source :: "string option"
  dj_dest :: "string option"
  dj_target :: "int option"
  dj_priority :: int
  dj_status :: string
  dj_note :: "string option"
  dj_created_by :: string
  dj_created :: time

record assignment =
  as_id :: string
  as_site :: string
  as_job :: string
  as_asset :: string
  as_state :: string
  as_objective :: string
  as_score :: real
  as_rationale :: "text_pieces list"
  as_recommended :: time
  as_approved_by :: "string option"
  as_approved_at :: "time option"

record dispatch_db = db +
  d_jobs :: "dispatch_job list"
  d_assignments :: "assignment list"

datatype dispatch_error = BadTarget | BadStatus | NotRecommended | NotFound

definition truck_class :: string where "truck_class = ''haul_truck''"

definition committed_states :: "string list" where "committed_states = [''approved'', ''active'']"

definition ended_statuses :: "string list" where "ended_statuses = [''complete'', ''cancelled'']"

section \<open>Jobs\<close>

definition create_job ::
  "string \<Rightarrow> string \<Rightarrow> time \<Rightarrow> string option \<Rightarrow> string option \<Rightarrow> string option \<Rightarrow> int option \<Rightarrow> int \<Rightarrow> string option
    \<Rightarrow> 'a dispatch_db_scheme \<Rightarrow> dispatch_error + (dispatch_job \<times> 'a dispatch_db_scheme)" where
  "create_job site by_user now material source dest target priority msg d =
     (if (case target of None \<Rightarrow> False | Some n \<Rightarrow> n \<le> 0) then Inl BadTarget
      else let (i, d) = new_event_id d;
               j = \<lparr>dj_id = i, dj_site = site, dj_material = material, dj_source = source, dj_dest = dest, dj_target = target,
                 dj_priority = priority, dj_status = ''open'', dj_note = msg, dj_created_by = by_user, dj_created = now\<rparr>
           in Inr (j, d\<lparr>d_jobs := d_jobs d @ [j]\<rparr>))"

definition list_jobs :: "'a dispatch_db_scheme \<Rightarrow> string \<Rightarrow> string option \<Rightarrow> dispatch_job list" where
  "list_jobs d site status =
     sort_key (\<lambda>j. - dj_priority j) (sort_key dj_created (filter (\<lambda>j. dj_site j = site \<and>
       (case status of None \<Rightarrow> True | Some x \<Rightarrow> dj_status j = x)) (d_jobs d)))"

text \<open>A job that ends releases the trucks committed to it.\<close>

definition set_job_status ::
  "string \<Rightarrow> string \<Rightarrow> string \<Rightarrow> 'a dispatch_db_scheme \<Rightarrow> dispatch_job option \<times> 'a dispatch_db_scheme" where
  "set_job_status site i status d =
     (case List.find (\<lambda>j. dj_id j = i) (d_jobs d) of
        None \<Rightarrow> (None, d)
      | Some j \<Rightarrow>
          if dj_site j \<noteq> site then (None, d)
          else let d = d\<lparr>d_jobs := map (\<lambda>q. if dj_id q = i then q\<lparr>dj_status := status\<rparr> else q) (d_jobs d)\<rparr>
               in (Some (j\<lparr>dj_status := status\<rparr>),
                   if status \<in> set ended_statuses
                   then d\<lparr>d_assignments := map (\<lambda>a. if as_site a = site \<and> as_job a = i \<and> as_state a \<in> set committed_states
                          then a\<lparr>as_state := ''released''\<rparr> else a) (d_assignments d)\<rparr>
                   else d))"

section \<open>Recommendations\<close>

text \<open>Jobs are in the order of \<^const>\<open>list_jobs\<close>; one without a target can take any number of trucks.\<close>

definition wants_more :: "(string \<Rightarrow> nat) \<Rightarrow> (string \<Rightarrow> nat) \<Rightarrow> dispatch_job \<Rightarrow> bool" where
  "wants_more committed pending j \<longleftrightarrow>
     (case dj_target j of None \<Rightarrow> True | Some n \<Rightarrow> int (committed (dj_id j) + pending (dj_id j)) < n)"

definition next_job :: "dispatch_job list \<Rightarrow> (string \<Rightarrow> nat) \<Rightarrow> (string \<Rightarrow> nat) \<Rightarrow> dispatch_job option" where
  "next_job jobs committed pending = List.find (wants_more committed pending) jobs"

definition rationale :: "string \<Rightarrow> dispatch_job \<Rightarrow> nat \<Rightarrow> text_pieces list" where
  "rationale truck j have =
     [Txt ''job priority '' # FmtInt (dj_priority j) #
        (case dj_material j of None \<Rightarrow> [] | Some m \<Rightarrow> if m = [] then [] else [Txt '', material '', Txt m]),
      [Txt truck, Txt '' available (not committed to an approved/active job)'']] @
     (case dj_target j of None \<Rightarrow> []
      | Some n \<Rightarrow> [[Txt ''job wants '', FmtInt n, Txt '' trucks; '', FmtInt (int have), Txt '' already assigned'']])"

fun recommend_loop ::
  "string \<Rightarrow> time \<Rightarrow> string \<Rightarrow> dispatch_job list \<Rightarrow> (string \<Rightarrow> nat) \<Rightarrow> (string \<Rightarrow> nat) \<Rightarrow> string list \<Rightarrow> 'a dispatch_db_scheme
    \<Rightarrow> assignment list \<times> 'a dispatch_db_scheme" where
  "recommend_loop site now objective jobs committed pending [] d = ([], d)"
| "recommend_loop site now objective jobs committed pending (t # ts) d =
     (case next_job jobs committed pending of
        None \<Rightarrow> ([], d)
      | Some j \<Rightarrow>
          let (i, d) = new_event_id d;
              a = \<lparr>as_id = i, as_site = site, as_job = dj_id j, as_asset = t, as_state = ''recommended'', as_objective = objective,
                as_score = of_int (dj_priority j), as_rationale = rationale t j (committed (dj_id j) + pending (dj_id j)),
                as_recommended = now, as_approved_by = None, as_approved_at = None\<rparr>;
              (recs, d) = recommend_loop site now objective jobs committed
                (pending(dj_id j := pending (dj_id j) + 1)) ts (d\<lparr>d_assignments := d_assignments d @ [a]\<rparr>)
          in (a # recs, d))"

definition committed_rows :: "'a dispatch_db_scheme \<Rightarrow> string \<Rightarrow> assignment list" where
  "committed_rows d site = filter (\<lambda>a. as_site a = site \<and> as_state a \<in> set committed_states) (d_assignments d)"

definition trucks_of :: "'a db_scheme \<Rightarrow> string \<Rightarrow> string list" where
  "trucks_of d site = sort (map (\<lambda>((_, a), _). a) (filter (\<lambda>((s, _), cls). s = site \<and> cls = truck_class) (asset_rows d)))"

definition available_trucks :: "'a dispatch_db_scheme \<Rightarrow> string \<Rightarrow> string list" where
  "available_trucks d site = filter (\<lambda>t. t \<notin> as_asset ` set (committed_rows d site)) (trucks_of d site)"

definition without_suggestions :: "string \<Rightarrow> 'a dispatch_db_scheme \<Rightarrow> 'a dispatch_db_scheme" where
  "without_suggestions site d =
     d\<lparr>d_assignments := filter (\<lambda>a. \<not> (as_site a = site \<and> as_state a = ''recommended'')) (d_assignments d)\<rparr>"

definition recommend ::
  "string \<Rightarrow> time \<Rightarrow> string \<Rightarrow> 'a dispatch_db_scheme \<Rightarrow> assignment list \<times> 'a dispatch_db_scheme" where
  "recommend site now objective d0 =
     (let d = without_suggestions site d0; rows = committed_rows d site
      in recommend_loop site now objective (list_jobs d site (Some ''open'')) (\<lambda>i. length (filter (\<lambda>a. as_job a = i) rows)) (\<lambda>_. 0)
           (available_trucks d site) d)"

definition list_assignments :: "'a dispatch_db_scheme \<Rightarrow> string \<Rightarrow> string option \<Rightarrow> assignment list" where
  "list_assignments d site state =
     sort_key (\<lambda>a. - as_score a) (sort_key as_recommended (filter (\<lambda>a. as_site a = site \<and>
       (case state of None \<Rightarrow> True | Some x \<Rightarrow> as_state a = x)) (d_assignments d)))"

section \<open>Approval\<close>

definition put_assignment :: "assignment \<Rightarrow> 'a dispatch_db_scheme \<Rightarrow> 'a dispatch_db_scheme" where
  "put_assignment a d = d\<lparr>d_assignments := map (\<lambda>q. if as_id q = as_id a then a else q) (d_assignments d)\<rparr>"

definition approve_assignment ::
  "string \<Rightarrow> string \<Rightarrow> string \<Rightarrow> time \<Rightarrow> 'a dispatch_db_scheme
    \<Rightarrow> dispatch_error + (assignment option \<times> 'a dispatch_db_scheme)" where
  "approve_assignment site i by_user now d =
     (case List.find (\<lambda>a. as_id a = i) (d_assignments d) of
        None \<Rightarrow> Inr (None, d)
      | Some a \<Rightarrow>
          if as_site a \<noteq> site then Inr (None, d)
          else if as_state a \<noteq> ''recommended'' then Inl NotRecommended
          else let a = a\<lparr>as_state := ''approved'', as_approved_by := Some by_user, as_approved_at := Some now\<rparr>
               in Inr (Some a, put_assignment a d))"

definition reject_assignment ::
  "string \<Rightarrow> string \<Rightarrow> 'a dispatch_db_scheme \<Rightarrow> dispatch_error + (assignment option \<times> 'a dispatch_db_scheme)" where
  "reject_assignment site i d =
     (case List.find (\<lambda>a. as_id a = i) (d_assignments d) of
        None \<Rightarrow> Inr (None, d)
      | Some a \<Rightarrow>
          if as_site a \<noteq> site then Inr (None, d)
          else if as_state a \<noteq> ''recommended'' then Inl NotRecommended
          else let a = a\<lparr>as_state := ''rejected''\<rparr> in Inr (Some a, put_assignment a d))"

section \<open>The handlers\<close>

definition job_statuses :: "string list" where
  "job_statuses = [''open'', ''active'', ''complete'', ''cancelled'']"

datatype dispatch_act =
    PostJob string string time "string option" "string option" "string option" "int option" int "string option"
  | PostStatus string string string
  | PostRecommend string time string
  | PostApprove string string string time
  | PostReject string string

definition found :: "dispatch_error + ('r option \<times> 'd) \<Rightarrow> dispatch_error + 'd" where
  "found r = (case r of Inl e \<Rightarrow> Inl e | Inr (None, _) \<Rightarrow> Inl NotFound | Inr (Some _, d) \<Rightarrow> Inr d)"

fun dispatch_handler :: "dispatch_act \<Rightarrow> 'a dispatch_db_scheme \<Rightarrow> dispatch_error + 'a dispatch_db_scheme" where
  "dispatch_handler (PostJob site by_user now material source dest target priority msg) d =
     map_sum id snd (create_job site by_user now material source dest target priority msg d)"
| "dispatch_handler (PostStatus site i status) d =
     (if status \<notin> set job_statuses then Inl BadStatus else found (Inr (set_job_status site i status d)))"
| "dispatch_handler (PostRecommend site now objective) d = Inr (snd (recommend site now objective d))"
| "dispatch_handler (PostApprove site i by_user now) d = found (approve_assignment site i by_user now d)"
| "dispatch_handler (PostReject site i) d = found (reject_assignment site i d)"

text \<open>A refused request is rolled back.\<close>

definition dispatch_do :: "'a dispatch_db_scheme \<Rightarrow> dispatch_act \<Rightarrow> 'a dispatch_db_scheme" where
  "dispatch_do d a = (case dispatch_handler a d of Inl _ \<Rightarrow> d | Inr d' \<Rightarrow> d')"

section \<open>No truck is promised twice\<close>

definition live :: "assignment \<Rightarrow> bool" where
  "live a \<longleftrightarrow> as_state a \<in> {''recommended'', ''approved'', ''active''}"

definition holds :: "string \<Rightarrow> string \<Rightarrow> assignment \<Rightarrow> bool" where
  "holds site truck a \<longleftrightarrow> as_site a = site \<and> as_asset a = truck \<and> live a"

definition on_job :: "dispatch_job \<Rightarrow> assignment \<Rightarrow> bool" where
  "on_job j a \<longleftrightarrow> as_site a = dj_site j \<and> as_job a = dj_id j \<and> live a"

definition job_count :: "'a dispatch_db_scheme \<Rightarrow> dispatch_job \<Rightarrow> nat" where
  "job_count d j = length (filter (on_job j) (d_assignments d))"

definition truck_count :: "'a dispatch_db_scheme \<Rightarrow> string \<Rightarrow> string \<Rightarrow> nat" where
  "truck_count d site truck = length (filter (holds site truck) (d_assignments d))"

definition within_target :: "'a dispatch_db_scheme \<Rightarrow> dispatch_job \<Rightarrow> bool" where
  "within_target d j \<longleftrightarrow> (case dj_target j of None \<Rightarrow> True | Some n \<Rightarrow> int (job_count d j) \<le> n)"

definition dispatch_ids_ok :: "'a dispatch_db_scheme \<Rightarrow> bool" where
  "dispatch_ids_ok d \<longleftrightarrow> inj (ulid d) \<and> distinct (map fst (asset_rows d)) \<and>
     distinct (map as_id (d_assignments d)) \<and> distinct (map dj_id (d_jobs d)) \<and>
     as_id ` set (d_assignments d) \<subseteq> ulid d ` {..<ids_drawn d} \<and> dj_id ` set (d_jobs d) \<subseteq> ulid d ` {..<ids_drawn d} \<and>
     as_job ` set (d_assignments d) \<subseteq> dj_id ` set (d_jobs d)"

definition fleet_ok :: "'a dispatch_db_scheme \<Rightarrow> bool" where
  "fleet_ok d \<longleftrightarrow> dispatch_ids_ok d \<and> (\<forall>site truck. truck_count d site truck \<le> 1) \<and> (\<forall>j \<in> set (d_jobs d). within_target d j)"

lemma drawn_fresh: "inj f \<Longrightarrow> X \<subseteq> f ` {..<n} \<Longrightarrow> f n \<notin> (X :: string set)" for n :: nat
  by (metis imageE injD lessThan_iff less_irrefl subsetD)

lemma drawn_grows: "X \<subseteq> f ` {..<n} \<Longrightarrow> n \<le> m \<Longrightarrow> X \<subseteq> f ` {..<m}" for n :: nat
  by (rule subset_trans, assumption, rule image_mono) auto

lemma disjoint_below: "A \<subseteq> X \<Longrightarrow> X \<inter> B = {} \<Longrightarrow> A \<inter> B = {}"
  by blast

lemma loop_shape:
  assumes "recommend_loop site now objective jobs c p ts d = (recs, d')"
  shows "d' = d\<lparr>ids_drawn := ids_drawn d + length recs, d_assignments := d_assignments d @ recs\<rparr>"
    "map as_id recs = map (ulid d) [ids_drawn d ..< ids_drawn d + length recs]"
    "map as_asset recs = take (length recs) ts"
    "\<forall>a \<in> set recs. as_site a = site \<and> as_state a = ''recommended'' \<and> as_job a \<in> dj_id ` set jobs"
  using assms
proof (induction ts arbitrary: p d recs)
  case (Cons t ts)
  {
    case 1
    then show ?case using Cons(1) by (fastforce simp: new_event_id_def Let_def split: option.splits prod.splits)
  next
    case 2
    then show ?case using Cons(2) by (fastforce simp: new_event_id_def Let_def upt_conv_Cons simp del: upt_Suc split: option.splits prod.splits)
  next
    case 3
    then show ?case using Cons(3) by (fastforce simp: new_event_id_def Let_def split: option.splits prod.splits)
  next
    case 4
    then show ?case using Cons(4)
      by (fastforce simp: new_event_id_def Let_def next_job_def split: option.splits prod.splits dest: find_Some_mem)
  }
qed auto

lemma loop_targets:
  assumes "recommend_loop site now objective jobs c p ts d = (recs, d')"
    and "distinct (map dj_id jobs)" "j \<in> set jobs" "dj_target j = Some n" "int (c (dj_id j) + p (dj_id j)) \<le> n"
  shows "int (c (dj_id j) + p (dj_id j) + length (filter (\<lambda>a. as_job a = dj_id j) recs)) \<le> n"
  using assms
proof (induction ts arbitrary: p d recs)
  case (Cons t ts)
  show ?case
  proof (cases "next_job jobs c p")
    case (Some k)
    then have k: "k \<in> set jobs" "wants_more c p k" by (auto simp: next_job_def dest: find_Some_mem)
    let ?p = "p(dj_id k := p (dj_id k) + 1)"
    obtain a rest d1 where r: "recs = a # rest" "as_job a = dj_id k"
      "recommend_loop site now objective jobs c ?p ts d1 = (rest, d')"
      using Cons.prems(1) Some by (auto simp: new_event_id_def Let_def split: prod.splits)
    have "int (c (dj_id j) + ?p (dj_id j)) \<le> n"
    proof (cases "dj_id k = dj_id j")
      case True
      then have "k = j" using k(1) Cons.prems(2,3) by (auto simp: distinct_map dest: inj_onD)
      then show ?thesis using k(2) Cons.prems(4) by (simp add: wants_more_def)
    qed (use Cons.prems(5) in simp)
    from Cons.IH [OF r(3) Cons.prems(2-4) this] show ?thesis using r(1,2) by (auto split: if_splits)
  qed (use Cons.prems in auto)
qed simp

lemma loop_no_idle:
  assumes "recommend_loop site now objective jobs c p ts d = (recs, d')" "length recs < length ts" "j \<in> set jobs"
  shows "\<exists>n. dj_target j = Some n \<and> n \<le> int (c (dj_id j) + p (dj_id j) + length (filter (\<lambda>a. as_job a = dj_id j) recs))"
  using assms
proof (induction ts arbitrary: p d recs)
  case (Cons t ts)
  show ?case
  proof (cases "next_job jobs c p")
    case None
    then have "\<not> wants_more c p j" using Cons.prems(3) by (simp add: next_job_def find_None_iff_all)
    then show ?thesis by (auto simp: wants_more_def split: option.splits)
  next
    case (Some k)
    let ?p = "p(dj_id k := p (dj_id k) + 1)"
    obtain a rest d1 where r: "recs = a # rest" "as_job a = dj_id k"
      "recommend_loop site now objective jobs c ?p ts d1 = (rest, d')"
      using Cons.prems(1) Some by (auto simp: new_event_id_def Let_def split: prod.splits)
    have "length rest < length ts" using Cons.prems(2) r(1) by simp
    from Cons.IH [OF r(3) this Cons.prems(3)] show ?thesis using r(1,2) by (auto split: if_splits)
  qed
qed simp

lemma filter_map_le: "(\<And>x. x \<in> set xs \<Longrightarrow> P (f x) \<Longrightarrow> Q x) \<Longrightarrow> length (filter (P \<circ> f) xs) \<le> length (filter Q xs)"
  by (induction xs) (auto intro: le_SucI)

lemma fleet_map:
  assumes ok: "fleet_ok d"
    and d': "d' = d\<lparr>d_jobs := map g (d_jobs d), d_assignments := map f (d_assignments d)\<rparr>"
    and f: "\<And>x. x \<in> set (d_assignments d) \<Longrightarrow> as_id (f x) = as_id x \<and> as_site (f x) = as_site x \<and> as_job (f x) = as_job x \<and>
      as_asset (f x) = as_asset x \<and> (live (f x) \<longrightarrow> live x)"
    and g: "\<And>j. dj_id (g j) = dj_id j \<and> dj_site (g j) = dj_site j \<and> dj_target (g j) = dj_target j"
  shows "fleet_ok d'"
proof -
  have ids: "map as_id (d_assignments d') = map as_id (d_assignments d)" "map as_job (d_assignments d') = map as_job (d_assignments d)"
    "map dj_id (d_jobs d') = map dj_id (d_jobs d)"
    using f g by (auto simp: d')
  have "truck_count d' site truck \<le> 1" for site truck
  proof -
    have "truck_count d' site truck \<le> truck_count d site truck"
      unfolding truck_count_def d' by (simp add: filter_map, rule filter_map_le, auto simp: holds_def f)
    also have "\<dots> \<le> 1" using ok by (simp add: fleet_ok_def)
    finally show ?thesis .
  qed
  moreover have "within_target d' (g j)" if "j \<in> set (d_jobs d)" for j
  proof -
    have "job_count d' (g j) \<le> job_count d j"
      unfolding job_count_def d' by (simp add: filter_map, rule filter_map_le, auto simp: on_job_def f g)
    moreover have "within_target d j" using ok that by (simp add: fleet_ok_def)
    ultimately show ?thesis using g by (auto simp: within_target_def split: option.splits)
  qed
  moreover have "dispatch_ids_ok d'"
  proof -
    have "ulid d' = ulid d" "ids_drawn d' = ids_drawn d" "asset_rows d' = asset_rows d" by (simp_all add: d')
    moreover have "dispatch_ids_ok d" using ok by (simp add: fleet_ok_def)
    ultimately show ?thesis unfolding dispatch_ids_ok_def set_map [symmetric] ids by simp
  qed
  ultimately show ?thesis by (auto simp: fleet_ok_def d')
qed

lemma fleet_put:
  assumes "fleet_ok d" "List.find (\<lambda>a. as_id a = i) (d_assignments d) = Some a"
    "as_id a' = as_id a" "as_site a' = as_site a" "as_job a' = as_job a" "as_asset a' = as_asset a" "live a' \<Longrightarrow> live a"
  shows "fleet_ok (put_assignment a' d)"
proof (rule fleet_map [OF assms(1), where f = "\<lambda>q. if as_id q = as_id a' then a' else q" and g = "\<lambda>j. j"])
  fix q assume q: "q \<in> set (d_assignments d)"
  have "a \<in> set (d_assignments d)" "as_id a = i" using find_Some_mem [OF assms(2)] by auto
  then have "as_id q = as_id a' \<Longrightarrow> q = a"
    using q assms(1,3) by (auto simp: fleet_ok_def dispatch_ids_ok_def distinct_map dest: inj_onD)
  then show "as_id (if as_id q = as_id a' then a' else q) = as_id q \<and> as_site (if as_id q = as_id a' then a' else q) = as_site q \<and>
      as_job (if as_id q = as_id a' then a' else q) = as_job q \<and> as_asset (if as_id q = as_id a' then a' else q) = as_asset q \<and>
      (live (if as_id q = as_id a' then a' else q) \<longrightarrow> live q)"
    using assms(3-7) by auto
qed (auto simp: put_assignment_def)

lemma fleet_create:
  assumes ok: "fleet_ok d" and c: "create_job site by_user now material source dest target priority msg d = Inr (j, d')"
  shows "fleet_ok d'"
proof -
  let ?i = "ulid d (ids_drawn d)"
  have j: "dj_id j = ?i" "dj_target j = target" "dj_site j = site" and t: "target \<noteq> None \<Longrightarrow> the target > 0"
    and d': "d' = d\<lparr>ids_drawn := ids_drawn d + 1, d_jobs := d_jobs d @ [j]\<rparr>"
    using c by (auto simp: create_job_def new_event_id_def Let_def split: if_splits option.splits)
  have ids: "dispatch_ids_ok d" using ok by (simp add: fleet_ok_def)
  have fresh: "?i \<notin> dj_id ` set (d_jobs d)" using ids by (intro drawn_fresh) (auto simp: dispatch_ids_ok_def)
  then have "?i \<notin> as_job ` set (d_assignments d)" using ids by (auto simp: dispatch_ids_ok_def)
  then have "filter (on_job j) (d_assignments d) = []" by (force simp: filter_empty_conv on_job_def j)
  then have "within_target d' j" using t by (cases target) (simp_all add: within_target_def job_count_def d' j)
  moreover have "job_count d' = job_count d" by (simp add: job_count_def d' fun_eq_iff)
  then have "within_target d' k \<longleftrightarrow> within_target d k" for k by (simp only: within_target_def)
  moreover have "truck_count d' = truck_count d" by (simp add: truck_count_def d' fun_eq_iff)
  moreover have "dispatch_ids_ok d'"
    using ids fresh drawn_grows [of _ "ulid d" "ids_drawn d" "ids_drawn d + 1"] unfolding dispatch_ids_ok_def
    by (auto simp: d' j simp del: lessThan_Suc)
  ultimately show ?thesis using ok by (auto simp: fleet_ok_def d')
qed

lemma fleet_status:
  assumes "fleet_ok d"
  shows "fleet_ok (snd (set_job_status site i status d))"
proof (cases "List.find (\<lambda>j. dj_id j = i) (d_jobs d)")
  case (Some j)
  show ?thesis
  proof (cases "dj_site j = site")
    case True
    let ?g = "\<lambda>q. if dj_id q = i then q\<lparr>dj_status := status\<rparr> else q"
    let ?f = "\<lambda>a. if status \<in> set ended_statuses \<and> as_site a = site \<and> as_job a = i \<and> as_state a \<in> set committed_states
      then a\<lparr>as_state := ''released''\<rparr> else a"
    have "snd (set_job_status site i status d) = d\<lparr>d_jobs := map ?g (d_jobs d), d_assignments := map ?f (d_assignments d)\<rparr>"
      using Some True by (simp add: set_job_status_def Let_def)
    then show ?thesis by (rule fleet_map [OF assms]) (auto simp: live_def)
  qed (use assms Some in \<open>simp add: set_job_status_def\<close>)
qed (use assms in \<open>simp add: set_job_status_def\<close>)

lemma fleet_approve:
  assumes "fleet_ok d" "approve_assignment site i by_user now d = Inr (r, d')"
  shows "fleet_ok d'"
proof (cases "List.find (\<lambda>a. as_id a = i) (d_assignments d)")
  case (Some a)
  then show ?thesis
    using assms fleet_put [OF assms(1) Some, of "a\<lparr>as_state := ''approved'', as_approved_by := Some by_user, as_approved_at := Some now\<rparr>"]
    by (auto simp: approve_assignment_def Let_def live_def split: if_splits)
qed (use assms in \<open>simp add: approve_assignment_def\<close>)

lemma fleet_reject:
  assumes "fleet_ok d" "reject_assignment site i d = Inr (r, d')"
  shows "fleet_ok d'"
proof (cases "List.find (\<lambda>a. as_id a = i) (d_assignments d)")
  case (Some a)
  then show ?thesis using assms fleet_put [OF assms(1) Some, of "a\<lparr>as_state := ''rejected''\<rparr>"]
    by (auto simp: reject_assignment_def Let_def live_def split: if_splits)
qed (use assms in \<open>simp add: reject_assignment_def\<close>)

lemma trucks_distinct: "distinct (map fst (asset_rows d)) \<Longrightarrow> distinct (trucks_of d site)"
proof -
  assume d: "distinct (map fst (asset_rows d))"
  have "distinct (map (\<lambda>((_, a), _). a) (filter (\<lambda>((s, _), cls). s = site \<and> cls = truck_class) xs))"
    if "distinct (map fst xs)" for xs :: "((string \<times> string) \<times> string) list"
    using that by (auto simp: distinct_map inj_on_def)
  then show ?thesis using d by (simp add: trucks_of_def)
qed

lemma distinct_count: "distinct (map f xs) \<Longrightarrow> length (filter (\<lambda>a. f a = t) xs) \<le> 1"
  by (induction xs) (auto simp: filter_empty_conv image_iff)

lemma fleet_recommend:
  assumes ok: "fleet_ok d" and r: "recommend site now objective d = (recs, d')"
  shows "fleet_ok d'"
proof -
  let ?b = "without_suggestions site d"
  let ?jobs = "list_jobs ?b site (Some ''open'')"
  let ?c = "\<lambda>i. length (filter (\<lambda>a. as_job a = i) (committed_rows ?b site))"
  have ids: "dispatch_ids_ok d" using ok by (simp add: fleet_ok_def)
  have loop: "recommend_loop site now objective ?jobs ?c (\<lambda>_. 0) (available_trucks ?b site) ?b = (recs, d')"
    using r by (simp add: recommend_def Let_def)
  note shape = loop_shape [OF loop]
  have jobs: "set ?jobs = {j \<in> set (d_jobs d). dj_site j = site \<and> dj_status j = ''open''}"
    by (auto simp: list_jobs_def without_suggestions_def)
  have rows: "d_assignments d' = d_assignments ?b @ recs" using shape(1) by simp
  have base: "set (d_assignments ?b) \<subseteq> set (d_assignments d)" by (auto simp: without_suggestions_def)
  have rec_live: "live a" "as_site a = site" if "a \<in> set recs" for a using shape(4) that by (auto simp: live_def)

  have trucks: "distinct (available_trucks ?b site)"
    using ids trucks_distinct [of d site] by (simp add: available_trucks_def trucks_of_def without_suggestions_def dispatch_ids_ok_def)
  have "truck_count d' s t \<le> 1" for s t
  proof (cases "s = site \<and> t \<in> as_asset ` set recs")
    case True
    then have "t \<in> set (available_trucks ?b site)" using shape(3) by (metis image_set in_set_takeD)
    then have free: "t \<notin> as_asset ` set (committed_rows ?b site)" by (simp add: available_trucks_def)
    have "\<not> holds s t a" if a: "a \<in> set (d_assignments ?b)" for a
    proof
      assume h: "holds s t a"
      then have "a \<in> set (committed_rows ?b site)"
        using a True by (auto simp: committed_rows_def committed_states_def holds_def live_def without_suggestions_def)
      then show False using free h by (auto simp: holds_def)
    qed
    then have "filter (holds s t) (d_assignments ?b) = []" by (simp add: filter_empty_conv)
    moreover have "distinct (map as_asset recs)" using trucks unfolding shape(3) by (rule distinct_take)
    then have "length (filter (\<lambda>a. as_asset a = t) recs) \<le> 1"
      by (rule distinct_count)
    then have "length (filter (holds s t) recs) \<le> 1"
      using filter_map_le [of recs "holds s t" id "\<lambda>a. as_asset a = t"] by (simp add: holds_def)
    ultimately show ?thesis by (simp add: truck_count_def rows)
  next
    case False
    then have "filter (holds s t) recs = []" using rec_live by (auto simp: filter_empty_conv holds_def)
    moreover have "length (filter (holds s t) (d_assignments ?b)) \<le> truck_count d s t"
      using filter_map_le [of "d_assignments d" "\<lambda>a. holds s t a \<and> \<not> (as_site a = site \<and> as_state a = ''recommended'')" id "holds s t"]
      by (simp add: truck_count_def without_suggestions_def comp_def conj_commute)
    moreover have "truck_count d s t \<le> 1" using ok by (simp add: fleet_ok_def)
    ultimately show ?thesis by (simp add: truck_count_def rows)
  qed
  moreover have "within_target d' j" if j: "j \<in> set (d_jobs d)" for j
  proof (cases "j \<in> set ?jobs")
    case False
    have "\<not> on_job j a" if "a \<in> set recs" for a
    proof
      assume "on_job j a"
      then have on: "dj_id j = as_job a" "dj_site j = site" using shape(4) that by (auto simp: on_job_def)
      then have "dj_id j \<in> dj_id ` set ?jobs" using shape(4) that by simp
      with on(2) show False using False j ids jobs by (auto simp: dispatch_ids_ok_def distinct_map dest: inj_onD)
    qed
    then have "filter (on_job j) recs = []" by (simp add: filter_empty_conv)
    then have "job_count d' j \<le> job_count d j"
      using filter_map_le [of "d_assignments d" "\<lambda>a. on_job j a \<and> \<not> (as_site a = site \<and> as_state a = ''recommended'')" id "on_job j"]
      by (simp add: job_count_def rows without_suggestions_def comp_def conj_commute)
    moreover have "within_target d j" using ok j by (simp add: fleet_ok_def)
    ultimately show ?thesis by (auto simp: within_target_def split: option.splits)
  next
    case True
    show ?thesis
    proof (cases "dj_target j")
      case (Some n)
      have site: "dj_site j = site" using True jobs by simp
      have "length (filter (\<lambda>a. as_job a = dj_id j) (committed_rows ?b site)) = length (filter (on_job j) (d_assignments ?b))"
        using site by (simp add: committed_rows_def on_job_def live_def without_suggestions_def committed_states_def)
          (rule arg_cong [where f = length], rule filter_cong, auto)
      moreover have "length (filter (on_job j) (d_assignments ?b)) \<le> job_count d j"
        using filter_map_le [of "d_assignments d" "\<lambda>a. on_job j a \<and> \<not> (as_site a = site \<and> as_state a = ''recommended'')" id "on_job j"]
        by (simp add: job_count_def without_suggestions_def comp_def conj_commute)
      moreover have "int (job_count d j) \<le> n" using ok j Some by (auto simp: fleet_ok_def within_target_def)
      ultimately have "int (?c (dj_id j) + 0) \<le> n" by simp
      moreover have "distinct (map dj_id ?jobs)" using ids by (simp add: dispatch_ids_ok_def list_jobs_def without_suggestions_def distinct_map_filter distinct_map inj_on_def)
      ultimately have "int (?c (dj_id j) + 0 + length (filter (\<lambda>a. as_job a = dj_id j) recs)) \<le> n"
        using loop_targets [OF loop _ True Some] by simp
      moreover have "filter (on_job j) recs = filter (\<lambda>a. as_job a = dj_id j) recs"
        using rec_live site by (intro filter_cong) (auto simp: on_job_def)
      ultimately show ?thesis
        using \<open>?c (dj_id j) = length (filter (on_job j) (d_assignments ?b))\<close> by (simp add: within_target_def Some job_count_def rows)
    qed (simp add: within_target_def)
  qed
  moreover have "dispatch_ids_ok d'"
  proof -
    let ?n = "ids_drawn d"
    have same: "ulid d' = ulid d" "asset_rows d' = asset_rows d" "d_jobs d' = d_jobs d" "ids_drawn d' = ?n + length recs"
      using shape(1) by (simp_all add: without_suggestions_def)
    have new: "map as_id recs = map (ulid d) [?n ..< ?n + length recs]" using shape(2) by (simp add: without_suggestions_def)
    have inj: "inj (ulid d)" and old: "as_id ` set (d_assignments d) \<subseteq> ulid d ` {..<?n}" using ids by (auto simp: dispatch_ids_ok_def)
    have dist: "distinct (map as_id (d_assignments ?b))" "distinct (map as_id recs)"
      using ids inj unfolding new
      by (simp_all add: dispatch_ids_ok_def without_suggestions_def distinct_map_filter) (simp add: distinct_map inj_on_subset [OF inj subset_UNIV])
    have sub: "as_id ` set (d_assignments ?b) \<subseteq> ulid d ` {..<?n}" using old base by blast
    have news: "as_id ` set recs = ulid d ` {?n ..< ?n + length recs}" using new by (metis atLeastLessThan_upt list.set_map)
    have "ulid d ` {..<?n} \<inter> ulid d ` {?n ..< ?n + length recs} = {}" by (simp add: image_Int [OF inj, symmetric] disjoint_iff)
    with sub have "as_id ` set (d_assignments ?b) \<inter> as_id ` set recs = {}" unfolding news by (rule disjoint_below)
    then have "distinct (map as_id (d_assignments d'))" using dist unfolding rows map_append distinct_append set_map by blast
    moreover have "as_id ` set (d_assignments d') \<subseteq> ulid d ` {..<?n + length recs}"
    proof -
      have mono: "ulid d ` {..<?n} \<subseteq> ulid d ` {..<?n + length recs}" "ulid d ` {?n ..< ?n + length recs} \<subseteq> ulid d ` {..<?n + length recs}"
        by (rule image_mono, auto)+
      show ?thesis unfolding rows set_append image_Un news by (rule Un_least [OF subset_trans [OF sub mono(1)] mono(2)])
    qed
    moreover have "as_job ` set (d_assignments d') \<subseteq> dj_id ` set (d_jobs d)"
    proof -
      have "as_job ` set recs \<subseteq> dj_id ` set (d_jobs d)" using shape(4) jobs by auto
      moreover have "as_job ` set (d_assignments ?b) \<subseteq> dj_id ` set (d_jobs d)"
        using ids by (intro subset_trans [OF image_mono [OF base]]) (simp add: dispatch_ids_ok_def)
      ultimately show ?thesis unfolding rows set_append image_Un by (rule Un_least [rotated])
    qed
    moreover have "dj_id ` set (d_jobs d) \<subseteq> ulid d ` {..<?n + length recs}"
      using ids drawn_grows [of "dj_id ` set (d_jobs d)" "ulid d" ?n "?n + length recs"] by (simp add: dispatch_ids_ok_def)
    ultimately show ?thesis using ids by (simp add: dispatch_ids_ok_def same)
  qed
  ultimately show ?thesis using shape(1) by (simp add: fleet_ok_def without_suggestions_def)
qed

lemma fleet_handler: "fleet_ok d \<Longrightarrow> dispatch_handler a d = Inr d' \<Longrightarrow> fleet_ok d'"
proof (induction a d rule: dispatch_handler.induct)
  case (1 site by_user now material source dest target priority msg d)
  then show ?case by (cases "create_job site by_user now material source dest target priority msg d") (auto intro: fleet_create)
next
  case (2 site i status d)
  then show ?case using fleet_status [of d site i status]
    by (cases "set_job_status site i status d"; cases "fst (set_job_status site i status d)") (auto simp: found_def split: if_splits)
next
  case (3 site now objective d)
  then show ?case by (cases "recommend site now objective d") (auto intro: fleet_recommend)
next
  case (4 site i by_user now d)
  then show ?case by (auto simp: found_def intro: fleet_approve split: sum.splits option.splits)
next
  case (5 site i d)
  then show ?case by (auto simp: found_def intro: fleet_reject split: sum.splits option.splits)
qed

interpretation fleet: machine dispatch_do fleet_ok
  by unfold_locales (auto simp: dispatch_do_def intro: fleet_handler split: sum.split)

text \<open>C14: however jobs are posted, ended and reopened and recommendations are made, approved, rejected and
  made again, no truck is ever recommended or committed twice, and no job is ever given more trucks,
  suggestions included, than it wants.\<close>

theorem trucks_are_promised_once:
  assumes "fleet_ok d" "d' = run_machine dispatch_do d acts"
  shows "(\<forall>site truck. length (filter (holds site truck) (d_assignments d')) \<le> 1) \<and>
    list_all (\<lambda>j. case dj_target j of None \<Rightarrow> True | Some n \<Rightarrow> int (length (filter (on_job j) (d_assignments d'))) \<le> n) (d_jobs d')"
  using fleet.run_inv [OF assms(1), of acts] unfolding assms(2) fleet_ok_def truck_count_def within_target_def job_count_def list_all_iff
  by blast

section \<open>No truck stands idle while a job wants one\<close>

text \<open>C35: a recommendation leaves a free truck without a job only when every open job of the site has as
  many trucks, committed or suggested, as it wants.\<close>

theorem idle_trucks_are_not_wanted:
  assumes "recommend site now objective d = (recs, d')"
    and "truck \<in> set (available_trucks (without_suggestions site d) site)" "truck \<notin> as_asset ` set recs"
    and "j \<in> set (d_jobs d)" "dj_site j = site" "dj_status j = ''open''"
  shows "\<exists>n. dj_target j = Some n \<and> n \<le> int (length (filter (on_job j) (d_assignments d')))"
proof -
  let ?b = "without_suggestions site d"
  have loop: "recommend_loop site now objective (list_jobs ?b site (Some ''open''))
      (\<lambda>i. length (filter (\<lambda>a. as_job a = i) (committed_rows ?b site))) (\<lambda>_. 0) (available_trucks ?b site) ?b = (recs, d')"
    using assms(1) by (simp add: recommend_def Let_def)
  note shape = loop_shape [OF loop]
  have "length recs < length (available_trucks ?b site)"
  proof (rule ccontr)
    assume "\<not> length recs < length (available_trucks ?b site)"
    then have "as_asset ` set recs = set (available_trucks ?b site)" using arg_cong [OF shape(3), of set] by simp
    then show False using assms(2,3) by blast
  qed
  moreover have "j \<in> set (list_jobs ?b site (Some ''open''))" using assms(4-6) by (simp add: list_jobs_def without_suggestions_def)
  ultimately obtain n where n: "dj_target j = Some n"
    "n \<le> int (length (filter (\<lambda>a. as_job a = dj_id j) (committed_rows ?b site)) + 0 + length (filter (\<lambda>a. as_job a = dj_id j) recs))"
    using loop_no_idle [OF loop] by blast
  have "length (filter (\<lambda>a. as_job a = dj_id j) (committed_rows ?b site)) \<le> length (filter (on_job j) (d_assignments ?b))"
    using filter_map_le [of "d_assignments ?b" "\<lambda>a. as_job a = dj_id j \<and> as_site a = site \<and> as_state a \<in> set committed_states" id "on_job j"] assms(5)
    by (simp add: committed_rows_def on_job_def live_def committed_states_def comp_def conj_commute conj_left_commute)
  moreover have "length (filter (\<lambda>a. as_job a = dj_id j) recs) \<le> length (filter (on_job j) recs)"
    using filter_map_le [of recs "\<lambda>a. as_job a = dj_id j" id "on_job j"] shape(4) assms(5) by (simp add: comp_def on_job_def live_def)
  moreover have "d_assignments d' = d_assignments ?b @ recs" using shape(1) by simp
  ultimately show ?thesis using n by auto
qed

section \<open>A truck is lost to a job that has ended\<close>

text \<open>
  Ending a job releases the trucks committed to it, not the suggestions made for it, and an approval does
  not look at the job: a suggestion approved after its job has ended commits a truck that nothing releases.
\<close>

definition demo_job :: dispatch_job where
  "demo_job = \<lparr>dj_id = ''ID0'', dj_site = ''s1'', dj_material = None, dj_source = None, dj_dest = None, dj_target = Some 1,
     dj_priority = 1, dj_status = ''open'', dj_note = None, dj_created_by = ''a'', dj_created = 0\<rparr>"

definition demo_fleet :: dispatch_db where
  "demo_fleet = db.extend (empty_db\<lparr>ids_drawn := 1, asset_rows := [((''s1'', ''HT-1''), ''haul_truck'')]\<rparr>)
     \<lparr>d_jobs = [demo_job], d_assignments = []\<rparr>"

lemmas demo_fleet_simps = demo_fleet_def demo_job_def db.extend_def empty_db_def recommend_def list_jobs_def committed_rows_def trucks_of_def
  available_trucks_def without_suggestions_def next_job_def wants_more_def new_event_id_def truck_class_def committed_states_def Let_def

lemma first_digits: "char_of (48 :: nat) = CHR ''0''" "char_of (49 :: nat) = CHR ''1''"
  by code_simp+

lemma demo_fleet_ok: "fleet_ok demo_fleet"
proof -
  have "inj show_nat" using digits_val_show_nat by (metis injI of_nat_eq_iff)
  then show ?thesis
    by (auto simp: fleet_ok_def dispatch_ids_ok_def demo_fleet_def demo_job_def db.extend_def empty_db_def truck_count_def within_target_def
        job_count_def inj_def show_nat.simps [of 0] digit_char_def first_digits image_iff lessThan_Suc)
qed

lemma approval_after_job_ended:
  "let d = run_machine dispatch_do demo_fleet
      [PostRecommend ''s1'' 1 ''balanced'', PostStatus ''s1'' ''ID0'' ''cancelled'', PostApprove ''s1'' ''ID1'' ''b'' 2]
   in map (\<lambda>a. (as_asset a, as_job a, as_state a)) (d_assignments d) = [(''HT-1'', ''ID0'', ''approved'')] \<and>
     map dj_status (d_jobs d) = [''cancelled''] \<and> available_trucks d ''s1'' = []"
  by (simp add: demo_fleet_simps dispatch_do_def found_def set_job_status_def approve_assignment_def put_assignment_def job_statuses_def
      ended_statuses_def show_nat.simps [of "Suc 0"] digit_char_def first_digits image_iff)

theorem trucks_are_promised_once_witness:
  "(\<forall>site truck. length (filter (holds site truck) (d_assignments (run_machine dispatch_do demo_fleet [PostRecommend ''s1'' 1 ''x'']))) \<le> 1) \<and>
    list_all (\<lambda>j. case dj_target j of None \<Rightarrow> True | Some n \<Rightarrow>
        int (length (filter (on_job j) (d_assignments (run_machine dispatch_do demo_fleet [PostRecommend ''s1'' 1 ''x''])))) \<le> n)
      (d_jobs (run_machine dispatch_do demo_fleet [PostRecommend ''s1'' 1 ''x'']))"
  by (rule trucks_are_promised_once [OF demo_fleet_ok refl])

definition demo_sated :: dispatch_db where
  "demo_sated = demo_fleet\<lparr>asset_rows := [((''s1'', ''HT-1''), ''haul_truck'')], d_jobs := [demo_job\<lparr>dj_target := Some 0\<rparr>]\<rparr>"

theorem idle_trucks_are_not_wanted_witness:
  "\<exists>n. dj_target (demo_job\<lparr>dj_target := Some 0\<rparr>) = Some n \<and>
     n \<le> int (length (filter (on_job (demo_job\<lparr>dj_target := Some 0\<rparr>)) (d_assignments (snd (recommend ''s1'' 1 ''x'' demo_sated)))))"
  by (rule idle_trucks_are_not_wanted [of "''s1''" 1 "''x''" demo_sated "[]" _ "''HT-1''"])
     (simp_all add: demo_sated_def demo_fleet_simps)

end
