(* ===== verification/Temporal.thy ===== *)
theory Temporal
  imports Maintenance
begin

text \<open>
  The temporal rule engine of the vision node, \<^verbatim>\<open>src/src/minemonitor/vision/temporal.py\<close>: observations of
  one camera in time order go in, operational events with their evidence come out. A zone is the
  dictionary the configuration holds; the zones an object is in are taken in the order the
  observation lists them. The contracts that validate observations and rules
  (\<^verbatim>\<open>contracts/vision.py\<close>) are given by the records here; times are UTC.
\<close>

section \<open>Observations and rules\<close>

record vision_object =
  vo_track :: string
  vo_class :: string
  vo_conf :: real
  vo_zones :: "string list"

record vision_obs =
  ob_camera :: string
  ob_site :: string
  ob_node :: string
  ob_ts :: time
  ob_frame :: string
  ob_objects :: "vision_object list"

record vision_rule =
  vr_id :: string
  vr_version :: string
  vr_type :: string
  vr_classes :: "string list"
  vr_min_obs :: nat
  vr_min_dwell :: int
  vr_hysteresis :: nat
  vr_cooldown :: int
  vr_window :: int
  vr_conf :: real
  vr_kinds :: "string list"

record vision_event =
  ve_id :: string
  ve_site :: string
  ve_node :: string
  ve_camera :: string
  ve_ts :: time
  ve_type :: string
  ve_confidence :: real
  ve_rule :: string
  ve_version :: string
  ve_subject :: "string option"
  ve_zone :: "string option"
  ve_zone_version :: "string option"
  ve_window :: "time \<times> time"
  ve_tracks :: "string list"
  ve_frames :: "string list"
  ve_signals :: dict

definition presence_types :: "string list" where
  "presence_types = [''person_in_restricted_zone'', ''vehicle_in_restricted_zone'', ''person_dwell'']"

definition bad_camera_states :: "string list" where
  "bad_camera_states = [''obstructed'', ''dark'', ''defocused'', ''no_signal'']"

definition max_evidence_frames :: nat where "max_evidence_frames = 20"

definition msecs :: "int \<Rightarrow> time" where "msecs n = n * 1000"

section \<open>A streak of observations\<close>

record streak =
  k_in :: nat
  k_start :: "time option"
  k_confirmed :: bool
  k_since :: "time option"
  k_out :: nat
  k_fired :: bool
  k_seen :: "time option"
  k_hits :: nat
  k_conf :: real
  k_frames :: "string list"
  k_tracks :: "string list"
  k_peak :: nat

definition fresh_streak :: streak where
  "fresh_streak = \<lparr>k_in = 0, k_start = None, k_confirmed = False, k_since = None, k_out = 0, k_fired = False, k_seen = None,
     k_hits = 0, k_conf = 1, k_frames = [], k_tracks = [], k_peak = 0\<rparr>"

definition reset_streak :: "streak \<Rightarrow> streak" where
  "reset_streak st = fresh_streak\<lparr>k_seen := k_seen st\<rparr>"

definition advance_streak :: "vision_rule \<Rightarrow> bool \<Rightarrow> time \<Rightarrow> streak \<Rightarrow> bool \<times> streak" where
  "advance_streak r hit ts st =
     (let st = st\<lparr>k_seen := Some ts\<rparr>
      in if hit then
           let st = st\<lparr>k_out := 0\<rparr>;
               st = (if k_confirmed st then st
                     else let st = (if k_in st = 0 then st\<lparr>k_start := Some ts\<rparr> else st);
                              st = st\<lparr>k_in := k_in st + 1\<rparr>
                          in if k_in st \<ge> vr_min_obs r then st\<lparr>k_confirmed := True, k_since := k_start st\<rparr> else st);
               st = st\<lparr>k_hits := k_hits st + 1\<rparr>
           in (case k_since st of
                 Some since \<Rightarrow> k_confirmed st \<and> \<not> k_fired st \<and> ts - since \<ge> msecs (vr_min_dwell r)
               | None \<Rightarrow> False, st)
         else if \<not> k_confirmed st then (False, reset_streak st)
         else let st = st\<lparr>k_out := k_out st + 1\<rparr>
              in (False, if k_out st \<ge> max 1 (vr_hysteresis r) then reset_streak st else st))"

definition note_frame :: "string \<Rightarrow> string option \<Rightarrow> real \<Rightarrow> streak \<Rightarrow> streak" where
  "note_frame frame track conf st =
     (if k_confirmed st \<or> k_in st > 0
      then let fs = (if k_frames st = [] \<or> List.last (k_frames st) \<noteq> frame then k_frames st @ [frame] else k_frames st)
           in st\<lparr>k_frames := drop (length fs - max_evidence_frames) fs,
                 k_tracks := (case track of None \<Rightarrow> k_tracks st | Some t \<Rightarrow> if t \<in> set (k_tracks st) then k_tracks st else k_tracks st @ [t]),
                 k_conf := min (k_conf st) conf\<rparr>
      else st)"

section \<open>The engine\<close>

datatype streak_key = Presence string string string | Occupancy string string | View string

record vision_config =
  vc_site :: string
  vc_node :: string
  vc_camera :: string
  vc_rules :: "vision_rule list"
  vc_zones :: "(string \<times> dict) list"
  vc_versions :: "(string \<times> string) list"

record vision_engine =
  en_streaks :: "(streak_key \<times> streak) list"
  en_fired :: "(streak_key \<times> time) list"

definition fresh_engine :: vision_engine where
  "fresh_engine = \<lparr>en_streaks = [], en_fired = []\<rparr>"

definition streak_at :: "vision_engine \<Rightarrow> streak_key \<Rightarrow> streak" where
  "streak_at en key = (case map_of (en_streaks en) key of None \<Rightarrow> fresh_streak | Some st \<Rightarrow> st)"

definition put_streak :: "streak_key \<Rightarrow> streak \<Rightarrow> vision_engine \<Rightarrow> vision_engine" where
  "put_streak key st en = en\<lparr>en_streaks := dict_put key st (en_streaks en)\<rparr>"

definition zone_ok :: "vision_config \<Rightarrow> vision_rule \<Rightarrow> string \<Rightarrow> bool" where
  "zone_ok cf r z =
     (case map_of (vc_zones cf) z of
        None \<Rightarrow> False
      | Some zd \<Rightarrow> vr_kinds r = [] \<or> (case map_of zd ''kind'' of Some (JStr k) \<Rightarrow> k \<in> set (vr_kinds r) | _ \<Rightarrow> False))"

text \<open>\<^verbatim>\<open>[^A-Za-z0-9_.-]+\<close> becomes one hyphen.\<close>

definition safe_char :: "char \<Rightarrow> bool" where
  "safe_char c \<longleftrightarrow> (CHR ''A'' \<le> c \<and> c \<le> CHR ''Z'') \<or> (CHR ''a'' \<le> c \<and> c \<le> CHR ''z'') \<or> (CHR ''0'' \<le> c \<and> c \<le> CHR ''9'') \<or>
     c \<in> {CHR ''_'', CHR ''.'', CHR ''-''}"

fun safe_sub :: "bool \<Rightarrow> string \<Rightarrow> string" where
  "safe_sub skipping [] = []"
| "safe_sub skipping (c # cs) =
     (if safe_char c then c # safe_sub False cs else if skipping then safe_sub True cs else CHR ''-'' # safe_sub True cs)"

text \<open>\<^verbatim>\<open>%Y%m%dT%H%M%S%fZ\<close>.\<close>

definition micro_stamp :: "time \<Rightarrow> string" where
  "micro_stamp t =
     (let (y, m, d) = civil (t div day_us); us = t mod day_us; s = us div 1000000
      in padded 4 y @ padded 2 m @ padded 2 d @ ''T'' @ padded 2 (s div 3600) @ padded 2 (s div 60 mod 60) @
         padded 2 (s mod 60) @ padded 6 (us mod 1000000) @ ''Z'')"

definition subject_part :: "string option \<Rightarrow> string option \<Rightarrow> string" where
  "subject_part track z =
     (case track of
        Some t \<Rightarrow> join_with (CHR '':'') (tl (split_on (CHR '':'') t))
      | None \<Rightarrow> (case z of None \<Rightarrow> ''view'' | Some z \<Rightarrow> if z = [] then ''view'' else z))"

definition vision_event_id :: "string \<Rightarrow> vision_rule \<Rightarrow> string option \<Rightarrow> string option \<Rightarrow> time \<Rightarrow> string" where
  "vision_event_id camera r track z since =
     safe_sub False (''vop-'' @ camera @ ''-'' @ vr_id r @ ''-'' @ vr_version r @ ''-'' @ subject_part track z @ ''-'' @ micro_stamp since)"

definition conclusion ::
  "vision_config \<Rightarrow> vision_rule \<Rightarrow> streak \<Rightarrow> vision_obs \<Rightarrow> time \<Rightarrow> string option \<Rightarrow> string option \<Rightarrow> dict \<Rightarrow> vision_event" where
  "conclusion cf r st ob since z track extra =
     \<lparr>ve_id = vision_event_id (vc_camera cf) r track z since,
      ve_site = vc_site cf, ve_node = vc_node cf, ve_camera = vc_camera cf, ve_ts = ob_ts ob, ve_type = vr_type r,
      ve_confidence = round_to 4 (min 1 (max 0 (k_conf st))), ve_rule = vr_id r, ve_version = vr_version r,
      ve_subject = track, ve_zone = z,
      ve_zone_version = (case z of None \<Rightarrow> None | Some z \<Rightarrow> if z = [] then None else map_of (vc_versions cf) z),
      ve_window = (since, ob_ts ob),
      ve_tracks = sort (case track of None \<Rightarrow> k_tracks st | Some t \<Rightarrow> if t \<in> set (k_tracks st) then k_tracks st else k_tracks st @ [t]),
      ve_frames = k_frames st,
      ve_signals = [(''dwell_ms'', JInt ((ob_ts ob - since) div 1000)), (''observations'', JInt (int (k_hits st))),
        (''min_conf'', JReal (round_to 4 (k_conf st)))] @ extra\<rparr>"

text \<open>One conclusion per confirmed presence, raised or suppressed by the cooldown.\<close>

definition fire ::
  "vision_config \<Rightarrow> vision_rule \<Rightarrow> vision_obs \<Rightarrow> streak_key \<Rightarrow> string option \<Rightarrow> string option \<Rightarrow> dict \<Rightarrow> vision_engine
    \<Rightarrow> vision_event list \<times> vision_engine" where
  "fire cf r ob key z track extra en =
     (let st = streak_at en key; en = put_streak key (st\<lparr>k_fired := True\<rparr>) en
      in case k_since st of
           None \<Rightarrow> ([], en)
         | Some since \<Rightarrow>
             if (case map_of (en_fired en) key of None \<Rightarrow> False | Some t \<Rightarrow> ob_ts ob - t < msecs (vr_cooldown r))
             then ([], en)
             else ([conclusion cf r st ob since z track extra], en\<lparr>en_fired := dict_put key (ob_ts ob) (en_fired en)\<rparr>))"

subsection \<open>Presence\<close>

text \<open>The qualifying tracks of the frame, each with its confidence and the qualifying zones it is in.\<close>

definition in_frame :: "vision_config \<Rightarrow> vision_rule \<Rightarrow> vision_obs \<Rightarrow> (string \<times> real \<times> string list) list" where
  "in_frame cf r ob =
     fold (\<lambda>o' acc. if vo_class o' \<in> set (vr_classes r) \<and> \<not> vo_conf o' < vr_conf r
                   then dict_put (vo_track o') (vo_conf o', nub (filter (zone_ok cf r) (vo_zones o'))) acc else acc)
       (ob_objects ob) []"

definition presence_hit ::
  "vision_config \<Rightarrow> vision_rule \<Rightarrow> vision_obs \<Rightarrow> string \<times> string \<times> real \<Rightarrow> vision_engine \<Rightarrow> vision_event list \<times> vision_engine" where
  "presence_hit cf r ob h en =
     (case h of (track, z, conf) \<Rightarrow>
        let key = Presence (vr_id r) track z;
            (now, st) = advance_streak r True (ob_ts ob) (streak_at en key);
            en = put_streak key (note_frame (ob_frame ob) (Some track) conf st) en
        in if now then fire cf r ob key (Some z) (Some track) [] en else ([], en))"

fun presence_hits ::
  "vision_config \<Rightarrow> vision_rule \<Rightarrow> vision_obs \<Rightarrow> (string \<times> string \<times> real) list \<Rightarrow> vision_engine \<Rightarrow> vision_event list \<times> vision_engine" where
  "presence_hits cf r ob [] en = ([], en)"
| "presence_hits cf r ob (h # hs) en =
     (let (es, en) = presence_hit cf r ob h en; (es', en) = presence_hits cf r ob hs en in (es @ es', en))"

definition presence_miss :: "vision_rule \<Rightarrow> vision_obs \<Rightarrow> (string \<times> real \<times> string list) list \<Rightarrow> streak_key \<Rightarrow> streak \<Rightarrow> streak" where
  "presence_miss r ob seen key st =
     (case key of
        Presence i track z \<Rightarrow>
          if i = vr_id r
          then (case map_of seen track of
                  None \<Rightarrow> st
                | Some (_, zs) \<Rightarrow> if z \<in> set zs then st else snd (advance_streak r False (ob_ts ob) st))
          else st
      | _ \<Rightarrow> st)"

definition presence :: "vision_config \<Rightarrow> vision_rule \<Rightarrow> vision_obs \<Rightarrow> vision_engine \<Rightarrow> vision_event list \<times> vision_engine" where
  "presence cf r ob en =
     (let seen = in_frame cf r ob;
          hits = concat (map (\<lambda>(track, conf, zs). map (\<lambda>z. (track, z, conf)) zs) seen);
          (es, en) = presence_hits cf r ob hits en
      in (es, en\<lparr>en_streaks := map (\<lambda>(key, st). (key, presence_miss r ob seen key st)) (en_streaks en)\<rparr>))"

subsection \<open>Occupancy and the camera\<close>

definition occupancy_cap :: "dict \<Rightarrow> int option" where
  "occupancy_cap zd =
     (case map_of zd ''max_occupancy'' of Some (JInt n) \<Rightarrow> Some n | Some (JBool b) \<Rightarrow> Some (if b then 1 else 0) | _ \<Rightarrow> None)"

definition zone_occupancy ::
  "vision_config \<Rightarrow> vision_rule \<Rightarrow> vision_obs \<Rightarrow> string \<times> dict \<Rightarrow> vision_engine \<Rightarrow> vision_event list \<times> vision_engine" where
  "zone_occupancy cf r ob zz en =
     (case zz of (z, zd) \<Rightarrow>
        case occupancy_cap zd of
          None \<Rightarrow> ([], en)
        | Some cap \<Rightarrow>
            if cap < 0 \<or> \<not> zone_ok cf r z then ([], en)
            else
              let members = filter (\<lambda>o'. vo_class o' \<in> set (vr_classes r) \<and> vo_conf o' \<ge> vr_conf r \<and> z \<in> set (vo_zones o')) (ob_objects ob);
                  key = Occupancy (vr_id r) z;
                  over = int (length members) > cap;
                  (now, st) = advance_streak r over (ob_ts ob) (streak_at en key);
                  st = (if over then fold (\<lambda>o'. note_frame (ob_frame ob) (Some (vo_track o')) (vo_conf o')) members
                                       (st\<lparr>k_peak := max (k_peak st) (length members)\<rparr>) else st);
                  en = put_streak key st en
              in if now then fire cf r ob key (Some z) None [(''count'', JInt (int (k_peak st))), (''max_occupancy'', JInt cap)] en
                 else ([], en))"

fun zone_occupancies ::
  "vision_config \<Rightarrow> vision_rule \<Rightarrow> vision_obs \<Rightarrow> (string \<times> dict) list \<Rightarrow> vision_engine \<Rightarrow> vision_event list \<times> vision_engine" where
  "zone_occupancies cf r ob [] en = ([], en)"
| "zone_occupancies cf r ob (z # zs) en =
     (let (es, en) = zone_occupancy cf r ob z en; (es', en) = zone_occupancies cf r ob zs en in (es @ es', en))"

definition camera_rule ::
  "vision_config \<Rightarrow> vision_rule \<Rightarrow> vision_obs \<Rightarrow> string \<Rightarrow> vision_engine \<Rightarrow> vision_event list \<times> vision_engine" where
  "camera_rule cf r ob camera_state en =
     (let key = View (vr_id r);
          bad = camera_state \<in> set bad_camera_states;
          (now, st) = advance_streak r bad (ob_ts ob) (streak_at en key);
          en = put_streak key (if bad then note_frame (ob_frame ob) None 1 st else st) en
      in if now then fire cf r ob key None None [(''state'', JStr camera_state)] en else ([], en))"

subsection \<open>A step\<close>

definition apply_rule ::
  "vision_config \<Rightarrow> vision_obs \<Rightarrow> string option \<Rightarrow> vision_rule \<Rightarrow> vision_engine \<Rightarrow> vision_event list \<times> vision_engine" where
  "apply_rule cf ob camera_state r en =
     (if vr_type r \<in> set presence_types then presence cf r ob en
      else if vr_type r = ''zone_occupancy_exceeded'' then zone_occupancies cf r ob (vc_zones cf) en
      else if vr_type r = ''camera_obstructed''
           then (case camera_state of None \<Rightarrow> ([], en) | Some cs \<Rightarrow> camera_rule cf r ob cs en)
      else ([], en))"

fun apply_rules ::
  "vision_config \<Rightarrow> vision_obs \<Rightarrow> string option \<Rightarrow> vision_rule list \<Rightarrow> vision_engine \<Rightarrow> vision_event list \<times> vision_engine" where
  "apply_rules cf ob camera_state [] en = ([], en)"
| "apply_rules cf ob camera_state (r # rs) en =
     (let (es, en) = apply_rule cf ob camera_state r en; (es', en) = apply_rules cf ob camera_state rs en in (es @ es', en))"

text \<open>State of a track unseen for longer than the window of its rule is dropped; of two rules with one
  id, \<^verbatim>\<open>dict\<close> keeps the later.\<close>

definition rule_window :: "vision_config \<Rightarrow> string \<Rightarrow> time option" where
  "rule_window cf i = map_of (rev (map (\<lambda>r. (vr_id r, msecs (max (vr_window r) 1))) (vc_rules cf))) i"

definition expired :: "vision_config \<Rightarrow> time \<Rightarrow> streak_key \<Rightarrow> streak \<Rightarrow> bool" where
  "expired cf now key st =
     (case key of
        Presence i _ _ \<Rightarrow> (case (rule_window cf i, k_seen st) of (Some w, Some t) \<Rightarrow> now - t > w | _ \<Rightarrow> False)
      | _ \<Rightarrow> False)"

definition expire :: "vision_config \<Rightarrow> time \<Rightarrow> vision_engine \<Rightarrow> vision_engine" where
  "expire cf now en = en\<lparr>en_streaks := filter (\<lambda>(key, st). \<not> expired cf now key st) (en_streaks en)\<rparr>"

datatype engine_error = WrongCamera

definition engine_step ::
  "vision_config \<Rightarrow> vision_obs \<Rightarrow> string option \<Rightarrow> vision_engine \<Rightarrow> engine_error + (vision_event list \<times> vision_engine)" where
  "engine_step cf ob camera_state en =
     (if ob_camera ob \<noteq> vc_camera cf then Inl WrongCamera
      else let (es, en) = apply_rules cf ob camera_state (vc_rules cf) en in Inr (es, expire cf (ob_ts ob) en))"

section \<open>Replay\<close>

fun watch ::
  "vision_config \<Rightarrow> (vision_obs \<times> string option) list \<Rightarrow> vision_engine \<Rightarrow> engine_error + (vision_event list \<times> vision_engine)" where
  "watch cf [] en = Inr ([], en)"
| "watch cf ((ob, cs) # obs) en =
     (case engine_step cf ob cs en of
        Inl e \<Rightarrow> Inl e
      | Inr (es, en) \<Rightarrow> (case watch cf obs en of Inl e \<Rightarrow> Inl e | Inr (es', en) \<Rightarrow> Inr (es @ es', en)))"

definition replay_vision ::
  "vision_rule list \<Rightarrow> (string \<times> dict) list \<Rightarrow> string option \<Rightarrow> (string \<times> string) list \<Rightarrow> vision_obs list \<Rightarrow> engine_error + vision_event list" where
  "replay_vision rules zones node versions obs =
     (case sort_key (\<lambda>ob. (ob_ts ob, ob_frame ob)) obs of
        [] \<Rightarrow> Inr []
      | first # rest \<Rightarrow>
          map_sum id fst (watch
            \<lparr>vc_site = ob_site first, vc_node = (case node of None \<Rightarrow> ob_node first | Some n \<Rightarrow> if n = [] then ob_node first else n),
             vc_camera = ob_camera first, vc_rules = rules, vc_zones = zones, vc_versions = versions\<rparr>
            (map (\<lambda>ob. (ob, None)) (first # rest)) fresh_engine))"

section \<open>What a streak remembers\<close>

text \<open>The sightings of a track by a rule: the time of each observation that has it, and whether it was in the zone.\<close>

definition sighting :: "vision_config \<Rightarrow> vision_rule \<Rightarrow> string \<Rightarrow> string \<Rightarrow> vision_obs \<Rightarrow> (time \<times> bool) list" where
  "sighting cf r t z ob = (case map_of (in_frame cf r ob) t of None \<Rightarrow> [] | Some (_, zs) \<Rightarrow> [(ob_ts ob, z \<in> set zs)])"

definition sightings :: "vision_config \<Rightarrow> vision_rule \<Rightarrow> string \<Rightarrow> string \<Rightarrow> vision_obs list \<Rightarrow> (time \<times> bool) list" where
  "sightings cf r t z obs = concat (map (sighting cf r t z) obs)"

definition confirmed_run :: "vision_rule \<Rightarrow> (time \<times> bool) list \<Rightarrow> time \<Rightarrow> bool" where
  "confirmed_run r h since \<longleftrightarrow>
     (\<exists>before run after. h = before @ run @ after \<and> length run = max 1 (vr_min_obs r) \<and> list_all snd run \<and> since = fst (hd run))"

definition streak_ok :: "vision_rule \<Rightarrow> (time \<times> bool) list \<Rightarrow> streak \<Rightarrow> bool" where
  "streak_ok r h st \<longleftrightarrow>
     (if k_confirmed st then \<exists>since. k_since st = Some since \<and> confirmed_run r h since
      else k_since st = None \<and> k_in st < max 1 (vr_min_obs r) \<and>
        (\<exists>before run. h = before @ run \<and> length run = k_in st \<and> list_all snd run \<and> (run \<noteq> [] \<longrightarrow> k_start st = Some (fst (hd run)))))"

lemma confirmed_run_more: "confirmed_run r h since \<Longrightarrow> confirmed_run r (h @ rest) since"
  unfolding confirmed_run_def by (metis append.assoc)

lemma streak_ok_fresh [simp]: "streak_ok r h fresh_streak" "streak_ok r h (reset_streak st)"
  by (auto simp: streak_ok_def fresh_streak_def reset_streak_def)

lemma streak_ok_cong:
  "k_confirmed st' = k_confirmed st \<Longrightarrow> k_since st' = k_since st \<Longrightarrow> k_in st' = k_in st \<Longrightarrow> k_start st' = k_start st \<Longrightarrow>
    streak_ok r h st' = streak_ok r h st"
  by (simp add: streak_ok_def)

lemma note_frame_keeps [simp]:
  "k_confirmed (note_frame fr t c st) = k_confirmed st" "k_since (note_frame fr t c st) = k_since st"
  "k_in (note_frame fr t c st) = k_in st" "k_start (note_frame fr t c st) = k_start st" "k_fired (note_frame fr t c st) = k_fired st"
  by (simp_all add: note_frame_def Let_def)

lemma streak_ok_note [simp]: "streak_ok r h (note_frame fr t c st) = streak_ok r h st"
  by (rule streak_ok_cong) simp_all

lemma streak_ok_fired [simp]: "streak_ok r h (st\<lparr>k_fired := b\<rparr>) = streak_ok r h st"
  by (rule streak_ok_cong) simp_all

lemma advance_streak_hit_ok:
  assumes "streak_ok r h st"
  shows "streak_ok r (h @ [(ts, True)]) (snd (advance_streak r True ts st))"
proof (cases "k_confirmed st")
  case True
  then show ?thesis using assms confirmed_run_more [of r h] by (auto simp: streak_ok_def advance_streak_def Let_def)
next
  case False
  then obtain before run where h: "h = before @ run" "length run = k_in st" "list_all snd run"
    "run \<noteq> [] \<Longrightarrow> k_start st = Some (fst (hd run))" "k_in st < max 1 (vr_min_obs r)" "k_since st = None"
    using assms by (auto simp: streak_ok_def)
  let ?run = "run @ [(ts, True)]"
  have run: "h @ [(ts, True)] = before @ ?run" "length ?run = k_in st + 1" "list_all snd ?run" using h by auto
  have start: "(if k_in st = 0 then Some ts else k_start st) = Some (fst (hd ?run))" using h(2,4) by (cases run) auto
  show ?thesis
  proof (cases "k_in st + 1 \<ge> vr_min_obs r")
    case True
    have "length ?run = max 1 (vr_min_obs r)" using True h(5) run(2) by simp
    then have "confirmed_run r (h @ [(ts, True)]) (fst (hd ?run))"
      unfolding confirmed_run_def run(1) using run(3) by (intro exI [of _ before] exI [of _ ?run] exI [of _ "[]"]) simp
    then show ?thesis using True False start by (auto simp: streak_ok_def advance_streak_def Let_def)
  next
    case less: False
    let ?st = "snd (advance_streak r True ts st)"
    have st: "\<not> k_confirmed ?st" "k_since ?st = None" "k_in ?st = k_in st + 1" "k_start ?st = Some (fst (hd ?run))"
      using less False start h(6) by (auto simp: advance_streak_def Let_def)
    have "k_in st + 1 < max 1 (vr_min_obs r)" using less by simp
    moreover have "\<exists>before run'. h @ [(ts, True)] = before @ run' \<and> length run' = k_in ?st \<and> list_all snd run' \<and>
        (run' \<noteq> [] \<longrightarrow> k_start ?st = Some (fst (hd run')))"
      using run st(3,4) by (intro exI [of _ before] exI [of _ ?run]) simp
    ultimately show ?thesis unfolding streak_ok_def if_not_P [OF st(1)] using st(2,3) by simp
  qed
qed

lemma advance_streak_miss_ok:
  assumes "streak_ok r h st"
  shows "streak_ok r (h @ rest) (snd (advance_streak r False ts st))"
proof (cases "k_confirmed st")
  case True
  then have "streak_ok r (h @ rest) (st\<lparr>k_seen := Some ts, k_out := k_out st + 1\<rparr>)"
    using assms confirmed_run_more [of r h] by (auto simp: streak_ok_def)
  then show ?thesis using True by (simp add: advance_streak_def Let_def)
qed (simp add: advance_streak_def Let_def)

lemma advance_streak_fires:
  assumes "fst (advance_streak r hit ts st)"
  shows "\<exists>since. k_since (snd (advance_streak r hit ts st)) = Some since \<and> k_confirmed (snd (advance_streak r hit ts st)) \<and> msecs (vr_min_dwell r) \<le> ts - since"
  using assms by (auto simp: advance_streak_def Let_def split: if_splits option.splits)

section \<open>Alarms rest on a streak\<close>

definition run_supports :: "vision_config \<Rightarrow> vision_rule \<Rightarrow> vision_obs list \<Rightarrow> vision_event \<Rightarrow> bool" where
  "run_supports cf r obs e \<longleftrightarrow>
     (\<exists>t z since. ve_subject e = Some t \<and> ve_zone e = Some z \<and> ve_window e = (since, ve_ts e) \<and>
        confirmed_run r (sightings cf r t z obs) since \<and> msecs (vr_min_dwell r) \<le> ve_ts e - since)"

text \<open>The streaks of a rule, given what has been seen by track and zone.\<close>

definition rule_ok :: "vision_rule \<Rightarrow> (string \<Rightarrow> string \<Rightarrow> (time \<times> bool) list) \<Rightarrow> vision_engine \<Rightarrow> bool" where
  "rule_ok r seen en \<longleftrightarrow>
     (\<forall>t z st. map_of (en_streaks en) (Presence (vr_id r) t z) = Some st \<longrightarrow> streak_ok r (seen t z) st)"

lemma rule_ok_at: "rule_ok r seen en \<Longrightarrow> streak_ok r (seen t z) (streak_at en (Presence (vr_id r) t z))"
  by (simp add: rule_ok_def streak_at_def split: option.split)

lemma fire_streaks:
  "en_streaks (snd (fire cf r ob key z t extra en)) = dict_put key ((streak_at en key)\<lparr>k_fired := True\<rparr>) (en_streaks en)"
  by (simp add: fire_def put_streak_def Let_def split: option.split)

lemma presence_hit_streaks:
  "map_of (en_streaks (snd (presence_hit cf r ob (t, z, c) en))) =
   (map_of (en_streaks en))(Presence (vr_id r) t z \<mapsto>
      (let (now, st) = advance_streak r True (ob_ts ob) (streak_at en (Presence (vr_id r) t z)); st = note_frame (ob_frame ob) (Some t) c st
       in if now then st\<lparr>k_fired := True\<rparr> else st))"
  by (simp add: presence_hit_def Let_def split_beta fire_streaks put_streak_def streak_at_def)

lemma presence_hit_ok:
  assumes "rule_ok r seen en"
  shows "rule_ok r (\<lambda>t' z'. seen t' z' @ (if t' = t \<and> z' = z then [(ob_ts ob, True)] else [])) (snd (presence_hit cf r ob (t, z, c) en))"
  using assms advance_streak_hit_ok [OF rule_ok_at [OF assms, of t z], of "ob_ts ob"] unfolding rule_ok_def presence_hit_streaks
  by (auto simp: Let_def split_beta)

lemma presence_hit_event:
  assumes "rule_ok r seen en" "e \<in> set (fst (presence_hit cf r ob (t, z, c) en))"
  shows "ve_subject e = Some t \<and> ve_zone e = Some z \<and> ve_ts e = ob_ts ob \<and> ve_rule e = vr_id r \<and> ve_type e = vr_type r \<and>
    (\<exists>since. ve_window e = (since, ob_ts ob) \<and> confirmed_run r (seen t z @ [(ob_ts ob, True)]) since \<and>
      msecs (vr_min_dwell r) \<le> ob_ts ob - since)"
proof -
  let ?key = "Presence (vr_id r) t z"
  obtain now st where a: "advance_streak r True (ob_ts ob) (streak_at en ?key) = (now, st)" by fastforce
  have ok: "streak_ok r (seen t z @ [(ob_ts ob, True)]) st" using advance_streak_hit_ok [OF rule_ok_at [OF assms(1), of t z], of "ob_ts ob"] a by simp
  have now: "now" using assms(2) a by (auto simp: presence_hit_def Let_def split: if_splits)
  then obtain since where s: "k_since st = Some since" "k_confirmed st" "msecs (vr_min_dwell r) \<le> ob_ts ob - since"
    using advance_streak_fires [of r True "ob_ts ob" "streak_at en ?key"] a by auto
  then have "confirmed_run r (seen t z @ [(ob_ts ob, True)]) since" using ok by (simp add: streak_ok_def)
  then show ?thesis using assms(2) a s now
    by (auto simp: presence_hit_def Let_def fire_def put_streak_def streak_at_def conclusion_def split: if_splits)
qed

lemma set_dict_put: "set (dict_put k v d) \<subseteq> insert (k, v) (set d)"
  by (induction k v d rule: dict_put.induct) (auto split: if_splits)

lemma in_frame_distinct: "distinct (map fst (in_frame cf r ob))" "(t, c, zs) \<in> set (in_frame cf r ob) \<Longrightarrow> distinct zs"
proof -
  have "distinct (map fst (fold (\<lambda>o' acc. if P o' then dict_put (f o') (g o') acc else acc) xs acc))"
    if "distinct (map fst acc)" for P and f :: "vision_object \<Rightarrow> string" and g :: "vision_object \<Rightarrow> real \<times> string list" and xs acc
    using that by (induction xs arbitrary: acc) auto
  then show "distinct (map fst (in_frame cf r ob))" by (simp add: in_frame_def)
  have "\<forall>(t, c, zs) \<in> set (fold (\<lambda>o' acc. if P o' then dict_put (f o') (g o', nub (h o')) acc else acc) xs acc). distinct zs"
    if "\<forall>(t, c, zs) \<in> set acc. distinct zs"
    for P and f :: "vision_object \<Rightarrow> string" and g :: "vision_object \<Rightarrow> real" and h :: "vision_object \<Rightarrow> string list" and xs acc
    using that
  proof (induction xs arbitrary: acc)
    case (Cons x xs)
    have "\<forall>(t, c, zs) \<in> set (dict_put (f x) (g x, nub (h x)) acc). distinct zs"
      using Cons.prems set_dict_put [of "f x" "(g x, nub (h x))" acc] by fastforce
    then show ?case using Cons by simp
  qed simp
  from this [of "[]"] show "(t, c, zs) \<in> set (in_frame cf r ob) \<Longrightarrow> distinct zs" by (fastforce simp: in_frame_def)
qed

definition frame_hits :: "(string \<times> real \<times> string list) list \<Rightarrow> (string \<times> string \<times> real) list" where
  "frame_hits seen = concat (map (\<lambda>(track, conf, zs). map (\<lambda>z. (track, z, conf)) zs) seen)"

definition hit_pair :: "string \<times> string \<times> real \<Rightarrow> string \<times> string" where
  "hit_pair h = (case h of (t, z, _) \<Rightarrow> (t, z))"

lemma frame_hits_distinct: "distinct (map hit_pair (frame_hits (in_frame cf r ob)))"
proof -
  have "distinct (map hit_pair (frame_hits xs))" if "distinct (map fst xs)" "\<forall>(t, c, zs) \<in> set xs. distinct zs" for xs
    using that
  proof (induction xs)
    case (Cons x xs)
    obtain t c zs where x: "x = (t, c, zs)" by (cases x)
    have other: "fst p \<noteq> t" if p: "p \<in> hit_pair ` set (frame_hits xs)" for p
    proof -
      have "fst p \<in> fst ` set xs" using p by (auto simp: frame_hits_def hit_pair_def intro: rev_image_eqI)
      then show ?thesis using Cons.prems(1) x by auto
    qed
    have "map hit_pair (frame_hits (x # xs)) = map (Pair t) zs @ map hit_pair (frame_hits xs)"
      by (simp add: x frame_hits_def hit_pair_def)
    moreover have "distinct (map (Pair t) zs)" using Cons.prems(2) x by (simp add: distinct_map inj_on_def)
    moreover have "distinct (map hit_pair (frame_hits xs))" using Cons by simp
    moreover have "set (map (Pair t) zs) \<inter> set (map hit_pair (frame_hits xs)) = {}" using other by force
    ultimately show ?case by simp
  qed (simp add: frame_hits_def)
  then show ?thesis using in_frame_distinct(1) [of cf r ob] in_frame_distinct(2) [where cf = cf and r = r and ob = ob] by blast
qed

lemma frame_hits_pairs:
  "distinct (map fst seen) \<Longrightarrow> (t, z) \<in> hit_pair ` set (frame_hits seen) \<longleftrightarrow> (\<exists>c zs. map_of seen t = Some (c, zs) \<and> z \<in> set zs)"
proof -
  assume d: "distinct (map fst seen)"
  have "(t, z) \<in> hit_pair ` set (frame_hits seen) \<longleftrightarrow> (\<exists>c zs. (t, c, zs) \<in> set seen \<and> z \<in> set zs)"
    by (induction seen) (auto simp: frame_hits_def hit_pair_def image_Un image_image)
  then show ?thesis by (simp add: map_of_eq_Some_iff [OF d])
qed

lemma presence_hits_ok:
  assumes "rule_ok r seen en" "distinct (map hit_pair hs)"
  shows "rule_ok r (\<lambda>t z. seen t z @ (if (t, z) \<in> hit_pair ` set hs then [(ob_ts ob, True)] else [])) (snd (presence_hits cf r ob hs en))"
  using assms
proof (induction hs arbitrary: en seen)
  case (Cons h hs)
  obtain t z c where h: "h = (t, z, c)" by (cases h)
  have new: "(t, z) \<notin> hit_pair ` set hs" using Cons.prems(2) h by (simp add: hit_pair_def)
  let ?en = "snd (presence_hit cf r ob h en)"
  have "rule_ok r (\<lambda>t' z'. (seen t' z' @ (if t' = t \<and> z' = z then [(ob_ts ob, True)] else [])) @
      (if (t', z') \<in> hit_pair ` set hs then [(ob_ts ob, True)] else [])) (snd (presence_hits cf r ob hs ?en))"
    by (rule Cons.IH) (use presence_hit_ok [OF Cons.prems(1), where ob = ob and t = t and z = z and cf = cf and c = c] Cons.prems(2) h in auto)
  moreover have "(\<lambda>t' z'. (seen t' z' @ (if t' = t \<and> z' = z then [(ob_ts ob, True)] else [])) @
      (if (t', z') \<in> hit_pair ` set hs then [(ob_ts ob, True)] else [])) =
    (\<lambda>t' z'. seen t' z' @ (if (t', z') \<in> hit_pair ` set (h # hs) then [(ob_ts ob, True)] else []))"
    using new h by (auto simp: fun_eq_iff hit_pair_def)
  ultimately show ?case by (simp add: Let_def split_beta)
qed simp

lemma presence_hits_event:
  assumes "rule_ok r seen en" "distinct (map hit_pair hs)" "e \<in> set (fst (presence_hits cf r ob hs en))"
  shows "\<exists>t z c. (t, z, c) \<in> set hs \<and> ve_subject e = Some t \<and> ve_zone e = Some z \<and> ve_ts e = ob_ts ob \<and> ve_rule e = vr_id r \<and>
    ve_type e = vr_type r \<and> (\<exists>since. ve_window e = (since, ob_ts ob) \<and> confirmed_run r (seen t z @ [(ob_ts ob, True)]) since \<and>
      msecs (vr_min_dwell r) \<le> ob_ts ob - since)"
  using assms
proof (induction hs arbitrary: en seen)
  case (Cons h hs)
  obtain t z c where h: "h = (t, z, c)" by (cases h)
  let ?en = "snd (presence_hit cf r ob h en)"
  let ?seen = "\<lambda>t' z'. seen t' z' @ (if t' = t \<and> z' = z then [(ob_ts ob, True)] else [])"
  have "e \<in> set (fst (presence_hit cf r ob h en)) \<or> e \<in> set (fst (presence_hits cf r ob hs ?en))"
    using Cons.prems(3) by (auto simp: Let_def split_beta)
  then show ?case
  proof
    assume "e \<in> set (fst (presence_hit cf r ob h en))"
    from presence_hit_event [OF Cons.prems(1) this [unfolded h]] show ?thesis using h by fastforce
  next
    assume e: "e \<in> set (fst (presence_hits cf r ob hs ?en))"
    have ok: "rule_ok r ?seen ?en" using presence_hit_ok [OF Cons.prems(1), where ob = ob and t = t and z = z and cf = cf and c = c] h by simp
    have dist: "distinct (map hit_pair hs)" using Cons.prems(2) by simp
    obtain t' z' c' where new: "(t', z', c') \<in> set hs" and ev: "ve_subject e = Some t' \<and> ve_zone e = Some z' \<and> ve_ts e = ob_ts ob \<and>
        ve_rule e = vr_id r \<and> ve_type e = vr_type r"
      and sup: "\<exists>since. ve_window e = (since, ob_ts ob) \<and> confirmed_run r (?seen t' z' @ [(ob_ts ob, True)]) since \<and> msecs (vr_min_dwell r) \<le> ob_ts ob - since"
      using Cons.IH [OF ok dist e] by blast
    have "(t', z') \<noteq> (t, z)" using Cons.prems(2) h new by (force simp: hit_pair_def)
    then have "?seen t' z' = seen t' z'" by auto
    then show ?thesis using new ev sup by (metis list.set_intros(2))
  qed
qed simp

lemma map_of_map_val: "map_of (map (\<lambda>(k, v). (k, f k v)) xs) k = map_option (f k) (map_of xs k)"
  by (induction xs) auto

lemma sightings_snoc: "sightings cf r t z (obs @ [ob]) = sightings cf r t z obs @ sighting cf r t z ob"
  by (simp add: sightings_def)

lemma presence_ok:
  assumes "rule_ok r (\<lambda>t z. sightings cf r t z obs) en" "presence cf r ob en = (es, en')"
  shows "rule_ok r (\<lambda>t z. sightings cf r t z (obs @ [ob])) en'"
proof -
  let ?seen = "in_frame cf r ob" let ?hs = "frame_hits (in_frame cf r ob)"
  let ?en = "snd (presence_hits cf r ob ?hs en)"
  have en': "en' = ?en\<lparr>en_streaks := map (\<lambda>(key, st). (key, presence_miss r ob ?seen key st)) (en_streaks ?en)\<rparr>"
    using assms(2) by (auto simp: presence_def frame_hits_def Let_def split_beta)
  note hits = presence_hits_ok [OF assms(1) frame_hits_distinct [of cf r ob], where ob = ob and cf = cf]
  show ?thesis unfolding rule_ok_def
  proof (intro allI impI)
    fix t z st
    assume "map_of (en_streaks en') (Presence (vr_id r) t z) = Some st"
    then obtain st0 where st0: "map_of (en_streaks ?en) (Presence (vr_id r) t z) = Some st0"
      and st: "st = presence_miss r ob ?seen (Presence (vr_id r) t z) st0"
      by (auto simp: en' map_of_map_val)
    have ok: "streak_ok r (sightings cf r t z obs @ (if (t, z) \<in> hit_pair ` set ?hs then [(ob_ts ob, True)] else [])) st0"
      using hits st0 by (simp add: rule_ok_def)
    show "streak_ok r (sightings cf r t z (obs @ [ob])) st"
    proof (cases "map_of ?seen t")
      case None
      then show ?thesis using ok frame_hits_pairs [OF in_frame_distinct(1) [of cf r ob], of t z]
        by (simp add: sightings_snoc sighting_def st presence_miss_def)
    next
      case (Some czs)
      obtain c zs where czs: "czs = (c, zs)" by (cases czs)
      show ?thesis
      proof (cases "z \<in> set zs")
        case True
        then show ?thesis using ok Some czs frame_hits_pairs [OF in_frame_distinct(1) [of cf r ob], of t z]
          by (simp add: sightings_snoc sighting_def st presence_miss_def)
      next
        case False
        then have "streak_ok r (sightings cf r t z obs) st0" using ok Some czs frame_hits_pairs [OF in_frame_distinct(1) [of cf r ob], of t z] by simp
        then show ?thesis using False Some czs advance_streak_miss_ok by (simp add: sightings_snoc sighting_def st presence_miss_def)
      qed
    qed
  qed
qed

lemma presence_event:
  assumes "rule_ok r (\<lambda>t z. sightings cf r t z obs) en" "presence cf r ob en = (es, en')" "e \<in> set es"
  shows "ve_rule e = vr_id r \<and> ve_ts e = ob_ts ob \<and> run_supports cf r (obs @ [ob]) e"
proof -
  have "e \<in> set (fst (presence_hits cf r ob (frame_hits (in_frame cf r ob)) en))"
    using assms(2,3) by (auto simp: presence_def frame_hits_def Let_def split_beta)
  from presence_hits_event [OF assms(1) frame_hits_distinct this] obtain t z c since where
    h: "(t, z, c) \<in> set (frame_hits (in_frame cf r ob))" and e: "ve_subject e = Some t" "ve_zone e = Some z" "ve_ts e = ob_ts ob"
      "ve_rule e = vr_id r" "ve_window e = (since, ob_ts ob)"
      "confirmed_run r (sightings cf r t z obs @ [(ob_ts ob, True)]) since" "msecs (vr_min_dwell r) \<le> ob_ts ob - since"
    by blast
  have "(t, z) \<in> hit_pair ` set (frame_hits (in_frame cf r ob))" using h by (force simp: hit_pair_def)
  then have "sighting cf r t z ob = [(ob_ts ob, True)]"
    using frame_hits_pairs [OF in_frame_distinct(1) [of cf r ob], of t z] by (auto simp: sighting_def)
  then show ?thesis using e by (simp add: run_supports_def sightings_snoc)
qed

text \<open>A rule touches no streak of another rule.\<close>

definition key_rule :: "streak_key \<Rightarrow> string" where
  "key_rule key = (case key of Presence i _ _ \<Rightarrow> i | Occupancy i _ \<Rightarrow> i | View i \<Rightarrow> i)"

definition same_others :: "string \<Rightarrow> vision_engine \<Rightarrow> vision_engine \<Rightarrow> bool" where
  "same_others i en en' \<longleftrightarrow> (\<forall>key. key_rule key \<noteq> i \<longrightarrow> map_of (en_streaks en') key = map_of (en_streaks en) key)"

lemma same_others_refl: "same_others i en en"
  by (simp add: same_others_def)

lemma same_others_trans: "same_others i a b \<Longrightarrow> same_others i b c \<Longrightarrow> same_others i a c"
  by (simp add: same_others_def)

lemma put_others: "key_rule key = i \<Longrightarrow> same_others i en (put_streak key st en)"
  by (auto simp: same_others_def put_streak_def)

lemma fire_others: "key_rule key = i \<Longrightarrow> same_others i en (snd (fire cf r ob key z t extra en))"
  by (auto simp: same_others_def fire_streaks)

lemma presence_hits_others: "same_others (vr_id r) en (snd (presence_hits cf r ob hs en))"
proof (induction hs arbitrary: en)
  case (Cons h hs)
  obtain t z c where h: "h = (t, z, c)" by (cases h)
  have "same_others (vr_id r) en (snd (presence_hit cf r ob h en))"
    unfolding same_others_def h presence_hit_streaks by (auto simp: key_rule_def)
  then show ?case using Cons.IH [of "snd (presence_hit cf r ob h en)"] by (auto simp: Let_def split_beta intro: same_others_trans)
qed (simp add: same_others_refl)

lemma presence_others: "same_others (vr_id r) en (snd (presence cf r ob en))"
proof -
  let ?en = "snd (presence_hits cf r ob (frame_hits (in_frame cf r ob)) en)"
  have "map_of (map (\<lambda>(key, st). (key, presence_miss r ob seen key st)) (en_streaks ?en)) key = map_of (en_streaks ?en) key"
    if "key_rule key \<noteq> vr_id r" for key seen
    using that unfolding map_of_map_val
    by (cases "map_of (en_streaks ?en) key") (auto simp: presence_miss_def key_rule_def split: streak_key.split)
  then show ?thesis using presence_hits_others [of r en cf ob "frame_hits (in_frame cf r ob)"]
    by (simp add: presence_def same_others_def frame_hits_def Let_def split_beta)
qed

lemma zone_occupancy_others: "same_others (vr_id r) en (snd (zone_occupancy cf r ob zz en))"
  by (auto simp: zone_occupancy_def Let_def split_beta key_rule_def
      intro!: same_others_refl put_others same_others_trans [OF put_others fire_others] split: option.split)

lemma zone_occupancies_others: "same_others (vr_id r) en (snd (zone_occupancies cf r ob zs en))"
proof (induction zs arbitrary: en)
  case (Cons z zs)
  then show ?case using zone_occupancy_others [of r en cf ob z] by (auto simp: Let_def split_beta intro: same_others_trans)
qed (simp add: same_others_refl)

lemma camera_rule_others: "same_others (vr_id r) en (snd (camera_rule cf r ob cs en))"
  by (auto simp: camera_rule_def Let_def split_beta key_rule_def intro!: put_others same_others_trans [OF put_others fire_others])

lemma apply_rule_others: "same_others (vr_id r) en (snd (apply_rule cf ob cs r en))"
  by (auto simp: apply_rule_def intro!: presence_others zone_occupancies_others camera_rule_others same_others_refl split: option.split)

definition watches :: "vision_rule \<Rightarrow> bool" where
  "watches r \<longleftrightarrow> vr_type r \<in> set presence_types"

lemma other_rule_ok:
  assumes "same_others i en en'" "vr_id r \<noteq> i"
  shows "rule_ok r seen en' = rule_ok r seen en"
  using assms by (simp add: same_others_def rule_ok_def key_rule_def)

lemma fire_subject: "e \<in> set (fst (fire cf r ob key z t extra en)) \<Longrightarrow> ve_subject e = t"
  by (auto simp: fire_def Let_def conclusion_def split: option.splits if_splits)

lemma zone_occupancies_subject: "e \<in> set (fst (zone_occupancies cf r ob zs en)) \<Longrightarrow> ve_subject e = None"
proof (induction zs arbitrary: en)
  case (Cons z zs)
  have "ve_subject e = None" if "e \<in> set (fst (zone_occupancy cf r ob z en))"
    using that fire_subject by (fastforce simp: zone_occupancy_def Let_def split_beta split: option.splits if_splits)
  then show ?case using Cons by (auto simp: Let_def split_beta)
qed simp

lemma camera_rule_subject: "e \<in> set (fst (camera_rule cf r ob cs en)) \<Longrightarrow> ve_subject e = None"
  using fire_subject by (fastforce simp: camera_rule_def Let_def split_beta split: if_splits)

lemma apply_rule_event:
  assumes "e \<in> set (fst (apply_rule cf ob cs r en))" "ve_subject e \<noteq> None"
  shows "watches r \<and> e \<in> set (fst (presence cf r ob en))"
  using assms zone_occupancies_subject camera_rule_subject
  by (fastforce simp: apply_rule_def watches_def split: if_splits option.splits)

lemma apply_rule_ok:
  "watches r \<Longrightarrow> rule_ok r (\<lambda>t z. sightings cf r t z obs) en \<Longrightarrow>
    rule_ok r (\<lambda>t z. sightings cf r t z (obs @ [ob])) (snd (apply_rule cf ob cs r en))"
  using presence_ok [of r cf obs en ob] by (simp add: apply_rule_def watches_def) (metis prod.collapse)

lemma apply_rules_others:
  "vr_id r \<notin> vr_id ` set rs \<Longrightarrow> rule_ok r seen (snd (apply_rules cf ob cs rs en)) = rule_ok r seen en"
proof (induction rs arbitrary: en)
  case (Cons q rs)
  then show ?case using other_rule_ok [OF apply_rule_others [of q en cf ob cs]] by (simp add: Let_def split_beta)
qed simp

lemma apply_rules_ok:
  assumes "distinct (map vr_id rs)" "\<forall>r \<in> set rs. watches r \<longrightarrow> rule_ok r (\<lambda>t z. sightings cf r t z obs) en"
  shows "\<forall>r \<in> set rs. watches r \<longrightarrow> rule_ok r (\<lambda>t z. sightings cf r t z (obs @ [ob])) (snd (apply_rules cf ob cs rs en))"
  using assms
proof (induction rs arbitrary: en)
  case (Cons q rs)
  let ?en = "snd (apply_rule cf ob cs q en)"
  have new: "vr_id q \<notin> vr_id ` set rs" using Cons.prems(1) by simp
  have "\<forall>r \<in> set rs. watches r \<longrightarrow> rule_ok r (\<lambda>t z. sightings cf r t z obs) ?en"
  proof (intro ballI impI)
    fix r assume r: "r \<in> set rs" "watches r"
    then have "vr_id r \<noteq> vr_id q" using new by (metis imageI)
    then show "rule_ok r (\<lambda>t z. sightings cf r t z obs) ?en"
      using other_rule_ok [OF apply_rule_others [of q en cf ob cs]] Cons.prems(2) r by simp
  qed
  then have "\<forall>r \<in> set rs. watches r \<longrightarrow> rule_ok r (\<lambda>t z. sightings cf r t z (obs @ [ob])) (snd (apply_rules cf ob cs rs ?en))"
    using Cons.IH Cons.prems(1) by simp
  moreover have "watches q \<Longrightarrow> rule_ok q (\<lambda>t z. sightings cf q t z (obs @ [ob])) (snd (apply_rules cf ob cs rs ?en))"
    using apply_rule_ok [of q cf obs en ob cs] Cons.prems(2) by (simp add: apply_rules_others [OF new])
  ultimately show ?case by (simp add: Let_def split_beta)
qed simp

lemma apply_rules_event:
  assumes "distinct (map vr_id rs)" "\<forall>r \<in> set rs. watches r \<longrightarrow> rule_ok r (\<lambda>t z. sightings cf r t z obs) en"
    "e \<in> set (fst (apply_rules cf ob cs rs en))" "ve_subject e \<noteq> None"
  shows "\<exists>r \<in> set rs. ve_rule e = vr_id r \<and> ve_ts e = ob_ts ob \<and> run_supports cf r (obs @ [ob]) e"
  using assms
proof (induction rs arbitrary: en)
  case (Cons q rs)
  let ?en = "snd (apply_rule cf ob cs q en)"
  have "e \<in> set (fst (apply_rule cf ob cs q en)) \<or> e \<in> set (fst (apply_rules cf ob cs rs ?en))"
    using Cons.prems(3) by (auto simp: Let_def split_beta)
  then show ?case
  proof
    assume "e \<in> set (fst (apply_rule cf ob cs q en))"
    then have "watches q" "e \<in> set (fst (presence cf q ob en))" using apply_rule_event Cons.prems(4) by blast+
    then show ?thesis using presence_event [of q cf obs en ob] Cons.prems(2) by (metis list.set_intros(1) prod.collapse)
  next
    assume e: "e \<in> set (fst (apply_rules cf ob cs rs ?en))"
    have new: "vr_id q \<notin> vr_id ` set rs" using Cons.prems(1) by simp
    have "rule_ok r (\<lambda>t z. sightings cf r t z obs) ?en" if r: "r \<in> set rs" "watches r" for r
    proof -
      have "vr_id r \<noteq> vr_id q" using new r(1) by (metis imageI)
      then show ?thesis using other_rule_ok [OF apply_rule_others [of q en cf ob cs]] Cons.prems(2) r by simp
    qed
    then show ?thesis using Cons.IH [OF _ _ e Cons.prems(4)] Cons.prems(1) by simp
  qed
qed simp

lemma expire_ok: "rule_ok r seen en \<Longrightarrow> distinct (map fst (en_streaks en)) \<Longrightarrow> rule_ok r seen (expire cf now en)"
  unfolding rule_ok_def expire_def
  by (auto simp: map_of_eq_Some_iff distinct_map_filter dest!: map_of_SomeD)

subsection \<open>Keys stay unique\<close>

definition unique_streaks :: "vision_engine \<Rightarrow> bool" where
  "unique_streaks en \<longleftrightarrow> distinct (map fst (en_streaks en))"

lemma put_keys: "unique_streaks en \<Longrightarrow> unique_streaks (put_streak key st en)"
  by (simp add: unique_streaks_def put_streak_def)

lemma fire_keys: "unique_streaks en \<Longrightarrow> unique_streaks (snd (fire cf r ob key z t extra en))"
  by (simp add: unique_streaks_def fire_streaks)

lemma presence_hits_keys: "unique_streaks en \<Longrightarrow> unique_streaks (snd (presence_hits cf r ob hs en))"
proof (induction hs arbitrary: en)
  case (Cons h hs)
  then have "unique_streaks (snd (presence_hit cf r ob h en))"
    by (auto simp: presence_hit_def Let_def split_beta intro!: fire_keys put_keys split: prod.split)
  then show ?case using Cons by (simp add: Let_def split_beta)
qed simp

lemma presence_keys: "unique_streaks en \<Longrightarrow> unique_streaks (snd (presence cf r ob en))"
  using presence_hits_keys by (auto simp: presence_def unique_streaks_def Let_def split_beta comp_def)

lemma zone_occupancies_keys: "unique_streaks en \<Longrightarrow> unique_streaks (snd (zone_occupancies cf r ob zs en))"
proof (induction zs arbitrary: en)
  case (Cons z zs)
  then have "unique_streaks (snd (zone_occupancy cf r ob z en))"
    by (auto simp: zone_occupancy_def Let_def split_beta intro!: fire_keys put_keys split: prod.split option.split)
  then show ?case using Cons by (simp add: Let_def split_beta)
qed simp

lemma apply_rule_keys: "unique_streaks en \<Longrightarrow> unique_streaks (snd (apply_rule cf ob cs r en))"
  by (auto simp: apply_rule_def camera_rule_def Let_def split_beta
      intro!: presence_keys zone_occupancies_keys fire_keys put_keys split: option.split)

lemma apply_rules_keys: "unique_streaks en \<Longrightarrow> unique_streaks (snd (apply_rules cf ob cs rs en))"
  by (induction rs arbitrary: en) (simp_all add: Let_def split_beta apply_rule_keys)

definition engine_ok :: "vision_config \<Rightarrow> vision_obs list \<Rightarrow> vision_engine \<Rightarrow> bool" where
  "engine_ok cf obs en \<longleftrightarrow> unique_streaks en \<and> (\<forall>r \<in> set (vc_rules cf). watches r \<longrightarrow> rule_ok r (\<lambda>t z. sightings cf r t z obs) en)"

lemma engine_step_ok:
  assumes "distinct (map vr_id (vc_rules cf))" "engine_ok cf obs en" "engine_step cf ob cs en = Inr (es, en')"
  shows "engine_ok cf (obs @ [ob]) en'"
proof -
  let ?en = "snd (apply_rules cf ob cs (vc_rules cf) en)"
  have en': "en' = expire cf (ob_ts ob) ?en" using assms(3) by (auto simp: engine_step_def Let_def split_beta split: if_splits)
  have "unique_streaks ?en" using assms(2) apply_rules_keys by (simp add: engine_ok_def)
  moreover have "\<forall>r \<in> set (vc_rules cf). watches r \<longrightarrow> rule_ok r (\<lambda>t z. sightings cf r t z (obs @ [ob])) ?en"
    by (rule apply_rules_ok [OF assms(1)]) (use assms(2) in \<open>simp add: engine_ok_def\<close>)
  ultimately show ?thesis using expire_ok
    by (simp add: engine_ok_def en' unique_streaks_def) (simp add: expire_def distinct_map_filter)
qed

lemma watch_ok:
  assumes "distinct (map vr_id (vc_rules cf))"
  shows "engine_ok cf obs en \<Longrightarrow> watch cf fed en = Inr (es, en') \<Longrightarrow> engine_ok cf (obs @ map fst fed) en'"
proof (induction fed arbitrary: obs en es)
  case (Cons f fed)
  obtain ob cs where f: "f = (ob, cs)" by (cases f)
  obtain es1 en1 es2 where s: "engine_step cf ob cs en = Inr (es1, en1)" "watch cf fed en1 = Inr (es2, en')"
    using Cons.prems(2) f by (auto split: sum.splits prod.splits)
  from Cons.IH [OF engine_step_ok [OF assms Cons.prems(1) s(1)] s(2)] show ?case using f by simp
qed simp

text \<open>C11: no alarm rests on one frame. A presence alarm of the engine, whatever it was fed, names a track, a
  zone and a time since when: at that time began as many consecutive sightings of the track in the
  zone as the rule asks for, and the dwell of the rule has passed since.\<close>

theorem vision_alarms_rest_on_a_streak:
  assumes "distinct (map vr_id (vc_rules cf))" "watch cf fed fresh_engine = Inr (es0, en)"
    and "engine_step cf ob cs en = Inr (es, en')" "e \<in> set es" "ve_subject e = Some t"
  shows "\<exists>r \<in> set (vc_rules cf). ve_rule e = vr_id r \<and> ve_ts e = ob_ts ob \<and>
    (\<exists>z since before run after. ve_zone e = Some z \<and> ve_window e = (since, ve_ts e) \<and>
       sightings cf r t z (map fst fed @ [ob]) = before @ run @ after \<and> length run = max 1 (vr_min_obs r) \<and> list_all snd run \<and>
       since = fst (hd run) \<and> msecs (vr_min_dwell r) \<le> ve_ts e - since)"
proof -
  have "engine_ok cf (map fst fed) en"
    using watch_ok [OF assms(1) _ assms(2), of "[]"] by (simp add: engine_ok_def unique_streaks_def rule_ok_def fresh_engine_def)
  then obtain r where "r \<in> set (vc_rules cf)" "ve_rule e = vr_id r" "ve_ts e = ob_ts ob" "run_supports cf r (map fst fed @ [ob]) e"
    using apply_rules_event [of "vc_rules cf" cf "map fst fed" en e ob cs] assms
    by (auto simp: engine_ok_def engine_step_def Let_def split_beta split: if_splits)
  then show ?thesis using assms(5) unfolding run_supports_def confirmed_run_def by fastforce
qed

section \<open>The cooldown\<close>

definition event_key :: "vision_event \<Rightarrow> streak_key" where
  "event_key e =
     (case (ve_subject e, ve_zone e) of
        (Some t, Some z) \<Rightarrow> Presence (ve_rule e) t z | (_, Some z) \<Rightarrow> Occupancy (ve_rule e) z | _ \<Rightarrow> View (ve_rule e))"

definition spaced_apart :: "vision_config \<Rightarrow> vision_event \<Rightarrow> vision_event \<Rightarrow> bool" where
  "spaced_apart cf e e' \<longleftrightarrow> (event_key e = event_key e' \<longrightarrow>
     (\<forall>r \<in> set (vc_rules cf). vr_id r = ve_rule e' \<longrightarrow> msecs (vr_cooldown r) \<le> ve_ts e' - ve_ts e))"

text \<open>What has been raised so far is spaced, and the engine knows when each subject was last raised.\<close>

definition cooled :: "vision_config \<Rightarrow> vision_event list \<Rightarrow> (streak_key \<times> time) list \<Rightarrow> bool" where
  "cooled cf es fired \<longleftrightarrow> sorted_wrt (spaced_apart cf) es \<and>
     (\<forall>e \<in> set es. \<exists>t. map_of fired (event_key e) = Some t \<and> ve_ts e \<le> t) \<and>
     (\<forall>key t. map_of fired key = Some t \<longrightarrow> (\<exists>e \<in> set es. event_key e = key \<and> ve_ts e = t))"

definition raised_by :: "vision_event list \<Rightarrow> time \<Rightarrow> bool" where
  "raised_by es now \<longleftrightarrow> (\<forall>e \<in> set es. ve_ts e \<le> now)"

text \<open>What each part of a step keeps: the events so far with the new ones appended.\<close>

definition cools :: "vision_config \<Rightarrow> vision_obs \<Rightarrow> (vision_engine \<Rightarrow> vision_event list \<times> vision_engine) \<Rightarrow> bool" where
  "cools cf ob f \<longleftrightarrow> (\<forall>es en. cooled cf es (en_fired en) \<longrightarrow> raised_by es (ob_ts ob) \<longrightarrow>
     cooled cf (es @ fst (f en)) (en_fired (snd (f en))) \<and> raised_by (es @ fst (f en)) (ob_ts ob))"

lemma put_fired [simp]: "en_fired (put_streak key st en) = en_fired en"
  by (simp add: put_streak_def)

lemma event_key_conclusion:
  "event_key (conclusion cf r st ob since z t extra) =
     (case (t, z) of (Some t, Some z) \<Rightarrow> Presence (vr_id r) t z | (_, Some z) \<Rightarrow> Occupancy (vr_id r) z | _ \<Rightarrow> View (vr_id r))"
proof -
  have "ve_subject (conclusion cf r st ob since z t extra) = t" "ve_zone (conclusion cf r st ob since z t extra) = z"
    "ve_rule (conclusion cf r st ob since z t extra) = vr_id r"
    by (simp_all add: conclusion_def)
  then show ?thesis by (simp only: event_key_def)
qed

lemma cooled_more:
  assumes "cooled cf es fired" "raised_by es now" "event_key e = key" "ve_ts e = now" "\<And>e0. e0 \<in> set es \<Longrightarrow> spaced_apart cf e0 e"
  shows "cooled cf (es @ [e]) (dict_put key now fired)"
proof -
  have "sorted_wrt (spaced_apart cf) (es @ [e])" using assms(1,5) by (simp add: cooled_def sorted_wrt_append)
  moreover have "\<exists>t. map_of (dict_put key now fired) (event_key e') = Some t \<and> ve_ts e' \<le> t" if "e' \<in> set (es @ [e])" for e'
  proof (cases "event_key e' = key")
    case True
    then show ?thesis using that assms(2,4) by (auto simp: raised_by_def)
  next
    case False
    then show ?thesis using that assms(1,3) by (auto simp: cooled_def)
  qed
  moreover have "\<exists>e' \<in> set (es @ [e]). event_key e' = k \<and> ve_ts e' = t" if "map_of (dict_put key now fired) k = Some t" for k t
    using that assms(1,3,4) by (cases "k = key") (auto simp: cooled_def)
  ultimately show ?thesis unfolding cooled_def by blast
qed

lemma fire_result:
  "fire cf r ob key z t extra en = ([], put_streak key ((streak_at en key)\<lparr>k_fired := True\<rparr>) en) \<or>
   (\<exists>since. fire cf r ob key z t extra en = ([conclusion cf r (streak_at en key) ob since z t extra],
      (put_streak key ((streak_at en key)\<lparr>k_fired := True\<rparr>) en)\<lparr>en_fired := dict_put key (ob_ts ob) (en_fired en)\<rparr>) \<and>
     (\<forall>t. map_of (en_fired en) key = Some t \<longrightarrow> msecs (vr_cooldown r) \<le> ob_ts ob - t))"
  by (simp add: fire_def Let_def split: option.split) blast

lemma fire_cools:
  assumes "distinct (map vr_id (vc_rules cf))" "r \<in> set (vc_rules cf)"
    and "key = (case (t, z) of (Some t, Some z) \<Rightarrow> Presence (vr_id r) t z | (_, Some z) \<Rightarrow> Occupancy (vr_id r) z | _ \<Rightarrow> View (vr_id r))"
  shows "cools cf ob (fire cf r ob key z t extra)"
  unfolding cools_def
proof (intro allI impI)
  fix es and en :: vision_engine assume c: "cooled cf es (en_fired en)" "raised_by es (ob_ts ob)"
  let ?r = "fire cf r ob key z t extra en"
  from fire_result [of cf r ob key z t extra en]
  show "cooled cf (es @ fst ?r) (en_fired (snd ?r)) \<and> raised_by (es @ fst ?r) (ob_ts ob)"
  proof
    assume "?r = ([], put_streak key ((streak_at en key)\<lparr>k_fired := True\<rparr>) en)"
    then show ?thesis using c by simp
  next
    assume "\<exists>since. ?r = ([conclusion cf r (streak_at en key) ob since z t extra],
        (put_streak key ((streak_at en key)\<lparr>k_fired := True\<rparr>) en)\<lparr>en_fired := dict_put key (ob_ts ob) (en_fired en)\<rparr>) \<and>
      (\<forall>t. map_of (en_fired en) key = Some t \<longrightarrow> msecs (vr_cooldown r) \<le> ob_ts ob - t)"
    then obtain since where f: "?r = ([conclusion cf r (streak_at en key) ob since z t extra],
        (put_streak key ((streak_at en key)\<lparr>k_fired := True\<rparr>) en)\<lparr>en_fired := dict_put key (ob_ts ob) (en_fired en)\<rparr>)"
      and gap: "\<And>t. map_of (en_fired en) key = Some t \<Longrightarrow> msecs (vr_cooldown r) \<le> ob_ts ob - t" by blast
    let ?e = "conclusion cf r (streak_at en key) ob since z t extra"
    have e: "event_key ?e = key" "ve_ts ?e = ob_ts ob" "ve_rule ?e = vr_id r"
      using assms(3) by (simp_all only: event_key_conclusion) (simp_all add: conclusion_def)
    have "spaced_apart cf e0 ?e" if "e0 \<in> set es" for e0
      unfolding spaced_apart_def
    proof (intro impI ballI)
      fix q assume q: "event_key e0 = event_key ?e" "q \<in> set (vc_rules cf)" "vr_id q = ve_rule ?e"
      have "q = r" using assms(1,2) q(2,3) e(3) inj_onD [of vr_id "set (vc_rules cf)" q r] by (simp add: distinct_map)
      moreover have "\<exists>t. map_of (en_fired en) (event_key e0) = Some t \<and> ve_ts e0 \<le> t" using c(1) that by (simp add: cooled_def)
      then obtain t0 where "map_of (en_fired en) key = Some t0" "ve_ts e0 \<le> t0" unfolding q(1) e(1) by blast
      ultimately show "msecs (vr_cooldown q) \<le> ve_ts ?e - ve_ts e0" using gap [of t0] e(2) by simp
    qed
    from cooled_more [OF c e(1,2) this] show ?thesis using c(2) e(2) by (simp add: f raised_by_def)
  qed
qed

lemma cools_none: "(\<And>en. fst (f en) = [] \<and> en_fired (snd (f en)) = en_fired en) \<Longrightarrow> cools cf ob f"
  by (simp add: cools_def)

lemma cools_if:
  assumes "\<And>en. cools cf ob (f en)" "\<And>en. en_fired (g en) = en_fired en"
  shows "cools cf ob (\<lambda>en. if c en then f en (g en) else ([], g en))"
  unfolding cools_def
proof (intro allI impI)
  fix es and en :: vision_engine assume "cooled cf es (en_fired en)" "raised_by es (ob_ts ob)"
  with assms(1) [of en, unfolded cools_def, rule_format, of es "g en"] assms(2) [of en]
  show "cooled cf (es @ fst (if c en then f en (g en) else ([], g en))) (en_fired (snd (if c en then f en (g en) else ([], g en)))) \<and>
      raised_by (es @ fst (if c en then f en (g en) else ([], g en))) (ob_ts ob)"
    by simp
qed

lemma cools_seq:
  assumes "cools cf ob f" "cools cf ob g"
  shows "cools cf ob (\<lambda>en. (fst (f en) @ fst (g (snd (f en))), snd (g (snd (f en)))))"
  unfolding cools_def
proof (intro allI impI)
  fix es and en :: vision_engine assume c: "cooled cf es (en_fired en)" "raised_by es (ob_ts ob)"
  from assms(1) c have "cooled cf (es @ fst (f en)) (en_fired (snd (f en))) \<and> raised_by (es @ fst (f en)) (ob_ts ob)"
    unfolding cools_def by blast
  with assms(2) have "cooled cf ((es @ fst (f en)) @ fst (g (snd (f en)))) (en_fired (snd (g (snd (f en))))) \<and>
      raised_by ((es @ fst (f en)) @ fst (g (snd (f en)))) (ob_ts ob)"
    unfolding cools_def by blast
  then show "cooled cf (es @ fst (fst (f en) @ fst (g (snd (f en))), snd (g (snd (f en)))))
      (en_fired (snd (fst (f en) @ fst (g (snd (f en))), snd (g (snd (f en)))))) \<and>
      raised_by (es @ fst (fst (f en) @ fst (g (snd (f en))), snd (g (snd (f en))))) (ob_ts ob)"
    by simp
qed

lemma cools_ext: "cools cf ob f \<Longrightarrow> (\<And>en. g en = f en) \<Longrightarrow> cools cf ob g"
  by (simp add: cools_def)

definition good_rule :: "vision_config \<Rightarrow> vision_rule \<Rightarrow> bool" where
  "good_rule cf r \<longleftrightarrow> distinct (map vr_id (vc_rules cf)) \<and> r \<in> set (vc_rules cf)"

lemma fire_cools':
  "good_rule cf r \<Longrightarrow> cools cf ob (fire cf r ob (Presence (vr_id r) t z) (Some z) (Some t) extra)"
  "good_rule cf r \<Longrightarrow> cools cf ob (fire cf r ob (Occupancy (vr_id r) z) (Some z) None extra)"
  "good_rule cf r \<Longrightarrow> cools cf ob (fire cf r ob (View (vr_id r)) None None extra)"
  unfolding good_rule_def by (rule fire_cools, simp, simp, simp)+

lemma presence_hit_cools: "good_rule cf r \<Longrightarrow> cools cf ob (presence_hit cf r ob (t, z, c))"
  by (rule cools_ext [OF cools_if [where
        c = "\<lambda>en. fst (advance_streak r True (ob_ts ob) (streak_at en (Presence (vr_id r) t z)))" and
        f = "\<lambda>_. fire cf r ob (Presence (vr_id r) t z) (Some z) (Some t) []" and
        g = "\<lambda>en. put_streak (Presence (vr_id r) t z) (note_frame (ob_frame ob) (Some t) c
           (snd (advance_streak r True (ob_ts ob) (streak_at en (Presence (vr_id r) t z))))) en", OF fire_cools'(1)]])
     (simp_all add: presence_hit_def Let_def split_beta)

lemma presence_hits_cools: "good_rule cf r \<Longrightarrow> cools cf ob (presence_hits cf r ob hs)"
proof (induction hs)
  case (Cons h hs)
  obtain t z c where h: "h = (t, z, c)" by (cases h)
  show ?case
    by (rule cools_ext [OF cools_seq [OF presence_hit_cools [OF Cons.prems] Cons.IH [OF Cons.prems]]]) (simp add: h Let_def split_beta)
qed (simp add: cools_none)

lemma presence_cools: "good_rule cf r \<Longrightarrow> cools cf ob (presence cf r ob)"
  using presence_hits_cools [of cf r ob "frame_hits (in_frame cf r ob)"]
  unfolding cools_def by (simp add: presence_def frame_hits_def Let_def split_beta)

definition occupants :: "vision_rule \<Rightarrow> vision_obs \<Rightarrow> string \<Rightarrow> vision_object list" where
  "occupants r ob z = filter (\<lambda>o'. vo_class o' \<in> set (vr_classes r) \<and> vo_conf o' \<ge> vr_conf r \<and> z \<in> set (vo_zones o')) (ob_objects ob)"

definition occupancy_streak :: "vision_rule \<Rightarrow> vision_obs \<Rightarrow> string \<Rightarrow> int \<Rightarrow> vision_engine \<Rightarrow> bool \<times> streak" where
  "occupancy_streak r ob z cap en =
     (let over = int (length (occupants r ob z)) > cap;
          (now, st) = advance_streak r over (ob_ts ob) (streak_at en (Occupancy (vr_id r) z))
      in (now, if over then fold (\<lambda>o'. note_frame (ob_frame ob) (Some (vo_track o')) (vo_conf o')) (occupants r ob z)
                              (st\<lparr>k_peak := max (k_peak st) (length (occupants r ob z))\<rparr>) else st))"

lemma zone_occupancy_cools: "good_rule cf r \<Longrightarrow> cools cf ob (zone_occupancy cf r ob (z, zd))"
proof (cases "occupancy_cap zd")
  case None
  then show ?thesis by (intro cools_none) (simp add: zone_occupancy_def)
next
  case (Some cap)
  assume g: "good_rule cf r"
  show ?thesis
  proof (cases "cap < 0 \<or> \<not> zone_ok cf r z")
    case True
    then show ?thesis using Some by (intro cools_none) (auto simp: zone_occupancy_def)
  next
    case False
    show ?thesis
      by (rule cools_ext [OF cools_if [where c = "\<lambda>en. fst (occupancy_streak r ob z cap en)" and
            f = "\<lambda>en. fire cf r ob (Occupancy (vr_id r) z) (Some z) None
              [(''count'', JInt (int (k_peak (snd (occupancy_streak r ob z cap en))))), (''max_occupancy'', JInt cap)]" and
            g = "\<lambda>en. put_streak (Occupancy (vr_id r) z) (snd (occupancy_streak r ob z cap en)) en", OF fire_cools'(2) [OF g]]])
         (use False Some in \<open>simp_all add: zone_occupancy_def occupancy_streak_def occupants_def Let_def split_beta\<close>)
  qed
qed

lemma zone_occupancies_cools: "good_rule cf r \<Longrightarrow> cools cf ob (zone_occupancies cf r ob zs)"
proof (induction zs)
  case (Cons z zs)
  obtain i zd where z: "z = (i, zd)" by (cases z)
  show ?case
    by (rule cools_ext [OF cools_seq [OF zone_occupancy_cools [OF Cons.prems] Cons.IH [OF Cons.prems]]]) (simp add: z Let_def split_beta)
qed (simp add: cools_none)

lemma camera_rule_cools: "good_rule cf r \<Longrightarrow> cools cf ob (camera_rule cf r ob cs)"
  by (rule cools_ext [OF cools_if [where
        c = "\<lambda>en. fst (advance_streak r (cs \<in> set bad_camera_states) (ob_ts ob) (streak_at en (View (vr_id r))))" and
        f = "\<lambda>_. fire cf r ob (View (vr_id r)) None None [(''state'', JStr cs)]" and
        g = "\<lambda>en. put_streak (View (vr_id r)) (if cs \<in> set bad_camera_states then note_frame (ob_frame ob) None 1
           (snd (advance_streak r (cs \<in> set bad_camera_states) (ob_ts ob) (streak_at en (View (vr_id r)))))
           else snd (advance_streak r (cs \<in> set bad_camera_states) (ob_ts ob) (streak_at en (View (vr_id r))))) en", OF fire_cools'(3)]])
     (simp_all add: camera_rule_def Let_def split_beta)

lemma apply_rule_cools: "good_rule cf r \<Longrightarrow> cools cf ob (apply_rule cf ob cs r)"
proof -
  assume g: "good_rule cf r"
  show ?thesis
  proof (cases "vr_type r \<in> set presence_types")
    case True
    then show ?thesis by (intro cools_ext [OF presence_cools [OF g]]) (simp add: apply_rule_def)
  next
    case other: False
    show ?thesis
    proof (cases "vr_type r = ''zone_occupancy_exceeded''")
      case True
      then show ?thesis using other
        by (intro cools_ext [OF zone_occupancies_cools [OF g, of ob "vc_zones cf"]]) (simp add: apply_rule_def)
    next
      case False
      show ?thesis
      proof (cases "vr_type r = ''camera_obstructed'' \<and> cs \<noteq> None")
        case True
        then show ?thesis using other
          by (intro cools_ext [OF camera_rule_cools [OF g, of ob "the cs"]]) (auto simp: apply_rule_def)
      next
        case none: False
        then show ?thesis using other False by (intro cools_none) (auto simp: apply_rule_def split: option.split)
      qed
    qed
  qed
qed

lemma apply_rules_cools: "\<forall>r \<in> set rs. good_rule cf r \<Longrightarrow> cools cf ob (apply_rules cf ob cs rs)"
proof (induction rs)
  case (Cons r rs)
  then have g: "good_rule cf r" and rest: "cools cf ob (apply_rules cf ob cs rs)" by simp_all
  show ?case by (rule cools_ext [OF cools_seq [OF apply_rule_cools [OF g] rest]]) (simp add: Let_def split_beta)
qed (simp add: cools_none)

lemma watch_cools:
  assumes "distinct (map vr_id (vc_rules cf))"
  shows "watch cf fed en = Inr (new, en') \<Longrightarrow> cooled cf es (en_fired en) \<Longrightarrow> sorted (map (ob_ts \<circ> fst) fed) \<Longrightarrow>
    (\<forall>f \<in> set fed. raised_by es (ob_ts (fst f))) \<Longrightarrow> sorted_wrt (spaced_apart cf) (es @ new)"
proof (induction fed arbitrary: es en new)
  case Nil
  then show ?case by (simp add: cooled_def)
next
  case (Cons f fed)
  obtain ob cs where f: "f = (ob, cs)" by (cases f)
  obtain new1 en1 new2 where s: "engine_step cf ob cs en = Inr (new1, en1)" "watch cf fed en1 = Inr (new2, en')" "new = new1 @ new2"
    using Cons.prems(1) f by (auto split: sum.splits prod.splits)
  let ?r = "apply_rules cf ob cs (vc_rules cf) en"
  have r: "new1 = fst ?r" "en_fired en1 = en_fired (snd ?r)"
    using s(1) by (auto simp: engine_step_def expire_def Let_def split_beta split: if_splits)
  have "cools cf ob (apply_rules cf ob cs (vc_rules cf))"
    by (rule apply_rules_cools) (simp add: good_rule_def assms)
  moreover have "raised_by es (ob_ts ob)" using Cons.prems(4) f by simp
  ultimately have step: "cooled cf (es @ new1) (en_fired en1)" "raised_by (es @ new1) (ob_ts ob)"
    using Cons.prems(2) unfolding cools_def r by blast+
  have "raised_by (es @ new1) (ob_ts (fst g))" if "g \<in> set fed" for g
  proof -
    have "ob_ts ob \<le> ob_ts (fst g)" using Cons.prems(3) f that by simp
    then show ?thesis using step(2) by (auto simp: raised_by_def intro: order_trans)
  qed
  with Cons.IH [OF s(2) step(1)] Cons.prems(3) show ?case by (simp add: s(3))
qed

text \<open>An alarm about a subject in a zone is not repeated before the cooldown of its rule is over: of two
  alarms of a rule about the same track and zone, the same zone or the same view, the second is at
  least the cooldown after the first, whatever happened to the streaks between them.\<close>

theorem vision_alarms_keep_the_cooldown:
  assumes "distinct (map vr_id (vc_rules cf))" "sorted (map (ob_ts \<circ> fst) fed)" "watch cf fed fresh_engine = Inr (es, en)"
    and "es = xs @ e # ys @ e' # zs" "r \<in> set (vc_rules cf)" "ve_rule e = vr_id r" "ve_rule e' = vr_id r"
    and "ve_subject e = ve_subject e'" "ve_zone e = ve_zone e'"
  shows "msecs (vr_cooldown r) \<le> ve_ts e' - ve_ts e"
proof -
  have "cooled cf [] (en_fired fresh_engine)" by (simp add: cooled_def fresh_engine_def)
  from watch_cools [OF assms(1,3) this assms(2)] have "sorted_wrt (spaced_apart cf) es" by (simp add: raised_by_def)
  then have "spaced_apart cf e e'" unfolding assms(4) by (simp add: sorted_wrt_append)
  moreover have "event_key e = event_key e'" by (simp only: event_key_def assms(6-9))
  ultimately show ?thesis using assms(5,7) by (simp add: spaced_apart_def)
qed

section \<open>Two alarms with one id\<close>

text \<open>The id of an alarm about a track leaves out the zone, so the alarms about one track that enters two
  overlapping zones in one frame have one id, and what keys on it keeps only the first.\<close>

lemma overlapping_zones_share_an_id:
  "ve_id (conclusion cf r st ob since (Some z) (Some t) extra) = ve_id (conclusion cf r st' ob' since (Some z') (Some t) extra')"
  by (simp add: conclusion_def vision_event_id_def subject_part_def)

section \<open>Concrete instances\<close>

definition demo_vrule :: "nat \<Rightarrow> vision_rule" where
  "demo_vrule n = \<lparr>vr_id = ''r1'', vr_version = ''1.0.0'', vr_type = ''person_dwell'', vr_classes = [''person''], vr_min_obs = n,
     vr_min_dwell = 0, vr_hysteresis = 0, vr_cooldown = 1000, vr_window = 5000, vr_conf = 1 / 2, vr_kinds = []\<rparr>"

definition demo_camera :: "nat \<Rightarrow> vision_config" where
  "demo_camera n = \<lparr>vc_site = ''s1'', vc_node = ''n1'', vc_camera = ''c1'', vc_rules = [demo_vrule n], vc_zones = [(''z1'', [])],
     vc_versions = []\<rparr>"

definition demo_sight :: "string list \<Rightarrow> time \<Rightarrow> vision_obs" where
  "demo_sight zs t = \<lparr>ob_camera = ''c1'', ob_site = ''s1'', ob_node = ''n1'', ob_ts = t, ob_frame = ''f'',
     ob_objects = [\<lparr>vo_track = ''c1:1'', vo_class = ''person'', vo_conf = 1, vo_zones = zs\<rparr>]\<rparr>"

lemmas demo_vision_simps = demo_vrule_def demo_camera_def demo_sight_def fresh_engine_def engine_step_def apply_rule_def presence_types_def
  presence_def presence_hit_def in_frame_def zone_ok_def nub_def advance_streak_def streak_at_def fresh_streak_def put_streak_def note_frame_def
  max_evidence_frames_def msecs_def fire_def expire_def expired_def rule_window_def presence_miss_def reset_streak_def Let_def

lemma demo_first_sight: "\<exists>en. watch (demo_camera 2) [(demo_sight [''z1''] 0, None)] fresh_engine = Inr ([], en) \<and>
    (\<exists>st en'. engine_step (demo_camera 2) (demo_sight [''z1''] 1000000) None en =
       Inr ([conclusion (demo_camera 2) (demo_vrule 2) st (demo_sight [''z1''] 1000000) 0 (Some ''z1'') (Some ''c1:1'') []], en'))"
  by (simp add: demo_vision_simps) (rule exI, rule refl)

theorem vision_alarms_rest_on_a_streak_witness:
  "\<exists>e :: vision_event. ve_ts e = 1000000 \<and> (\<exists>r \<in> set (vc_rules (demo_camera 2)). ve_rule e = vr_id r \<and> ve_ts e = ob_ts (demo_sight [''z1''] 1000000) \<and>
    (\<exists>z since before run after. ve_zone e = Some z \<and> ve_window e = (since, ve_ts e) \<and>
       sightings (demo_camera 2) r ''c1:1'' z [demo_sight [''z1''] 0, demo_sight [''z1''] 1000000] = before @ run @ after \<and>
       length run = max 1 (vr_min_obs r) \<and> list_all snd run \<and> since = fst (hd run) \<and> msecs (vr_min_dwell r) \<le> ve_ts e - since))"
proof -
  obtain en st en' where r: "watch (demo_camera 2) [(demo_sight [''z1''] 0, None)] fresh_engine = Inr ([], en)"
    "engine_step (demo_camera 2) (demo_sight [''z1''] 1000000) None en =
       Inr ([conclusion (demo_camera 2) (demo_vrule 2) st (demo_sight [''z1''] 1000000) 0 (Some ''z1'') (Some ''c1:1'') []], en')"
    using demo_first_sight by blast
  let ?e = "conclusion (demo_camera 2) (demo_vrule 2) st (demo_sight [''z1''] 1000000) 0 (Some ''z1'') (Some ''c1:1'') []"
  have ids: "distinct (map vr_id (vc_rules (demo_camera 2)))" by (simp add: demo_camera_def)
  have e: "?e \<in> set [?e]" "ve_subject ?e = Some ''c1:1''" "ve_ts ?e = 1000000" by (simp_all add: conclusion_def demo_sight_def)
  note main = vision_alarms_rest_on_a_streak [OF ids r e(1,2)]
  show ?thesis
    by (rule exI [of _ ?e], rule conjI [OF e(3)]) (use main in \<open>simp only: list.map fst_conv append.simps\<close>)
qed

lemma demo_two_visits: "\<exists>st1 st2 en. watch (demo_camera 1)
    [(demo_sight [''z1''] 0, None), (demo_sight [] 1000000, None), (demo_sight [''z1''] 2000000, None)] fresh_engine =
    Inr ([] @ conclusion (demo_camera 1) (demo_vrule 1) st1 (demo_sight [''z1''] 0) 0 (Some ''z1'') (Some ''c1:1'') [] #
         [] @ conclusion (demo_camera 1) (demo_vrule 1) st2 (demo_sight [''z1''] 2000000) 2000000 (Some ''z1'') (Some ''c1:1'') [] # [], en)"
  by (simp add: demo_vision_simps) (intro conjI exI, rule refl, rule refl)

theorem vision_alarms_keep_the_cooldown_witness:
  "\<exists>(e :: vision_event) (e' :: vision_event). ve_ts e = 0 \<and> ve_ts e' = 2000000 \<and> msecs (vr_cooldown (demo_vrule 1)) \<le> ve_ts e' - ve_ts e"
proof -
  obtain st1 st2 en where w: "watch (demo_camera 1)
    [(demo_sight [''z1''] 0, None), (demo_sight [] 1000000, None), (demo_sight [''z1''] 2000000, None)] fresh_engine =
    Inr ([] @ conclusion (demo_camera 1) (demo_vrule 1) st1 (demo_sight [''z1''] 0) 0 (Some ''z1'') (Some ''c1:1'') [] #
         [] @ conclusion (demo_camera 1) (demo_vrule 1) st2 (demo_sight [''z1''] 2000000) 2000000 (Some ''z1'') (Some ''c1:1'') [] # [], en)"
    using demo_two_visits by blast
  have "msecs (vr_cooldown (demo_vrule 1)) \<le>
      ve_ts (conclusion (demo_camera 1) (demo_vrule 1) st2 (demo_sight [''z1''] 2000000) 2000000 (Some ''z1'') (Some ''c1:1'') []) -
      ve_ts (conclusion (demo_camera 1) (demo_vrule 1) st1 (demo_sight [''z1''] 0) 0 (Some ''z1'') (Some ''c1:1'') [])"
    by (rule vision_alarms_keep_the_cooldown [OF _ _ w refl]) (simp_all add: conclusion_def demo_camera_def demo_sight_def)
  then show ?thesis
    by (intro exI [of _ "conclusion (demo_camera 1) (demo_vrule 1) st1 (demo_sight [''z1''] 0) 0 (Some ''z1'') (Some ''c1:1'') []"]
        exI [of _ "conclusion (demo_camera 1) (demo_vrule 1) st2 (demo_sight [''z1''] 2000000) 2000000 (Some ''z1'') (Some ''c1:1'') []"])
      (simp add: conclusion_def demo_sight_def)
qed

end
