(* ===== verification/Tracker.thy ===== *)
theory Tracker
  imports Maintenance "HOL-Library.Multiset"
begin

text \<open>
  The image geometry and the multi-object tracker of the vision node, \<^verbatim>\<open>src/src/minemonitor/vision/geometry.py\<close>
  and \<^verbatim>\<open>vision/tracker.py\<close>. A track object of the source is a row with its number, which is its
  identity: numbers are drawn from a counter and never shared.
\<close>

section \<open>Boxes and zones of the image\<close>

type_synonym box = "real \<times> real \<times> real \<times> real"

definition foot_point :: "box \<Rightarrow> real \<times> real" where
  "foot_point b = (case b of (x1, y1, x2, y2) \<Rightarrow> ((x1 + x2) / 2, y2))"

definition iou :: "box \<Rightarrow> box \<Rightarrow> real" where
  "iou a b =
     (case (a, b) of ((a0, a1, a2, a3), (b0, b1, b2, b3)) \<Rightarrow>
        let iw = min a2 b2 - max a0 b0; ih = min a3 b3 - max a1 b1
        in if iw \<le> 0 \<or> ih \<le> 0 then 0
           else let inter = iw * ih; total = (a2 - a0) * (a3 - a1) + (b2 - b0) * (b3 - b1) - inter
                in if total > 0 then inter / total else 0)"

text \<open>The edges of a polygon, each with the vertex before it.\<close>

definition crosses :: "real \<Rightarrow> real \<Rightarrow> (real \<times> real) \<times> (real \<times> real) \<Rightarrow> bool" where
  "crosses x y e =
     (case e of ((xj, yj), (xi, yi)) \<Rightarrow> ((yi > y) \<noteq> (yj > y)) \<and> x < (xj - xi) * (y - yi) / (yj - yi) + xi)"

definition in_polygon :: "real \<Rightarrow> real \<Rightarrow> (real \<times> real) list \<Rightarrow> bool" where
  "in_polygon x y poly =
     (if length poly < 3 then False
      else fold (\<lambda>e inside. if crosses x y e then \<not> inside else inside) (zip (List.last poly # butlast poly) poly) False)"

definition zones_containing :: "box \<Rightarrow> (string \<times> (real \<times> real) list) list \<Rightarrow> string list" where
  "zones_containing b zones = (case foot_point b of (x, y) \<Rightarrow> map fst (filter (\<lambda>(_, poly). in_polygon x y poly) zones))"

datatype geometry_error = TooFewPoints | BadPoint | NotNormalised | BadHomography

text \<open>\<open>float_of\<close> is \<^verbatim>\<open>float(x)\<close> on a JSON value, None where it raises.\<close>

fun polygon_points :: "(json \<Rightarrow> real option) \<Rightarrow> json list \<Rightarrow> geometry_error + (real \<times> real) list" where
  "polygon_points float_of [] = Inr []"
| "polygon_points float_of (pt # pts) =
     (case pt of
        JArr [a, b] \<Rightarrow>
          (case (float_of a, float_of b) of
             (Some x, Some y) \<Rightarrow>
               if \<not> (0 \<le> x \<and> x \<le> 1 \<and> 0 \<le> y \<and> y \<le> 1) then Inl NotNormalised
               else map_sum id ((#) (x, y)) (polygon_points float_of pts)
           | _ \<Rightarrow> Inl BadPoint)
      | _ \<Rightarrow> Inl BadPoint)"

definition validate_polygon :: "(json \<Rightarrow> real option) \<Rightarrow> json \<Rightarrow> geometry_error + (real \<times> real) list" where
  "validate_polygon float_of polygon =
     (case polygon of JArr pts \<Rightarrow> if length pts < 3 then Inl TooFewPoints else polygon_points float_of pts | _ \<Rightarrow> Inl TooFewPoints)"

definition matrix_row :: "(json \<Rightarrow> real option) \<Rightarrow> json \<Rightarrow> (real \<times> real \<times> real) option" where
  "matrix_row float_of row =
     (case row of
        JArr [a, b, c] \<Rightarrow> (case (float_of a, float_of b, float_of c) of (Some x, Some y, Some z) \<Rightarrow> Some (x, y, z) | _ \<Rightarrow> None)
      | _ \<Rightarrow> None)"

type_synonym matrix = "(real \<times> real \<times> real) \<times> (real \<times> real \<times> real) \<times> (real \<times> real \<times> real)"

definition validate_homography :: "(json \<Rightarrow> real option) \<Rightarrow> json \<Rightarrow> geometry_error + matrix" where
  "validate_homography float_of h =
     (case h of
        JObj d \<Rightarrow>
          (case map_of d ''matrix'' of
             Some (JArr [r1, r2, r3]) \<Rightarrow>
               (case (matrix_row float_of r1, matrix_row float_of r2, matrix_row float_of r3) of
                  (Some u, Some v, Some w) \<Rightarrow> Inr (u, v, w)
                | _ \<Rightarrow> Inl BadHomography)
           | _ \<Rightarrow> Inl BadHomography)
      | _ \<Rightarrow> Inl BadHomography)"

definition row_times :: "real \<times> real \<times> real \<Rightarrow> real \<Rightarrow> real \<Rightarrow> real" where
  "row_times r x y = (case r of (a, b, c) \<Rightarrow> a * x + b * y + c)"

definition apply_homography :: "matrix \<Rightarrow> real \<Rightarrow> real \<Rightarrow> (real \<times> real) option" where
  "apply_homography m x y =
     (case m of (r1, r2, r3) \<Rightarrow>
        let a = row_times r1 x y; b = row_times r2 x y; w = row_times r3 x y
        in if \<bar>w\<bar> < 1 / 10 ^ 12 then None
           else let lat = a / w; lon = b / w
                in if \<not> (-90 \<le> lat \<and> lat \<le> 90 \<and> -180 \<le> lon \<and> lon \<le> 180) then None else Some (lat, lon))"

section \<open>Tracks\<close>

record detection =
  dt_class :: string
  dt_conf :: real
  dt_box :: box

record tracked_object =
  to_id :: string
  to_class :: string
  to_conf :: real
  to_box :: box

record vision_track =
  tk_num :: nat
  tk_class :: string
  tk_cx :: real
  tk_cy :: real
  tk_w :: real
  tk_h :: real
  tk_vx :: real
  tk_vy :: real
  tk_box :: box
  tk_hits :: nat
  tk_missed :: nat
  tk_confirmed :: bool
  tk_ts :: "time option"

record tracker_params =
  tp_camera :: string
  tp_high :: real
  tp_low :: real
  tp_iou :: real
  tp_min_hits :: nat
  tp_max_missed :: nat
  tp_alpha :: real
  tp_beta :: real
  tp_decay :: real

record tracker_state =
  ts_tracks :: "vision_track list"
  ts_next :: nat

definition fresh_tracker :: tracker_state where
  "fresh_tracker = \<lparr>ts_tracks = [], ts_next = 1\<rparr>"

definition track_id :: "tracker_params \<Rightarrow> nat \<Rightarrow> string" where
  "track_id p n = tp_camera p @ '':'' @ show_nat n"

definition since_track :: "vision_track \<Rightarrow> time \<Rightarrow> real" where
  "since_track t ts = (case tk_ts t of None \<Rightarrow> 0 | Some u \<Rightarrow> total_seconds (ts - u))"

definition predicted :: "vision_track \<Rightarrow> time \<Rightarrow> box" where
  "predicted t ts =
     (let dt = since_track t ts; cx = tk_cx t + tk_vx t * dt; cy = tk_cy t + tk_vy t * dt
      in (cx - tk_w t / 2, cy - tk_h t / 2, cx + tk_w t / 2, cy + tk_h t / 2))"

text \<open>Greedy matching over the pairs in falling order of their score.\<close>

fun greedy :: "real \<Rightarrow> (real \<times> nat \<times> nat) list \<Rightarrow> nat list \<Rightarrow> nat list \<Rightarrow> (nat \<times> nat) list" where
  "greedy floor_iou [] used_t used_d = []"
| "greedy floor_iou ((s, ti, di) # ps) used_t used_d =
     (if s < floor_iou then []
      else if ti \<in> set used_t \<or> di \<in> set used_d then greedy floor_iou ps used_t used_d
      else (ti, di) # greedy floor_iou ps (ti # used_t) (di # used_d))"

definition score :: "time \<Rightarrow> vision_track \<Rightarrow> detection \<Rightarrow> real" where
  "score ts t d = max (iou (predicted t ts) (dt_box d)) (iou (tk_box t) (dt_box d))"

definition candidate_pairs :: "time \<Rightarrow> detection list \<Rightarrow> vision_track list \<Rightarrow> (real \<times> nat \<times> nat) list" where
  "candidate_pairs ts dets tracks =
     sort_key (\<lambda>(s, ti, di). (- s, ti, di))
       (concat (map (\<lambda>ti. map (\<lambda>di. (score ts (tracks ! ti) (dets ! di), ti, di))
          (filter (\<lambda>di. tk_class (tracks ! ti) = dt_class (dets ! di)) [0..<length dets])) [0..<length tracks]))"

definition without_indices :: "nat list \<Rightarrow> 'a list \<Rightarrow> 'a list" where
  "without_indices is xs = map ((!) xs) (filter (\<lambda>i. i \<notin> set is) [0..<length xs])"

text \<open>The matches, the tracks left and the detections left.\<close>

definition associate ::
  "tracker_params \<Rightarrow> time \<Rightarrow> detection list \<Rightarrow> vision_track list \<Rightarrow> (vision_track \<times> detection) list \<times> vision_track list \<times> detection list" where
  "associate p ts dets tracks =
     (let ms = greedy (tp_iou p) (candidate_pairs ts dets tracks) [] []
      in (map (\<lambda>(ti, di). (tracks ! ti, dets ! di)) ms, without_indices (map fst ms) tracks, without_indices (map snd ms) dets))"

definition new_track :: "tracker_params \<Rightarrow> nat \<Rightarrow> detection \<Rightarrow> time \<Rightarrow> vision_track" where
  "new_track p n d ts =
     (case dt_box d of (x1, y1, x2, y2) \<Rightarrow>
        \<lparr>tk_num = n, tk_class = dt_class d, tk_cx = (x1 + x2) / 2, tk_cy = (y1 + y2) / 2, tk_w = x2 - x1, tk_h = y2 - y1,
         tk_vx = 0, tk_vy = 0, tk_box = dt_box d, tk_hits = 1, tk_missed = 0, tk_confirmed = tp_min_hits p \<le> 1, tk_ts = Some ts\<rparr>)"

definition correct_track :: "tracker_params \<Rightarrow> vision_track \<Rightarrow> detection \<Rightarrow> time \<Rightarrow> vision_track" where
  "correct_track p t d ts =
     (case dt_box d of (x1, y1, x2, y2) \<Rightarrow>
        let dt = since_track t ts;
            mx = (x1 + x2) / 2; my = (y1 + y2) / 2;
            px = tk_cx t + tk_vx t * dt; py = tk_cy t + tk_vy t * dt;
            rx = mx - px; ry = my - py
        in t\<lparr>tk_cx := px + tp_alpha p * rx, tk_cy := py + tp_alpha p * ry,
             tk_vx := (if dt > 0 then tk_vx t + tp_beta p * rx / dt else tk_vx t),
             tk_vy := (if dt > 0 then tk_vy t + tp_beta p * ry / dt else tk_vy t),
             tk_w := x2 - x1, tk_h := y2 - y1, tk_box := dt_box d, tk_hits := tk_hits t + 1, tk_missed := 0, tk_ts := Some ts,
             tk_confirmed := (tk_confirmed t \<or> tk_hits t + 1 \<ge> tp_min_hits p)\<rparr>)"

definition coast :: "tracker_params \<Rightarrow> vision_track \<Rightarrow> vision_track" where
  "coast p t = t\<lparr>tk_missed := tk_missed t + 1, tk_vx := tk_vx t * tp_decay p, tk_vy := tk_vy t * tp_decay p\<rparr>"

text \<open>The track after the frame: corrected when it was matched, coasting when it was not, or dropped.\<close>

definition survivor :: "tracker_params \<Rightarrow> time \<Rightarrow> (vision_track \<times> detection) list \<Rightarrow> vision_track \<Rightarrow> vision_track list" where
  "survivor p ts matched t =
     (case List.find (\<lambda>(m, _). tk_num m = tk_num t) matched of
        Some (_, d) \<Rightarrow> [correct_track p t d ts]
      | None \<Rightarrow> let t = coast p t in if tk_confirmed t \<and> tk_missed t \<le> tp_max_missed p then [t] else [])"

fun new_tracks :: "tracker_params \<Rightarrow> time \<Rightarrow> nat \<Rightarrow> detection list \<Rightarrow> vision_track list" where
  "new_tracks p ts n [] = []"
| "new_tracks p ts n (d # ds) = new_track p n d ts # new_tracks p ts (n + 1) ds"

definition tracked :: "tracker_params \<Rightarrow> vision_track \<Rightarrow> detection \<Rightarrow> tracked_object" where
  "tracked p t d = \<lparr>to_id = track_id p (tk_num t), to_class = tk_class t, to_conf = dt_conf d, to_box = dt_box d\<rparr>"

definition matches :: "tracker_params \<Rightarrow> detection list \<Rightarrow> time \<Rightarrow> tracker_state \<Rightarrow> (vision_track \<times> detection) list \<times> detection list" where
  "matches p dets ts st =
     (let high = filter (\<lambda>d. dt_conf d \<ge> tp_high p) dets;
          low = filter (\<lambda>d. tp_low p \<le> dt_conf d \<and> dt_conf d < tp_high p) dets;
          (m1, left, unmatched_high) = associate p ts high (ts_tracks st);
          (m2, _, _) = associate p ts low (filter tk_confirmed left)
      in (m1 @ m2, unmatched_high))"

definition update :: "tracker_params \<Rightarrow> detection list \<Rightarrow> time \<Rightarrow> tracker_state \<Rightarrow> tracked_object list \<times> tracker_state" where
  "update p dets ts st =
     (let (matched, unmatched_high) = matches p dets ts st;
          out = map (\<lambda>(t, d). tracked p t d) (filter (\<lambda>(t, d). tk_confirmed (correct_track p t d ts)) matched)
      in (sort_key to_id out,
          \<lparr>ts_tracks = concat (map (survivor p ts matched) (ts_tracks st)) @ new_tracks p ts (ts_next st) unmatched_high,
           ts_next = ts_next st + length unmatched_high\<rparr>))"

fun track_frames :: "tracker_params \<Rightarrow> (detection list \<times> time) list \<Rightarrow> tracker_state \<Rightarrow> tracked_object list list \<times> tracker_state" where
  "track_frames p [] st = ([], st)"
| "track_frames p ((dets, ts) # fs) st =
     (let (out, st) = update p dets ts st; (outs, st) = track_frames p fs st in (out # outs, st))"

section \<open>Overlap is a proportion\<close>

definition box_ok :: "box \<Rightarrow> bool" where
  "box_ok b = (case b of (x1, y1, x2, y2) \<Rightarrow> x1 < x2 \<and> y1 < y2)"

definition area :: "box \<Rightarrow> real" where
  "area b = (case b of (x1, y1, x2, y2) \<Rightarrow> (x2 - x1) * (y2 - y1))"

lemma overlap_le:
  fixes a b c d :: real
  assumes "0 < w" "0 < h" "w \<le> a" "h \<le> b"
  shows "w * h \<le> a * b"
  using assms by (intro mult_mono) auto

lemma iou_cases:
  assumes "box_ok a" "box_ok b"
  shows "iou a b = 0 \<or> (\<exists>inter. 0 < inter \<and> inter \<le> area a \<and> inter \<le> area b \<and> iou a b = inter / (area a + area b - inter))"
proof -
  obtain a0 a1 a2 a3 b0 b1 b2 b3 where ab: "a = (a0, a1, a2, a3)" "b = (b0, b1, b2, b3)" by (cases a, cases b) auto
  let ?w = "min a2 b2 - max a0 b0" and ?h = "min a3 b3 - max a1 b1"
  show ?thesis
  proof (cases "?w \<le> 0 \<or> ?h \<le> 0")
    case True
    then show ?thesis by (simp add: iou_def ab)
  next
    case False
    then have pos: "0 < ?w" "0 < ?h" by auto
    have "?w * ?h \<le> area a" "?w * ?h \<le> area b" unfolding ab area_def prod.case by (rule overlap_le [OF pos]; simp)+
    moreover have "0 < ?w * ?h" using pos by simp
    ultimately show ?thesis using False by (intro disjI2 exI [of _ "?w * ?h"]) (simp add: iou_def ab area_def Let_def)
  qed
qed

text \<open>The overlap of two boxes is a proportion: between 0 and 1, the same both ways, and 1 of a box with itself.\<close>

theorem iou_is_a_proportion:
  assumes "box_ok a" "box_ok b"
  shows "0 \<le> iou a b \<and> iou a b \<le> 1 \<and> iou b a = iou a b \<and> iou a a = 1"
proof -
  have bounds: "0 \<le> iou a b \<and> iou a b \<le> 1"
    using iou_cases [OF assms]
  proof
    assume "\<exists>inter. 0 < inter \<and> inter \<le> area a \<and> inter \<le> area b \<and> iou a b = inter / (area a + area b - inter)"
    then obtain i where i: "0 < i" "i \<le> area a" "i \<le> area b" "iou a b = i / (area a + area b - i)" by blast
    then have "i \<le> area a + area b - i" "0 < area a + area b - i" by auto
    then show ?thesis using i(1) unfolding i(4) by simp
  qed simp
  obtain a0 a1 a2 a3 b0 b1 b2 b3 where ab: "a = (a0, a1, a2, a3)" "b = (b0, b1, b2, b3)" by (cases a, cases b) auto
  have "iou b a = iou a b" unfolding ab iou_def prod.case Let_def
    by (simp add: min.commute max.commute add.commute)
  moreover have "iou a a = 1" using assms(1) by (simp add: ab iou_def box_ok_def Let_def)
  ultimately show ?thesis using bounds by blast
qed

section \<open>Matching is one to one\<close>

lemma greedy_sub: "(ti, di) \<in> set (greedy fl ps ut ud) \<Longrightarrow> \<exists>s. (s, ti, di) \<in> set ps \<and> fl \<le> s"
  by (induction fl ps ut ud rule: greedy.induct) (auto split: if_splits)

lemma greedy_distinct:
  "distinct (map fst (greedy fl ps ut ud)) \<and> distinct (map snd (greedy fl ps ut ud)) \<and>
   fst ` set (greedy fl ps ut ud) \<inter> set ut = {} \<and> snd ` set (greedy fl ps ut ud) \<inter> set ud = {}"
  by (induction fl ps ut ud rule: greedy.induct) auto

lemma candidate_pairs_mem:
  "(s, ti, di) \<in> set (candidate_pairs ts dets tracks) \<Longrightarrow>
    ti < length tracks \<and> di < length dets \<and> tk_class (tracks ! ti) = dt_class (dets ! di) \<and> s = score ts (tracks ! ti) (dets ! di)"
  by (auto simp: candidate_pairs_def)

lemma mset_pick: "distinct is \<Longrightarrow> set is \<subseteq> {..<length xs} \<Longrightarrow> mset (map ((!) xs) is) \<subseteq># mset xs"
proof -
  assume d: "distinct is" "set is \<subseteq> {..<length xs}"
  have "mset is = mset_set (set is)" using d(1) by (simp add: mset_set_set)
  moreover have "mset_set (set is) \<subseteq># mset_set {..<length xs}" using d(2) by (simp add: subset_imp_msubset_mset_set)
  ultimately have "image_mset ((!) xs) (mset is) \<subseteq># image_mset ((!) xs) (mset_set {..<length xs})" by (simp add: image_mset_subseteq_mono)
  moreover have "image_mset ((!) xs) (mset_set {..<length xs}) = mset xs"
    by (metis map_nth mset_map mset_set_upto_eq_mset_upto)
  ultimately show ?thesis by simp
qed

lemma mset_without: "mset (without_indices is xs) \<subseteq># mset xs"
  unfolding without_indices_def by (rule mset_pick) auto

lemma set_without: "set (without_indices is xs) \<subseteq> set xs"
  by (auto simp: without_indices_def)

lemma mset_split:
  assumes "distinct is" "set is \<subseteq> {..<length xs}"
  shows "mset (map ((!) xs) is) + mset (without_indices is xs) = mset xs"
proof -
  let ?all = "[0..<length xs]"
  have "set (filter (\<lambda>i. i \<in> set is) ?all) = set is" using assms(2) by auto
  then have "mset is = mset (filter (\<lambda>i. i \<in> set is) ?all)"
    using mset_set_set [OF assms(1)] mset_set_set [of "filter (\<lambda>i. i \<in> set is) ?all"] by (metis distinct_filter distinct_upt)
  then have "mset (is @ filter (\<lambda>i. i \<notin> set is) ?all) = mset ?all"
    using multiset_partition [of "mset ?all" "\<lambda>i. i \<in> set is"] by (simp only: mset_filter mset_append)
  then have "mset (map ((!) xs) (is @ filter (\<lambda>i. i \<notin> set is) ?all)) = mset (map ((!) xs) ?all)" by (simp only: mset_map)
  then show ?thesis unfolding without_indices_def map_append mset_append map_nth .
qed

lemma associate_ok:
  assumes "associate p ts dets tracks = (ms, left, rest)"
  shows "\<forall>(t, d) \<in> set ms. t \<in> set tracks \<and> tk_class t = dt_class d"
    "mset (map fst ms) + mset left = mset tracks" "mset (map snd ms) + mset rest = mset dets"
proof -
  let ?g = "greedy (tp_iou p) (candidate_pairs ts dets tracks) [] []"
  have g: "ti < length tracks \<and> di < length dets \<and> tk_class (tracks ! ti) = dt_class (dets ! di)" if "(ti, di) \<in> set ?g" for ti di
    using greedy_sub [OF that] candidate_pairs_mem by blast
  have ms: "ms = map (\<lambda>(ti, di). (tracks ! ti, dets ! di)) ?g" and left: "left = without_indices (map fst ?g) tracks"
    and rest: "rest = without_indices (map snd ?g) dets"
    using assms by (simp_all add: associate_def Let_def)
  show "\<forall>(t, d) \<in> set ms. t \<in> set tracks \<and> tk_class t = dt_class d" using g unfolding ms by fastforce
  have "map fst ms = map ((!) tracks) (map fst ?g)" "map snd ms = map ((!) dets) (map snd ?g)" unfolding ms by auto
  moreover have "distinct (map fst ?g)" "distinct (map snd ?g)" using greedy_distinct by blast+
  moreover have "set (map fst ?g) \<subseteq> {..<length tracks}" "set (map snd ?g) \<subseteq> {..<length dets}" using g by auto
  ultimately show "mset (map fst ms) + mset left = mset tracks" "mset (map snd ms) + mset rest = mset dets"
    unfolding left rest by (simp_all only: mset_split)
qed

lemma distinct_sub: "mset xs \<subseteq># mset ys \<Longrightarrow> distinct ys \<Longrightarrow> distinct xs"
proof -
  assume sub: "mset xs \<subseteq># mset ys" and d: "distinct ys"
  have "count (mset xs) a \<le> 1" for a
  proof -
    have "count (mset xs) a \<le> count (mset ys) a" using sub by (simp add: mset_subset_eq_count)
    also have "\<dots> \<le> 1" using d by (simp add: distinct_count_atmost_1)
    finally show ?thesis .
  qed
  then have "count (mset xs) a = (if a \<in> set xs then 1 else 0)" for a
    using count_greater_zero_iff [of "mset xs" a] by (metis One_nat_def Suc_leI le_antisym count_mset_0_iff set_mset_mset)
  then show ?thesis by (simp add: distinct_count_atmost_1)
qed

lemma below_add_mset: "M \<subseteq># N \<Longrightarrow> M \<subseteq># add_mset a N"
  using subset_mset.order_trans [of M N "add_mset a N"] mset_subset_eq_add_left [of N "{#a#}"] by simp

lemma matches_ok:
  assumes "matches p dets ts st = (ms, fresh)"
  shows "\<forall>(t, d) \<in> set ms. t \<in> set (ts_tracks st) \<and> tk_class t = dt_class d"
    "mset (map fst ms) \<subseteq># mset (ts_tracks st)" "mset (map snd ms) + mset fresh \<subseteq># mset dets"
proof -
  let ?high = "filter (\<lambda>d. dt_conf d \<ge> tp_high p) dets"
  let ?low = "filter (\<lambda>d. tp_low p \<le> dt_conf d \<and> dt_conf d < tp_high p) dets"
  obtain m1 left where a1: "associate p ts ?high (ts_tracks st) = (m1, left, fresh)"
    and m: "\<exists>m2 l2 r2. associate p ts ?low (filter tk_confirmed left) = (m2, l2, r2) \<and> ms = m1 @ m2"
    using assms by (auto simp: matches_def Let_def split: prod.splits)
  then obtain m2 l2 r2 where a2: "associate p ts ?low (filter tk_confirmed left) = (m2, l2, r2)" and ms: "ms = m1 @ m2" by blast
  note o1 = associate_ok [OF a1] and o2 = associate_ok [OF a2]
  have "set left \<subseteq> set (ts_tracks st)" using o1(2) by (metis Un_upper2 set_mset_mset set_mset_union)
  then show "\<forall>(t, d) \<in> set ms. t \<in> set (ts_tracks st) \<and> tk_class t = dt_class d" using o1(1) o2(1) unfolding ms by fastforce
  have "mset (map fst m2) \<subseteq># mset (filter tk_confirmed left)" using o2(2) by (metis mset_subset_eq_add_left)
  also have "\<dots> \<subseteq># mset left" by (simp add: multiset_filter_subset)
  finally show "mset (map fst ms) \<subseteq># mset (ts_tracks st)" using o1(2) unfolding ms
    by (metis map_append mset_append mset_subset_eq_mono_add_left_cancel)
  have "mset (map snd m2) \<subseteq># mset ?low" using o2(3) by (metis mset_subset_eq_add_left)
  moreover have "mset ?high + mset ?low \<subseteq># mset dets"
    by (induction dets) (auto intro: below_add_mset)
  ultimately have "mset (map snd m1) + mset fresh + mset (map snd m2) \<subseteq># mset dets" unfolding o1(3)
    by (meson mset_subset_eq_mono_add_left_cancel subset_mset.order_trans)
  then show "mset (map snd ms) + mset fresh \<subseteq># mset dets" by (simp add: ms ac_simps)
qed

section \<open>Identity over time\<close>

definition tracker_ok :: "tracker_state \<Rightarrow> bool" where
  "tracker_ok st \<longleftrightarrow> distinct (map tk_num (ts_tracks st)) \<and> (\<forall>t \<in> set (ts_tracks st). tk_num t < ts_next st)"

definition as_detection :: "tracked_object \<Rightarrow> detection" where
  "as_detection o' = \<lparr>dt_class = to_class o', dt_conf = to_conf o', dt_box = to_box o'\<rparr>"

lemma track_id_inj: "track_id p m = track_id p n \<longleftrightarrow> m = n"
proof -
  have "inj show_nat" using digits_val_show_nat by (metis injI of_nat_eq_iff)
  then show ?thesis by (simp add: track_id_def inj_eq)
qed

lemma correct_keeps [simp]:
  "tk_num (correct_track p t d ts) = tk_num t" "tk_class (correct_track p t d ts) = tk_class t"
  by (simp_all add: correct_track_def Let_def split: prod.split)

lemma new_track_has [simp]: "tk_num (new_track p n d ts) = n" "tk_class (new_track p n d ts) = dt_class d"
  by (simp_all add: new_track_def split: prod.split)

lemma survivor_same: "t' \<in> set (survivor p ts ms t) \<Longrightarrow> tk_num t' = tk_num t \<and> tk_class t' = tk_class t"
  by (auto simp: survivor_def coast_def Let_def split: option.splits if_splits)

lemma survivor_length: "length (survivor p ts ms t) \<le> 1"
  by (auto simp: survivor_def Let_def split: option.splits)

lemma survivors_nums:
  assumes "distinct (map tk_num ts)"
  shows "distinct (map tk_num (concat (map (survivor p now ms) ts)))"
  using assms
proof (induction ts)
  case (Cons t ts)
  have "survivor p now ms t = [] \<or> (\<exists>t'. survivor p now ms t = [t'] \<and> tk_num t' = tk_num t)"
    using survivor_length [of p now ms t] survivor_same [of _ p now ms t] by (cases "survivor p now ms t") auto
  moreover have "tk_num t \<notin> tk_num ` set (concat (map (survivor p now ms) ts))"
    using Cons.prems survivor_same by fastforce
  ultimately show ?case using Cons by auto
qed simp

lemma new_tracks_nums: "map tk_num (new_tracks p ts n ds) = [n..<n + length ds]"
  by (induction ds arbitrary: n) (simp_all add: upt_conv_Cons del: upt_Suc)

lemma new_tracks_class: "t \<in> set (new_tracks p ts n ds) \<Longrightarrow> tk_num t \<ge> n"
  by (induction ds arbitrary: n) (auto dest: Suc_leD)

definition frame_ok :: "detection list \<times> time \<Rightarrow> tracked_object list \<Rightarrow> bool" where
  "frame_ok f out \<longleftrightarrow> distinct (map to_id out) \<and> mset (map as_detection out) \<subseteq># mset (fst f)"

lemma update_ok:
  assumes "tracker_ok st" "update p dets ts st = (out, st')"
  shows "tracker_ok st'" "ts_next st \<le> ts_next st'" "frame_ok (dets, ts) out"
    "\<forall>o' \<in> set out. \<exists>t \<in> set (ts_tracks st). to_id o' = track_id p (tk_num t) \<and> to_class o' = tk_class t"
    "\<forall>t' \<in> set (ts_tracks st'). (\<exists>t \<in> set (ts_tracks st). tk_num t' = tk_num t \<and> tk_class t' = tk_class t) \<or> ts_next st \<le> tk_num t'"
proof -
  obtain ms unmatched where m: "matches p dets ts st = (ms, unmatched)" by fastforce
  note mo = matches_ok [OF m]
  let ?seen = "filter (\<lambda>(t, d). tk_confirmed (correct_track p t d ts)) ms"
  have out: "out = sort_key to_id (map (\<lambda>(t, d). tracked p t d) ?seen)"
    and st': "st' = \<lparr>ts_tracks = concat (map (survivor p ts ms) (ts_tracks st)) @ new_tracks p ts (ts_next st) unmatched,
      ts_next = ts_next st + length unmatched\<rparr>"
    using assms(2) m by (auto simp: update_def Let_def)
  have old: "\<exists>t \<in> set (ts_tracks st). tk_num t' = tk_num t \<and> tk_class t' = tk_class t"
    if "t' \<in> set (concat (map (survivor p ts ms) (ts_tracks st)))" for t'
    using that survivor_same by fastforce
  have nums: "tk_num t < ts_next st" if "t \<in> set (ts_tracks st)" for t using assms(1) that by (simp add: tracker_ok_def)
  have fresh: "set (map tk_num (new_tracks p ts (ts_next st) unmatched)) = {ts_next st..<ts_next st + length unmatched}"
    unfolding new_tracks_nums by simp
  show "tracker_ok st'"
  proof -
    have "distinct (map tk_num (concat (map (survivor p ts ms) (ts_tracks st))))"
      by (rule survivors_nums) (use assms(1) in \<open>simp add: tracker_ok_def\<close>)
    moreover have "distinct (map tk_num (new_tracks p ts (ts_next st) unmatched))" unfolding new_tracks_nums by simp
    moreover have "tk_num t' < ts_next st" if "t' \<in> set (concat (map (survivor p ts ms) (ts_tracks st)))" for t'
      using old [OF that] nums by auto
    moreover have "tk_num t' < ts_next st + length unmatched" "ts_next st \<le> tk_num t'"
      if "t' \<in> set (new_tracks p ts (ts_next st) unmatched)" for t'
      using that fresh by auto
    ultimately show ?thesis unfolding tracker_ok_def st' by (fastforce simp: disjoint_iff)
  qed
  show "ts_next st \<le> ts_next st'" by (simp add: st')
  show "\<forall>o' \<in> set out. \<exists>t \<in> set (ts_tracks st). to_id o' = track_id p (tk_num t) \<and> to_class o' = tk_class t"
    using mo(1) by (fastforce simp: out tracked_def)
  show "\<forall>t' \<in> set (ts_tracks st'). (\<exists>t \<in> set (ts_tracks st). tk_num t' = tk_num t \<and> tk_class t' = tk_class t) \<or> ts_next st \<le> tk_num t'"
    using old new_tracks_class by (auto simp: st')
  show "frame_ok (dets, ts) out"
  proof -
    have "mset (map to_id out) = mset (map (\<lambda>t. track_id p (tk_num t)) (map fst ?seen))"
    proof -
      have "mset (map to_id out) = mset (map to_id (map (\<lambda>(t, d). tracked p t d) ?seen))"
        unfolding out by (simp only: mset_map mset_sort)
      also have "map to_id (map (\<lambda>(t, d). tracked p t d) ?seen) = map (\<lambda>t. track_id p (tk_num t)) (map fst ?seen)"
        by (auto simp: tracked_def)
      finally show ?thesis .
    qed
    also have "\<dots> \<subseteq># mset (map (\<lambda>t. track_id p (tk_num t)) (map fst ms))"
      unfolding mset_map by (intro image_mset_subseteq_mono) (simp add: multiset_filter_subset)
    also have "\<dots> \<subseteq># mset (map (\<lambda>t. track_id p (tk_num t)) (ts_tracks st))"
      using mo(2) unfolding mset_map by (intro image_mset_subseteq_mono) simp
    finally have "distinct (map to_id out)"
      by (rule distinct_sub) (use assms(1) in \<open>auto simp: tracker_ok_def distinct_map track_id_inj inj_on_def\<close>)
    moreover have "mset (map as_detection out) = mset (map snd ?seen)"
    proof -
      have "mset (map as_detection out) = mset (map as_detection (map (\<lambda>(t, d). tracked p t d) ?seen))"
        unfolding out by (simp only: mset_map mset_sort)
      also have "map as_detection (map (\<lambda>(t, d). tracked p t d) ?seen) = map snd ?seen"
        using mo(1) by (auto simp: as_detection_def tracked_def)
      finally show ?thesis .
    qed
    moreover have "mset (map snd ?seen) \<subseteq># mset (map snd ms)"
      unfolding mset_map by (intro image_mset_subseteq_mono) (simp add: multiset_filter_subset)
    moreover have "mset (map snd ms) \<subseteq># mset dets" using mo(3) by (metis mset_subset_eq_add_left subset_mset.order_trans)
    ultimately show ?thesis unfolding frame_ok_def fst_conv by (metis subset_mset.order_trans)
  qed
qed

lemma frames_ok:
  assumes "tracker_ok st" "\<forall>t \<in> set (ts_tracks st). tk_class t = cl (tk_num t)"
  shows "list_all2 frame_ok fs (fst (track_frames p fs st)) \<and>
    (\<exists>cl'. (\<forall>n < ts_next st. cl' n = cl n) \<and>
       (\<forall>o' \<in> set (concat (fst (track_frames p fs st))). \<exists>n. to_id o' = track_id p n \<and> to_class o' = cl' n))"
  using assms
proof (induction fs arbitrary: st cl)
  case (Cons f fs)
  obtain dets ts where f: "f = (dets, ts)" by (cases f)
  obtain out st' where u: "update p dets ts st = (out, st')" by fastforce
  note o = update_ok [OF Cons.prems(1) u]
  define cl1 where "cl1 n = (if n < ts_next st then cl n else (SOME c. \<exists>t \<in> set (ts_tracks st'). tk_num t = n \<and> tk_class t = c))" for n
  have cl1: "tk_class t' = cl1 (tk_num t')" if t': "t' \<in> set (ts_tracks st')" for t'
  proof (cases "tk_num t' < ts_next st")
    case True
    then obtain t where "t \<in> set (ts_tracks st)" "tk_num t' = tk_num t" "tk_class t' = tk_class t" using o(5) t' by fastforce
    then show ?thesis using True Cons.prems(2) by (simp add: cl1_def)
  next
    case False
    have "\<exists>t \<in> set (ts_tracks st'). tk_num t = tk_num t' \<and> tk_class t = (SOME c. \<exists>t \<in> set (ts_tracks st'). tk_num t = tk_num t' \<and> tk_class t = c)"
      by (rule someI [where x = "tk_class t'"]) (use t' in blast)
    then obtain t where "t \<in> set (ts_tracks st')" "tk_num t = tk_num t'" "tk_class t = cl1 (tk_num t')" using False by (auto simp: cl1_def)
    moreover from this have "t = t'" using o(1) t' by (auto simp: tracker_ok_def distinct_map dest: inj_onD)
    ultimately show ?thesis by simp
  qed
  from Cons.IH [OF o(1), of cl1] cl1 obtain cl' where ih: "list_all2 frame_ok fs (fst (track_frames p fs st'))"
    "\<forall>n < ts_next st'. cl' n = cl1 n"
    "\<forall>o' \<in> set (concat (fst (track_frames p fs st'))). \<exists>n. to_id o' = track_id p n \<and> to_class o' = cl' n"
    by blast
  have low: "cl' n = cl n" if "n < ts_next st" for n using ih(2) o(2) that by (simp add: cl1_def)
  have "\<exists>n. to_id o' = track_id p n \<and> to_class o' = cl' n" if o': "o' \<in> set out" for o'
  proof -
    obtain t where t: "t \<in> set (ts_tracks st)" "to_id o' = track_id p (tk_num t)" "to_class o' = tk_class t" using o(4) o' by blast
    then have "tk_class t = cl' (tk_num t)" using low Cons.prems by (simp add: tracker_ok_def)
    then show ?thesis using t by metis
  qed
  moreover have "fst (track_frames p (f # fs) st) = out # fst (track_frames p fs st')" by (simp add: f u split_beta)
  ultimately show ?case using ih(1,3) o(3) low f by (intro conjI exI [of _ cl']) auto
qed auto

text \<open>C19: the tracker gives identity over time: in every frame the objects it reports have different ids and
  each is a different detection of that frame, and whatever is detected in whatever order, an id is
  never given to objects of two classes.\<close>

theorem tracks_keep_their_identity:
  "\<exists>class_of. list_all2 (\<lambda>(dets, _) out. distinct (map to_id out) \<and> mset (map as_detection out) \<subseteq># mset dets)
      frames (fst (track_frames p frames fresh_tracker)) \<and>
    list_all (\<lambda>o'. to_class o' = class_of (to_id o')) (concat (fst (track_frames p frames fresh_tracker)))"
proof -
  have "tracker_ok fresh_tracker" by (simp add: tracker_ok_def fresh_tracker_def)
  from frames_ok [OF this, of "\<lambda>_. []" frames p] obtain cl where
    ok: "list_all2 frame_ok frames (fst (track_frames p frames fresh_tracker))" and
    cl: "\<forall>o' \<in> set (concat (fst (track_frames p frames fresh_tracker))). \<exists>n. to_id o' = track_id p n \<and> to_class o' = cl n"
    by (auto simp: fresh_tracker_def)
  have "to_class o' = cl (THE n. to_id o' = track_id p n)" if o': "o' \<in> set (concat (fst (track_frames p frames fresh_tracker)))" for o'
    
  proof -
    obtain n where n: "to_id o' = track_id p n" "to_class o' = cl n" using cl o' by blast
    then have "(THE n. to_id o' = track_id p n) = n" by (auto simp: track_id_inj)
    then show ?thesis using n by simp
  qed
  then have "list_all (\<lambda>o'. to_class o' = (\<lambda>i. cl (THE n. i = track_id p n)) (to_id o')) (concat (fst (track_frames p frames fresh_tracker)))"
    unfolding list_all_iff by blast
  moreover have "list_all2 (\<lambda>(dets, _) out. distinct (map to_id out) \<and> mset (map as_detection out) \<subseteq># mset dets)
      frames (fst (track_frames p frames fresh_tracker))"
    using ok by (rule list_all2_mono) (auto simp: frame_ok_def)
  ultimately show ?thesis by (intro exI [of _ "\<lambda>i. cl (THE n. i = track_id p n)"] conjI)
qed

theorem iou_is_a_proportion_witness:
  "0 \<le> iou (0, 0, 1, 1) (1 / 2, 0, 2, 1) \<and> iou (0, 0, 1, 1) (1 / 2, 0, 2, 1) \<le> 1 \<and>
   iou (1 / 2, 0, 2, 1) (0, 0, 1, 1) = iou (0, 0, 1, 1) (1 / 2, 0, 2, 1) \<and> iou (0, 0, 1, 1) (0, 0, 1, 1) = 1"
  by (rule iou_is_a_proportion) (simp_all add: box_ok_def)

end
