(* ===== verification/Spec2Isabelle.thy ===== *)
theory Spec2Isabelle
  imports Coverage Outages Delivery Teltonika Notifications SourceHealth Incidents Tick GatePoller ShiftReports Retention Dispatch Temporal Tracker
begin

text \<open>
  \<^bold>\<open>Mine Monitor: a verification development.\<close>

  The program (\<^verbatim>\<open>src/src/minemonitor\<close>) watches the machines, gates and cameras of a mine. Trackers
  publish position fixes through a store-and-forward publisher and an MQTT broker; the ingestor stores each
  fix once and runs the live rules on it; a maintenance tick raises the alarms that depend on time
  passing, polls the gate, rebuilds haul cycles and metrics from the stored fixes, queues shift reports, sends
  what is queued and deletes what is old; operators read the result and run incidents, dispatch, maintenance
  and the breach register behind HTTP Basic authentication. All state is in one database, here a record of
  tables (\<^typ>\<open>db\<close> and its extensions, one for each group of tables); each handler is a function from the
  tables to the tables, with exceptions as the \<^const>\<open>Inl\<close> of a sum.

  \<^bold>\<open>Theories and what they model.\<close>

  \<^descr>[Prelude, Bytes] time, errors, JSON values, Python's string and list operations, and the locales the
    components share: \<open>machine\<close> (what a step keeps a run keeps), \<open>latch\<close> (an alarm that fires once
    per episode), \<open>custody\<close> (a hand-over that loses nothing over a step relation); byte strings.
  \<^descr>[ZoneGeometry, RuleConfig, ZoneEngine] \<^verbatim>\<open>zones/geometry.py\<close>, \<^verbatim>\<open>rules/config.py\<close>, \<^verbatim>\<open>zones/engine.py\<close>:
    point in polygon and distance over the unvalidated JSON of a zone row, the coercions of a zone's rules, the
    entry and exit debounce machine.
  \<^descr>[Store] the rows of \<^verbatim>\<open>storage/models.py\<close> the live path uses, and the repositories
    (\<^verbatim>\<open>storage/repositories.py\<close>, \<^verbatim>\<open>events/repository.py\<close>, \<^verbatim>\<open>zones/repository.py\<close>, \<^verbatim>\<open>notifications/outbox.py\<close>).
  \<^descr>[RuleEval, Pipeline] \<^verbatim>\<open>rules/evaluate.py\<close>, \<^verbatim>\<open>pipeline.py\<close>: what one new fix does to every zone of
    its site, exceptions included.
  \<^descr>[PeriodicRules, Outages] \<^verbatim>\<open>rules/offline.py\<close>, \<^verbatim>\<open>rules/occupancy.py\<close>, \<^verbatim>\<open>zones/occupancy.py\<close>; the
    offline check beside retention, new fixes, other alarms and acknowledgements.
  \<^descr>[Geo, Cycles, Metrics, Recompute, Coverage] \<^verbatim>\<open>ingest/geo.py\<close> and \<^verbatim>\<open>cycles/\<close>: haul cycles and metric
    buckets from a track, their incremental and on-demand rebuild, and the rebuild beside the stores of new
    fixes.
  \<^descr>[Spool, Ingest, Delivery] \<^verbatim>\<open>ingest/spool.py\<close>, \<^verbatim>\<open>ingest/mqtt.py\<close>, \<^verbatim>\<open>ingest/service.py\<close>, \<^verbatim>\<open>ingest/authz.py\<close>,
    \<^verbatim>\<open>api/routers/ingest.py\<close>: the publisher, the ingestor and the two of them with a broker between.
  \<^descr>[Teltonika] \<^verbatim>\<open>ingest/adapters/teltonika.py\<close>: the TCP protocol of the trackers, its checksum, decoder and
    acknowledgements, over any sink of positions (locale \<open>position_sink\<close>, interpreted on the spool).
  \<^descr>[Auth, Devices] \<^verbatim>\<open>auth/\<close>, \<^verbatim>\<open>devices/\<close>: login, lockout, roles, device provisioning.
  \<^descr>[RetryQueue, Notifications, ShiftReports] \<^verbatim>\<open>notifications/dispatch.py\<close>, \<^verbatim>\<open>operations/shift_reports.py\<close>:
    the two outbound queues; their common laws are the locale \<open>retry_queue\<close>.
  \<^descr>[Tick] \<^verbatim>\<open>ingest/tick.py\<close>, \<^verbatim>\<open>heartbeat.py\<close>, \<^verbatim>\<open>healthcheck.py\<close>: the plan of a tick and the isolation of its steps.
  \<^descr>[SourceHealth, Access, GatePoller] \<^verbatim>\<open>ingest/source_health.py\<close>, \<^verbatim>\<open>access/service.py\<close>,
    \<^verbatim>\<open>ingest/adapters/dahua_gate.py\<close>, \<^verbatim>\<open>ingest/adapters/access_sim.py\<close>: outages of a feed, gate passages, their
    poll.
  \<^descr>[Shifts, Operations] \<^verbatim>\<open>operations/\<close>: shifts and their ids, delays, handovers, scorecards,
    trends, the state of equipment, exceptions, data quality.
  \<^descr>[Incidents] \<^verbatim>\<open>operations/incidents.py\<close>, \<^verbatim>\<open>api/routers/incidents.py\<close>: the lifecycle under interleaved requests.
  \<^descr>[Breaches] \<^verbatim>\<open>breaches/service.py\<close>: the notice deadlines of personal-data breaches.
  \<^descr>[Maintenance, Retention] \<^verbatim>\<open>maintenance/service.py\<close>, \<^verbatim>\<open>generator/service.py\<close>,
    \<^verbatim>\<open>ingest/adapters/dse_sim.py\<close>, \<^verbatim>\<open>retention.py\<close>: work orders, component health, generator readings, deletion.
  \<^descr>[Dispatch] \<^verbatim>\<open>dispatch/service.py\<close>, \<^verbatim>\<open>api/routers/dispatch.py\<close>: jobs, recommendations, approvals.
  \<^descr>[Temporal, Tracker] \<^verbatim>\<open>vision/temporal.py\<close>, \<^verbatim>\<open>vision/geometry.py\<close>, \<^verbatim>\<open>vision/tracker.py\<close>: the rules over the
    observations of a camera, and the tracks they are about.

  \<^bold>\<open>What is shown.\<close>

  \<^item> Positions: none handed to the publisher is lost, duplicated or invented on the way to the store, across
    crashes and outages; an acknowledged message is stored or refused for a cause of its own; a stored fix is
    read by the next refresh of its asset; a tracker's upload arrives whole, and a damaged frame is refused.
  \<^item> Alarms: breach alarms are the confirmed unauthorised entries of the debounce machine; overspeed, dwell, and
    offline alarms fire once per episode and exactly when due; a site whose rules and geometries can be
    read never raises; one fix changes the rows of its alarms and their notifications and nothing else; gate
    passages are found after outages and unauthorised ones alarmed; breach deadlines are alarmed;
    vision alarms rest on a streak of sightings. Alerts and reports are sent, and a bounded number of times.
  \<^item> Cycles: the segments of a cycle add up to it, cycles never overlap, neither in a run nor
    in the table after any rebuild; a refresh leaves nothing to do; an on-demand rebuild ends.
  \<^item> Operations: the incident timeline is the history, scorecards of successive shifts add up, no truck is promised
    twice, completed services are final, retention keeps live work, references and health.
  \<^item> Access: a login needs the current password, guessing is bounded, a device is held to its asset.

  Some lemmas show where the code does not do what it means to: a zone whose rules or geometry cannot be read mutes
  its site, an on-demand rebuild skips fixes no refresh has read, a gate with a slow clock hides passages, a
  registration lookup that fails is not retried, a long outage alarms again when events are kept for less time
  than positions. They stand beside the property whose hypothesis they explain.

  \<^bold>\<open>Conventions and bounds.\<close> Instants are integer microseconds in UTC; a Python float is a real
  number (no rounding, NaN or infinity); SQL is read as its meaning over lists, with ties of
  an ORDER BY in insertion order. Loops of the source are structural recursion on the rows,
  fixes or attempts they consume. Two take a bound: the slices of \<^const>\<open>recompute_asset\<close> (the length
  of the track in microseconds, shown to be enough), and the retry loops, which run over the
  list of what the database does on each attempt. The time zone database is a parameter; what is said of
  instants of shifts holds for zones with a fixed offset from UTC.

  \<^bold>\<open>Not modelled.\<close> Sockets, threads and sleeping; row and advisory locks (each component is modelled
  as the lock makes it: one writer at a time); logging and process metrics; reading JSON text
  (pydantic), PBKDF2, HMAC and SHA-256, which are parameters; the rendering of numbers in the summary
  of an alarm; the services of weighbridge, fuel, laboratory and reconciliation, the camera and vision services, the
  video pipeline of the edge node, the simulators and deployment tests, the routers around modelled
  services (parsing, audit rows, JSON) and the dashboard, as listed in the manifest.
\<close>

end
